(* ===== verification/Prelude.thy ===== *)
theory Prelude
  imports Main "HOL-Library.Word"
begin

unbundle bit_operations_syntax

section \<open>Prelude: types, bytes, errors\<close>

text \<open>
  The types and generic facts the component theories share: machine words by their C names,
  the sequencing of fallible computations (\<open>bindE\<close>, an exception or an early return being
  \<open>Inl\<close>), and little-endian byte strings of fixed width, which are what the code's raw
  reads and writes of integers produce on the little-endian hosts it is built for.
\<close>

type_synonym byte = "8 word"
type_synonym u16 = "16 word"
type_synonym u32 = "32 word"
type_synonym u64 = "64 word"
type_synonym bytes = "byte list"

named_theorems codec_simps \<open>length and evaluation facts of the byte encoders\<close>

subsection \<open>Fallible computations\<close>

definition bindE :: "'e + 'a \<Rightarrow> ('a \<Rightarrow> 'e + 'b) \<Rightarrow> 'e + 'b" where
  "bindE m f = (case m of Inl e \<Rightarrow> Inl e | Inr x \<Rightarrow> f x)"

lemma bindE_simps [simp]:
  "bindE (Inl e) f = Inl e"
  "bindE (Inr x) f = f x"
  by (simp_all add: bindE_def)

lemma bindE_Inr_conv: "bindE m f = Inr y \<longleftrightarrow> (\<exists>x. m = Inr x \<and> f x = Inr y)"
  by (cases m) auto

lemma bindE_assoc: "bindE (bindE m f) g = bindE m (\<lambda>x. bindE (f x) g)"
  by (cases m) auto

definition isOk :: "'e + 'a \<Rightarrow> bool" where
  "isOk m \<longleftrightarrow> (case m of Inl _ \<Rightarrow> False | Inr _ \<Rightarrow> True)"

lemma isOk_simps [simp]: "\<not> isOk (Inl e)" "isOk (Inr x)"
  by (simp_all add: isOk_def)

subsection \<open>Little-endian byte strings\<close>

fun le_enc :: "nat \<Rightarrow> nat \<Rightarrow> bytes" where
  "le_enc 0 n = []"
| "le_enc (Suc k) n = word_of_nat n # le_enc k (n div 256)"

fun le_dec :: "bytes \<Rightarrow> nat" where
  "le_dec [] = 0"
| "le_dec (b # bs) = unat b + 256 * le_dec bs"

lemma length_le_enc [simp, codec_simps]: "length (le_enc k n) = k"
  by (induction k arbitrary: n) auto

lemma unat_byte_less [simp]: "unat (b :: byte) < 256"
  using unsigned_less [of b] by simp

lemma unat_word_of_nat_byte [simp]: "unat (word_of_nat n :: byte) = n mod 256"
  by (simp add: unat_of_nat)

lemma le_dec_bound: "le_dec bs < 256 ^ length bs"
proof (induction bs)
  case (Cons b bs)
  have b: "unat b < 256" by simp
  have "le_dec bs + 1 \<le> 256 ^ length bs" using Cons.IH by simp
  then have "256 * (le_dec bs + 1) \<le> 256 * 256 ^ length bs" by (rule mult_le_mono2)
  moreover have "x < 256 \<Longrightarrow> 256 * (d + 1) \<le> p \<Longrightarrow> x + 256 * d < p" for x d p :: nat
    by presburger
  ultimately show ?case using b by (simp only: le_dec.simps list.size power_Suc One_nat_def
      add_Suc_right add_0_right)
qed simp

lemma le_dec_enc: "le_dec (le_enc k n) = n mod 256 ^ k"
proof (induction k arbitrary: n)
  case (Suc k)
  have "n mod (256 * 256 ^ k) = 256 * (n div 256 mod 256 ^ k) + n mod 256"
    by (simp add: mod_mult2_eq)
  then show ?case using Suc.IH by simp
qed simp

lemma le_dec_enc_id [simp]: "n < 256 ^ k \<Longrightarrow> le_dec (le_enc k n) = n"
  by (simp add: le_dec_enc)

lemma le_enc_dec [simp]: "le_enc (length bs) (le_dec bs) = bs"
proof (induction bs)
  case (Cons b bs)
  have lt: "unat b < 256" by simp
  then have "(unat b + 256 * le_dec bs) div 256 = le_dec bs"
    by simp
  moreover have "word_of_nat (unat b + 256 * le_dec bs) = b"
  proof -
    have "unat (word_of_nat (unat b + 256 * le_dec bs) :: byte) = unat b"
      using lt by (simp only: unat_word_of_nat_byte) simp
    then show ?thesis by (simp only: word_unat_eq_iff)
  qed
  ultimately show ?case using Cons.IH by simp
qed simp

lemma le_enc_inj: "m < 256 ^ k \<Longrightarrow> n < 256 ^ k \<Longrightarrow> le_enc k m = le_enc k n \<Longrightarrow> m = n"
  by (metis le_dec_enc_id)

lemma le_dec_append: "le_dec (xs @ ys) = le_dec xs + 256 ^ length xs * le_dec ys"
  by (induction xs) (auto simp: algebra_simps)

lemma le_enc_mod [simp]: "le_enc k (n mod 256 ^ k) = le_enc k n"
  by (metis le_dec_enc le_enc_dec length_le_enc)

lemma take_append_length [simp]: "length xs = n \<Longrightarrow> take n (xs @ ys) = xs"
  by simp

lemma digit_less: "x < B \<Longrightarrow> v < p \<Longrightarrow> x + B * v < B * p" for x v p B :: nat
proof -
  assume x: "x < B" and v: "v < p"
  have "B * Suc v \<le> B * p" using v by (intro mult_le_mono2) simp
  then show ?thesis using x by simp
qed

lemma digit_eq:
  "x < B \<Longrightarrow> y < B \<Longrightarrow> x + B * u = y + B * v \<longleftrightarrow> x = y \<and> u = v" for x y u v B :: nat
proof
  assume x: "x < B" and y: "y < B" and eq: "x + B * u = y + B * v"
  have "(x + B * u) mod B = (y + B * v) mod B" "(x + B * u) div B = (y + B * v) div B"
    using eq by simp_all
  then show "x = y \<and> u = v" using x y by simp
qed simp

subsection \<open>Unsigned and signed integers of the C types\<close>

text \<open>
  A signed C integer of \<open>w\<close> bits is an \<open>int\<close> in range; \<open>wrap_s w\<close> is the
  two's-complement conversion to it that a narrowing assignment or an overflowing
  addition performs on the hosts the code is built for, \<open>to_u w\<close> the conversion to
  the unsigned type of the same width.
\<close>

definition wrap_s :: "nat \<Rightarrow> int \<Rightarrow> int" where
  "wrap_s w x = (x + 2 ^ (w - 1)) mod 2 ^ w - 2 ^ (w - 1)"

definition to_u :: "nat \<Rightarrow> int \<Rightarrow> nat" where
  "to_u w x = nat (x mod 2 ^ w)"

definition in_s :: "nat \<Rightarrow> int \<Rightarrow> bool" where
  "in_s w x \<longleftrightarrow> - (2 ^ (w - 1)) \<le> x \<and> x < 2 ^ (w - 1)"

lemma wrap_s_id: "0 < w \<Longrightarrow> in_s w x \<Longrightarrow> wrap_s w x = x"
  by (cases w) (simp_all add: wrap_s_def in_s_def mod_pos_pos_trivial)

lemma wrap_s_in_s: "0 < w \<Longrightarrow> in_s w (wrap_s w x)"
proof -
  assume w: "0 < w"
  have p: "(2::int) ^ w = 2 * 2 ^ (w - 1)" using w by (cases w) auto
  have a: "0 \<le> (x + 2 ^ (w - 1)) mod 2 ^ w" by simp
  have b: "(x + 2 ^ (w - 1)) mod 2 ^ w < 2 ^ w" by simp
  show ?thesis unfolding wrap_s_def in_s_def using a b p by linarith
qed

lemma to_u_less: "to_u w x < 2 ^ w"
proof -
  have "nat (x mod 2 ^ w) < nat (2 ^ w)"
    by (rule nat_less_iff [THEN iffD2]) (simp_all add: nat_power_eq)
  then show ?thesis by (simp add: to_u_def nat_power_eq)
qed

lemma wrap_s_to_u: "0 < w \<Longrightarrow> in_s w x \<Longrightarrow> wrap_s w (int (to_u w x)) = x"
proof -
  assume w: "0 < w" and x: "in_s w x"
  have "wrap_s w (int (to_u w x)) = (x mod 2 ^ w + 2 ^ (w - 1)) mod 2 ^ w - 2 ^ (w - 1)"
    by (simp add: wrap_s_def to_u_def)
  also have "\<dots> = wrap_s w x"
    by (simp add: wrap_s_def mod_add_left_eq)
  finally show ?thesis using wrap_s_id [OF w x] by simp
qed

subsection \<open>The low seven bits and the top bit of a byte\<close>

lemma byte_and_7F: "uint ((b :: byte) AND 0x7F) = uint b mod 128"
proof -
  have "(0x7F :: byte) = mask 7" by (simp add: mask_eq_exp_minus_1)
  then have "b AND 0x7F = take_bit 7 b" by (simp only: take_bit_eq_mask)
  then have "uint (b AND 0x7F) = take_bit 7 (uint b)" by (simp only: unsigned_take_bit_eq)
  then show ?thesis by (simp add: take_bit_eq_mod)
qed

lemma byte_and_80: "(b :: byte) AND 0x80 = 0 \<longleftrightarrow> uint b < 128"
proof -
  have "b AND 2 ^ 7 = 0 \<longleftrightarrow> \<not> bit b 7"
    by (rule and_exp_eq_0_iff_not_bit)
  moreover have "bit b 7 \<longleftrightarrow> bit (uint b) 7"
    by (simp only: bit_uint_iff) simp
  moreover have "bit (uint b) 7 \<longleftrightarrow> odd (uint b div 128)"
    by (simp add: bit_iff_odd)
  moreover have "uint b < 256" using uint_bounded [of b] by simp
  moreover have "0 \<le> uint b" by simp
  ultimately show ?thesis by (simp, presburger)
qed

lemma byte_or_80: "0 \<le> x \<Longrightarrow> x < 128 \<Longrightarrow> uint (word_of_int x OR 0x80 :: byte) = x + 128"
proof -
  assume x: "0 \<le> x" "x < 128"
  have "word_of_int x AND (0x80 :: byte) = 0"
    using x by (subst byte_and_80) (simp add: uint_word_of_int)
  then have "word_of_int x OR (0x80 :: byte) = word_of_int x + 0x80"
    using word_plus_and_or [of "word_of_int x" "0x80 :: byte"] by simp
  then show ?thesis using x by (simp add: uint_word_ariths uint_word_of_int)
qed

subsection \<open>Vectors\<close>

text \<open>\<open>std::vector::resize\<close>, new elements being \<open>x\<close>.\<close>

definition resize :: "'a list \<Rightarrow> nat \<Rightarrow> 'a \<Rightarrow> 'a list" where
  "resize xs n x = (if n \<le> length xs then take n xs else xs @ replicate (n - length xs) x)"

lemma length_resize [simp]: "length (resize xs n x) = n"
  by (simp add: resize_def)

lemma nth_resize: "i < n \<Longrightarrow> resize xs n x ! i = (if i < length xs then xs ! i else x)"
  by (auto simp: resize_def nth_append)

end
