(* ===== verification/Serialize.thy ===== *)
theory Serialize
  imports Prelude
begin

section \<open>Serialization templates (serialize.h, streams.h)\<close>

text \<open>
  The byte-level formats every other component stores and sends: raw little-endian integers
  (\<open>WRITEDATA\<close>/\<open>READDATA\<close>), the compact size, the variable-length integer, strings,
  vectors, pairs, maps and sets. A writer is a function to bytes; a reader takes the bytes
  still to be read and returns the value with the rest, or the exception the code throws. The
  stream class \<open>CDataStream\<close> itself is modelled with its read position, and its read refines
  reading from a plain byte list.

  An unsigned C integer is a \<open>nat\<close>, a signed one an \<open>int\<close>; the widths are written
  where the code converts.
\<close>

datatype ser_error =
    EndOfData        \<comment> \<open>\<open>CDataStream::read() : end of data\<close>\<close>
  | NonCanonical     \<comment> \<open>\<open>non-canonical ReadCompactSize()\<close>\<close>
  | SizeTooLarge     \<comment> \<open>\<open>ReadCompactSize() : size too large\<close>\<close>
  | StringLimit      \<comment> \<open>\<open>String length limit exceeded\<close>\<close>

type_synonym 'a reader = "bytes \<Rightarrow> ser_error + 'a \<times> bytes"

definition MAX_SIZE :: nat where
  "MAX_SIZE = 0x02000000"

subsection \<open>Raw integers\<close>

definition WRITEDATA :: "nat \<Rightarrow> nat \<Rightarrow> bytes" where
  "WRITEDATA k n = le_enc k n"

definition read_bytes :: "nat \<Rightarrow> bytes reader" where
  "read_bytes k bs = (if length bs < k then Inl EndOfData else Inr (take k bs, drop k bs))"

definition READDATA :: "nat \<Rightarrow> nat reader" where
  "READDATA k bs = bindE (read_bytes k bs) (\<lambda>(d, r). Inr (le_dec d, r))"

definition Serialize_int :: "nat \<Rightarrow> int \<Rightarrow> bytes" where
  "Serialize_int k x = WRITEDATA k (to_u (8 * k) x)"

definition Unserialize_int :: "nat \<Rightarrow> int reader" where
  "Unserialize_int k bs = bindE (READDATA k bs) (\<lambda>(n, r). Inr (wrap_s (8 * k) (int n), r))"

definition Serialize_bool :: "bool \<Rightarrow> bytes" where
  "Serialize_bool a = WRITEDATA 1 (if a then 1 else 0)"

definition Unserialize_bool :: "bool reader" where
  "Unserialize_bool bs = bindE (READDATA 1 bs) (\<lambda>(f, r). Inr (f \<noteq> 0, r))"

subsection \<open>Compact size\<close>

definition GetSizeOfCompactSize :: "nat \<Rightarrow> nat" where
  "GetSizeOfCompactSize nSize =
     (if nSize < 253 then 1
      else if nSize \<le> 0xFFFF then 1 + 2
      else if nSize \<le> 0xFFFFFFFF then 1 + 4
      else 1 + 8)"

definition WriteCompactSize :: "nat \<Rightarrow> bytes" where
  "WriteCompactSize nSize =
     (if nSize < 253 then WRITEDATA 1 nSize
      else if nSize \<le> 0xFFFF then WRITEDATA 1 253 @ WRITEDATA 2 nSize
      else if nSize \<le> 0xFFFFFFFF then WRITEDATA 1 254 @ WRITEDATA 4 nSize
      else WRITEDATA 1 255 @ WRITEDATA 8 nSize)"

definition ReadCompactSize :: "nat reader" where
  "ReadCompactSize bs =
     bindE (READDATA 1 bs) (\<lambda>(chSize, r1).
     bindE (if chSize < 253 then Inr (chSize, r1)
            else if chSize = 253 then
              bindE (READDATA 2 r1) (\<lambda>(nSizeRet, r2).
                if nSizeRet < 253 then Inl NonCanonical else Inr (nSizeRet, r2))
            else if chSize = 254 then
              bindE (READDATA 4 r1) (\<lambda>(nSizeRet, r2).
                if nSizeRet < 0x10000 then Inl NonCanonical else Inr (nSizeRet, r2))
            else
              bindE (READDATA 8 r1) (\<lambda>(nSizeRet, r2).
                if nSizeRet < 0x100000000 then Inl NonCanonical else Inr (nSizeRet, r2)))
     (\<lambda>(nSizeRet, r).
        if nSizeRet > MAX_SIZE then Inl SizeTooLarge else Inr (nSizeRet, r)))"

subsection \<open>Variable-length integers\<close>

text \<open>
  The templates are instantiated at signed and unsigned types. The value is an \<open>int\<close>;
  \<open>conv\<close> is the conversion to the type \<open>I\<close> the reader assigns to
  (\<open>\<lambda>x. x mod 2 ^ w\<close> for an unsigned type, \<open>wrap_s w\<close> for a signed one).
\<close>

function varint_tmp :: "bool \<Rightarrow> int \<Rightarrow> bytes" where
  "varint_tmp len n =
     (word_of_int (n AND 0x7F) OR (if len then 0x80 else 0x00)) #
     (if n \<le> 0x7F then [] else varint_tmp True (drop_bit 7 n - 1))"
  by pat_completeness auto
termination
proof (relation "measure (\<lambda>(len, n). nat n)", goal_cases)
  case (2 len n)
  then have "drop_bit 7 n - 1 < n" and "0 < n"
    by (auto simp: drop_bit_eq_div)
  then show ?case by simp
qed simp

declare varint_tmp.simps [simp del]

definition WriteVarInt :: "int \<Rightarrow> bytes" where
  "WriteVarInt n = rev (varint_tmp False n)"

function GetSizeOfVarInt :: "int \<Rightarrow> nat" where
  "GetSizeOfVarInt n = (if n \<le> 0x7F then 1 else Suc (GetSizeOfVarInt (drop_bit 7 n - 1)))"
  by pat_completeness auto
termination
proof (relation "measure nat", goal_cases)
  case (2 n)
  then have "drop_bit 7 n - 1 < n" and "0 < n"
    by (auto simp: drop_bit_eq_div)
  then show ?case by simp
qed simp

declare GetSizeOfVarInt.simps [simp del]

fun ReadVarInt_loop :: "(int \<Rightarrow> int) \<Rightarrow> int \<Rightarrow> int reader" where
  "ReadVarInt_loop conv n [] = Inl EndOfData"
| "ReadVarInt_loop conv n (chData # bs) =
     (let n' = conv (push_bit 7 n OR uint (chData AND 0x7F))
      in if chData AND 0x80 \<noteq> 0 then ReadVarInt_loop conv (conv (n' + 1)) bs
         else Inr (n', bs))"

definition ReadVarInt :: "(int \<Rightarrow> int) \<Rightarrow> int reader" where
  "ReadVarInt conv bs = ReadVarInt_loop conv 0 bs"

definition u_conv :: "nat \<Rightarrow> int \<Rightarrow> int" where
  "u_conv w x = x mod 2 ^ w"

subsection \<open>Strings, vectors, pairs, maps and sets\<close>

definition Serialize_blob :: "bytes \<Rightarrow> bytes" where
  "Serialize_blob v = WriteCompactSize (length v) @ v"

text \<open>A vector of bytes is read in blocks of at most \<open>1 + 4999999 / sizeof(T)\<close> elements.\<close>

function read_blob_loop :: "nat \<Rightarrow> nat \<Rightarrow> bytes \<Rightarrow> bytes reader" where
  "read_blob_loop nSize i v bs =
     (if i < nSize then
        (let blk = min (nSize - i) (1 + 4999999 div 1)
         in bindE (read_bytes blk bs) (\<lambda>(d, r). read_blob_loop nSize (i + blk) (v @ d) r))
      else Inr (v, bs))"
  by pat_completeness auto
termination
  by (relation "measure (\<lambda>(nSize, i, v, bs). nSize - i)") auto

declare read_blob_loop.simps [simp del]

definition Unserialize_blob :: "bytes reader" where
  "Unserialize_blob bs = bindE (ReadCompactSize bs) (\<lambda>(nSize, r). read_blob_loop nSize 0 [] r)"

definition Unserialize_string :: "bytes reader" where
  "Unserialize_string bs =
     bindE (ReadCompactSize bs) (\<lambda>(nSize, r). if nSize \<noteq> 0 then read_bytes nSize r else Inr ([], r))"

definition LimitedString_Unserialize :: "nat \<Rightarrow> bytes reader" where
  "LimitedString_Unserialize Limit bs =
     bindE (ReadCompactSize bs) (\<lambda>(size, r).
       if size > Limit then Inl StringLimit
       else if size \<noteq> 0 then read_bytes size r else Inr ([], r))"

definition Serialize_vec :: "('a \<Rightarrow> bytes) \<Rightarrow> 'a list \<Rightarrow> bytes" where
  "Serialize_vec ser v = WriteCompactSize (length v) @ concat (map ser v)"

fun read_upto :: "'a reader \<Rightarrow> nat \<Rightarrow> 'a list reader" where
  "read_upto unser 0 bs = Inr ([], bs)"
| "read_upto unser (Suc n) bs =
     bindE (unser bs) (\<lambda>(x, r). bindE (read_upto unser n r) (\<lambda>(xs, r'). Inr (x # xs, r')))"

text \<open>
  A vector of other elements is resized in steps of \<open>blk = 5000000 / sizeof(T)\<close> elements;
  \<open>nMid\<close> is the size allocated so far. Each instantiation has \<open>0 < blk\<close> (with an
  element of more than 5000000 bytes the loop would not advance); the guard states it.
\<close>

function read_vec_loop :: "nat \<Rightarrow> 'a reader \<Rightarrow> nat \<Rightarrow> nat \<Rightarrow> 'a list \<Rightarrow> 'a list reader" where
  "read_vec_loop blk unser nSize nMid v bs =
     (if nMid < nSize \<and> 0 < blk then
        (let nMid' = min nSize (nMid + blk)
         in bindE (read_upto unser (nMid' - nMid) bs) (\<lambda>(xs, r).
              read_vec_loop blk unser nSize nMid' (v @ xs) r))
      else Inr (v, bs))"
  by pat_completeness auto
termination
  by (relation "measure (\<lambda>(blk, unser, nSize, nMid, v, bs). nSize - nMid)") auto

declare read_vec_loop.simps [simp del]

definition Unserialize_vec :: "nat \<Rightarrow> 'a reader \<Rightarrow> 'a list reader" where
  "Unserialize_vec szT unser bs =
     bindE (ReadCompactSize bs) (\<lambda>(nSize, r). read_vec_loop (5000000 div szT) unser nSize 0 [] r)"

definition Serialize_pair :: "('a \<Rightarrow> bytes) \<Rightarrow> ('b \<Rightarrow> bytes) \<Rightarrow> 'a \<times> 'b \<Rightarrow> bytes" where
  "Serialize_pair serK serT item = serK (fst item) @ serT (snd item)"

definition Unserialize_pair :: "'a reader \<Rightarrow> 'b reader \<Rightarrow> ('a \<times> 'b) reader" where
  "Unserialize_pair unK unT bs =
     bindE (unK bs) (\<lambda>(k, r). bindE (unT r) (\<lambda>(t, r'). Inr ((k, t), r')))"

text \<open>
  A \<open>std::map\<close> is its list of pairs in strictly increasing key order. \<open>insert\<close> leaves the
  map as it is when the key is present (the hint iterator does not change the result).
\<close>

fun map_insert :: "'k::linorder \<times> 'v \<Rightarrow> ('k \<times> 'v) list \<Rightarrow> ('k \<times> 'v) list" where
  "map_insert kv [] = [kv]"
| "map_insert kv (x # xs) =
     (if fst kv < fst x then kv # x # xs
      else if fst x < fst kv then x # map_insert kv xs
      else x # xs)"

fun read_map_loop :: "('k::linorder \<times> 'v) reader \<Rightarrow> nat \<Rightarrow> ('k \<times> 'v) list \<Rightarrow> ('k \<times> 'v) list reader" where
  "read_map_loop unser 0 m bs = Inr (m, bs)"
| "read_map_loop unser (Suc n) m bs =
     bindE (unser bs) (\<lambda>(item, r). read_map_loop unser n (map_insert item m) r)"

definition Serialize_map :: "('k \<Rightarrow> bytes) \<Rightarrow> ('v \<Rightarrow> bytes) \<Rightarrow> ('k \<times> 'v) list \<Rightarrow> bytes" where
  "Serialize_map serK serT m =
     WriteCompactSize (length m) @ concat (map (Serialize_pair serK serT) m)"

definition Unserialize_map :: "'k::linorder reader \<Rightarrow> 'v reader \<Rightarrow> ('k \<times> 'v) list reader" where
  "Unserialize_map unK unT bs =
     bindE (ReadCompactSize bs) (\<lambda>(nSize, r). read_map_loop (Unserialize_pair unK unT) nSize [] r)"

subsection \<open>Round trips\<close>

lemma READDATA_WRITEDATA [simp]: "n < 256 ^ k \<Longrightarrow> READDATA k (WRITEDATA k n @ bs) = Inr (n, bs)"
  by (simp add: READDATA_def WRITEDATA_def read_bytes_def)

lemma length_WRITEDATA [simp, codec_simps]: "length (WRITEDATA k n) = k"
  by (simp add: WRITEDATA_def)

lemma READDATA_Inr: "READDATA k bs = Inr (n, r) \<longleftrightarrow> n < 256 ^ k \<and> bs = WRITEDATA k n @ r"
proof
  assume a: "READDATA k bs = Inr (n, r)"
  then have k: "k \<le> length bs" and n: "n = le_dec (take k bs)" and r: "r = drop k bs"
    by (auto simp: READDATA_def read_bytes_def split: if_splits)
  have "n < 256 ^ k" using le_dec_bound [of "take k bs"] k n by simp
  moreover have "WRITEDATA k n = take k bs"
    using le_enc_dec [of "take k bs"] k n by (simp add: WRITEDATA_def)
  ultimately show "n < 256 ^ k \<and> bs = WRITEDATA k n @ r" using r by simp
qed auto

lemma ReadCompactSize_iff:
  "ReadCompactSize bs = Inr (n, r) \<longleftrightarrow> n \<le> MAX_SIZE \<and> bs = WriteCompactSize n @ r"
proof
  assume "ReadCompactSize bs = Inr (n, r)"
  then show "n \<le> MAX_SIZE \<and> bs = WriteCompactSize n @ r"
    by (auto simp: ReadCompactSize_def WriteCompactSize_def bindE_Inr_conv READDATA_Inr split: if_splits)
      (subgoal_tac "a = 255"; simp)
next
  assume "n \<le> MAX_SIZE \<and> bs = WriteCompactSize n @ r"
  then show "ReadCompactSize bs = Inr (n, r)"
    by (auto simp: ReadCompactSize_def WriteCompactSize_def MAX_SIZE_def)
qed

lemma ReadCompactSize_too_large:
  "MAX_SIZE < n \<Longrightarrow> n < 2 ^ 64 \<Longrightarrow> ReadCompactSize (WriteCompactSize n @ r) = Inl SizeTooLarge"
  by (auto simp: ReadCompactSize_def WriteCompactSize_def MAX_SIZE_def)

lemma GetSizeOfCompactSize_length: "GetSizeOfCompactSize n = length (WriteCompactSize n)"
  by (simp add: GetSizeOfCompactSize_def WriteCompactSize_def)


subsection \<open>Variable-length integers\<close>

definition vi_prefix :: "int \<Rightarrow> bytes" where
  "vi_prefix acc = (if acc = 0 then [] else rev (varint_tmp True (acc - 1)))"

lemma div_eq_drop7: "drop_bit 7 (n::int) = n div 128"
  by (simp add: drop_bit_eq_div)

lemma and_7F_mod: "(n::int) AND 0x7F = n mod 128"
proof -
  have "(0x7F :: int) = mask 7" by (simp add: mask_eq_exp_minus_1)
  then have "n AND 0x7F = take_bit 7 n" by (simp only: take_bit_eq_mask)
  then show ?thesis by (simp add: take_bit_eq_mod)
qed

lemma push7_or: "0 \<le> m \<Longrightarrow> m < 128 \<Longrightarrow> push_bit 7 (n::int) OR m = n * 128 + m"
proof -
  assume m: "0 \<le> m" "m < 128"
  have "push_bit 7 n AND m = 0"
  proof -
    have "take_bit 7 m = m" using m by (simp add: take_bit_eq_mod)
    then have "push_bit 7 n AND m = push_bit 7 n AND take_bit 7 m" by simp
    also have "\<dots> = 0"
      by (rule bit_eqI) (auto simp: bit_simps)
    finally show ?thesis .
  qed
  then show ?thesis using plus_and_or [of "push_bit 7 n" m]
    by (simp add: push_bit_eq_mult)
qed

lemma varint_tmp_unfold:
  "varint_tmp len n = (word_of_int (n mod 128) OR (if len then 0x80 else 0)) #
     (if n \<le> 127 then [] else varint_tmp True (n div 128 - 1))"
  by (subst varint_tmp.simps) (simp add: and_7F_mod div_eq_drop7)

lemma vi_step:
  assumes "0 \<le> acc" "0 \<le> m" "m < 128"
  shows "rev (varint_tmp len (acc * 128 + m)) =
    vi_prefix acc @ [word_of_int m OR (if len then 0x80 else 0)]"
proof -
  have "acc * 128 + m \<le> 127 \<longleftrightarrow> acc = 0" using assms by auto
  moreover have "(acc * 128 + m) mod 128 = m" using assms by simp
  moreover have "(acc * 128 + m) div 128 = acc" using assms by simp
  ultimately show ?thesis
    by (subst varint_tmp_unfold) (simp add: vi_prefix_def)
qed

lemma GetSizeOfVarInt_length_tmp: "GetSizeOfVarInt n = length (varint_tmp len n)"
proof (induction n arbitrary: len rule: GetSizeOfVarInt.induct)
  case (1 n)
  then show ?case
    by (subst GetSizeOfVarInt.simps, subst varint_tmp.simps) simp
qed

lemma GetSizeOfVarInt_length: "GetSizeOfVarInt n = length (WriteVarInt n)"
  by (simp add: WriteVarInt_def GetSizeOfVarInt_length_tmp [of n False])

text \<open>Reading a written value, at any type that holds the values up to it.\<close>

lemma ReadVarInt_loop_tmp:
  assumes "0 \<le> m" "\<And>x. 0 \<le> x \<Longrightarrow> x \<le> m + 1 \<Longrightarrow> conv x = x"
  shows "ReadVarInt_loop conv 0 (rev (varint_tmp True m) @ bs) = ReadVarInt_loop conv (m + 1) bs"
  using assms
proof (induction "nat m" arbitrary: m bs rule: less_induct)
  case less
  let ?acc = "m div 128" and ?d = "m mod 128"
  have m: "m = ?acc * 128 + ?d" and d: "0 \<le> ?d" "?d < 128" and acc: "0 \<le> ?acc"
    using less.prems by auto
  have pre: "ReadVarInt_loop conv 0 (vi_prefix ?acc @ cs) = ReadVarInt_loop conv ?acc cs" for cs
  proof (cases "?acc = 0")
    case False
    then have "nat (?acc - 1) < nat m" "0 \<le> ?acc - 1" using acc less.prems(1) by auto
    moreover have "conv x = x" if "0 \<le> x" "x \<le> ?acc - 1 + 1" for x
      using that acc d m by (intro less.prems(2)) linarith+
    ultimately show ?thesis
      using less.hyps [of "?acc - 1" cs] False by (simp add: vi_prefix_def)
  qed (simp add: vi_prefix_def)
  have "rev (varint_tmp True m) = vi_prefix ?acc @ [word_of_int ?d OR 0x80]"
    using vi_step [OF acc d, of True] m by simp
  moreover have "uint (word_of_int ?d OR 0x80 :: byte) = ?d + 128"
    by (rule byte_or_80 [OF d])
  ultimately show ?case
    using less.prems m d
    by (simp add: pre byte_and_7F byte_and_80 push7_or Let_def)
qed

lemma ReadVarInt_WriteVarInt:
  assumes "0 \<le> n" "\<And>x. 0 \<le> x \<Longrightarrow> x \<le> n \<Longrightarrow> conv x = x"
  shows "ReadVarInt conv (WriteVarInt n @ bs) = Inr (n, bs)"
proof -
  let ?acc = "n div 128" and ?d = "n mod 128"
  have n: "n = ?acc * 128 + ?d" and d: "0 \<le> ?d" "?d < 128" and acc: "0 \<le> ?acc"
    using assms by auto
  have pre: "ReadVarInt_loop conv 0 (vi_prefix ?acc @ cs) = ReadVarInt_loop conv ?acc cs" for cs
  proof (cases "?acc = 0")
    case False
    have "conv x = x" if "0 \<le> x" "x \<le> ?acc - 1 + 1" for x
      using that acc d n by (intro assms(2)) linarith+
    then show ?thesis
      using ReadVarInt_loop_tmp [of "?acc - 1" conv cs] False acc by (simp add: vi_prefix_def)
  qed (simp add: vi_prefix_def)
  have "WriteVarInt n = vi_prefix ?acc @ [word_of_int ?d]"
    using vi_step [OF acc d, of False] n by (simp add: WriteVarInt_def)
  moreover have "uint (word_of_int ?d :: byte) = ?d"
    using d by (simp add: uint_word_of_int)
  ultimately show ?thesis
    using assms n d by (simp add: ReadVarInt_def pre byte_and_7F byte_and_80 push7_or Let_def)
qed

text \<open>Without wrap-around every byte string that reads as a value is the value's encoding.\<close>

lemma ReadVarInt_loop_id:
  assumes "0 \<le> acc" "ReadVarInt_loop (\<lambda>x. x) acc bs = Inr (n, r)"
  shows "0 \<le> n \<and> vi_prefix acc @ bs = WriteVarInt n @ r"
  using assms
proof (induction bs arbitrary: acc)
  case (Cons ch bs)
  let ?d = "uint ch mod 128"
  have d: "0 \<le> ?d" "?d < 128" by auto
  have u: "0 \<le> uint ch" "uint ch < 256" using uint_bounded [of ch] by auto
  show ?case
  proof (cases "ch AND 0x80 = 0")
    case True
    then have "?d = uint ch" using u by (simp add: byte_and_80)
    then have "word_of_int ?d = ch" by simp
    with Cons.prems True vi_step [OF Cons.prems(1) d, of False] show ?thesis
      by (auto simp: byte_and_7F push7_or d WriteVarInt_def)
  next
    case False
    then have "128 \<le> uint ch" by (simp add: byte_and_80)
    with u have "?d = uint ch - 128" by presburger
    then have "uint (word_of_int ?d OR 0x80 :: byte) = uint ch"
      using byte_or_80 [OF d] by simp
    then have ch: "word_of_int ?d OR 0x80 = ch" by (simp only: word_uint_eq_iff)
    have "vi_prefix (acc * 128 + ?d + 1) = vi_prefix acc @ [ch]"
      using vi_step [OF Cons.prems(1) d, of True] ch Cons.prems(1) d
      by (auto simp: vi_prefix_def)
    with Cons.IH [of "acc * 128 + ?d + 1"] Cons.prems False d show ?thesis
      by (simp add: byte_and_7F push7_or)
  qed
qed simp

lemma ReadVarInt_id_iff:
  "ReadVarInt (\<lambda>x. x) bs = Inr (n, r) \<longleftrightarrow> 0 \<le> n \<and> bs = WriteVarInt n @ r"
  using ReadVarInt_loop_id [of 0 bs n r] ReadVarInt_WriteVarInt [of n "\<lambda>x. x" r]
  by (auto simp: ReadVarInt_def vi_prefix_def)


subsection \<open>Codecs\<close>

text \<open>The contract of a serializable type: what is written reads back, with the rest untouched.\<close>

locale codec =
  fixes ser :: "'a \<Rightarrow> bytes"
    and unser :: "'a reader"
    and wf :: "'a \<Rightarrow> bool"
  assumes roundtrip: "wf x \<Longrightarrow> unser (ser x @ bs) = Inr (x, bs)"
begin

lemma ser_inj: "wf x \<Longrightarrow> wf y \<Longrightarrow> ser x = ser y \<Longrightarrow> x = y"
  using roundtrip [of x "[]"] roundtrip [of y "[]"] by simp

lemma read_upto_ser:
  "list_all wf xs \<Longrightarrow> read_upto unser (length xs) (concat (map ser xs) @ bs) = Inr (xs, bs)"
  by (induction xs) (simp_all add: roundtrip)

end


lemma read_upto_add: "read_upto unser (a + b) bs =
    bindE (read_upto unser a bs) (\<lambda>(xs, r).
    bindE (read_upto unser b r) (\<lambda>(ys, r'). Inr (xs @ ys, r')))"
proof (induction a arbitrary: bs)
  case 0
  show ?case by (cases "read_upto unser b bs") auto
next
  case (Suc a)
  show ?case
    by (cases "unser bs") (auto simp: Suc bindE_def split: sum.splits)
qed

lemma read_vec_loop_eq:
  assumes "0 < blk" "nMid \<le> nSize"
  shows "read_vec_loop blk unser nSize nMid v bs =
    bindE (read_upto unser (nSize - nMid) bs) (\<lambda>(xs, r). Inr (v @ xs, r))"
  using assms(2)
proof (induction "nSize - nMid" arbitrary: nMid v bs rule: less_induct)
  case less
  show ?case
  proof (cases "nMid < nSize")
    case True
    define m where "m = min nSize (nMid + blk)"
    define a where "a = m - nMid"
    define b where "b = nSize - m"
    have m: "nMid < m" "m \<le> nSize" using True assms(1) by (auto simp: m_def)
    then have ab: "nSize - nMid = a + b" and lt: "b < nSize - nMid" by (auto simp: a_def b_def)
    have IH: "read_vec_loop blk unser nSize m w cs =
        bindE (read_upto unser b cs) (\<lambda>(xs, r). Inr (w @ xs, r))" for w cs
      using less.hyps [of m w cs] lt m by (simp add: b_def)
    have "read_vec_loop blk unser nSize nMid v bs =
        bindE (read_upto unser a bs) (\<lambda>(xs, r). read_vec_loop blk unser nSize m (v @ xs) r)"
      using True assms(1)
      by (subst read_vec_loop.simps) (simp add: m_def a_def Let_def)
    also have "\<dots> = bindE (read_upto unser (a + b) bs) (\<lambda>(xs, r). Inr (v @ xs, r))"
      by (auto simp: read_upto_add IH bindE_def split: sum.splits)
    finally show ?thesis by (simp only: ab)
  qed (use less.prems in \<open>subst read_vec_loop.simps, simp\<close>)
qed

lemma read_blob_loop_eq:
  assumes "i \<le> nSize" "nSize - i \<le> length bs"
  shows "read_blob_loop nSize i v bs = Inr (v @ take (nSize - i) bs, drop (nSize - i) bs)"
  using assms
proof (induction "nSize - i" arbitrary: i v bs rule: less_induct)
  case less
  show ?case
  proof (cases "i < nSize")
    case True
    define a where "a = min (nSize - i) 5000000"
    have a: "0 < a" "i + a \<le> nSize" "a \<le> length bs" using True less.prems by (auto simp: a_def)
    have IH: "read_blob_loop nSize (i + a) (v @ take a bs) (drop a bs) =
        Inr ((v @ take a bs) @ take (nSize - (i + a)) (drop a bs), drop (nSize - (i + a)) (drop a bs))"
      using a less.prems by (intro less.hyps) auto
    have "nSize - i = a + (nSize - (i + a))" using a by simp
    then have t: "take (nSize - i) bs = take a bs @ take (nSize - (i + a)) (drop a bs)"
      by (metis take_add)
    show ?thesis using True a IH
      by (subst read_blob_loop.simps) (simp add: a_def [symmetric] read_bytes_def t)
  qed (use less.prems in \<open>subst read_blob_loop.simps, simp\<close>)
qed

lemma read_blob_loop_short:
  assumes "i \<le> nSize" "length bs < nSize - i"
  shows "read_blob_loop nSize i v bs = Inl EndOfData"
  using assms
proof (induction "nSize - i" arbitrary: i v bs rule: less_induct)
  case less
  define a where "a = min (nSize - i) 5000000"
  have a: "0 < a" "i + a \<le> nSize" and i: "i < nSize" using less.prems by (auto simp: a_def)
  show ?case
  proof (cases "length bs < a")
    case True
    then show ?thesis using i
      by (subst read_blob_loop.simps) (simp add: a_def [symmetric] read_bytes_def)
  next
    case False
    then have "read_blob_loop nSize (i + a) (v @ take a bs) (drop a bs) = Inl EndOfData"
      using a less.prems by (intro less.hyps) auto
    then show ?thesis using i False
      by (subst read_blob_loop.simps) (simp add: a_def [symmetric] read_bytes_def)
  qed
qed

lemma read_blob_loop_read_bytes:
  "read_blob_loop nSize 0 [] bs = read_bytes nSize bs"
  using read_blob_loop_eq [of 0 nSize bs "[]"] read_blob_loop_short [of 0 nSize bs "[]"]
  by (auto simp: read_bytes_def)


lemma Unserialize_blob_iff:
  "Unserialize_blob bs = Inr (v, r) \<longleftrightarrow> length v \<le> MAX_SIZE \<and> bs = Serialize_blob v @ r"
proof
  assume "Unserialize_blob bs = Inr (v, r)"
  then show "length v \<le> MAX_SIZE \<and> bs = Serialize_blob v @ r"
    by (auto simp: Unserialize_blob_def Serialize_blob_def bindE_Inr_conv ReadCompactSize_iff
        read_blob_loop_read_bytes read_bytes_def split: if_splits)
next
  assume v: "length v \<le> MAX_SIZE \<and> bs = Serialize_blob v @ r"
  then have "ReadCompactSize bs = Inr (length v, v @ r)"
    by (simp add: ReadCompactSize_iff Serialize_blob_def)
  then show "Unserialize_blob bs = Inr (v, r)"
    by (simp add: Unserialize_blob_def read_blob_loop_read_bytes read_bytes_def)
qed

interpretation blob: codec Serialize_blob Unserialize_blob "\<lambda>v. length v \<le> MAX_SIZE"
  by unfold_locales (simp add: Unserialize_blob_iff)

interpretation raw32: codec "WRITEDATA 4" "READDATA 4" "\<lambda>n. n < 2 ^ 32"
  by unfold_locales simp

interpretation raw64: codec "WRITEDATA 8" "READDATA 8" "\<lambda>n. n < 2 ^ 64"
  by unfold_locales simp

lemma Unserialize_int_Serialize_int:
  assumes "0 < k" "in_s (8 * k) x"
  shows "Unserialize_int k (Serialize_int k x @ bs) = Inr (x, bs)"
proof -
  have "to_u (8 * k) x < 256 ^ k"
    using to_u_less [of "8 * k" x] by (simp add: power_mult)
  then show ?thesis using assms
    by (simp add: Unserialize_int_def Serialize_int_def wrap_s_to_u)
qed

interpretation int32: codec "Serialize_int 4" "Unserialize_int 4" "in_s 32"
  by unfold_locales (rule Unserialize_int_Serialize_int; simp)

interpretation int64: codec "Serialize_int 8" "Unserialize_int 8" "in_s 64"
  by unfold_locales (rule Unserialize_int_Serialize_int; simp)

text \<open>A vector of codec elements, each of at most 5000000 bytes in memory, is a codec.\<close>

locale vec_codec = codec ser unser wf
  for ser :: "'a \<Rightarrow> bytes" and unser :: "'a reader" and wf :: "'a \<Rightarrow> bool" +
  fixes szT :: nat
  assumes szT: "0 < szT" "szT \<le> 5000000"
begin

lemma vec_roundtrip:
  assumes "list_all wf v" "length v \<le> MAX_SIZE"
  shows "Unserialize_vec szT unser (Serialize_vec ser v @ bs) = Inr (v, bs)"
proof -
  have "ReadCompactSize (Serialize_vec ser v @ bs) = Inr (length v, concat (map ser v) @ bs)"
    using assms by (simp add: ReadCompactSize_iff Serialize_vec_def)
  moreover have "0 < 5000000 div szT" using szT by (simp add: div_greater_zero_iff)
  ultimately show ?thesis
    using assms by (simp add: Unserialize_vec_def read_vec_loop_eq read_upto_ser)
qed

end

sublocale vec_codec \<subseteq> vec: codec "Serialize_vec ser" "Unserialize_vec szT unser"
    "\<lambda>v. list_all wf v \<and> length v \<le> MAX_SIZE"
  by unfold_locales (simp add: vec_roundtrip)

text \<open>Pairs and maps of codec elements.\<close>

locale codec2 = k: codec serK unK wfK + t: codec serT unT wfT
  for serK :: "'k::linorder \<Rightarrow> bytes" and unK :: "'k reader" and wfK :: "'k \<Rightarrow> bool"
    and serT :: "'t \<Rightarrow> bytes" and unT :: "'t reader" and wfT :: "'t \<Rightarrow> bool"
begin

lemma pair_roundtrip:
  "wfK k \<Longrightarrow> wfT t \<Longrightarrow>
    Unserialize_pair unK unT (Serialize_pair serK serT (k, t) @ bs) = Inr ((k, t), bs)"
  by (simp add: Unserialize_pair_def Serialize_pair_def k.roundtrip t.roundtrip)

lemma map_insert_last:
  "\<forall>x\<in>set m. fst x < fst kv \<Longrightarrow> map_insert kv m = m @ [kv]"
  for m :: "('k \<times> 't) list"
  by (induction m) (auto dest: less_asym)

lemma read_map_loop_ser:
  assumes "list_all (\<lambda>(k, t). wfK k \<and> wfT t) m" "sorted_wrt (<) (map fst (acc @ m))"
  shows "read_map_loop (Unserialize_pair unK unT) (length m) acc
      (concat (map (Serialize_pair serK serT) m) @ bs) = Inr (acc @ m, bs)"
  using assms
proof (induction m arbitrary: acc)
  case (Cons x m)
  obtain k t where x: "x = (k, t)" by (cases x)
  have "map_insert x acc = acc @ [x]"
    using Cons.prems(2) by (intro map_insert_last) (auto simp: sorted_wrt_append x)
  then show ?case
    using Cons.prems Cons.IH [of "acc @ [x]"] by (simp add: x pair_roundtrip)
qed simp

lemma map_roundtrip:
  assumes "list_all (\<lambda>(k, t). wfK k \<and> wfT t) m" "sorted_wrt (<) (map fst m)"
    and "length m \<le> MAX_SIZE"
  shows "Unserialize_map unK unT (Serialize_map serK serT m @ bs) = Inr (m, bs)"
proof -
  have "ReadCompactSize (Serialize_map serK serT m @ bs) =
      Inr (length m, concat (map (Serialize_pair serK serT) m) @ bs)"
    using assms by (simp add: ReadCompactSize_iff Serialize_map_def)
  then show ?thesis
    using assms read_map_loop_ser [of m "[]"] by (simp add: Unserialize_map_def)
qed

end

text \<open>The zerocoin supply map of a block index entry: denominations (\<open>int\<close>) to amounts.\<close>

interpretation supply_map: codec2 "Serialize_int 4" "Unserialize_int 4" "in_s 32"
    "Serialize_int 8" "Unserialize_int 8" "in_s 64"
  by unfold_locales

subsection \<open>Sets\<close>

fun set_insert :: "'k::linorder \<Rightarrow> 'k list \<Rightarrow> 'k list" where
  "set_insert k [] = [k]"
| "set_insert k (x # xs) =
     (if k < x then k # x # xs else if x < k then x # set_insert k xs else x # xs)"

fun read_set_loop :: "'k::linorder reader \<Rightarrow> nat \<Rightarrow> 'k list \<Rightarrow> 'k list reader" where
  "read_set_loop unser 0 m bs = Inr (m, bs)"
| "read_set_loop unser (Suc n) m bs =
     bindE (unser bs) (\<lambda>(key, r). read_set_loop unser n (set_insert key m) r)"

definition Serialize_set :: "('k \<Rightarrow> bytes) \<Rightarrow> 'k list \<Rightarrow> bytes" where
  "Serialize_set ser m = WriteCompactSize (length m) @ concat (map ser m)"

definition Unserialize_set :: "'k::linorder reader \<Rightarrow> 'k list reader" where
  "Unserialize_set unK bs =
     bindE (ReadCompactSize bs) (\<lambda>(nSize, r). read_set_loop unK nSize [] r)"

subsection \<open>Sizes\<close>

text \<open>
  The sizes are added up in an \<open>unsigned int\<close>, whose wrap-around is written out; the lemmas
  say that the size is the number of bytes written whenever that number fits.
\<close>

definition uadd32 :: "nat \<Rightarrow> nat \<Rightarrow> nat" where
  "uadd32 a b = (a + b) mod 2 ^ 32"

definition GetSerializeSize_blob :: "bytes \<Rightarrow> nat" where
  "GetSerializeSize_blob v = uadd32 (GetSizeOfCompactSize (length v)) (length v)"

definition GetSerializeSize_vec :: "('a \<Rightarrow> nat) \<Rightarrow> 'a list \<Rightarrow> nat" where
  "GetSerializeSize_vec szf v =
     foldl (\<lambda>nSize vi. uadd32 nSize (szf vi)) (GetSizeOfCompactSize (length v)) v"

definition GetSerializeSize_pair :: "('a \<Rightarrow> nat) \<Rightarrow> ('b \<Rightarrow> nat) \<Rightarrow> 'a \<times> 'b \<Rightarrow> nat" where
  "GetSerializeSize_pair sizeK sizeT item = uadd32 (sizeK (fst item)) (sizeT (snd item))"

definition GetSerializeSize_map :: "('k \<Rightarrow> nat) \<Rightarrow> ('v \<Rightarrow> nat) \<Rightarrow> ('k \<times> 'v) list \<Rightarrow> nat" where
  "GetSerializeSize_map sizeK sizeT m =
     foldl (\<lambda>nSize mi. uadd32 nSize (GetSerializeSize_pair sizeK sizeT mi))
       (GetSizeOfCompactSize (length m)) m"

lemma GetSerializeSize_blob_length:
  "length (Serialize_blob v) < 2 ^ 32 \<Longrightarrow> GetSerializeSize_blob v = length (Serialize_blob v)"
  by (simp add: GetSerializeSize_blob_def Serialize_blob_def GetSizeOfCompactSize_length uadd32_def)

lemma foldl_uadd32:
  "n + length (concat (map ser xs)) < 2 ^ 32 \<Longrightarrow> (\<forall>x\<in>set xs. szf x = length (ser x)) \<Longrightarrow>
   foldl (\<lambda>n x. uadd32 n (szf x)) n xs = n + length (concat (map ser xs))"
  by (induction xs arbitrary: n) (auto simp: uadd32_def)

lemma GetSerializeSize_vec_length:
  assumes "length (Serialize_vec ser v) < 2 ^ 32" "\<forall>x\<in>set v. szf x = length (ser x)"
  shows "GetSerializeSize_vec szf v = length (Serialize_vec ser v)"
  using assms foldl_uadd32 [of "GetSizeOfCompactSize (length v)" ser v szf]
  by (simp add: GetSerializeSize_vec_def Serialize_vec_def GetSizeOfCompactSize_length)

lemma length_concat_elem_le: "x \<in> set xs \<Longrightarrow> length (f x) \<le> length (concat (map f xs))"
  by (induction xs) auto

lemma GetSerializeSize_map_length:
  assumes "length (Serialize_map serK serT m) < 2 ^ 32"
    and "\<forall>(k, t)\<in>set m. sizeK k = length (serK k) \<and> sizeT t = length (serT t)"
  shows "GetSerializeSize_map sizeK sizeT m = length (Serialize_map serK serT m)"
proof -
  have "GetSerializeSize_pair sizeK sizeT x = length (Serialize_pair serK serT x)" if "x \<in> set m" for x
    using assms(2) that length_concat_elem_le [of x m "Serialize_pair serK serT"] assms(1)
    by (cases x) (fastforce simp: GetSerializeSize_pair_def Serialize_pair_def Serialize_map_def uadd32_def)
  then show ?thesis
    using assms(1) foldl_uadd32 [of "GetSizeOfCompactSize (length m)" "Serialize_pair serK serT" m
        "GetSerializeSize_pair sizeK sizeT"]
    by (simp add: GetSerializeSize_map_def Serialize_map_def GetSizeOfCompactSize_length)
qed


lemma read_set_loop_ser:
  assumes "\<And>k r. k \<in> set m \<Longrightarrow> unser (ser k @ r) = Inr (k, r)" "sorted_wrt (<) (acc @ m)"
  shows "read_set_loop unser (length m) acc (concat (map ser m) @ bs) = Inr (acc @ m, bs)"
  using assms
proof (induction m arbitrary: acc)
  case (Cons x m)
  have "set_insert x acc = acc @ [x]"
  proof -
    have "\<forall>y\<in>set acc. y < x" using Cons.prems(2) by (auto simp: sorted_wrt_append)
    then show ?thesis by (induction acc) (auto dest: less_asym)
  qed
  then show ?case using Cons.prems Cons.IH [of "acc @ [x]"] by simp
qed simp

lemma Unserialize_set_Serialize_set:
  assumes "\<And>k r. k \<in> set m \<Longrightarrow> unser (ser k @ r) = Inr (k, r)" "sorted_wrt (<) m" "length m \<le> MAX_SIZE"
  shows "Unserialize_set unser (Serialize_set ser m @ bs) = Inr (m, bs)"
proof -
  have "ReadCompactSize (Serialize_set ser m @ bs) = Inr (length m, concat (map ser m) @ bs)"
    using assms by (simp add: ReadCompactSize_iff Serialize_set_def)
  then show ?thesis
    using assms(1,2) read_set_loop_ser [of m unser ser "[]"] by (simp add: Unserialize_set_def)
qed

subsection \<open>What the formats promise\<close>

text \<open>
  The compact size is a canonical encoding: a byte string reads as the size \<open>n\<close> exactly
  when it starts with what is written for \<open>n\<close> and \<open>n\<close> is at most \<open>MAX_SIZE\<close>; every
  longer form of a size is refused.
\<close>

theorem CompactSize_canonical:
  "ReadCompactSize bs = Inr (n, r) \<longleftrightarrow> n \<le> MAX_SIZE \<and> bs = WriteCompactSize n @ r"
  by (rule ReadCompactSize_iff)

text \<open>
  A variable-length integer of an unsigned type of \<open>w\<close> bits reads back as itself, its
  size is the number of bytes written, and over unbounded integers no other byte string reads
  as it.
\<close>

theorem VarInt_roundtrip:
  assumes "0 \<le> n" "n < 2 ^ w"
  shows "ReadVarInt (u_conv w) (WriteVarInt n @ r) = Inr (n, r) \<and>
    GetSizeOfVarInt n = length (WriteVarInt n) \<and>
    (ReadVarInt (\<lambda>x. x) bs = Inr (n, r) \<longleftrightarrow> bs = WriteVarInt n @ r)"
  using assms ReadVarInt_WriteVarInt [of n "u_conv w" r]
  by (simp add: ReadVarInt_id_iff GetSizeOfVarInt_length u_conv_def mod_pos_pos_trivial)

lemma VarInt_roundtrip_witness:
  "ReadVarInt (u_conv 32) (WriteVarInt 16512 @ [7]) = Inr (16512, [7])"
  using VarInt_roundtrip [of 16512 32 "[7]" "[]"] by simp

text \<open>
  The reader wraps at the width of its type, so a 32-bit value has more than one encoding, and
  a negative value of a signed type (whose single byte keeps its low seven bits) does not read
  back.
\<close>

lemma VarInt_u32_not_injective:
  "ReadVarInt (u_conv 32) [0x8E, 0xFE, 0xFE, 0xFF, 0x00] = Inr (0, []) \<and>
   ReadVarInt (u_conv 32) [0x00] = Inr (0, [])"
  by code_simp

lemma VarInt_negative_lost:
  "ReadVarInt (wrap_s 32) (WriteVarInt (- 1)) = Inr (127, [])"
  by code_simp

text \<open>
  A map is written as its entries in key order and reads back as the same map, with the
  rest of the stream untouched: here the zerocoin supply map of a block index entry.
\<close>

theorem supply_map_roundtrip:
  assumes "list_all (\<lambda>(k, t). in_s 32 k \<and> in_s 64 t) m" "sorted_wrt (<) (map fst m)"
    and "length m \<le> MAX_SIZE"
  shows "Unserialize_map (Unserialize_int 4) (Unserialize_int 8)
    (Serialize_map (Serialize_int 4) (Serialize_int 8) m @ bs) = Inr (m, bs)"
  using assms by (rule supply_map.map_roundtrip)

lemma supply_map_roundtrip_witness:
  "Unserialize_map (Unserialize_int 4) (Unserialize_int 8)
    (Serialize_map (Serialize_int 4) (Serialize_int 8) [(1, 5), (5, - 3)] @ [9]) = Inr ([(1, 5), (5, - 3)], [9])"
  by (rule supply_map_roundtrip) (simp_all add: in_s_def MAX_SIZE_def)

end
