(* ===== verification/Streams.thy ===== *)
theory Streams
  imports Serialize
begin

section \<open>The stream buffer CDataStream (streams.h)\<close>

text \<open>
  \<open>CDataStream\<close> is a vector with a read position: reading advances the position instead of
  erasing, the buffer is cleared when the position reaches its end, and insertion and erasure
  at the read position reuse the bytes already read. The bytes still to be read
  (\<open>pending\<close>) are the abstraction; the operations refine those of a plain byte queue,
  which is what the readers of theory \<open>Serialize\<close> run on.

  The position is an \<open>unsigned int\<close>, so the sums are taken modulo \<open>2 ^ 32\<close>; a copy that
  leaves the buffer, which the wrap-around makes possible, is the value \<open>OutOfBounds\<close>.
\<close>

record CDataStream =
  vch :: bytes
  nReadPos :: nat

datatype stream_error = StreamEnd | OutOfBounds

definition u32_add :: "nat \<Rightarrow> nat \<Rightarrow> nat" where
  "u32_add a b = (a + b) mod 2 ^ 32"

definition stream_init :: "bytes \<Rightarrow> CDataStream" where
  "stream_init d = \<lparr>vch = d, nReadPos = 0\<rparr>"

definition stream_append :: "CDataStream \<Rightarrow> bytes \<Rightarrow> CDataStream" where
  "stream_append s b = s\<lparr>vch := vch s @ b\<rparr>"

definition stream_str :: "CDataStream \<Rightarrow> bytes" where
  "stream_str s = drop (nReadPos s) (vch s)"

definition stream_size :: "CDataStream \<Rightarrow> nat" where
  "stream_size s = length (vch s) - nReadPos s"

definition stream_empty :: "CDataStream \<Rightarrow> bool" where
  "stream_empty s \<longleftrightarrow> length (vch s) = nReadPos s"

definition stream_resize :: "CDataStream \<Rightarrow> nat \<Rightarrow> byte \<Rightarrow> CDataStream" where
  "stream_resize s n c =
     s\<lparr>vch := take (n + nReadPos s) (vch s) @ replicate (n + nReadPos s - length (vch s)) c\<rparr>"

definition stream_at :: "CDataStream \<Rightarrow> nat \<Rightarrow> byte option" where
  "stream_at s pos = (if pos + nReadPos s < length (vch s) then Some (vch s ! (pos + nReadPos s)) else None)"

definition stream_clear :: "CDataStream \<Rightarrow> CDataStream" where
  "stream_clear s = \<lparr>vch = [], nReadPos = 0\<rparr>"

text \<open>Positions passed to \<open>insert\<close> and \<open>erase\<close> are absolute indices into the vector.\<close>

definition stream_insert :: "CDataStream \<Rightarrow> nat \<Rightarrow> bytes \<Rightarrow> CDataStream" where
  "stream_insert s it d =
     (if it = nReadPos s \<and> length d \<le> nReadPos s then
        (let p = nReadPos s - length d
         in s\<lparr>vch := take p (vch s) @ d @ drop (p + length d) (vch s), nReadPos := p\<rparr>)
      else s\<lparr>vch := take it (vch s) @ d @ drop it (vch s)\<rparr>)"

definition stream_erase1 :: "CDataStream \<Rightarrow> nat \<Rightarrow> CDataStream" where
  "stream_erase1 s it =
     (if it = nReadPos s then
        (let p = u32_add (nReadPos s) 1
         in if p \<ge> length (vch s) then \<lparr>vch = [], nReadPos = 0\<rparr>
            else s\<lparr>nReadPos := p\<rparr>)
      else s\<lparr>vch := take it (vch s) @ drop (it + 1) (vch s)\<rparr>)"

definition stream_erase :: "CDataStream \<Rightarrow> nat \<Rightarrow> nat \<Rightarrow> CDataStream" where
  "stream_erase s from uptil =
     (if from = nReadPos s then
        (if uptil = length (vch s) then \<lparr>vch = [], nReadPos = 0\<rparr>
         else s\<lparr>nReadPos := uptil\<rparr>)
      else s\<lparr>vch := take from (vch s) @ drop uptil (vch s)\<rparr>)"

definition stream_Compact :: "CDataStream \<Rightarrow> CDataStream" where
  "stream_Compact s = \<lparr>vch = drop (nReadPos s) (vch s), nReadPos = 0\<rparr>"

definition stream_Rewind :: "CDataStream \<Rightarrow> nat \<Rightarrow> bool \<times> CDataStream" where
  "stream_Rewind s n =
     (if n > nReadPos s then (False, s) else (True, s\<lparr>nReadPos := nReadPos s - n\<rparr>))"

definition stream_memcpy :: "CDataStream \<Rightarrow> nat \<Rightarrow> stream_error + bytes" where
  "stream_memcpy s nSize =
     (if nReadPos s + nSize \<le> length (vch s) then Inr (take nSize (drop (nReadPos s) (vch s)))
      else Inl OutOfBounds)"

definition stream_read :: "CDataStream \<Rightarrow> nat \<Rightarrow> stream_error + bytes \<times> CDataStream" where
  "stream_read s nSize =
     (let nReadPosNext = u32_add (nReadPos s) nSize in
      if nReadPosNext \<ge> length (vch s) then
        (if nReadPosNext > length (vch s) then Inl StreamEnd
         else bindE (stream_memcpy s nSize) (\<lambda>d. Inr (d, \<lparr>vch = [], nReadPos = 0\<rparr>)))
      else bindE (stream_memcpy s nSize) (\<lambda>d. Inr (d, s\<lparr>nReadPos := nReadPosNext\<rparr>)))"

definition stream_ignore :: "CDataStream \<Rightarrow> nat \<Rightarrow> stream_error + CDataStream" where
  "stream_ignore s nSize =
     (let nReadPosNext = u32_add (nReadPos s) nSize in
      if nReadPosNext \<ge> length (vch s) then
        (if nReadPosNext > length (vch s) then Inl StreamEnd
         else Inr \<lparr>vch = [], nReadPos = 0\<rparr>)
      else Inr (s\<lparr>nReadPos := nReadPosNext\<rparr>))"

definition stream_write :: "CDataStream \<Rightarrow> bytes \<Rightarrow> CDataStream" where
  "stream_write s pch = s\<lparr>vch := vch s @ pch\<rparr>"

definition stream_GetAndClear :: "CDataStream \<Rightarrow> bytes \<Rightarrow> bytes \<times> CDataStream" where
  "stream_GetAndClear s data = (data @ drop (nReadPos s) (vch s), stream_clear s)"

subsection \<open>The byte queue the stream implements\<close>

definition pending :: "CDataStream \<Rightarrow> bytes" where
  "pending s = drop (nReadPos s) (vch s)"

definition stream_inv :: "CDataStream \<Rightarrow> bool" where
  "stream_inv s \<longleftrightarrow> nReadPos s \<le> length (vch s) \<and> length (vch s) < 2 ^ 32"

text \<open>
  The interface the deserializers use: \<open>pull\<close> returns a prefix of the queue or fails when
  the queue is too short, \<open>push\<close> appends. \<open>fits\<close> bounds what one call may ask for.
\<close>

locale byte_queue =
  fixes queue :: "'s \<Rightarrow> bytes"
    and inv :: "'s \<Rightarrow> bool"
    and fits :: "'s \<Rightarrow> nat \<Rightarrow> bool"
    and push :: "'s \<Rightarrow> bytes \<Rightarrow> 's"
    and pull :: "'s \<Rightarrow> nat \<Rightarrow> 'e + bytes \<times> 's"
    and end_err :: 'e
  assumes pull_ok: "inv s \<Longrightarrow> fits s k \<Longrightarrow> k \<le> length (queue s) \<Longrightarrow>
      \<exists>s'. pull s k = Inr (take k (queue s), s') \<and> queue s' = drop k (queue s) \<and> inv s'"
    and pull_end: "inv s \<Longrightarrow> fits s k \<Longrightarrow> length (queue s) < k \<Longrightarrow> pull s k = Inl end_err"
    and fits_less: "inv s \<Longrightarrow> k \<le> length (queue s) \<Longrightarrow> fits s k"
    and push_queue: "inv s \<Longrightarrow> queue (push s d) = queue s @ d"
begin

fun pulls :: "'s \<Rightarrow> nat list \<Rightarrow> 'e + bytes list \<times> 's" where
  "pulls s [] = Inr ([], s)"
| "pulls s (k # ks) =
     bindE (pull s k) (\<lambda>(d, s'). bindE (pulls s' ks) (\<lambda>(ds, s''). Inr (d # ds, s'')))"

lemma pulls_concat:
  assumes "inv s" "queue s = concat ds @ rest"
  shows "\<exists>s'. pulls s (map length ds) = Inr (ds, s') \<and> queue s' = rest \<and> inv s'"
  using assms
proof (induction ds arbitrary: s)
  case (Cons d ds)
  have "length d \<le> length (queue s)" using Cons.prems by simp
  then obtain s' where s': "pull s (length d) = Inr (take (length d) (queue s), s')"
      "queue s' = drop (length d) (queue s)" "inv s'"
    using pull_ok [OF Cons.prems(1)] fits_less [OF Cons.prems(1)] by blast
  then have "queue s' = concat ds @ rest" "take (length d) (queue s) = d"
    using Cons.prems(2) by auto
  with Cons.IH [OF s'(3)] s'(1) show ?case by force
qed simp

end

lemma stream_read_ok:
  assumes "stream_inv s" "k \<le> length (pending s)"
  shows "\<exists>s'. stream_read s k = Inr (take k (pending s), s') \<and>
    pending s' = drop k (pending s) \<and> stream_inv s'"
  using assms
  by (auto simp: stream_read_def stream_memcpy_def u32_add_def pending_def stream_inv_def Let_def add.commute)

lemma stream_read_end:
  assumes "stream_inv s" "nReadPos s + k < 2 ^ 32" "length (pending s) < k"
  shows "stream_read s k = Inl StreamEnd"
  using assms by (auto simp: stream_read_def u32_add_def pending_def stream_inv_def Let_def)

interpretation cds: byte_queue pending stream_inv "\<lambda>s k. nReadPos s + k < 2 ^ 32"
    stream_write stream_read StreamEnd
proof (unfold_locales, goal_cases)
  case (1 s k)
  then show ?case by (intro stream_read_ok)
next
  case (2 s k)
  then show ?case by (intro stream_read_end)
next
  case (3 s k)
  then show ?case by (auto simp: pending_def stream_inv_def)
next
  case (4 s d)
  then show ?case by (auto simp: pending_def stream_inv_def stream_write_def)
qed

lemma pending_insert:
  assumes "stream_inv s" "nReadPos s \<le> it" "it \<le> length (vch s)"
  shows "pending (stream_insert s it d) =
    take (it - nReadPos s) (pending s) @ d @ drop (it - nReadPos s) (pending s)"
  using assms by (auto simp: pending_def stream_inv_def stream_insert_def Let_def take_drop min_def)

lemma pending_erase1:
  assumes "stream_inv s" "nReadPos s \<le> it" "it < length (vch s)"
  shows "pending (stream_erase1 s it) =
      take (it - nReadPos s) (pending s) @ drop (it - nReadPos s + 1) (pending s)"
    and "stream_inv (stream_erase1 s it)"
  using assms
  by (auto simp: pending_def stream_inv_def stream_erase1_def u32_add_def Let_def take_drop min_def)

lemma pending_erase:
  assumes "stream_inv s" "nReadPos s \<le> from" "from \<le> uptil" "uptil \<le> length (vch s)"
  shows "pending (stream_erase s from uptil) =
      take (from - nReadPos s) (pending s) @ drop (uptil - nReadPos s) (pending s)"
    and "stream_inv (stream_erase s from uptil)"
  using assms
  by (auto simp: pending_def stream_inv_def stream_erase_def Let_def take_drop min_def)

lemma pending_simple_ops [simp]:
  "pending (stream_init d) = d"
  "pending (stream_clear s) = []"
  "pending (stream_Compact s) = pending s"
  "stream_str s = pending s"
  "stream_size s = length (pending s)"
  by (simp_all add: pending_def stream_init_def stream_clear_def stream_Compact_def stream_str_def
      stream_size_def)

lemma stream_Rewind_read:
  assumes "stream_inv s" "k < length (pending s)" "stream_read s k = Inr (d, s')"
  shows "stream_Rewind s' k = (True, s)"
proof -
  have "nReadPos s + k < length (vch s)" and "length (vch s) < 2 ^ 32"
    using assms by (auto simp: pending_def stream_inv_def)
  then have "(nReadPos s + k) mod 4294967296 = nReadPos s + k" by simp
  then show ?thesis using assms \<open>nReadPos s + k < length (vch s)\<close>
    by (auto simp: stream_Rewind_def stream_read_def stream_memcpy_def u32_add_def)
qed

text \<open>C28: reading through the stream object is reading from the pending bytes.\<close>

theorem stream_read_refines:
  assumes "stream_inv s" "nReadPos s + k < 2 ^ 32"
  shows "case stream_read s k of
      Inl e \<Rightarrow> e = StreamEnd \<and> read_bytes k (pending s) = Inl EndOfData
    | Inr (d, s') \<Rightarrow> read_bytes k (pending s) = Inr (d, pending s') \<and> stream_inv s'"
proof (cases "k \<le> length (pending s)")
  case True
  then show ?thesis using cds.pull_ok [OF assms True] by (auto simp: read_bytes_def)
next
  case False
  then show ?thesis using cds.pull_end [OF assms] by (simp add: read_bytes_def)
qed

theorem stream_read_refines_witness:
  "read_bytes 2 (pending \<lparr>vch = [1, 2, 3, 4], nReadPos = 1\<rparr>) = Inr ([2, 3], [4])"
  using stream_read_refines [of "\<lparr>vch = [1, 2, 3, 4], nReadPos = 1\<rparr>" 2]
  by (simp add: stream_inv_def stream_read_def stream_memcpy_def u32_add_def pending_def)

end
