(* ===== verification/Base_Uint.thy ===== *)
theory Base_Uint
  imports Serialize
begin

section \<open>Fixed-width unsigned integers (uint256.h, uint256.cpp)\<close>

text \<open>
  \<open>base_uint<BITS>\<close> keeps \<open>WIDTH = BITS / 32\<close> limbs of 32 bits, least significant first:
  here a list of limbs, the width being its length. Each operator is translated as the loop
  over the limbs it is in the code, with its 64-bit carries; the lemmas show that the value
  (\<open>uval\<close>) of the result is that of arithmetic modulo \<open>2 ^ BITS\<close>, and that on
  eight limbs the operators are those of \<open>256 word\<close>, the type \<open>uint256\<close> of the other theories.
\<close>

type_synonym limbs = "u32 list"
type_synonym uint256 = "256 word"
type_synonym uint160 = "160 word"

datatype uint_error = DivisionByZero | WrongSize

fun uval :: "limbs \<Rightarrow> nat" where
  "uval [] = 0"
| "uval (x # xs) = unat x + 4294967296 * uval xs"

subsection \<open>Construction and bitwise operators\<close>

definition bu_zero :: "nat \<Rightarrow> limbs" where
  "bu_zero W = replicate W 0"

definition bu_of_u64 :: "nat \<Rightarrow> u64 \<Rightarrow> limbs" where
  "bu_of_u64 W b = ucast b # ucast (drop_bit 32 b) # replicate (W - 2) 0"

definition bu_IsNull :: "limbs \<Rightarrow> bool" where
  "bu_IsNull pn \<longleftrightarrow> list_all (\<lambda>x. x = 0) pn"

definition bu_not :: "limbs \<Rightarrow> limbs" where
  "bu_not pn = map NOT pn"

definition bu_xor :: "limbs \<Rightarrow> limbs \<Rightarrow> limbs" where
  "bu_xor a b = map2 (XOR) a b"

definition bu_and :: "limbs \<Rightarrow> limbs \<Rightarrow> limbs" where
  "bu_and a b = map2 (AND) a b"

definition bu_or :: "limbs \<Rightarrow> limbs \<Rightarrow> limbs" where
  "bu_or a b = map2 (OR) a b"

subsection \<open>Addition, negation, increment and decrement\<close>

fun bu_inc :: "limbs \<Rightarrow> limbs" where
  "bu_inc [] = []"
| "bu_inc (x # xs) = (x + 1) # (if x + 1 = 0 then bu_inc xs else xs)"

fun bu_dec :: "limbs \<Rightarrow> limbs" where
  "bu_dec [] = []"
| "bu_dec (x # xs) = (x - 1) # (if x - 1 = - 1 then bu_dec xs else xs)"

definition bu_neg :: "limbs \<Rightarrow> limbs" where
  "bu_neg pn = bu_inc (bu_not pn)"

fun add_loop :: "u64 \<Rightarrow> limbs \<Rightarrow> limbs \<Rightarrow> limbs" where
  "add_loop carry (x # xs) (y # ys) =
     (let n = carry + ucast x + ucast y
      in ucast (n AND 0xffffffff) # add_loop (drop_bit 32 n) xs ys)"
| "add_loop carry _ _ = []"

definition bu_add :: "limbs \<Rightarrow> limbs \<Rightarrow> limbs" where
  "bu_add a b = add_loop 0 a b"

definition bu_sub :: "limbs \<Rightarrow> limbs \<Rightarrow> limbs" where
  "bu_sub a b = bu_add a (bu_neg b)"

definition bu_add64 :: "limbs \<Rightarrow> u64 \<Rightarrow> limbs" where
  "bu_add64 a b64 = bu_add a (bu_of_u64 (length a) b64)"

definition bu_sub64 :: "limbs \<Rightarrow> u64 \<Rightarrow> limbs" where
  "bu_sub64 a b64 = bu_add a (bu_neg (bu_of_u64 (length a) b64))"

subsection \<open>Multiplication\<close>

fun mul32_loop :: "u64 \<Rightarrow> u32 \<Rightarrow> limbs \<Rightarrow> limbs" where
  "mul32_loop carry b32 [] = []"
| "mul32_loop carry b32 (x # xs) =
     (let n = carry + ucast b32 * ucast x
      in ucast (n AND 0xffffffff) # mul32_loop (drop_bit 32 n) b32 xs)"

definition bu_mul32 :: "limbs \<Rightarrow> u32 \<Rightarrow> limbs" where
  "bu_mul32 a b32 = mul32_loop 0 b32 a"

text \<open>
  The inner loop of the product: \<open>pn[i + j] += a.pn[j] * b.pn[i]\<close> for \<open>i + j < WIDTH\<close>. The
  list is \<open>pn\<close> from index \<open>j\<close> on, which is what the rows from \<open>j\<close> on read and write.
\<close>

fun mul_row :: "u64 \<Rightarrow> u32 \<Rightarrow> limbs \<Rightarrow> limbs \<Rightarrow> limbs" where
  "mul_row carry aj (p # ps) (b # bs) =
     (let n = carry + ucast p + ucast aj * ucast b
      in ucast (n AND 0xffffffff) # mul_row (drop_bit 32 n) aj ps bs)"
| "mul_row carry aj ps _ = ps"

fun mul_rows :: "limbs \<Rightarrow> limbs \<Rightarrow> limbs \<Rightarrow> limbs" where
  "mul_rows [] b pn = pn"
| "mul_rows (aj # as) b pn =
     (case mul_row 0 aj pn b of [] \<Rightarrow> [] | p # ps \<Rightarrow> p # mul_rows as b ps)"

definition bu_mul :: "limbs \<Rightarrow> limbs \<Rightarrow> limbs" where
  "bu_mul a b = mul_rows a b (bu_zero (length a))"

subsection \<open>Shifts\<close>

definition shl_step :: "limbs \<Rightarrow> nat \<Rightarrow> nat \<Rightarrow> limbs \<Rightarrow> nat \<Rightarrow> limbs" where
  "shl_step a k shift pn i =
     (let pn1 = (if i + k + 1 < length a \<and> shift \<noteq> 0
                 then pn[i + k + 1 := pn ! (i + k + 1) OR drop_bit (32 - shift) (a ! i)] else pn)
      in if i + k < length a then pn1[i + k := pn1 ! (i + k) OR push_bit shift (a ! i)] else pn1)"

definition bu_shl :: "limbs \<Rightarrow> nat \<Rightarrow> limbs" where
  "bu_shl a shift =
     foldl (shl_step a (shift div 32) (shift mod 32)) (bu_zero (length a)) [0..<length a]"

definition shr_step :: "limbs \<Rightarrow> nat \<Rightarrow> nat \<Rightarrow> limbs \<Rightarrow> nat \<Rightarrow> limbs" where
  "shr_step a k shift pn i =
     (let pn1 = (if i \<ge> k + 1 \<and> shift \<noteq> 0
                 then pn[i - k - 1 := pn ! (i - k - 1) OR push_bit (32 - shift) (a ! i)] else pn)
      in if i \<ge> k then pn1[i - k := pn1 ! (i - k) OR drop_bit shift (a ! i)] else pn1)"

definition bu_shr :: "limbs \<Rightarrow> nat \<Rightarrow> limbs" where
  "bu_shr a shift =
     foldl (shr_step a (shift div 32) (shift mod 32)) (bu_zero (length a)) [0..<length a]"

subsection \<open>Comparison and bit length\<close>

fun cmp_loop :: "limbs \<Rightarrow> limbs \<Rightarrow> int" where
  "cmp_loop (x # xs) (y # ys) = (if x < y then -1 else if x > y then 1 else cmp_loop xs ys)"
| "cmp_loop _ _ = 0"

definition bu_CompareTo :: "limbs \<Rightarrow> limbs \<Rightarrow> int" where
  "bu_CompareTo a b = cmp_loop (rev a) (rev b)"

definition bu_EqualTo :: "limbs \<Rightarrow> u64 \<Rightarrow> bool" where
  "bu_EqualTo pn b \<longleftrightarrow>
     list_all (\<lambda>x. x = 0) (drop 2 pn) \<and>
     ucast (pn ! 1) = drop_bit 32 b \<and> ucast (pn ! 0) = b AND 0xffffffff"

fun limb_bits :: "u32 \<Rightarrow> nat \<Rightarrow> nat" where
  "limb_bits x 0 = 1"
| "limb_bits x (Suc b) = (if x AND push_bit (Suc b) 1 \<noteq> 0 then Suc b + 1 else limb_bits x b)"

fun bits_loop :: "limbs \<Rightarrow> nat \<Rightarrow> nat" where
  "bits_loop pn 0 = 0"
| "bits_loop pn (Suc pos) =
     (if pn ! pos \<noteq> 0 then 32 * pos + limb_bits (pn ! pos) 31 else bits_loop pn pos)"

definition bu_bits :: "limbs \<Rightarrow> nat" where
  "bu_bits pn = bits_loop pn (length pn)"

subsection \<open>Division\<close>

fun div_loop :: "nat \<Rightarrow> limbs \<Rightarrow> limbs \<Rightarrow> limbs \<Rightarrow> limbs" where
  "div_loop 0 num dv pn = pn"
| "div_loop (Suc shift) num dv pn =
     (if bu_CompareTo num dv \<ge> 0
      then div_loop shift (bu_sub num dv) (bu_shr dv 1)
             (pn[shift div 32 := pn ! (shift div 32) OR push_bit (shift mod 32) 1])
      else div_loop shift num (bu_shr dv 1) pn)"

definition bu_div :: "limbs \<Rightarrow> limbs \<Rightarrow> uint_error + limbs" where
  "bu_div a b =
     (let num_bits = bu_bits a; div_bits = bu_bits b in
      if div_bits = 0 then Inl DivisionByZero
      else if div_bits > num_bits then Inr (bu_zero (length a))
      else (let shift = num_bits - div_bits
            in Inr (div_loop (Suc shift) a (bu_shl b shift) (bu_zero (length a)))))"

subsection \<open>The compact form of difficulty targets\<close>

definition bu_GetLow64 :: "limbs \<Rightarrow> u64" where
  "bu_GetLow64 pn = ucast (pn ! 0) OR push_bit 32 (ucast (pn ! 1))"

text \<open>\<open>SetCompact\<close> returns the number with the flags it sets through its pointers.\<close>

definition SetCompact :: "u32 \<Rightarrow> limbs \<times> bool \<times> bool" where
  "SetCompact nCompact =
     (let nSize = unat (drop_bit 24 nCompact);
          nWord0 = nCompact AND 0x007fffff;
          nWord = (if nSize \<le> 3 then drop_bit (8 * (3 - nSize)) nWord0 else nWord0);
          r = (if nSize \<le> 3 then bu_of_u64 8 (ucast nWord)
               else bu_shl (bu_of_u64 8 (ucast nWord)) (8 * (nSize - 3)));
          fNegative = (nWord \<noteq> 0 \<and> nCompact AND 0x00800000 \<noteq> 0);
          fOverflow = (nWord \<noteq> 0 \<and> (nSize > 34 \<or> (nWord > 0xff \<and> nSize > 33) \<or> (nWord > 0xffff \<and> nSize > 32)))
      in (r, fNegative, fOverflow))"

text \<open>\<open>None\<close> is a failed assertion.\<close>

definition GetCompact :: "limbs \<Rightarrow> bool \<Rightarrow> u32 option" where
  "GetCompact x fNegative =
     (let nSize0 = (bu_bits x + 7) div 8;
          c0 = (if nSize0 \<le> 3 then ucast (push_bit (8 * (3 - nSize0)) (bu_GetLow64 x))
                else ucast (bu_GetLow64 (bu_shr x (8 * (nSize0 - 3))))) :: u32;
          (c1, nSize) = (if c0 AND 0x00800000 \<noteq> 0 then (drop_bit 8 c0, nSize0 + 1) else (c0, nSize0))
      in if c1 AND NOT 0x007fffff \<noteq> 0 \<or> \<not> nSize < 256 then None
         else (let c2 = c1 OR push_bit 24 (word_of_nat nSize)
               in Some (c2 OR (if fNegative \<and> c2 AND 0x007fffff \<noteq> 0 then 0x00800000 else 0))))"

subsection \<open>Bytes\<close>

definition bu_bytes :: "limbs \<Rightarrow> bytes" where
  "bu_bytes pn = concat (map (\<lambda>x. le_enc 4 (unat x)) pn)"

fun limbs_of_bytes :: "nat \<Rightarrow> bytes \<Rightarrow> limbs" where
  "limbs_of_bytes 0 bs = []"
| "limbs_of_bytes (Suc W) bs = word_of_nat (le_dec (take 4 bs)) # limbs_of_bytes W (drop 4 bs)"

definition bu_of_vch :: "nat \<Rightarrow> bytes \<Rightarrow> uint_error + limbs" where
  "bu_of_vch W v = (if length v \<noteq> 4 * W then Inl WrongSize else Inr (limbs_of_bytes W v))"

definition trim256 :: "limbs \<Rightarrow> limbs" where
  "trim256 pn = take 8 pn"

subsection \<open>Values of limb lists\<close>

lemma unat_u32_less: "unat (x :: u32) < 4294967296"
  using unsigned_less [of x] by simp

lemma unat_u64_less: "unat (x :: u64) < 18446744073709551616"
  using unsigned_less [of x] by simp

lemma unat_u64_div: "unat (x :: u64) div 4294967296 < 4294967296"
  by (rule less_mult_imp_div_less) (simp add: unat_u64_less)

lemma unat_lo32 [simp]: "unat (ucast (n AND 0xffffffff :: u64) :: u32) = unat n mod 4294967296"
proof -
  have m: "(0xffffffff :: u64) = mask 32" by (simp add: mask_eq_exp_minus_1)
  have "unat (n AND 0xffffffff :: u64) = unat n mod 4294967296"
    unfolding m take_bit_eq_mask [symmetric]
    by (simp only: unsigned_take_bit_eq) (simp add: take_bit_eq_mod)
  then show ?thesis by (simp add: unsigned_ucast_eq take_bit_eq_mod)
qed

lemma unat_hi32 [simp]: "unat (drop_bit 32 n :: u64) = unat n div 4294967296"
  by (simp only: unat_drop_bit_eq) (simp add: drop_bit_eq_div)

lemma unat_ucast_32_64 [simp]: "unat (ucast (x :: u32) :: u64) = unat x"
proof -
  have "unat x < 18446744073709551616" using unat_u32_less [of x] by linarith
  then show ?thesis by (simp add: unsigned_ucast_eq take_bit_eq_mod)
qed

lemma uval_less: "uval xs < 4294967296 ^ length xs"
proof (induction xs)
  case (Cons x xs)
  from digit_less [OF unat_u32_less Cons.IH] show ?case by simp
qed simp

lemma limb_step: "n mod B + B * ((n div B + R) mod P) = (n + B * R) mod (B * P)" 
  if "0 < B" for n B R P :: nat
proof -
  have "(n + B * R) div B = n div B + R" using that by simp
  then show ?thesis by (simp add: mod_mult2_eq)
qed

lemma length_add_loop: "length (add_loop c xs ys) = min (length xs) (length ys)"
  by (induction c xs ys rule: add_loop.induct) (auto simp: Let_def)

lemma unat_add3:
  "unat (c :: u64) < 4294967296 \<Longrightarrow> unat (c + ucast (x :: u32) + ucast (y :: u32)) = unat c + unat x + unat y"
proof -
  assume c: "unat c < 4294967296"
  have s: "unat c + unat x + unat y < 18446744073709551616"
    using c unat_u32_less [of x] unat_u32_less [of y] by linarith
  have "unat (c + ucast x + ucast y) = (unat c + unat x + unat y) mod 18446744073709551616"
    by (simp add: unat_word_ariths(1) mod_add_left_eq)
  then show ?thesis using s by (simp only: mod_less)
qed

lemma uval_add_loop:
  "length xs = length ys \<Longrightarrow> unat c < 4294967296 \<Longrightarrow>
   uval (add_loop c xs ys) = (unat c + uval xs + uval ys) mod 4294967296 ^ length xs"
proof (induction c xs ys rule: add_loop.induct)
  case (1 c x xs y ys)
  let ?n = "c + ucast x + ucast y :: u64"
  have n: "unat ?n = unat c + unat x + unat y" using 1 by (intro unat_add3)
  have "unat ?n div 4294967296 < 4294967296" by (rule unat_u64_div)
  then have IH: "uval (add_loop (drop_bit 32 ?n) xs ys) =
      (unat ?n div 4294967296 + (uval xs + uval ys)) mod 4294967296 ^ length xs"
    using 1 by (simp add: Let_def add.assoc)
  have "uval (add_loop c (x # xs) (y # ys)) = unat ?n mod 4294967296 + 4294967296 * 
      ((unat ?n div 4294967296 + (uval xs + uval ys)) mod 4294967296 ^ length xs)"
    using IH by (simp only: add_loop.simps Let_def uval.simps unat_lo32)
  also have "\<dots> = (unat ?n + 4294967296 * (uval xs + uval ys)) mod (4294967296 * 4294967296 ^ length xs)"
    by (rule limb_step) simp
  finally show ?case using n by (simp add: algebra_simps)
qed auto

lemma length_bu_add: "length (bu_add a b) = min (length a) (length b)"
  by (simp add: bu_add_def length_add_loop)

lemma uval_bu_add:
  "length a = length b \<Longrightarrow> uval (bu_add a b) = (uval a + uval b) mod 4294967296 ^ length a"
  by (simp add: bu_add_def uval_add_loop)

lemma unat_mul_add3:
  "unat (c :: u64) + unat p \<le> 8589934590 \<Longrightarrow> 
   unat (c + p + ucast (x :: u32) * ucast (y :: u32)) = unat c + unat p + unat x * unat y"
proof -
  assume c: "unat c + unat p \<le> 8589934590"
  have x: "unat x \<le> 4294967295" and y: "unat y \<le> 4294967295"
    using unat_u32_less [of x] unat_u32_less [of y] by linarith+
  have xy: "unat x * unat y \<le> 4294967295 * 4294967295" by (rule mult_le_mono [OF x y])
  have s: "unat c + unat p + unat x * unat y < 18446744073709551616" using xy c by linarith
  have "unat (c + p + ucast x * ucast y) = (unat c + unat p + unat x * unat y) mod 18446744073709551616"
    by (simp add: unat_word_ariths(1,2) mod_add_left_eq mod_add_right_eq)
  then show ?thesis using s by (simp only: mod_less)
qed

lemma length_mul32_loop [simp]: "length (mul32_loop c b xs) = length xs"
  by (induction c b xs rule: mul32_loop.induct) (auto simp: Let_def)

lemma uval_mul32_loop:
  "unat c < 4294967296 \<Longrightarrow>
   uval (mul32_loop c b xs) = (unat c + unat b * uval xs) mod 4294967296 ^ length xs"
proof (induction c b xs rule: mul32_loop.induct)
  case (2 c b x xs)
  let ?n = "c + ucast b * ucast x :: u64"
  have n: "unat ?n = unat c + unat b * unat x" using unat_mul_add3 [of c 0 b x] 2 by simp
  have "unat ?n div 4294967296 < 4294967296" by (rule unat_u64_div)
  then have IH: "uval (mul32_loop (drop_bit 32 ?n) b xs) =
      (unat ?n div 4294967296 + (unat b * uval xs)) mod 4294967296 ^ length xs"
    using 2 by (simp add: Let_def)
  have "uval (mul32_loop c b (x # xs)) = unat ?n mod 4294967296 + 4294967296 * 
      ((unat ?n div 4294967296 + (unat b * uval xs)) mod 4294967296 ^ length xs)"
    using IH by (simp only: mul32_loop.simps Let_def uval.simps unat_lo32)
  also have "\<dots> = (unat ?n + 4294967296 * (unat b * uval xs)) mod (4294967296 * 4294967296 ^ length xs)"
    by (rule limb_step) simp
  finally show ?case using n by (simp add: algebra_simps)
qed auto

lemma length_mul_row [simp]: "length (mul_row c a ps bs) = length ps"
  by (induction c a ps bs rule: mul_row.induct) (auto simp: Let_def)

lemma uval_mul_row:
  "length ps \<le> length bs \<Longrightarrow> unat c < 4294967296 \<Longrightarrow>
   uval (mul_row c a ps bs) = (unat c + uval ps + unat a * uval bs) mod 4294967296 ^ length ps"
proof (induction c a ps bs rule: mul_row.induct)
  case (1 c a p ps b bs)
  let ?n = "c + ucast p + ucast a * ucast b :: u64"
  have n: "unat ?n = unat c + unat p + unat a * unat b" 
    using unat_mul_add3 [of c "ucast p" a b] 1 unat_u32_less [of p] by simp
  have "unat ?n div 4294967296 < 4294967296" by (rule unat_u64_div)
  then have IH: "uval (mul_row (drop_bit 32 ?n) a ps bs) =
      (unat ?n div 4294967296 + (uval ps + unat a * uval bs)) mod 4294967296 ^ length ps"
    using 1 by (simp add: Let_def add.assoc)
  have "uval (mul_row c a (p # ps) (b # bs)) = unat ?n mod 4294967296 + 4294967296 * 
      ((unat ?n div 4294967296 + (uval ps + unat a * uval bs)) mod 4294967296 ^ length ps)"
    using IH by (simp only: mul_row.simps Let_def uval.simps unat_lo32)
  also have "\<dots> = (unat ?n + 4294967296 * (uval ps + unat a * uval bs)) mod (4294967296 * 4294967296 ^ length ps)"
    by (rule limb_step) simp
  finally show ?case using n by (simp add: algebra_simps)
qed auto

lemma length_mul_rows [simp]: "length (mul_rows as b pn) = length pn"
  by (induction as b pn rule: mul_rows.induct) (auto split: list.splits dest: arg_cong [where f = length])

lemma uval_mul_rows:
  "length pn \<le> length b \<Longrightarrow>
   uval (mul_rows as b pn) = (uval pn + uval as * uval b) mod 4294967296 ^ length pn"
proof (induction as arbitrary: pn)
  case Nil
  then show ?case using uval_less [of pn] by simp
next
  case (Cons a as)
  show ?case
  proof (cases "mul_row 0 a pn b")
    case Nil
    then have "length pn = 0" using length_mul_row [of 0 a pn b] by simp
    then show ?thesis using Nil by simp
  next
    case (Cons p ps)
    have len: "length pn = Suc (length ps)" using length_mul_row [of 0 a pn b] Cons by simp
    have row: "unat p + 4294967296 * uval ps = (uval pn + unat a * uval b) mod (4294967296 * 4294967296 ^ length ps)"
      using uval_mul_row [of pn b 0 a] Cons.prems Cons len by simp
    have IH: "uval (mul_rows as b ps) = (uval ps + uval as * uval b) mod 4294967296 ^ length ps"
      using Cons.prems len by (intro Cons.IH) simp
    have "uval (mul_rows (a # as) b pn) = unat p mod 4294967296 + 4294967296 * 
        ((unat p div 4294967296 + (uval ps + uval as * uval b)) mod 4294967296 ^ length ps)"
      using Cons IH unat_u32_less [of p] by (simp only: mul_rows.simps list.case uval.simps mod_less div_less add_0)
    also have "\<dots> = (unat p + 4294967296 * (uval ps + uval as * uval b)) mod (4294967296 * 4294967296 ^ length ps)"
      by (rule limb_step) simp
    also have "\<dots> = ((unat p + 4294967296 * uval ps) + 4294967296 * (uval as * uval b)) mod (4294967296 * 4294967296 ^ length ps)"
      by (simp add: algebra_simps)
    also have "\<dots> = ((uval pn + unat a * uval b) + 4294967296 * (uval as * uval b)) mod (4294967296 * 4294967296 ^ length ps)"
      by (simp only: row mod_add_left_eq)
    finally show ?thesis using len by (simp add: algebra_simps)
  qed
qed

lemma uval_replicate [simp]: "uval (replicate n 0) = 0"
  by (induction n) auto

lemma length_bu_zero [simp]: "length (bu_zero W) = W" "uval (bu_zero W) = 0"
  by (simp_all add: bu_zero_def)

lemma uval_bu_mul:
  "length a = length b \<Longrightarrow> uval (bu_mul a b) = (uval a * uval b) mod 4294967296 ^ length a"
  by (simp add: bu_mul_def uval_mul_rows)

lemma uval_bu_mul32: "uval (bu_mul32 a b) = (uval a * unat b) mod 4294967296 ^ length a"
  by (simp add: bu_mul32_def uval_mul32_loop mult.commute)

lemma length_bu_not [simp]: "length (bu_not a) = length a"
  by (simp add: bu_not_def)

lemma length_bu_inc [simp]: "length (bu_inc a) = length a"
  by (induction a) auto

lemma length_bu_dec [simp]: "length (bu_dec a) = length a"
  by (induction a) auto

lemma length_bu_neg [simp]: "length (bu_neg a) = length a"
  by (simp add: bu_neg_def)

lemma unat_minus_1_u32: "unat (- 1 :: u32) = 4294967295"
  by (simp add: unsigned_minus_1_eq_mask mask_eq_exp_minus_1)

lemma uval_bu_not: "uval (bu_not a) + uval a + 1 = 4294967296 ^ length a"
proof (induction a)
  case (Cons x xs)
  have x: "unat (NOT x) + unat x = 4294967295"
  proof -
    have "NOT x = - x - 1" by (simp add: not_eq_complement)
    then have "uint (NOT x) = (- uint x - 1) mod 4294967296"
      by (simp add: uint_word_ariths mod_diff_left_eq)
    also have "\<dots> = (4294967295 - uint x) mod 4294967296"
      by (simp add: mod_eq_dvd_iff)
    also have "\<dots> = 4294967295 - uint x"
    proof (rule mod_pos_pos_trivial)
      have "uint x < 4294967296" "0 \<le> uint x" using uint_bounded [of x] by simp_all
      then show "0 \<le> 4294967295 - uint x" "4294967295 - uint x < 4294967296" by linarith+
    qed
    finally have "uint (NOT x) + uint x = 4294967295" by simp
    then show ?thesis by (simp only: uint_nat flip: of_nat_add of_nat_eq_iff [where 'a = int])
  qed
  have "uval (bu_not (x # xs)) + uval (x # xs) + 1 =
      (unat (NOT x) + unat x) + 1 + 4294967296 * (uval (bu_not xs) + uval xs)"
    by (simp add: bu_not_def algebra_simps)
  also have "\<dots> = 4294967296 * (uval (bu_not xs) + uval xs + 1)"
    by (simp only: x) simp
  finally show ?case by (simp only: Cons.IH) simp
qed (simp add: bu_not_def)

lemma unat_inc32: "unat (x + 1 :: u32) = (if x + 1 = 0 then 0 else unat x + 1)" 
  "x + 1 = (0 :: u32) \<Longrightarrow> unat x = 4294967295"
proof -
  show "x + 1 = (0 :: u32) \<Longrightarrow> unat x = 4294967295"
  proof -
    assume "x + 1 = 0"
    then have "x = - 1" by (simp add: eq_neg_iff_add_eq_0)
    then show ?thesis by (simp only: unat_minus_1_u32)
  qed
  show "unat (x + 1) = (if x + 1 = 0 then 0 else unat x + 1)"
    by (auto simp: unatSuc add.commute [of x])
qed

lemma uval_bu_inc: "uval (bu_inc a) = (uval a + 1) mod 4294967296 ^ length a"
proof (induction a)
  case (Cons x xs)
  show ?case
  proof (cases "x + 1 = 0")
    case True
    then have x: "unat x = 4294967295" by (rule unat_inc32)
    have "(1 + uval xs) mod 4294967296 ^ length xs * 4294967296 =
        (4294967296 * (uval xs + 1)) mod (4294967296 * 4294967296 ^ length xs)"
      by (simp only: mult_mod_right mult.commute add.commute)
    then show ?thesis using True x Cons.IH by (simp add: algebra_simps)
  next
    case False
    then have u: "unat (x + 1) = unat x + 1" by (simp only: unat_inc32 if_False)
    have "unat x + 1 < 4294967296" using unat_u32_less [of "x + 1"] u by simp
    from digit_less [OF this uval_less [of xs]] show ?thesis using False u by simp
  qed
qed simp

lemma uval_bu_dec: "uval (bu_dec a) = (uval a + (4294967296 ^ length a - 1)) mod 4294967296 ^ length a"
proof (induction a)
  case (Cons x xs)
  let ?B = "4294967296 :: nat" and ?P = "4294967296 ^ length xs :: nat"
  have P: "0 < ?P" by simp
  show ?case
  proof (cases "x = 0")
    case True
    have "?B - 1 + ?B * ((uval xs + (?P - 1)) mod ?P) = (?B - 1 + ?B * (uval xs + (?P - 1))) mod (?B * ?P)"
      using limb_step [of ?B "?B - 1" "uval xs + (?P - 1)" ?P] by simp
    also have "?B - 1 + ?B * (uval xs + (?P - 1)) = ?B * uval xs + (?B * ?P - 1)"
      using P by (cases ?P) (simp_all add: algebra_simps)
    finally have e: "?B - 1 + ?B * ((uval xs + (?P - 1)) mod ?P) = (?B * uval xs + (?B * ?P - 1)) mod (?B * ?P)" .
    have "bu_dec (x # xs) = - 1 # bu_dec xs" using True by simp
    then have "uval (bu_dec (x # xs)) = ?B - 1 + ?B * ((uval xs + (?P - 1)) mod ?P)"
      using Cons.IH by (simp only: uval.simps unat_minus_1_u32)
    then show ?thesis using e True by simp
  next
    case False
    then have nz: "x - 1 \<noteq> - 1" by simp
    have u: "unat (x - 1) = unat x - 1" using False by (simp add: unat_minus_one)
    have pos: "0 < unat x" using False by (simp add: unat_gt_0)
    have lt: "unat x - 1 + ?B * uval xs < ?B * ?P"
      using unat_u32_less [of x] by (intro digit_less uval_less) simp
    have "bu_dec (x # xs) = (x - 1) # xs" using nz by (simp only: bu_dec.simps if_False)
    then have d: "uval (bu_dec (x # xs)) = unat x - 1 + ?B * uval xs" by (simp only: uval.simps u)
    have g: "0 < u \<Longrightarrow> 0 < q \<Longrightarrow> u + r + (q - 1) = (u - 1 + r) + q" for u r q :: nat by simp
    have "unat x + ?B * uval xs + (?B * ?P - 1) = (unat x - 1 + ?B * uval xs) + ?B * ?P"
      by (rule g [OF pos]) simp
    then show ?thesis using lt by (simp only: d uval.simps list.size power_Suc One_nat_def
      add_Suc_right add_0_right mod_add_self2 mod_less)
  qed
qed simp

lemma uval_bu_neg: "uval (bu_neg a) = (4294967296 ^ length a - uval a) mod 4294967296 ^ length a"
proof -
  have "uval (bu_not a) + 1 = 4294967296 ^ length a - uval a" using uval_bu_not [of a] by linarith
  then show ?thesis by (simp add: bu_neg_def uval_bu_inc)
qed

lemma length_bu_sub: "length (bu_sub a b) = min (length a) (length b)"
  by (simp add: bu_sub_def length_bu_add)

lemma uval_bu_sub:
  "length a = length b \<Longrightarrow>
   uval (bu_sub a b) = (uval a + (4294967296 ^ length a - uval b)) mod 4294967296 ^ length a"
  by (simp add: bu_sub_def uval_bu_add uval_bu_neg mod_add_right_eq)

lemma uval_bu_sub_le:
  "length a = length b \<Longrightarrow> uval b \<le> uval a \<Longrightarrow> uval (bu_sub a b) = uval a - uval b"
proof -
  assume l: "length a = length b" and le: "uval b \<le> uval a"
  have "uval a + (4294967296 ^ length a - uval b) = (uval a - uval b) + 4294967296 ^ length a"
    using le uval_less [of b] l by simp
  moreover have "uval a - uval b < 4294967296 ^ length a" using uval_less [of a] by simp
  ultimately show ?thesis using l by (simp add: uval_bu_sub)
qed

lemma length_bu_of_u64 [simp]: "2 \<le> W \<Longrightarrow> length (bu_of_u64 W b) = W"
  by (simp add: bu_of_u64_def)

lemma uval_bu_of_u64 [simp]: "uval (bu_of_u64 W b) = unat b"
proof -
  have "unat (ucast b :: u32) = unat b mod 4294967296"
    by (simp add: unsigned_ucast_eq take_bit_eq_mod)
  moreover have "unat (ucast (drop_bit 32 b) :: u32) = unat b div 4294967296"
    using unat_u64_div [of b]
    by (simp only: unsigned_ucast_eq unat_hi32 take_bit_eq_mod) simp
  ultimately show ?thesis by (simp only: bu_of_u64_def uval.simps uval_replicate) simp
qed

lemma uval_append: "uval (xs @ ys) = uval xs + 4294967296 ^ length xs * uval ys"
  by (induction xs) (auto simp: algebra_simps)

lemma uval_inj: "length a = length b \<Longrightarrow> uval a = uval b \<longleftrightarrow> a = b"
proof (induction a b rule: list_induct2)
  case (Cons x xs y ys)
  show ?case
    using digit_eq [OF unat_u32_less unat_u32_less, of x "uval xs" y "uval ys"] Cons.IH
    by (simp only: uval.simps word_unat_eq_iff list.inject)
qed simp

lemma uval_eq_0: "uval a = 0 \<longleftrightarrow> bu_IsNull a"
  by (induction a) (auto simp: bu_IsNull_def unat_eq_zero)

lemma bu_CompareTo_uval:
  "length a = length b \<Longrightarrow> bu_CompareTo a b =
     (if uval a < uval b then -1 else if uval a > uval b then 1 else 0)"
proof (induction a arbitrary: b rule: rev_induct)
  case (snoc x xs)
  obtain ys y where b: "b = ys @ [y]" and l: "length xs = length ys"
    using snoc.prems by (cases b rule: rev_cases) auto
  have c: "bu_CompareTo (xs @ [x]) (ys @ [y]) = (if x < y then -1 else if x > y then 1 else bu_CompareTo xs ys)"
    by (simp add: bu_CompareTo_def)
  have xs: "unat u < unat v \<Longrightarrow> uval cs + 4294967296 ^ length cs * unat u < uval ds + 4294967296 ^ length cs * unat v"
    for u v :: u32 and cs ds
    using digit_less [OF uval_less [of cs], of "unat u" "unat v"] by linarith
  consider "unat x < unat y" | "unat y < unat x" | "x = y" by (metis linorder_neqE_nat word_unat_eq_iff)
  then show ?case
  proof cases
    case 1
    then show ?thesis using xs [of x y xs ys] l by (simp add: c b uval_append word_less_nat_alt)
  next
    case 2
    then show ?thesis using xs [of y x ys xs] l by (simp add: c b uval_append word_less_nat_alt)
  next
    case 3
    then show ?thesis using snoc.IH [OF l] l c by (simp add: b uval_append)
  qed
qed (simp add: bu_CompareTo_def)

subsection \<open>Bits and shifts\<close>

lemma bit_low_high: "x < 2 ^ k \<Longrightarrow> bit (x + 2 ^ k * v) n \<longleftrightarrow> (if n < k then bit x n else bit v (n - k))"
  for x v :: nat
proof -
  assume x: "x < 2 ^ k"
  have e: "x + 2 ^ k * v = x OR push_bit k v"
  proof -
    have "x = take_bit k x" using x by (simp add: take_bit_nat_eq_self)
    then have "\<And>m. \<not> bit x m \<or> \<not> bit (push_bit k v) m" by (metis bit_push_bit_iff bit_take_bit_iff not_le)
    then have "x + push_bit k v = x OR push_bit k v" by (intro disjunctive_add) blast
    then show ?thesis by (simp add: push_bit_eq_mult mult.commute)
  qed
  have "x = take_bit k x" using x by (simp add: take_bit_nat_eq_self)
  then have "\<not> bit x n" if "k \<le> n" using that by (metis bit_take_bit_iff not_le)
  then show ?thesis by (auto simp: e bit_or_iff bit_push_bit_iff)
qed

lemma bit_uval: "bit (uval xs) n \<longleftrightarrow> n div 32 < length xs \<and> bit (xs ! (n div 32)) (n mod 32)"
proof (induction xs arbitrary: n)
  case (Cons x xs)
  have "bit (uval (x # xs)) n = (if n < 32 then bit (unat x) n else bit (uval xs) (n - 32))"
    using bit_low_high [of "unat x" 32 "uval xs" n] unat_u32_less [of x] by simp
  also have "\<dots> = (n div 32 < length (x # xs) \<and> bit ((x # xs) ! (n div 32)) (n mod 32))"
  proof (cases "n < 32")
    case True
    then show ?thesis by (simp add: bit_unsigned_iff)
  next
    case False
    then have "n div 32 = Suc ((n - 32) div 32)" "(n - 32) mod 32 = n mod 32"
      by (simp_all add: div_if mod_if)
    then show ?thesis using False Cons.IH by simp
  qed
  finally show ?case .
qed simp

lemma length_shl_step [simp]: "length (shl_step a k s pn i) = length pn"
  by (simp add: shl_step_def Let_def)

lemma length_shr_step [simp]: "length (shr_step a k s pn i) = length pn"
  by (simp add: shr_step_def Let_def)

lemma length_foldl_step: 
  "(\<And>pn i. length (f pn i) = length pn) \<Longrightarrow> length (foldl f pn xs) = length pn"
  by (induction xs arbitrary: pn) auto

lemma length_bu_shl [simp]: "length (bu_shl a s) = length a"
  by (simp add: bu_shl_def length_foldl_step)

lemma length_bu_shr [simp]: "length (bu_shr a s) = length a"
  by (simp add: bu_shr_def length_foldl_step)

definition shl_limb :: "limbs \<Rightarrow> nat \<Rightarrow> nat \<Rightarrow> nat \<Rightarrow> nat \<Rightarrow> u32" where
  "shl_limb a k s m j =
     (if k \<le> j \<and> j - k < m then push_bit s (a ! (j - k)) else 0) OR
     (if s \<noteq> 0 \<and> k + 1 \<le> j \<and> j - k - 1 < m then drop_bit (32 - s) (a ! (j - k - 1)) else 0)"

lemma shl_prefix:
  "m \<le> length a \<Longrightarrow> j < length a \<Longrightarrow>
   foldl (shl_step a k s) (bu_zero (length a)) [0..<m] ! j = shl_limb a k s m j"
proof (induction m arbitrary: j)
  case 0
  then show ?case by (simp add: shl_limb_def bu_zero_def)
next
  case (Suc m)
  let ?pn = "foldl (shl_step a k s) (bu_zero (length a)) [0..<m]"
  have len: "length ?pn = length a" by (simp add: length_foldl_step)
  have IH: "j < length a \<Longrightarrow> ?pn ! j = shl_limb a k s m j" for j using Suc by simp
  have "foldl (shl_step a k s) (bu_zero (length a)) [0..<Suc m] ! j = shl_step a k s ?pn m ! j" by simp
  also have "\<dots> = shl_limb a k s (Suc m) j"
  proof -
    consider "j = m + k" | "j = m + k + 1" | "j \<noteq> m + k" "j \<noteq> m + k + 1" by blast
    then show ?thesis
    proof cases
      case 1
      then show ?thesis using Suc.prems IH [of j] len
        by (auto simp: shl_step_def shl_limb_def Let_def or.commute)
    next
      case 2
      then show ?thesis using Suc.prems IH [of j] len
        by (auto simp: shl_step_def shl_limb_def Let_def)
    next
      case 3
      then have "shl_step a k s ?pn m ! j = ?pn ! j"
        by (simp add: shl_step_def Let_def)
      moreover have "shl_limb a k s (Suc m) j = shl_limb a k s m j"
        using 3 by (auto simp: shl_limb_def less_Suc_eq)
      ultimately show ?thesis using IH Suc.prems by simp
    qed
  qed
  finally show ?case .
qed

lemma divmod32: "r < 32 \<Longrightarrow> (32 * q + r) div 32 = q" "r < 32 \<Longrightarrow> (32 * q + r) mod 32 = r" for q r :: nat
  by simp_all

lemma bit_shl_limb:
  assumes "j < W" "t < 32" "s < 32" "length a = W"
  shows "bit (shl_limb a k s W j) t \<longleftrightarrow> 32 * k + s \<le> 32 * j + t \<and> bit (uval a) (32 * j + t - (32 * k + s))"
proof (cases "32 * k + s \<le> 32 * j + t")
  case False
  then have "\<not> k < j" "k = j \<longrightarrow> t < s" using assms by auto
  then show ?thesis using False by (auto simp: shl_limb_def bit_or_iff bit_push_bit_iff)
next
  case True
  let ?n = "32 * j + t - (32 * k + s)"
  show ?thesis
  proof (cases "s \<le> t")
    case s: True
    then have n: "?n = 32 * (j - k) + (t - s)" "k \<le> j" using True assms by auto
    have d: "?n div 32 = j - k" "?n mod 32 = t - s" unfolding n using assms by simp_all
    have z: "\<not> bit (drop_bit (32 - s) w) t" for w :: u32
      using s assms bit_imp_le_length [of w] by (auto simp: bit_drop_bit_eq dest: bit_imp_le_length)
    show ?thesis using True assms s n(2) z unfolding bit_uval d
      by (auto simp: shl_limb_def bit_or_iff bit_push_bit_iff)
  next
    case s: False
    then have kj: "k < j" using True assms by auto
    then have n: "?n = 32 * (j - k - 1) + (32 + t - s)" using s assms by (simp add: diff_mult_distrib2)
    have d: "?n div 32 = j - k - 1" "?n mod 32 = 32 + t - s" unfolding n using assms s by (intro divmod32; simp)+
    have z: "\<not> bit (push_bit s w) t" for w :: u32
      using s by (auto simp: bit_push_bit_iff)
    have "32 - s + t = 32 + t - s" using assms by simp
    then show ?thesis using True assms s kj z unfolding bit_uval d
      by (auto simp: shl_limb_def bit_or_iff bit_drop_bit_eq)
  qed
qed

lemma uval_bu_shl: "uval (bu_shl a s) = (uval a * 2 ^ s) mod 4294967296 ^ length a"
proof -
  have p: "(4294967296 :: nat) ^ length a = 2 ^ (32 * length a)" by (simp add: power_mult)
  have "uval (bu_shl a s) = take_bit (32 * length a) (push_bit s (uval a))"
  proof (rule bit_eqI)
    fix n
    have lim: "n div 32 < length a \<longleftrightarrow> n < 32 * length a" by (simp add: div_less_iff_less_mult mult.commute)
    have "bit (uval (bu_shl a s)) n \<longleftrightarrow> n div 32 < length a \<and> bit (bu_shl a s ! (n div 32)) (n mod 32)"
      by (simp add: bit_uval)
    also have "\<dots> \<longleftrightarrow> n div 32 < length a \<and> bit (shl_limb a (s div 32) (s mod 32) (length a) (n div 32)) (n mod 32)"
      by (auto simp: bu_shl_def shl_prefix)
    also have "\<dots> \<longleftrightarrow> n < 32 * length a \<and> s \<le> n \<and> bit (uval a) (n - s)"
      unfolding lim [symmetric] by (auto simp: bit_shl_limb)
    finally show "bit (uval (bu_shl a s)) n \<longleftrightarrow> bit (take_bit (32 * length a) (push_bit s (uval a))) n"
      by (simp add: bit_take_bit_iff bit_push_bit_iff)
  qed
  then show ?thesis by (simp add: take_bit_eq_mod push_bit_eq_mult p)
qed

definition shr_limb :: "limbs \<Rightarrow> nat \<Rightarrow> nat \<Rightarrow> nat \<Rightarrow> nat \<Rightarrow> u32" where
  "shr_limb a k s m j =
     (if j + k < m then drop_bit s (a ! (j + k)) else 0) OR
     (if s \<noteq> 0 \<and> j + k + 1 < m then push_bit (32 - s) (a ! (j + k + 1)) else 0)"

lemma shr_prefix:
  "m \<le> length a \<Longrightarrow> j < length a \<Longrightarrow>
   foldl (shr_step a k s) (bu_zero (length a)) [0..<m] ! j = shr_limb a k s m j"
proof (induction m arbitrary: j)
  case 0
  then show ?case by (simp add: shr_limb_def bu_zero_def)
next
  case (Suc m)
  let ?pn = "foldl (shr_step a k s) (bu_zero (length a)) [0..<m]"
  have len: "length ?pn = length a" by (simp add: length_foldl_step)
  have IH: "j < length a \<Longrightarrow> ?pn ! j = shr_limb a k s m j" for j using Suc by simp
  have "foldl (shr_step a k s) (bu_zero (length a)) [0..<Suc m] ! j = shr_step a k s ?pn m ! j" by simp
  also have "\<dots> = shr_limb a k s (Suc m) j"
  proof -
    consider "j + k = m" | "j + k + 1 = m" | "j + k \<noteq> m" "j + k + 1 \<noteq> m" by blast
    then show ?thesis
    proof cases
      case 1
      then have "m - k = j" "k \<le> m" by auto
      then show ?thesis using 1 Suc.prems IH [of j] len
        by (auto simp: shr_step_def shr_limb_def Let_def)
    next
      case 2
      then have "m - k - 1 = j" "k + 1 \<le> m" "m - k = Suc j" by auto
      then show ?thesis using 2 Suc.prems IH [of j] len
        by (auto simp: shr_step_def shr_limb_def Let_def)
    next
      case 3
      then have "shr_step a k s ?pn m ! j = ?pn ! j"
        by (auto simp: shr_step_def Let_def nth_list_update)
      moreover have "shr_limb a k s (Suc m) j = shr_limb a k s m j"
        using 3 by (auto simp: shr_limb_def less_Suc_eq)
      ultimately show ?thesis using IH Suc.prems by simp
    qed
  qed
  finally show ?case .
qed

lemma bit_shr_limb:
  assumes "j < W" "t < 32" "s < 32" "length a = W"
  shows "bit (shr_limb a k s W j) t \<longleftrightarrow> bit (uval a) (32 * j + t + (32 * k + s))"
proof -
  let ?n = "32 * j + t + (32 * k + s)"
  show ?thesis
  proof (cases "t + s < 32")
    case s: True
    then have n: "?n = 32 * (j + k) + (t + s)" by simp
    have d: "?n div 32 = j + k" "?n mod 32 = t + s" unfolding n using s by (intro divmod32; simp)+
    have z: "\<not> bit (push_bit (32 - s) w) t" for w :: u32
      using s assms by (auto simp: bit_push_bit_iff)
    show ?thesis using assms s z unfolding bit_uval d
      by (auto simp: shr_limb_def bit_or_iff bit_drop_bit_eq add.commute)
  next
    case s: False
    then have n: "?n = 32 * (j + k + 1) + (t + s - 32)" using assms by simp
    have d: "?n div 32 = j + k + 1" "?n mod 32 = t + s - 32" unfolding n using assms s by (intro divmod32; simp)+
    have z: "\<not> bit (drop_bit s w) t" for w :: u32
      using s by (auto simp: bit_drop_bit_eq dest: bit_imp_le_length)
    have "t - (32 - s) = t + s - 32" "32 - s \<le> t" "s \<noteq> 0" using assms s by auto
    then show ?thesis using assms s z unfolding bit_uval d
      by (auto simp: shr_limb_def bit_or_iff bit_push_bit_iff)
  qed
qed

lemma uval_bu_shr: "uval (bu_shr a s) = uval a div 2 ^ s"
proof -
  have "uval (bu_shr a s) = drop_bit s (uval a)"
  proof (rule bit_eqI)
    fix n
    have "bit (uval (bu_shr a s)) n \<longleftrightarrow> n div 32 < length a \<and> bit (bu_shr a s ! (n div 32)) (n mod 32)"
      by (simp add: bit_uval)
    also have "\<dots> \<longleftrightarrow> n div 32 < length a \<and> bit (shr_limb a (s div 32) (s mod 32) (length a) (n div 32)) (n mod 32)"
      by (auto simp: bu_shr_def shr_prefix)
    also have "\<dots> \<longleftrightarrow> n div 32 < length a \<and> bit (uval a) (n + s)"
      by (auto simp: bit_shr_limb)
    also have "\<dots> \<longleftrightarrow> bit (uval a) (n + s)"
    proof -
      have "n div 32 \<le> (n + s) div 32" by (rule div_le_mono) simp
      then show ?thesis by (auto simp: bit_uval)
    qed
    finally show "bit (uval (bu_shr a s)) n \<longleftrightarrow> bit (drop_bit s (uval a)) n"
      by (simp add: bit_drop_bit_eq add.commute)
  qed
  then show ?thesis by (simp add: drop_bit_eq_div)
qed

subsection \<open>Bit length and division\<close>

definition is_bitlen :: "nat \<Rightarrow> nat \<Rightarrow> bool" where
  "is_bitlen v r \<longleftrightarrow> v < 2 ^ r \<and> (0 < r \<longrightarrow> 2 ^ (r - 1) \<le> v)"

lemma is_bitlen_zero: "is_bitlen v r \<Longrightarrow> r = 0 \<longleftrightarrow> v = 0"
  by (cases r) (auto simp: is_bitlen_def)

lemma is_bitlen_mono: "is_bitlen u r \<Longrightarrow> is_bitlen v s \<Longrightarrow> r < s \<Longrightarrow> u < v"
proof -
  assume u: "is_bitlen u r" and v: "is_bitlen v s" and l: "r < s"
  have "(2 :: nat) ^ r \<le> 2 ^ (s - 1)" using l by (intro power_increasing) auto
  moreover have "u < 2 ^ r" "2 ^ (s - 1) \<le> v" using u v l by (simp_all add: is_bitlen_def)
  ultimately show ?thesis by linarith
qed

lemma is_bitlen_unique: "is_bitlen v r \<Longrightarrow> is_bitlen v s \<Longrightarrow> r = s"
  using is_bitlen_mono [of v r v s] is_bitlen_mono [of v s v r] by (cases r s rule: linorder_cases) auto

lemma test_bit32: "n < 32 \<Longrightarrow> (x AND push_bit n 1 \<noteq> (0 :: u32)) = bit (unat x) n"
  by (simp add: push_bit_eq_mult and_exp_eq_0_iff_not_bit bit_unsigned_iff)

lemma limb_bits_bitlen: "0 < unat x \<Longrightarrow> unat x < 2 ^ (b + 1) \<Longrightarrow> b < 32 \<Longrightarrow> is_bitlen (unat x) (limb_bits x b)"
proof (induction b)
  case (Suc b)
  show ?case
  proof (cases "bit (unat x) (Suc b)")
    case True
    then have "2 ^ Suc b \<le> unat x" using bit_take_bit_iff [of "Suc b" "unat x" "Suc b"]
      by (metis less_irrefl not_le take_bit_nat_eq_self)
    moreover have "limb_bits x (Suc b) = Suc b + 1"
      using True Suc.prems test_bit32 [of "Suc b" x] by (simp only: limb_bits.simps if_True)
    ultimately show ?thesis using Suc.prems by (simp add: is_bitlen_def)
  next
    case False
    have "unat x = take_bit (Suc (Suc b)) (unat x)" using Suc.prems by (simp add: take_bit_nat_eq_self)
    also have "\<dots> = take_bit (Suc b) (unat x)"
      using False by (intro bit_eqI) (auto simp: bit_take_bit_iff less_Suc_eq)
    finally have "unat x < 2 ^ Suc b" by (metis take_bit_nat_less_exp)
    moreover have "limb_bits x (Suc b) = limb_bits x b"
      using False Suc.prems test_bit32 [of "Suc b" x] by (simp only: limb_bits.simps if_False)
    ultimately show ?thesis using Suc by simp
  qed
qed (simp add: is_bitlen_def)

lemma bits_loop_bitlen: "m \<le> length pn \<Longrightarrow> is_bitlen (uval (take m pn)) (bits_loop pn m)"
proof (induction m)
  case (Suc m)
  have u: "uval (take (Suc m) pn) = uval (take m pn) + 2 ^ (32 * m) * unat (pn ! m)"
    using Suc.prems by (simp add: take_Suc_conv_app_nth uval_append power_mult)
  have lt: "uval (take m pn) < 2 ^ (32 * m)"
    using uval_less [of "take m pn"] Suc.prems by (simp add: power_mult)
  show ?case
  proof (cases "pn ! m = 0")
    case False
    let ?r = "limb_bits (pn ! m) 31"
    have nz: "0 < unat (pn ! m)" using False by (simp add: unat_gt_0)
    then have b: "is_bitlen (unat (pn ! m)) ?r"
      using unat_u32_less [of "pn ! m"] by (intro limb_bits_bitlen) simp_all
    then have r: "0 < ?r" using is_bitlen_zero nz by fastforce
    have "uval (take (Suc m) pn) < 2 ^ (32 * m) * 2 ^ ?r"
      unfolding u using b lt by (intro digit_less) (simp_all add: is_bitlen_def)
    moreover have "(2::nat) ^ (32 * m) * 2 ^ (?r - 1) \<le> uval (take (Suc m) pn)"
    proof -
      have "2 ^ (?r - 1) \<le> unat (pn ! m)" using b r by (simp add: is_bitlen_def)
      then show ?thesis unfolding u by (intro trans_le_add2 mult_le_mono2)
    qed
    ultimately show ?thesis using False r by (simp add: is_bitlen_def power_add [symmetric] Nat.add_diff_assoc)
  next
    case True
    then show ?thesis using Suc u by simp
  qed
qed (simp add: is_bitlen_def)

lemma bu_bits_bitlen: "is_bitlen (uval pn) (bu_bits pn)"
  using bits_loop_bitlen [of "length pn" pn] by (simp add: bu_bits_def)

lemma uval_set_bit:
  assumes "i < length pn" "t < 32" "\<not> bit (uval pn) (32 * i + t)"
  shows "uval (pn[i := pn ! i OR push_bit t 1]) = uval pn + 2 ^ (32 * i + t)"
proof -
  have "uval (pn[i := pn ! i OR push_bit t 1]) = uval pn OR push_bit (32 * i + t) 1"
  proof (rule bit_eqI)
    fix n
    have "n = 32 * i + t \<longleftrightarrow> n div 32 = i \<and> n mod 32 = t" using assms by auto
    then show "bit (uval (pn[i := pn ! i OR push_bit t 1])) n \<longleftrightarrow> bit (uval pn OR push_bit (32 * i + t) 1) n"
      using assms by (auto simp: bit_uval bit_or_iff bit_exp_iff nth_list_update)
  qed
  also have "\<dots> = uval pn + push_bit (32 * i + t) 1"
  proof (rule disjunctive_add [symmetric])
    show "\<not> bit (uval pn) n \<or> \<not> bit (push_bit (32 * i + t) 1) n" for n
      using assms by (auto simp: bit_exp_iff)
  qed
  finally show ?thesis by (simp add: push_bit_eq_mult)
qed

lemma div_loop_correct:
  assumes "length num = W" "length dv = W" "length pn = W" "0 < b"
    and "n \<le> 32 * W"
    and "0 < n \<Longrightarrow> uval dv = b * 2 ^ (n - 1)" "uval num < b * 2 ^ n"
    and "2 ^ n dvd uval pn"
  shows "length (div_loop n num dv pn) = W \<and> uval (div_loop n num dv pn) = uval pn + uval num div b"
  using assms
proof (induction n num dv pn rule: div_loop.induct)
  case (1 num dv pn)
  then show ?case by simp
next
  case (2 n num dv pn)
  have len: "length num = W" "length dv = W" "length pn = W" and b: "0 < b" and n: "n < 32 * W"
    and dv: "uval dv = b * 2 ^ n" and num: "uval num < b * 2 ^ Suc n" and dvd: "2 ^ Suc n dvd uval pn"
    using 2 by simp_all
  have shr: "uval (bu_shr dv 1) = b * 2 ^ (n - 1)" if "0 < n"
    using that dv by (cases n) (simp_all add: uval_bu_shr)
  have dvd': "2 ^ n dvd uval pn" using dvd by (metis dvd_trans le_imp_power_dvd less_eq_Suc_le less_imp_le lessI)
  show ?case
  proof (cases "uval dv \<le> uval num")
    case True
    define pn' where "pn' = pn[n div 32 := pn ! (n div 32) OR push_bit (n mod 32) 1]"
    have "\<not> bit (uval pn) n"
    proof -
      obtain q where "uval pn = push_bit (Suc n) q" using dvd by (auto simp: push_bit_eq_mult mult.commute dvd_def)
      then show ?thesis by (simp add: bit_push_bit_iff bit_0)
    qed
    then have set: "uval pn' = uval pn + 2 ^ n"
      using uval_set_bit [of "n div 32" pn "n mod 32"] n len unfolding pn'_def by (simp add: div_less_iff_less_mult mult.commute)
    have len': "length pn' = W" using len by (simp add: pn'_def)
    have sub: "uval (bu_sub num dv) = uval num - b * 2 ^ n"
      using True len dv by (simp add: uval_bu_sub_le)
    have cmp: "bu_CompareTo num dv \<ge> 0" using True len by (simp add: bu_CompareTo_uval)
    have "length (div_loop n (bu_sub num dv) (bu_shr dv 1) pn') = W \<and>
        uval (div_loop n (bu_sub num dv) (bu_shr dv 1) pn') = uval pn' + uval (bu_sub num dv) div b"
      using 2(1) [OF cmp, folded pn'_def] len b n shr num dvd'
      by (simp add: length_bu_sub sub set len')
    moreover have "uval num div b = (uval num - b * 2 ^ n) div b + 2 ^ n"
    proof -
      have "uval num = (uval num - b * 2 ^ n) + b * 2 ^ n" using True dv by simp
      then show ?thesis using b by (metis add.commute div_mult_self2 less_numeral_extra(3))
    qed
    moreover have "div_loop (Suc n) num dv pn = div_loop n (bu_sub num dv) (bu_shr dv 1) pn'"
      unfolding pn'_def by (simp only: div_loop.simps cmp if_True)
    ultimately show ?thesis by (simp add: set sub)
  next
    case False
    then have cmp: "\<not> bu_CompareTo num dv \<ge> 0" using len by (simp add: bu_CompareTo_uval)
    then show ?thesis using 2(2) [OF cmp] len b n shr False dv dvd' by simp
  qed
qed

lemma bu_div_correct:
  assumes "length a = length b"
  shows "bu_div a b = Inl DivisionByZero \<longleftrightarrow> uval b = 0"
    and "bu_div a b = Inr q \<Longrightarrow> length q = length a \<and> uval q = uval a div uval b"
proof -
  let ?W = "length a"
  have ba: "is_bitlen (uval a) (bu_bits a)" and bb: "is_bitlen (uval b) (bu_bits b)"
    by (rule bu_bits_bitlen)+
  show "bu_div a b = Inl DivisionByZero \<longleftrightarrow> uval b = 0"
    using is_bitlen_zero [OF bb] by (simp add: bu_div_def Let_def)
  assume q: "bu_div a b = Inr q"
  then have nz: "0 < uval b" using is_bitlen_zero [OF bb] by (simp add: bu_div_def Let_def split: if_splits)
  show "length q = length a \<and> uval q = uval a div uval b"
  proof (cases "bu_bits b > bu_bits a")
    case True
    then have "uval a < uval b" by (rule is_bitlen_mono [OF ba bb])
    then show ?thesis using q nz is_bitlen_zero [OF bb] True by (auto simp: bu_div_def Let_def)
  next
    case False
    let ?s = "bu_bits a - bu_bits b"
    have pos: "0 < bu_bits b" using nz is_bitlen_zero [OF bb] by simp
    have bits: "bu_bits a \<le> 32 * ?W"
    proof (rule ccontr)
      assume c: "\<not> bu_bits a \<le> 32 * ?W"
      then have "2 ^ (bu_bits a - 1) \<le> uval a" using ba by (simp add: is_bitlen_def)
      moreover have "(2 :: nat) ^ (32 * ?W) \<le> 2 ^ (bu_bits a - 1)" using c by (intro power_increasing) auto
      ultimately show False using uval_less [of a] by (simp add: power_mult)
    qed
    have ub: "uval b * 2 ^ ?s < 2 ^ bu_bits a"
    proof -
      have "uval b * 2 ^ ?s < 2 ^ bu_bits b * 2 ^ ?s" using bb by (simp add: is_bitlen_def)
      then show ?thesis using False by (simp add: power_add [symmetric])
    qed
    have "(2 :: nat) ^ bu_bits a \<le> 4294967296 ^ ?W"
      using power_increasing [OF bits, of "2 :: nat"] by (simp add: power_mult)
    then have shl: "uval (bu_shl b ?s) = uval b * 2 ^ ?s"
      using ub assms by (simp add: uval_bu_shl)
    have ua: "uval a < uval b * 2 ^ Suc ?s"
    proof -
      have "2 ^ (bu_bits b - 1) * 2 ^ Suc ?s \<le> uval b * 2 ^ Suc ?s"
        using bb pos by (intro mult_le_mono1) (simp add: is_bitlen_def)
      moreover have "bu_bits b - 1 + Suc ?s = bu_bits a" using False pos by simp
      then have "(2 :: nat) ^ (bu_bits b - 1) * 2 ^ Suc ?s = 2 ^ bu_bits a" by (simp only: power_add [symmetric])
      moreover have "uval a < 2 ^ bu_bits a" using ba by (simp add: is_bitlen_def)
      ultimately show ?thesis by linarith
    qed
    have "Suc ?s \<le> 32 * ?W" using bits pos False by linarith
    then have "length (div_loop (Suc ?s) a (bu_shl b ?s) (bu_zero ?W)) = ?W \<and>
        uval (div_loop (Suc ?s) a (bu_shl b ?s) (bu_zero ?W)) = uval (bu_zero ?W) + uval a div uval b"
      using assms nz ua shl by (intro div_loop_correct) simp_all
    then show ?thesis using q nz False pos by (auto simp: bu_div_def Let_def simp del: div_loop.simps)
  qed
qed

subsection \<open>The 256-bit instance and the word type\<close>

definition w256 :: "limbs \<Rightarrow> uint256" where
  "w256 a = word_of_nat (uval a)"

definition l256 :: "uint256 \<Rightarrow> limbs" where
  "l256 w = map (\<lambda>i. ucast (drop_bit (32 * i) w)) [0..<8]"

lemma limb8: "(4294967296 :: nat) ^ 8 = 2 ^ 256"
  by simp

lemma length_l256 [simp]: "length (l256 w) = 8"
  by (simp add: l256_def)

lemma unat_w256: "length a = 8 \<Longrightarrow> unat (w256 a) = uval a"
  using uval_less [of a] by (simp add: w256_def unat_of_nat)

lemma bit_w256: "length a = 8 \<Longrightarrow> bit (w256 a) n \<longleftrightarrow> bit (uval a) n"
  by (simp only: unat_w256 [symmetric] bit_unsigned_iff)
    (auto dest: bit_imp_le_length)

lemma uval_l256: "uval (l256 w) = unat w"
proof (rule bit_eqI)
  fix n
  have "bit (uval (l256 w)) n \<longleftrightarrow> n < 256 \<and> bit w (32 * (n div 32) + n mod 32)"
    unfolding bit_uval by (auto simp: l256_def bit_unsigned_iff bit_ucast_iff bit_drop_bit_eq div_less_iff_less_mult)
  then show "bit (uval (l256 w)) n \<longleftrightarrow> bit (unat w) n"
    by (auto simp: bit_unsigned_iff dest: bit_imp_le_length)
qed

lemma w256_l256 [simp]: "w256 (l256 w) = w"
  by (simp add: w256_def uval_l256)

lemma l256_w256: "length a = 8 \<Longrightarrow> l256 (w256 a) = a"
  by (subst uval_inj [symmetric]) (simp_all add: uval_l256 unat_w256)

lemma w256_mod: "word_of_nat (n mod 4294967296 ^ 8) = (word_of_nat n :: uint256)"
  unfolding limb8 by (simp add: word_of_nat_eq_iff take_bit_eq_mod del: power_numeral)

lemma w256_add: "length a = 8 \<Longrightarrow> length b = 8 \<Longrightarrow> w256 (bu_add a b) = w256 a + w256 b"
  by (simp only: w256_def uval_bu_add w256_mod of_nat_add)

lemma w256_mul: "length a = 8 \<Longrightarrow> length b = 8 \<Longrightarrow> w256 (bu_mul a b) = w256 a * w256 b"
  by (simp only: w256_def uval_bu_mul w256_mod of_nat_mult)

lemma w256_mul32: "length a = 8 \<Longrightarrow> w256 (bu_mul32 a b) = w256 a * word_of_nat (unat b)"
  by (simp only: w256_def uval_bu_mul32 w256_mod of_nat_mult)

lemma w256_neg: "length a = 8 \<Longrightarrow> w256 (bu_neg a) = - w256 a"
proof -
  assume l: "length a = 8"
  have "uval a \<le> 4294967296 ^ 8" using uval_less [of a] l by simp
  then have "word_of_nat (4294967296 ^ 8 - uval a) = (word_of_nat (4294967296 ^ 8) :: uint256) - word_of_nat (uval a)"
    by (rule of_nat_diff)
  also have "(word_of_nat (4294967296 ^ 8) :: uint256) = 0"
    by (subst w256_mod [symmetric]) simp
  finally show ?thesis using l by (simp only: w256_def uval_bu_neg w256_mod diff_0)
qed

lemma w256_sub: "length a = 8 \<Longrightarrow> length b = 8 \<Longrightarrow> w256 (bu_sub a b) = w256 a - w256 b"
  by (simp add: bu_sub_def w256_add w256_neg)

lemma w256_shl: "length a = 8 \<Longrightarrow> w256 (bu_shl a s) = push_bit s (w256 a)"
  by (simp only: w256_def uval_bu_shl w256_mod) (simp add: push_bit_eq_mult)

lemma w256_shr: "length a = 8 \<Longrightarrow> w256 (bu_shr a s) = drop_bit s (w256 a)"
proof -
  assume l: "length a = 8"
  then have "unat (w256 (bu_shr a s)) = unat (drop_bit s (w256 a))"
    by (simp only: unat_w256 length_bu_shr uval_bu_shr unat_drop_bit_eq) (simp add: drop_bit_eq_div)
  then show ?thesis by (simp only: word_unat_eq_iff)
qed

lemma w256_less: "length a = 8 \<Longrightarrow> length b = 8 \<Longrightarrow> w256 a < w256 b \<longleftrightarrow> uval a < uval b"
  by (simp add: word_less_nat_alt unat_w256)

lemma w256_div: "length a = 8 \<Longrightarrow> length b = 8 \<Longrightarrow> bu_div a b = Inr q \<Longrightarrow> w256 q = w256 a div w256 b"
  using bu_div_correct(2) [of a b q]
  by (simp add: word_unat_eq_iff unat_div_distrib unat_w256)

subsection \<open>Bytes\<close>

lemma length_bu_bytes [simp, codec_simps]: "length (bu_bytes pn) = 4 * length pn"
  by (induction pn) (auto simp: bu_bytes_def)

lemma le_dec_bu_bytes: "le_dec (bu_bytes pn) = uval pn"
proof (induction pn)
  case (Cons x xs)
  have "bu_bytes (x # xs) = le_enc 4 (unat x) @ bu_bytes xs" by (simp add: bu_bytes_def)
  then show ?case using Cons.IH unat_u32_less [of x] by (simp add: le_dec_append)
qed (simp add: bu_bytes_def)

lemma limbs_of_bytes_bu_bytes [simp]: "limbs_of_bytes (length pn) (bu_bytes pn @ r) = pn"
proof (induction pn)
  case (Cons x xs)
  have "bu_bytes (x # xs) = le_enc 4 (unat x) @ bu_bytes xs" by (simp add: bu_bytes_def)
  then show ?case using Cons.IH unat_u32_less [of x] by simp
qed (simp add: bu_bytes_def)

lemma bu_of_vch_bytes: "bu_of_vch (length pn) (bu_bytes pn) = Inr pn"
  using limbs_of_bytes_bu_bytes [of pn "[]"] by (simp add: bu_of_vch_def)

subsection \<open>The compact form\<close>

definition compact_mant :: "u32 \<Rightarrow> nat" where
  "compact_mant c = unat c mod 8388608"

definition compact_size :: "u32 \<Rightarrow> nat" where
  "compact_size c = unat c div 16777216"

text \<open>The number that a compact form stands for, before it is cut to 256 bits.\<close>

definition compact_value :: "u32 \<Rightarrow> nat" where
  "compact_value c =
     (if compact_size c \<le> 3 then compact_mant c div 256 ^ (3 - compact_size c)
      else compact_mant c * 256 ^ (compact_size c - 3))"

lemma unat_and_mask: "unat (x AND mask n :: 'a :: len word) = unat x mod 2 ^ n"
  by (simp only: take_bit_eq_mask [symmetric] unsigned_take_bit_eq) (simp add: take_bit_eq_mod)

lemma unat_compact_word: "unat (c AND 0x007fffff :: u32) = compact_mant c"
proof -
  have "(0x007fffff :: u32) = mask 23" by (simp add: mask_eq_exp_minus_1)
  then show ?thesis using unat_and_mask [of c 23] by (simp only: compact_mant_def) simp
qed

lemma unat_compact_size: "unat (drop_bit 24 (c :: u32)) = compact_size c"
  by (simp only: unat_drop_bit_eq compact_size_def) (simp add: drop_bit_eq_div)

lemma compact_mant_less: "compact_mant c < 8388608"
  by (simp add: compact_mant_def)

lemma two_8_pow: "(2 :: nat) ^ (8 * n) = 256 ^ n"
  by (simp add: power_mult)

lemma pow256_split: "a \<le> 32 \<Longrightarrow> (2 :: nat) ^ 256 = 256 ^ a * 256 ^ (32 - a)"
proof -
  assume "a \<le> 32"
  then have "(256 :: nat) ^ 32 = 256 ^ a * 256 ^ (32 - a)" by (simp only: power_add [symmetric]) simp
  moreover have "(256 :: nat) ^ 32 = 2 ^ 256" by simp
  ultimately show ?thesis by simp
qed

lemma SetCompact_overflow_iff:
  "snd (snd (SetCompact c)) \<longleftrightarrow> 2 ^ 256 \<le> compact_value c"
proof -
  let ?n = "compact_size c" and ?m = "compact_mant c"
  have small: "?n \<le> 3 \<Longrightarrow> compact_value c < 2 ^ 256"
  proof -
    assume "?n \<le> 3"
    then have "compact_value c \<le> ?m" by (simp add: compact_value_def)
    also have "\<dots> < 2 ^ 256" using compact_mant_less [of c] by (rule less_trans) simp
    finally show ?thesis .
  qed
  show ?thesis
  proof (cases "?n \<le> 3")
    case True
    then show ?thesis using small by (simp add: SetCompact_def Let_def unat_compact_size not_le)
  next
    case False
    have nz: "c AND 0x007fffff \<noteq> 0 \<longleftrightarrow> 0 < ?m"
      by (simp only: unat_compact_word [symmetric] unat_gt_0)
    have gt: "c AND 0x007fffff > 0xff \<longleftrightarrow> ?m > 255" "c AND 0x007fffff > 0xffff \<longleftrightarrow> ?m > 65535"
      by (simp_all add: word_less_nat_alt unat_compact_word)
    have "snd (snd (SetCompact c)) \<longleftrightarrow> 0 < ?m \<and> (?n > 34 \<or> (?m > 255 \<and> ?n > 33) \<or> (?m > 65535 \<and> ?n > 32))"
      using False by (simp add: SetCompact_def Let_def unat_compact_size nz gt)
    also have "\<dots> \<longleftrightarrow> 2 ^ 256 \<le> ?m * 256 ^ (?n - 3)"
    proof -
      consider "?n > 34" | "?n = 34" | "?n = 33" | "?n \<le> 32" by linarith
      then show ?thesis
      proof cases
        case 1
        then have "(256 :: nat) ^ 32 \<le> 256 ^ (?n - 3)" by (intro power_increasing) auto
        then have p: "(2 :: nat) ^ 256 \<le> 256 ^ (?n - 3)" by simp
        have pos: "0 < ?m \<Longrightarrow> (2 :: nat) ^ 256 \<le> ?m * 256 ^ (?n - 3)"
          using p mult_le_mono [of 1 ?m "2 ^ 256" "256 ^ (?n - 3)"] by simp
        have "compact_mant c = 0 \<Longrightarrow> \<not> (2 :: nat) ^ 256 \<le> ?m * 256 ^ (?n - 3)" by simp
        then show ?thesis using 1 pos by (cases "?m = 0") auto
      next
        case 2
        then show ?thesis by (auto simp: not_less)
      next
        case 3
        then show ?thesis by (auto simp: not_less)
      next
        case 4
        then have "(256 :: nat) ^ (?n - 3) \<le> 256 ^ 29" by (intro power_increasing) auto
        then have "?m * 256 ^ (?n - 3) \<le> 8388608 * 256 ^ 29"
          using compact_mant_less [of c] by (intro mult_le_mono) simp_all
        also have "\<dots> < (2 :: nat) ^ 256" by simp
        finally show ?thesis using 4 by auto
      qed
    qed
    finally show ?thesis using False by (simp add: compact_value_def)
  qed
qed

lemma SetCompact_value: "uval (fst (SetCompact c)) = compact_value c mod 2 ^ 256"
proof (cases "compact_size c \<le> 3")
  case True
  have "compact_value c \<le> compact_mant c" using True by (simp add: compact_value_def)
  also have "\<dots> < 2 ^ 256" using compact_mant_less [of c] by (rule less_trans) simp
  finally have "compact_value c < 2 ^ 256" .
  moreover have "uval (fst (SetCompact c)) = compact_value c"
  proof -
    have "unat (drop_bit k (c AND 0x007fffff)) = compact_mant c div 2 ^ k" for k
      by (simp only: unat_drop_bit_eq unat_compact_word) (simp add: drop_bit_eq_div)
    then show ?thesis using True
      by (simp add: SetCompact_def Let_def unat_compact_size compact_value_def two_8_pow)
  qed
  ultimately show ?thesis by simp
next
  case False
  then show ?thesis
    using unat_compact_word [of c]
    by (simp add: SetCompact_def Let_def unat_compact_size compact_value_def uval_bu_shl two_8_pow)
qed

lemma length_SetCompact: "length (fst (SetCompact c)) = 8"
  by (simp add: SetCompact_def Let_def)

lemma unat_bu_GetLow64:
  "2 \<le> length pn \<Longrightarrow> unat (bu_GetLow64 pn) = uval pn mod 2 ^ 64"
proof -
  assume "2 \<le> length pn"
  then obtain x y r where pn: "pn = x # y # r" by (cases pn; cases "tl pn") auto
  have "unat (bu_GetLow64 pn) = unat (ucast x OR push_bit 32 (ucast y) :: u64)" by (simp add: pn bu_GetLow64_def)
  also have "\<dots> = take_bit 64 (uval pn)"
  proof (rule bit_eqI)
    fix n :: nat
    have "n < 64 \<Longrightarrow> 32 \<le> n \<Longrightarrow> n div 32 = 1 \<and> n mod 32 = n - 32" by (auto simp: div_if mod_if)
    then show "bit (unat (ucast x OR push_bit 32 (ucast y) :: u64)) n = bit (take_bit 64 (uval pn)) n"
      by (cases "n < 32") (auto simp: pn bit_unsigned_iff bit_or_iff bit_push_bit_iff bit_ucast_iff
          bit_take_bit_iff bit_uval simp del: uval.simps dest: bit_imp_le_length)
  qed
  finally show ?thesis by (simp only: take_bit_eq_mod)
qed

lemma bu_bits_256:
  "0 < uval x \<Longrightarrow> n = (bu_bits x + 7) div 8 \<Longrightarrow> 256 ^ (n - 1) \<le> uval x \<and> uval x < 256 ^ n \<and> 0 < n"
proof -
  let ?r = "bu_bits x"
  assume pos: "0 < uval x" and n: "n = (?r + 7) div 8"
  have b: "is_bitlen (uval x) ?r" by (rule bu_bits_bitlen)
  then have r: "0 < ?r" using pos is_bitlen_zero by fastforce
  have le: "?r \<le> 8 * n" "8 * (n - 1) \<le> ?r - 1" "0 < n" using n r by auto
  have "uval x < 2 ^ ?r" "2 ^ (?r - 1) \<le> uval x" using b r by (simp_all add: is_bitlen_def)
  moreover have "(2 :: nat) ^ ?r \<le> 256 ^ n"
    using power_increasing [OF le(1), of "2 :: nat"] by (simp add: power_mult)
  moreover have "(256 :: nat) ^ (n - 1) \<le> 2 ^ (?r - 1)"
    using power_increasing [OF le(2), of "2 :: nat"] by (simp add: power_mult)
  ultimately show ?thesis using le by linarith
qed

text \<open>The three leading base-256 digits of the number, and how many digits it has.\<close>

definition compact_top :: "nat \<Rightarrow> nat \<Rightarrow> nat" where
  "compact_top v n = (if n \<le> 3 then v * 256 ^ (3 - n) else v div 256 ^ (n - 3))"

lemma compact_top_bounds:
  "256 ^ (n - 1) \<le> v \<Longrightarrow> v < 256 ^ n \<Longrightarrow> 0 < n \<Longrightarrow> 65536 \<le> compact_top v n \<and> compact_top v n < 16777216"
proof -
  assume v: "256 ^ (n - 1) \<le> v" "v < 256 ^ n" and n: "0 < n"
  show ?thesis
  proof (cases "n \<le> 3")
    case True
    then have "n = 1 \<or> n = 2 \<or> n = 3" using n by auto
    then show ?thesis using v by (auto simp: compact_top_def)
  next
    case False
    have "n - 1 = 2 + (n - 3)" using False by simp
    then have "(65536 :: nat) * 256 ^ (n - 3) = 256 ^ (n - 1)" by (simp only: power_add) simp
    moreover
    have "(256 :: nat) ^ n = 16777216 * 256 ^ (n - 3)"
      using power_add [of "256 :: nat" 3 "n - 3"] False by simp
    ultimately have "65536 * 256 ^ (n - 3) \<le> v" "v < 16777216 * 256 ^ (n - 3)" using v by simp_all
    then show ?thesis using False by (simp add: compact_top_def less_eq_div_iff_mult_less_eq div_less_iff_less_mult)
  qed
qed

lemma GetCompact_word:
  assumes "length x = 8" "0 < uval x" "n = (bu_bits x + 7) div 8"
  shows "unat (if n \<le> 3 then ucast (push_bit (8 * (3 - n)) (bu_GetLow64 x))
                else ucast (bu_GetLow64 (bu_shr x (8 * (n - 3)))) :: u32) = compact_top (uval x) n"
proof -
  have b: "256 ^ (n - 1) \<le> uval x" "uval x < 256 ^ n" "0 < n"
    using bu_bits_256 [OF assms(2,3)] by auto
  then have t: "compact_top (uval x) n < 16777216" using compact_top_bounds by blast
  show ?thesis
  proof (cases "n \<le> 3")
    case True
    have "uval x < 256 ^ 3" using b(2) power_increasing [OF True, of "256 :: nat"] by simp
    then have lo: "unat (bu_GetLow64 x) = uval x" using assms by (simp add: unat_bu_GetLow64)
    have "unat (push_bit (8 * (3 - n)) (bu_GetLow64 x)) = take_bit 64 (push_bit (8 * (3 - n)) (uval x))"
      by (simp only: unsigned_push_bit_eq lo) simp
    also have "\<dots> = compact_top (uval x) n"
      using True t by (simp add: compact_top_def push_bit_eq_mult two_8_pow take_bit_eq_mod)
    finally show ?thesis using True t by (simp add: unsigned_ucast_eq take_bit_eq_mod)
  next
    case False
    have "unat (bu_GetLow64 (bu_shr x (8 * (n - 3)))) = compact_top (uval x) n"
      using False t assms by (simp add: unat_bu_GetLow64 uval_bu_shr compact_top_def two_8_pow)
    then show ?thesis using False t by (simp add: unsigned_ucast_eq take_bit_eq_mod)
  qed
qed

definition compact_k :: "nat \<Rightarrow> nat \<Rightarrow> nat" where
  "compact_k v n = (if compact_top v n < 8388608 then n else n + 1)"

definition compact_m :: "nat \<Rightarrow> nat \<Rightarrow> nat" where
  "compact_m v n = (if compact_top v n < 8388608 then compact_top v n else compact_top v n div 256)"

lemma compact_m_less: "compact_top v n < 16777216 \<Longrightarrow> compact_m v n < 8388608"
  by (simp add: compact_m_def less_mult_imp_div_less)

lemma div_mul_pow: "0 < b \<Longrightarrow> v * b ^ j div b ^ j = (v :: nat)"
  by simp

lemma compact_parts_value:
  assumes v: "256 ^ (n - 1) \<le> v" "v < 256 ^ n" "0 < n"
    and c: "compact_size c = compact_k v n" "compact_mant c = compact_m v n"
  defines "P \<equiv> 256 ^ (compact_k v n - 3)"
  shows "compact_value c = v div P * P" and "compact_k v n \<le> 3 \<or> 32768 * P \<le> v"
proof -
  have t: "65536 \<le> compact_top v n" "compact_top v n < 16777216" using compact_top_bounds v by blast+
  have top: "compact_top v n * P \<le> v" if "3 < n" "compact_top v n < 8388608"
    using that by (simp add: compact_top_def P_def compact_k_def)
  have div3: "v * 256 ^ j div 256 div 256 ^ (j - 1) = v" if "0 < j" for j
  proof -
    have "v * 256 ^ j div 256 div 256 ^ (j - 1) = v * 256 ^ j div (256 * 256 ^ (j - 1))"
      by (simp add: div_mult2_eq)
    also have "(256 :: nat) * 256 ^ (j - 1) = 256 ^ j" using that by (cases j) auto
    finally show ?thesis by simp
  qed
  show "compact_value c = v div P * P"
  proof (cases "compact_top v n < 8388608")
    case True
    then show ?thesis using c by (auto simp: compact_value_def compact_top_def P_def compact_k_def compact_m_def)
  next
    case False
    consider "n < 3" | "n = 3" | "3 < n" by linarith
    then show ?thesis
    proof cases
      case 1
      then have "compact_value c = v * 256 ^ (3 - n) div 256 div 256 ^ (3 - n - 1)"
        using False c by (simp add: compact_value_def compact_top_def compact_k_def compact_m_def)
      also have "\<dots> = v" using 1 by (intro div3) simp
      finally show ?thesis using 1 False by (simp add: P_def compact_k_def)
    next
      case 2
      then show ?thesis using False c
        by (simp add: compact_value_def compact_top_def compact_k_def compact_m_def P_def)
    next
      case 3
      have "v div 256 ^ (n - 3) div 256 = v div (256 ^ (n - 3) * 256)" by (simp add: div_mult2_eq)
      also have "(256 :: nat) ^ (n - 3) * 256 = 256 ^ (n - 2)"
        using 3 power_add [of "256 :: nat" "n - 3" 1] by (simp add: numeral_2_eq_2 numeral_3_eq_3 Suc_diff_Suc)
      finally show ?thesis using 3 False c
        by (simp add: compact_value_def compact_top_def compact_k_def compact_m_def P_def)
    qed
  qed
  show "compact_k v n \<le> 3 \<or> 32768 * P \<le> v"
  proof (cases "compact_top v n < 8388608")
    case True
    show ?thesis
    proof (cases "n \<le> 3")
      case False
      have "32768 * P \<le> compact_top v n * P" using t(1) by (intro mult_le_mono1) linarith
      then have "32768 * P \<le> v" using top False True by (meson le_trans not_le)
      then show ?thesis ..
    qed (simp add: compact_k_def True)
  next
    case False
    show ?thesis
    proof (cases "n < 3")
      case n: False
      then have P: "P = 256 * 256 ^ (n - 3)" 
        using False by (cases "n - 2") (auto simp: P_def compact_k_def numeral_3_eq_3 numeral_2_eq_2)
      have "32768 * P = 8388608 * 256 ^ (n - 3)" by (simp add: P)
      also have "\<dots> \<le> compact_top v n * 256 ^ (n - 3)" using False by (intro mult_le_mono1) simp
      also have "\<dots> \<le> v" using n by (cases "n = 3") (simp_all add: compact_top_def)
      finally show ?thesis by simp
    qed (simp add: compact_k_def False)
  qed
qed

lemma and_bit23: "x AND 0x00800000 \<noteq> (0 :: u32) \<longleftrightarrow> bit (unat x) 23"
  using test_bit32 [of 23 x] by simp

lemma bit23_iff: "m < 16777216 \<Longrightarrow> bit m 23 \<longleftrightarrow> \<not> m < (8388608 :: nat)"
proof -
  assume "m < 16777216"
  then have "m div 8388608 = 0 \<or> m div 8388608 = 1" by (auto simp: div_if)
  then show ?thesis by (auto simp: bit_iff_odd div_eq_0_iff)
qed

lemma GetCompact_parts:
  assumes "length x = 8" "0 < uval x" "n = (bu_bits x + 7) div 8"
  shows "\<exists>c. GetCompact x False = Some c \<and> compact_size c = compact_k (uval x) n
    \<and> compact_mant c = compact_m (uval x) n \<and> c AND 0x00800000 = 0"
proof -
  let ?v = "uval x"
  have b: "256 ^ (n - 1) \<le> ?v" "?v < 256 ^ n" "0 < n" using bu_bits_256 [OF assms(2,3)] by auto
  then have t: "65536 \<le> compact_top ?v n" "compact_top ?v n < 16777216" using compact_top_bounds by blast+
  have n32: "n \<le> 32"
  proof (rule ccontr)
    assume "\<not> n \<le> 32"
    then have "(256 :: nat) ^ 32 \<le> 256 ^ (n - 1)" by (intro power_increasing) auto
    then have "4294967296 ^ 8 \<le> ?v" using b(1) by simp
    then show False using uval_less [of x] assms by simp
  qed
  define c0 :: u32 where "c0 = (if n \<le> 3 then ucast (push_bit (8 * (3 - n)) (bu_GetLow64 x))
                else ucast (bu_GetLow64 (bu_shr x (8 * (n - 3)))))"
  have c0: "unat c0 = compact_top ?v n" unfolding c0_def by (rule GetCompact_word [OF assms])
  have s: "c0 AND 0x00800000 \<noteq> 0 \<longleftrightarrow> \<not> compact_top ?v n < 8388608"
    using bit23_iff [OF t(2)] by (simp only: and_bit23 c0)
  define c1 where "c1 = (if c0 AND 0x00800000 \<noteq> 0 then drop_bit 8 c0 else c0)"
  define k where "k = compact_k ?v n"
  have c1: "unat c1 = compact_m ?v n"
  proof -
    have "unat (drop_bit 8 c0) = compact_top ?v n div 256"
      by (simp only: unat_drop_bit_eq c0) (simp add: drop_bit_eq_div)
    then show ?thesis using c0 s by (simp only: c1_def compact_m_def split: if_split) blast
  qed
  have c1l: "unat c1 < 8388608" unfolding c1 using t by (intro compact_m_less) simp
  have pair: "(if c0 AND 0x00800000 \<noteq> 0 then (drop_bit 8 c0, n + 1) else (c0, n)) = (c1, k)"
    by (simp add: c1_def k_def compact_k_def s)
  have m0: "c1 AND NOT 0x007fffff = 0"
  proof -
    have "unat c1 = take_bit 23 (unat c1)" using c1l by (simp add: take_bit_nat_eq_self)
    then have "c1 = take_bit 23 c1" by (simp only: word_unat_eq_iff unsigned_take_bit_eq)
    then have "c1 AND NOT (mask 23) = 0"
      by (metis (no_types, lifting) and.assoc and.right_neutral bit.conj_cancel_right bit.conj_zero_right take_bit_eq_mask)
    then show ?thesis by (simp add: mask_eq_exp_minus_1)
  qed
  have k: "k < 256" "0 < k" using n32 b(3) by (simp_all add: k_def compact_k_def)
  define c2 where "c2 = c1 OR push_bit 24 (word_of_nat k)"
  have c2: "unat c2 = unat c1 + 16777216 * k"
  proof -
    have kk: "unat (push_bit 24 (word_of_nat k) :: u32) = 16777216 * k"
      using k by (simp add: push_bit_eq_mult unat_word_ariths unat_of_nat)
    have "c1 AND push_bit 24 (word_of_nat k) = 0"
    proof (rule bit_word_eqI)
      fix i
      have "bit c1 i \<Longrightarrow> i < 23"
        using c1l bit_take_bit_iff [of 23 "unat c1" i] by (simp add: take_bit_nat_eq_self bit_unsigned_iff)
      then show "bit (c1 AND push_bit 24 (word_of_nat k)) i = bit 0 i"
        by (auto simp: bit_and_iff bit_push_bit_iff)
    qed
    then have "c2 = c1 + push_bit 24 (word_of_nat k)"
      using word_plus_and_or [of c1 "push_bit 24 (word_of_nat k)"] by (simp add: c2_def)
    then have "unat c2 = (unat c1 + 16777216 * k) mod 4294967296" using kk by (simp add: unat_word_ariths)
    then show ?thesis using c1l k by simp
  qed
  have g: "GetCompact x False = Some c2"
    unfolding GetCompact_def Let_def assms(3) [symmetric] c0_def [symmetric] pair prod.case
    using m0 k by (simp only: c2_def) simp
  have "compact_size c2 = k" using c1l by (simp add: compact_size_def c2)
  moreover have "compact_mant c2 = unat c1"
  proof -
    have "(unat c1 + 8388608 * (2 * k)) mod 8388608 = unat c1" using c1l by (simp only: mod_mult_self2 mod_less)
    then show ?thesis by (simp add: compact_mant_def c2)
  qed
  moreover have "\<not> bit (unat c2) 23"
  proof -
    have "unat c2 div 8388608 = 2 * k" using c1l by (simp add: c2)
    then show ?thesis by (simp add: bit_iff_odd)
  qed
  ultimately show ?thesis using g c1 and_bit23 [of c2] by (auto simp: k_def)
qed

lemma GetCompact_zero: "length x = 8 \<Longrightarrow> uval x = 0 \<Longrightarrow> GetCompact x False = Some 0"
proof -
  assume l: "length x = 8" and z: "uval x = 0"
  then have x: "x = bu_zero 8" using uval_inj [of x "bu_zero 8"] by simp
  show ?thesis unfolding x by code_simp
qed

lemma SetCompact_reread:
  assumes "length x = 8"
  shows "\<exists>c r. GetCompact x False = Some c \<and> SetCompact c = (r, False, False) \<and>
    uval r \<le> uval x \<and> 32768 * (uval x - uval r) \<le> uval x"
proof (cases "uval x = 0")
  case True
  have "SetCompact 0 = (bu_zero 8, False, False)" by code_simp
  then show ?thesis using GetCompact_zero [OF assms True] True by auto
next
  case False
  define n where "n = (bu_bits x + 7) div 8"
  obtain c where c: "GetCompact x False = Some c" "compact_size c = compact_k (uval x) n"
    "compact_mant c = compact_m (uval x) n" "c AND 0x00800000 = 0"
    using GetCompact_parts [OF assms _ n_def] False by auto
  define P where "P = (256 :: nat) ^ (compact_k (uval x) n - 3)"
  have b: "256 ^ (n - 1) \<le> uval x" "uval x < 256 ^ n" "0 < n"
    using bu_bits_256 [OF _ n_def] False by auto
  have val: "compact_value c = uval x div P * P" "compact_k (uval x) n \<le> 3 \<or> 32768 * P \<le> uval x"
    using compact_parts_value [OF b c(2,3)] by (simp_all add: P_def)
  have le: "compact_value c \<le> uval x" by (simp add: val)
  then have lt: "compact_value c < 2 ^ 256" using uval_less [of x] assms by simp
  obtain r neg ovf where S: "SetCompact c = (r, neg, ovf)" by (cases "SetCompact c") auto
  have "neg = False" using c(4) S by (simp add: SetCompact_def Let_def)
  moreover have "ovf = False" using SetCompact_overflow_iff [of c] S lt by simp
  moreover have r: "uval r = compact_value c" using SetCompact_value [of c] S lt by simp
  moreover have "32768 * (uval x - compact_value c) \<le> uval x"
  proof -
    have d: "uval x - compact_value c = uval x mod P" by (simp add: val minus_div_mult_eq_mod)
    show ?thesis
    proof (cases "compact_k (uval x) n \<le> 3")
      case True
      then show ?thesis by (simp add: d P_def)
    next
      case False
      have "uval x mod P \<le> P" by (simp add: P_def less_imp_le)
      then show ?thesis using val(2) False unfolding d by linarith
    qed
  qed
  ultimately show ?thesis using c(1) S le by auto
qed

text \<open>
  C32: writing a 256-bit number in the compact form of a difficulty target and reading it back
  never fails an assertion, sets neither the negative nor the overflow flag, and gives the
  number rounded down with a relative error below one part in 32768.
\<close>

theorem SetCompact_GetCompact:
  assumes "length x = 8"
  shows "\<exists>c r. GetCompact x False = Some c \<and> SetCompact c = (r, False, False) \<and>
    uval r \<le> uval x \<and> 32768 * (uval x - uval r) \<le> uval x"
  using assms by (rule SetCompact_reread)

lemma SetCompact_GetCompact_witness:
  "\<exists>c r. GetCompact (bu_of_u64 8 0x123456789) False = Some c \<and> SetCompact c = (r, False, False) \<and>
    uval r \<le> uval (bu_of_u64 8 0x123456789) \<and>
    32768 * (uval (bu_of_u64 8 0x123456789) - uval r) \<le> uval (bu_of_u64 8 0x123456789)"
  by (rule SetCompact_GetCompact) simp

text \<open>
  C31: on eight limbs the operators of \<open>uint256\<close> are the operations of 256-bit machine
  arithmetic: sum, difference, negation and product modulo two to the 256, the shifts, the
  unsigned comparison, and division, which fails exactly on a zero divisor.
\<close>

theorem bu256_arith:
  assumes "length a = 8" "length b = 8"
  shows "w256 (bu_add a b) = w256 a + w256 b \<and> w256 (bu_sub a b) = w256 a - w256 b \<and>
    w256 (bu_neg a) = - w256 a \<and> w256 (bu_mul a b) = w256 a * w256 b \<and>
    w256 (bu_shl a s) = push_bit s (w256 a) \<and> w256 (bu_shr a s) = drop_bit s (w256 a) \<and>
    (bu_CompareTo a b < 0 \<longleftrightarrow> w256 a < w256 b) \<and>
    (case bu_div a b of Inl e \<Rightarrow> e = DivisionByZero \<and> w256 b = 0
     | Inr q \<Rightarrow> w256 b \<noteq> 0 \<and> w256 q = w256 a div w256 b)"
proof -
  have z: "w256 b = 0 \<longleftrightarrow> uval b = 0" using assms by (simp flip: unat_w256 add: unat_eq_zero)
  have "case bu_div a b of Inl e \<Rightarrow> e = DivisionByZero \<and> w256 b = 0
     | Inr q \<Rightarrow> w256 b \<noteq> 0 \<and> w256 q = w256 a div w256 b"
    using assms bu_div_correct(1) [of a b] w256_div [of a b] z
    by (cases "bu_div a b") (auto simp: bu_div_def Let_def split: if_splits)
  then show ?thesis using assms
    by (simp add: w256_add w256_sub w256_neg w256_mul w256_shl w256_shr w256_less bu_CompareTo_uval)
qed

lemma bu256_arith_witness:
  "w256 (bu_sub (bu_of_u64 8 3) (bu_of_u64 8 5)) = w256 (bu_of_u64 8 3) - w256 (bu_of_u64 8 5)"
  using bu256_arith [of "bu_of_u64 8 3" "bu_of_u64 8 5" 0] by simp

text \<open>
  Reading a compact form sets the overflow flag exactly when the number it stands for does
  not fit in 256 bits, and otherwise yields that number.
\<close>

theorem SetCompact_exact:
  "case SetCompact c of (r, neg, ovf) \<Rightarrow>
     (ovf \<longleftrightarrow> 2 ^ 256 \<le> compact_value c) \<and> uval r = compact_value c mod 2 ^ 256"
  using SetCompact_overflow_iff [of c] SetCompact_value [of c] by (cases "SetCompact c") auto

end
