(* ===== verification/Amount.thy ===== *)
theory Amount
  imports Serialize
begin

section \<open>Amounts and fee rates (amount.h, amount.cpp)\<close>

text \<open>
  A \<open>CAmount\<close> is an \<open>int64_t\<close>. Fee rates are amounts per thousand bytes; their arithmetic
  mixes the signed amount with an unsigned size, so that it is done modulo two to the 64 on
  unsigned numbers before it is converted back. The lemmas give the fee where nothing wraps.
\<close>

type_synonym CAmount = int

definition COIN :: CAmount where "COIN = 100000000"
definition CENT :: CAmount where "CENT = 10000000"
definition ZCENT :: CAmount where "ZCENT = 1000000"

record CFeeRate =
  nSatoshisPerK :: CAmount

definition u64_mul :: "nat \<Rightarrow> nat \<Rightarrow> nat" where
  "u64_mul a b = (a * b) mod 2 ^ 64"

definition feerate_of :: "CAmount \<Rightarrow> nat \<Rightarrow> CFeeRate" where
  "feerate_of nFeePaid nSize =
     \<lparr>nSatoshisPerK =
        (if nSize > 0 then wrap_s 64 (int (to_u 64 (wrap_s 64 (nFeePaid * 1000)) div nSize)) else 0)\<rparr>"

definition GetFee :: "CFeeRate \<Rightarrow> nat \<Rightarrow> CAmount" where
  "GetFee r nSize =
     (let nFee = wrap_s 64 (int (u64_mul (to_u 64 (nSatoshisPerK r)) nSize div 1000))
      in if nFee = 0 \<and> nSatoshisPerK r > 0 then nSatoshisPerK r else nFee)"

definition GetFeePerK :: "CFeeRate \<Rightarrow> CAmount" where
  "GetFeePerK r = GetFee r 1000"

definition feerate_less :: "CFeeRate \<Rightarrow> CFeeRate \<Rightarrow> bool" where
  "feerate_less a b \<longleftrightarrow> nSatoshisPerK a < nSatoshisPerK b"

definition feerate_Serialize :: "CFeeRate \<Rightarrow> bytes" where
  "feerate_Serialize r = Serialize_int 8 (nSatoshisPerK r)"

definition feerate_Unserialize :: "CFeeRate reader" where
  "feerate_Unserialize bs =
     bindE (Unserialize_int 8 bs) (\<lambda>(x, r). Inr (\<lparr>nSatoshisPerK = x\<rparr>, r))"

lemma to_u_nonneg: "0 \<le> x \<Longrightarrow> x < 2 ^ w \<Longrightarrow> to_u w x = nat x"
  by (simp add: to_u_def)

lemma wrap_s_nat_id: "0 < w \<Longrightarrow> int n < 2 ^ (w - 1) \<Longrightarrow> wrap_s w (int n) = int n"
proof -
  assume w: "0 < w" and n: "int n < 2 ^ (w - 1)"
  have "- (2 ^ (w - 1)) \<le> (0 :: int)" by simp
  also have "0 \<le> int n" by simp
  finally have "in_s w (int n)" using n by (simp add: in_s_def)
  then show ?thesis using w by (simp add: wrap_s_id)
qed

lemma GetFee_value:
  assumes "0 \<le> nSatoshisPerK r" "nSatoshisPerK r * int n < 2 ^ 63"
  shows "GetFee r n =
    (if nSatoshisPerK r * int n < 1000 \<and> 0 < nSatoshisPerK r then nSatoshisPerK r
     else nSatoshisPerK r * int n div 1000)"
proof (cases "n = 0")
  case True
  then show ?thesis by (simp add: GetFee_def u64_mul_def wrap_s_def Let_def)
next
  case False
  let ?s = "nSatoshisPerK r"
  have "?s * 1 \<le> ?s * int n" using assms False by (intro mult_left_mono) auto
  then have s: "?s < 2 ^ 63" using assms by simp
  then have u: "to_u 64 ?s = nat ?s" using assms by (simp add: to_u_def)
  have m: "int (nat ?s * n) = ?s * int n" using assms by simp
  have "int (nat ?s * n) < int (2 ^ 64)" unfolding m using assms by simp
  then have "nat ?s * n < 2 ^ 64" by (simp only: of_nat_less_iff)
  then have um: "u64_mul (to_u 64 ?s) n = nat ?s * n" by (simp add: u64_mul_def u)
  have d: "int (nat ?s * n div 1000) = ?s * int n div 1000" by (simp only: of_nat_div m) simp
  have "0 \<le> x \<Longrightarrow> x div 1000 \<le> x" for x :: int
    by (cases "x = 0") (simp_all add: less_imp_le int_div_less_self)
  then have "?s * int n div 1000 \<le> ?s * int n" using assms by simp
  then have "int (nat ?s * n div 1000) < 2 ^ 63" unfolding d using assms by simp
  then have w: "wrap_s 64 (int (nat ?s * n div 1000)) = ?s * int n div 1000"
    unfolding d [symmetric] by (intro wrap_s_nat_id) simp_all
  have z: "?s * int n div 1000 = 0 \<longleftrightarrow> ?s * int n < 1000"
    using assms by (auto simp: div_eq_0_iff)
  show ?thesis using w z by (auto simp: GetFee_def Let_def um)
qed

text \<open>
  A fee is never less than the rate prescribes rounded down, is at least the rate itself
  when rounding would make it free, and grows with the size, where the product stays in range.
\<close>

theorem GetFee_mono:
  assumes "0 \<le> nSatoshisPerK r" "nSatoshisPerK r * int n < 2 ^ 63" "m \<le> n" "1000 \<le> m"
  shows "GetFee r m \<le> GetFee r n \<and> nSatoshisPerK r \<le> GetFee r m"
proof -
  let ?s = "nSatoshisPerK r"
  have mn: "?s * int m \<le> ?s * int n" using assms by (intro mult_left_mono) auto
  then have g: "GetFee r m = (if ?s * int m < 1000 \<and> 0 < ?s then ?s else ?s * int m div 1000)"
    using assms by (intro GetFee_value) auto
  have le: "?s * 1000 \<le> ?s * int m" using assms by (intro mult_left_mono) auto
  have a: "?s \<le> ?s * int m div 1000" using zdiv_mono1 [OF le, of 1000] by simp
  have b: "?s * int m div 1000 \<le> ?s * int n div 1000" using mn by (intro zdiv_mono1) auto
  have nz: "0 < ?s \<Longrightarrow> \<not> ?s * int m < 1000" using le by linarith
  have "GetFee r m = ?s * int m div 1000" using g nz by auto
  moreover have "GetFee r n = ?s * int n div 1000"
    using GetFee_value [OF assms(1,2)] nz mn by (auto split: if_splits)
  ultimately show ?thesis using a b by simp
qed

lemma GetFee_mono_witness:
  "GetFee \<lparr>nSatoshisPerK = 10000\<rparr> 1000 \<le> GetFee \<lparr>nSatoshisPerK = 10000\<rparr> 2500 \<and>
   10000 \<le> GetFee \<lparr>nSatoshisPerK = 10000\<rparr> 1000"
  using GetFee_mono [of "\<lparr>nSatoshisPerK = 10000\<rparr>" 2500 1000] by simp

end
