(* ===== verification/Params.thy ===== *)
theory Params
  imports Base_Uint Amount "HOL-Library.Signed_Division"
begin

section \<open>Chain parameters and subsidy (chainparams.h, chainparams.cpp, chainparamsbase.h, main.cpp)\<close>

text \<open>
  The parameters of the three networks, as the constructors set them, each network starting from
  the one it is derived from, and the subsidy and masternode share computed from them. The
  halving reward is computed in floating point: it is the parameter \<open>halving\<close>.
\<close>

datatype Network = MAIN | TESTNET | REGTEST | UNITTEST

datatype Base58Type = PUBKEY_ADDRESS | SCRIPT_ADDRESS | SECRET_KEY | EXT_PUBLIC_KEY | EXT_SECRET_KEY | EXT_COIN_TYPE

record CChainParams =
  networkID :: Network
  pchMessageStart :: bytes
  nDefaultPort :: int
  bnProofOfWorkLimit :: uint256
  nSubsidyHalvingInterval :: int
  nMaxReorganizationDepth :: int
  nEnforceBlockUpgradeMajority :: int
  nRejectBlockOutdatedMajority :: int
  nToCheckBlockUpgradeMajority :: int
  nMinerThreads :: int
  nTargetTimespan :: int
  nTargetSpacingSlowLaunch :: int
  nTargetSpacing :: int
  nMaturity :: int
  nMasternodeCountDrift :: int
  nMaxMoneyOut :: CAmount
  nLastPOWBlock :: int
  nModifierUpdateBlock :: int
  nZerocoinStartHeight :: int
  nAccumulatorStartHeight :: int
  nZerocoinStartTime :: int
  nBlockEnforceSerialRange :: int
  nBlockRecalculateAccumulators :: int
  nBlockFirstFraudulent :: int
  nBlockLastGoodCheckpoint :: int
  base58Prefixes :: "Base58Type \<Rightarrow> bytes"
  fMiningRequiresPeers :: bool
  fAllowMinDifficultyBlocks :: bool
  fDefaultConsistencyChecks :: bool
  fRequireStandard :: bool
  fMineBlocksOnDemand :: bool
  fSkipProofOfWorkCheck :: bool
  fTestnetToBeDeprecatedFieldRPC :: bool
  fHeadersFirstSyncingActive :: bool
  nPoolMaxTransactions :: int
  nStartMasternodePayments :: int
  nMaxZerocoinSpendsPerTransaction :: int
  nMinZerocoinMintFee :: CAmount
  nMintRequiredConfirmations :: int
  nRequiredAccumulation :: int
  nDefaultSecurityLevel :: int
  nZerocoinHeaderVersion :: int
  nBudget_Fee_Confirmations :: int

fun main_prefix :: "Base58Type \<Rightarrow> bytes" where
  "main_prefix PUBKEY_ADDRESS = [38]"
| "main_prefix SCRIPT_ADDRESS = [138]"
| "main_prefix SECRET_KEY = [98]"
| "main_prefix EXT_PUBLIC_KEY = [0x02, 0x2D, 0x25, 0x73]"
| "main_prefix EXT_SECRET_KEY = [0x02, 0x21, 0x31, 0x2B]"
| "main_prefix EXT_COIN_TYPE = [0x80, 0x00, 0x04, 0x6f]"

fun test_prefix :: "Base58Type \<Rightarrow> bytes" where
  "test_prefix PUBKEY_ADDRESS = [139]"
| "test_prefix SCRIPT_ADDRESS = [19]"
| "test_prefix SECRET_KEY = [239]"
| "test_prefix EXT_PUBLIC_KEY = [0x3a, 0x80, 0x61, 0xa0]"
| "test_prefix EXT_SECRET_KEY = [0x3a, 0x80, 0x58, 0x37]"
| "test_prefix EXT_COIN_TYPE = [0x80, 0x00, 0x00, 0x01]"

definition mainParams :: CChainParams where
  "mainParams = \<lparr>
     networkID = MAIN,
     pchMessageStart = [0x54, 0x45, 0x4C, 0x55],
     nDefaultPort = 8051,
     bnProofOfWorkLimit = drop_bit 20 (NOT 0),
     nSubsidyHalvingInterval = 210000,
     nMaxReorganizationDepth = 100,
     nEnforceBlockUpgradeMajority = 750,
     nRejectBlockOutdatedMajority = 950,
     nToCheckBlockUpgradeMajority = 1000,
     nMinerThreads = 0,
     nTargetTimespan = 1 * 30,
     nTargetSpacingSlowLaunch = 10 * 60,
     nTargetSpacing = 1 * 60,
     nMaturity = 10,
     nMasternodeCountDrift = 20,
     nMaxMoneyOut = 40000000 * COIN,
     nLastPOWBlock = 291,
     nModifierUpdateBlock = 1,
     nZerocoinStartHeight = 292,
     nAccumulatorStartHeight = 1,
     nZerocoinStartTime = 1531801217,
     nBlockEnforceSerialRange = 1,
     nBlockRecalculateAccumulators = NOT 1,
     nBlockFirstFraudulent = NOT 1,
     nBlockLastGoodCheckpoint = NOT 1,
     base58Prefixes = main_prefix,
     fMiningRequiresPeers = False,
     fAllowMinDifficultyBlocks = False,
     fDefaultConsistencyChecks = False,
     fRequireStandard = False,
     fMineBlocksOnDemand = False,
     fSkipProofOfWorkCheck = False,
     fTestnetToBeDeprecatedFieldRPC = False,
     fHeadersFirstSyncingActive = False,
     nPoolMaxTransactions = 3,
     nStartMasternodePayments = 1403728576,
     nMaxZerocoinSpendsPerTransaction = 7,
     nMinZerocoinMintFee = 1 * ZCENT,
     nMintRequiredConfirmations = 20,
     nRequiredAccumulation = 1,
     nDefaultSecurityLevel = 100,
     nZerocoinHeaderVersion = 4,
     nBudget_Fee_Confirmations = 6\<rparr>"

definition testNetParams :: CChainParams where
  "testNetParams = mainParams\<lparr>
     networkID := TESTNET,
     pchMessageStart := [0x54, 0x45, 0x65, 0xba],
     nDefaultPort := 19333,
     nEnforceBlockUpgradeMajority := 51,
     nRejectBlockOutdatedMajority := 75,
     nToCheckBlockUpgradeMajority := 100,
     nMinerThreads := 0,
     nTargetTimespan := 1 * 60,
     nTargetSpacing := 1 * 60,
     nLastPOWBlock := 200,
     nMaturity := 15,
     nMasternodeCountDrift := 4,
     nModifierUpdateBlock := 51197,
     nMaxMoneyOut := 43199500 * COIN,
     nZerocoinStartHeight := 201576,
     nZerocoinStartTime := wrap_s 32 253381171491,
     nBlockEnforceSerialRange := 1,
     nBlockRecalculateAccumulators := 9908000,
     nBlockFirstFraudulent := 9891737,
     nBlockLastGoodCheckpoint := 9891730,
     base58Prefixes := test_prefix,
     fMiningRequiresPeers := True,
     fAllowMinDifficultyBlocks := True,
     fDefaultConsistencyChecks := False,
     fRequireStandard := False,
     fMineBlocksOnDemand := False,
     fTestnetToBeDeprecatedFieldRPC := True,
     nPoolMaxTransactions := 2,
     nStartMasternodePayments := 1420837558,
     nBudget_Fee_Confirmations := 3\<rparr>"

definition regTestParams :: CChainParams where
  "regTestParams = testNetParams\<lparr>
     networkID := REGTEST,
     pchMessageStart := [0x54, 0x45, 0x7e, 0xac],
     nSubsidyHalvingInterval := 150,
     nEnforceBlockUpgradeMajority := 750,
     nRejectBlockOutdatedMajority := 950,
     nToCheckBlockUpgradeMajority := 1000,
     nMinerThreads := 1,
     nTargetTimespan := 24 * 60 * 60,
     nTargetSpacing := 1 * 60,
     bnProofOfWorkLimit := drop_bit 1 (NOT 0),
     nDefaultPort := 51436,
     fMiningRequiresPeers := False,
     fAllowMinDifficultyBlocks := True,
     fDefaultConsistencyChecks := True,
     fRequireStandard := False,
     fMineBlocksOnDemand := True,
     fTestnetToBeDeprecatedFieldRPC := False\<rparr>"

definition unitTestParams :: CChainParams where
  "unitTestParams = mainParams\<lparr>
     networkID := UNITTEST,
     nDefaultPort := 51478,
     fMiningRequiresPeers := False,
     fDefaultConsistencyChecks := True,
     fAllowMinDifficultyBlocks := False,
     fMineBlocksOnDemand := True\<rparr>"

fun ParamsOf :: "Network \<Rightarrow> CChainParams" where
  "ParamsOf MAIN = mainParams"
| "ParamsOf TESTNET = testNetParams"
| "ParamsOf REGTEST = regTestParams"
| "ParamsOf UNITTEST = unitTestParams"

definition Interval :: "CChainParams \<Rightarrow> int" where
  "Interval P = nTargetTimespan P sdiv nTargetSpacing P"

subsection \<open>Subsidy\<close>

definition TIER_BLOCK_HEIGHT :: int where "TIER_BLOCK_HEIGHT = 524500"
definition SPORK_17_MASTERNODE_PAYMENT_CHECK_DEFAULT :: int where
  "SPORK_17_MASTERNODE_PAYMENT_CHECK_DEFAULT = 1018866"
definition SPORK_19_LOWERED_MASTERNODE_PAYMENT_DEFAULT :: int where
  "SPORK_19_LOWERED_MASTERNODE_PAYMENT_DEFAULT = 1276502"
definition SPORK_20_REWARD_HALVING_START_DEFAULT :: int where
  "SPORK_20_REWARD_HALVING_START_DEFAULT = 1578902"
definition SPORK_20_REWARD_HALVING_PERIOD_DEFAULT :: int where
  "SPORK_20_REWARD_HALVING_PERIOD_DEFAULT = 525600"

definition GetBlockValue :: "(int \<Rightarrow> CAmount) \<Rightarrow> CChainParams \<Rightarrow> int \<Rightarrow> CAmount" where
  "GetBlockValue halving P nHeight =
     (if networkID P = TESTNET \<and> nHeight < 200 \<and> nHeight > 0 then 250000 * COIN
      else if nHeight = 1 then 3000000 * COIN
      else if nHeight \<le> nLastPOWBlock P \<and> nHeight \<ge> 3 then 3 * COIN
      else if nHeight \<le> 1728 \<and> nHeight > nLastPOWBlock P then 2 * COIN
      else if nHeight \<le> 4608 \<and> nHeight > 1728 then 5 * COIN
      else if nHeight \<le> 8928 \<and> nHeight > 4608 then 10 * COIN
      else if nHeight \<le> 11808 \<and> nHeight > 8928 then 25 * COIN
      else if nHeight \<le> 16128 \<and> nHeight > 11808 then 70 * COIN
      else if nHeight \<le> 19008 \<and> nHeight > 16128 then 100 * COIN
      else if nHeight \<le> TIER_BLOCK_HEIGHT \<and> nHeight > 19008 then 200 * COIN
      else if nHeight \<le> SPORK_17_MASTERNODE_PAYMENT_CHECK_DEFAULT \<and> nHeight > TIER_BLOCK_HEIGHT then 100 * COIN
      else if nHeight > SPORK_17_MASTERNODE_PAYMENT_CHECK_DEFAULT \<and> nHeight < SPORK_20_REWARD_HALVING_START_DEFAULT
        then 50 * COIN
      else if nHeight \<ge> SPORK_20_REWARD_HALVING_START_DEFAULT then halving nHeight
      else COIN div 10)"

definition GetMasternodePayment :: "int \<Rightarrow> CAmount \<Rightarrow> CAmount" where
  "GetMasternodePayment nHeight blockValue =
     (if nHeight \<le> 100 then wrap_s 64 ((blockValue sdiv 100) * 0)
      else if nHeight \<le> SPORK_17_MASTERNODE_PAYMENT_CHECK_DEFAULT then wrap_s 64 ((blockValue sdiv 100) * 90)
      else if nHeight < SPORK_19_LOWERED_MASTERNODE_PAYMENT_DEFAULT then wrap_s 64 ((blockValue sdiv 100) * 80)
      else wrap_s 64 ((blockValue sdiv 100) * 70))"

lemma GetMasternodePayment_le:
  assumes "0 \<le> v" "v < 2 ^ 56"
  shows "0 \<le> GetMasternodePayment h v \<and> GetMasternodePayment h v \<le> v"
proof -
  have d: "v sdiv 100 = v div 100" using assms by (simp add: signed_divide_int_def sgn_if)
  have "wrap_s 64 ((v div 100) * k) = (v div 100) * k \<and> 0 \<le> (v div 100) * k \<and> (v div 100) * k \<le> v"
    if "0 \<le> k" "k \<le> 90" for k
  proof -
    have q: "0 \<le> v div 100" "v div 100 * 100 \<le> v" using assms by simp_all
    have le: "(v div 100) * k \<le> v"
      using mult_left_mono [OF that(2) q(1)] q by linarith
    moreover have "0 \<le> (v div 100) * k" using q that by simp
    ultimately show ?thesis using assms by (simp add: wrap_s_id in_s_def)
  qed
  from this [of 0] this [of 90] this [of 80] this [of 70] show ?thesis
    by (simp add: GetMasternodePayment_def d)
qed

lemma sum_GetBlockValue_tier:
  "(\<Sum>h = 19009..204009. GetBlockValue halving mainParams (int h)) = 185001 * (200 * COIN)"
proof -
  have "GetBlockValue halving mainParams (int h) = 200 * COIN" if "h \<in> {19009..204009}" for h
    using that by (simp add: GetBlockValue_def mainParams_def TIER_BLOCK_HEIGHT_def)
  then have "(\<Sum>h = 19009..204009. GetBlockValue halving mainParams (int h)) = (\<Sum>h \<in> {19009..204009::nat}. 200 * COIN)"
    by (rule sum.cong [OF refl])
  then show ?thesis by simp
qed

lemma GetBlockValue_nonneg: "\<forall>h. 0 \<le> halving h \<Longrightarrow> 0 \<le> GetBlockValue halving P h"
  by (simp add: GetBlockValue_def COIN_def)

text \<open>
  C38: the masternode share never exceeds the block's value, no subsidy of the main network exceeds
  the one of block 1, and the subsidies up to block 204009 add up to more than \<open>MaxMoneyOut\<close>, the
  largest amount that \<open>MoneyRange\<close> accepts.
\<close>

theorem subsidy_bounds:
  assumes "\<forall>h. 0 \<le> halving h \<and> halving h \<le> 25 * COIN"
  shows "0 \<le> GetMasternodePayment h (GetBlockValue halving mainParams h) \<and>
    GetMasternodePayment h (GetBlockValue halving mainParams h) \<le> GetBlockValue halving mainParams h \<and>
    GetBlockValue halving mainParams h \<le> GetBlockValue halving mainParams 1 \<and>
    nMaxMoneyOut mainParams < (\<Sum>h = 1..204009. GetBlockValue halving mainParams (int h))"
proof -
  have le: "GetBlockValue halving mainParams h \<le> 3000000 * COIN"
  proof -
    have "halving h \<le> 25 * COIN" using assms by blast
    then show ?thesis by (simp add: GetBlockValue_def COIN_def mainParams_def)
  qed
  have one: "GetBlockValue halving mainParams 1 = 3000000 * COIN" by (simp add: GetBlockValue_def mainParams_def)
  have pos: "0 \<le> GetBlockValue halving mainParams k" for k using assms by (simp add: GetBlockValue_nonneg)
  have "GetBlockValue halving mainParams (int 1) +
      (\<Sum>h = 19009..204009. GetBlockValue halving mainParams (int h)) \<le>
    (\<Sum>h = 1..204009. GetBlockValue halving mainParams (int h))"
  proof -
    have "(\<Sum>h \<in> {1} \<union> {19009..204009}. GetBlockValue halving mainParams (int h)) \<le>
        (\<Sum>h = 1..204009. GetBlockValue halving mainParams (int h))"
      by (rule sum_mono2) (auto simp: pos)
    then show ?thesis by (subst (asm) sum.union_disjoint) auto
  qed
  then have "40000000 * COIN < (\<Sum>h = 1..204009. GetBlockValue halving mainParams (int h))"
    using sum_GetBlockValue_tier [of halving] one by (simp add: COIN_def)
  moreover have "GetMasternodePayment h v \<le> v \<and> 0 \<le> GetMasternodePayment h v" if "v = GetBlockValue halving mainParams h" for v
    using GetMasternodePayment_le [of v h] pos [of h] le that by (simp add: COIN_def)
  moreover have "nMaxMoneyOut mainParams = 40000000 * COIN" by (simp add: mainParams_def)
  ultimately show ?thesis using le one by (simp only: refl simp_thms)
qed

lemma subsidy_bounds_witness: "nMaxMoneyOut mainParams < (\<Sum>h = 1..204009. GetBlockValue (\<lambda>_. 0) mainParams (int h))"
  using subsidy_bounds [of "\<lambda>_. 0"] by (simp add: COIN_def)

end
