(* ===== verification/Script.thy ===== *)
theory Script
  imports Serialize
begin

section \<open>Scripts (script/script.h, script/script.cpp)\<close>

text \<open>
  A \<open>CScript\<close> is its bytes. An iterator into it is the rest of the script from that position
  on, so the end is the empty list. Opcodes are the bytes of \<open>enum opcodetype\<close>. The theory
  has the script numbers, the operators that append to a script, the instruction parser
  \<open>GetOp2\<close> with every way it fails, and the scans built on it. The lemmas show that script
  numbers have exactly one minimal form, that pushed data parses back, and that
  \<open>FindAndDelete\<close> of a pushed element removes exactly its occurrences.
\<close>

type_synonym valtype = bytes
type_synonym opcodetype = byte
type_synonym CScript = bytes

definition MAX_SCRIPT_ELEMENT_SIZE :: nat where
  "MAX_SCRIPT_ELEMENT_SIZE = 520"

subsection \<open>Opcodes\<close>

abbreviation (input) OP_0 :: opcodetype where "OP_0 \<equiv> 0x00"
abbreviation (input) OP_FALSE :: opcodetype where "OP_FALSE \<equiv> OP_0"
abbreviation (input) OP_PUSHDATA1 :: opcodetype where "OP_PUSHDATA1 \<equiv> 0x4c"
abbreviation (input) OP_PUSHDATA2 :: opcodetype where "OP_PUSHDATA2 \<equiv> 0x4d"
abbreviation (input) OP_PUSHDATA4 :: opcodetype where "OP_PUSHDATA4 \<equiv> 0x4e"
abbreviation (input) OP_1NEGATE :: opcodetype where "OP_1NEGATE \<equiv> 0x4f"
abbreviation (input) OP_RESERVED :: opcodetype where "OP_RESERVED \<equiv> 0x50"
abbreviation (input) OP_1 :: opcodetype where "OP_1 \<equiv> 0x51"
abbreviation (input) OP_TRUE :: opcodetype where "OP_TRUE \<equiv> OP_1"
abbreviation (input) OP_2 :: opcodetype where "OP_2 \<equiv> 0x52"
abbreviation (input) OP_3 :: opcodetype where "OP_3 \<equiv> 0x53"
abbreviation (input) OP_4 :: opcodetype where "OP_4 \<equiv> 0x54"
abbreviation (input) OP_5 :: opcodetype where "OP_5 \<equiv> 0x55"
abbreviation (input) OP_6 :: opcodetype where "OP_6 \<equiv> 0x56"
abbreviation (input) OP_7 :: opcodetype where "OP_7 \<equiv> 0x57"
abbreviation (input) OP_8 :: opcodetype where "OP_8 \<equiv> 0x58"
abbreviation (input) OP_9 :: opcodetype where "OP_9 \<equiv> 0x59"
abbreviation (input) OP_10 :: opcodetype where "OP_10 \<equiv> 0x5a"
abbreviation (input) OP_11 :: opcodetype where "OP_11 \<equiv> 0x5b"
abbreviation (input) OP_12 :: opcodetype where "OP_12 \<equiv> 0x5c"
abbreviation (input) OP_13 :: opcodetype where "OP_13 \<equiv> 0x5d"
abbreviation (input) OP_14 :: opcodetype where "OP_14 \<equiv> 0x5e"
abbreviation (input) OP_15 :: opcodetype where "OP_15 \<equiv> 0x5f"
abbreviation (input) OP_16 :: opcodetype where "OP_16 \<equiv> 0x60"
abbreviation (input) OP_NOP :: opcodetype where "OP_NOP \<equiv> 0x61"
abbreviation (input) OP_VER :: opcodetype where "OP_VER \<equiv> 0x62"
abbreviation (input) OP_IF :: opcodetype where "OP_IF \<equiv> 0x63"
abbreviation (input) OP_NOTIF :: opcodetype where "OP_NOTIF \<equiv> 0x64"
abbreviation (input) OP_VERIF :: opcodetype where "OP_VERIF \<equiv> 0x65"
abbreviation (input) OP_VERNOTIF :: opcodetype where "OP_VERNOTIF \<equiv> 0x66"
abbreviation (input) OP_ELSE :: opcodetype where "OP_ELSE \<equiv> 0x67"
abbreviation (input) OP_ENDIF :: opcodetype where "OP_ENDIF \<equiv> 0x68"
abbreviation (input) OP_VERIFY :: opcodetype where "OP_VERIFY \<equiv> 0x69"
abbreviation (input) OP_RETURN :: opcodetype where "OP_RETURN \<equiv> 0x6a"
abbreviation (input) OP_TOALTSTACK :: opcodetype where "OP_TOALTSTACK \<equiv> 0x6b"
abbreviation (input) OP_FROMALTSTACK :: opcodetype where "OP_FROMALTSTACK \<equiv> 0x6c"
abbreviation (input) OP_2DROP :: opcodetype where "OP_2DROP \<equiv> 0x6d"
abbreviation (input) OP_2DUP :: opcodetype where "OP_2DUP \<equiv> 0x6e"
abbreviation (input) OP_3DUP :: opcodetype where "OP_3DUP \<equiv> 0x6f"
abbreviation (input) OP_2OVER :: opcodetype where "OP_2OVER \<equiv> 0x70"
abbreviation (input) OP_2ROT :: opcodetype where "OP_2ROT \<equiv> 0x71"
abbreviation (input) OP_2SWAP :: opcodetype where "OP_2SWAP \<equiv> 0x72"
abbreviation (input) OP_IFDUP :: opcodetype where "OP_IFDUP \<equiv> 0x73"
abbreviation (input) OP_DEPTH :: opcodetype where "OP_DEPTH \<equiv> 0x74"
abbreviation (input) OP_DROP :: opcodetype where "OP_DROP \<equiv> 0x75"
abbreviation (input) OP_DUP :: opcodetype where "OP_DUP \<equiv> 0x76"
abbreviation (input) OP_NIP :: opcodetype where "OP_NIP \<equiv> 0x77"
abbreviation (input) OP_OVER :: opcodetype where "OP_OVER \<equiv> 0x78"
abbreviation (input) OP_PICK :: opcodetype where "OP_PICK \<equiv> 0x79"
abbreviation (input) OP_ROLL :: opcodetype where "OP_ROLL \<equiv> 0x7a"
abbreviation (input) OP_ROT :: opcodetype where "OP_ROT \<equiv> 0x7b"
abbreviation (input) OP_SWAP :: opcodetype where "OP_SWAP \<equiv> 0x7c"
abbreviation (input) OP_TUCK :: opcodetype where "OP_TUCK \<equiv> 0x7d"
abbreviation (input) OP_CAT :: opcodetype where "OP_CAT \<equiv> 0x7e"
abbreviation (input) OP_SUBSTR :: opcodetype where "OP_SUBSTR \<equiv> 0x7f"
abbreviation (input) OP_LEFT :: opcodetype where "OP_LEFT \<equiv> 0x80"
abbreviation (input) OP_RIGHT :: opcodetype where "OP_RIGHT \<equiv> 0x81"
abbreviation (input) OP_SIZE :: opcodetype where "OP_SIZE \<equiv> 0x82"
abbreviation (input) OP_INVERT :: opcodetype where "OP_INVERT \<equiv> 0x83"
abbreviation (input) OP_AND :: opcodetype where "OP_AND \<equiv> 0x84"
abbreviation (input) OP_OR :: opcodetype where "OP_OR \<equiv> 0x85"
abbreviation (input) OP_XOR :: opcodetype where "OP_XOR \<equiv> 0x86"
abbreviation (input) OP_EQUAL :: opcodetype where "OP_EQUAL \<equiv> 0x87"
abbreviation (input) OP_EQUALVERIFY :: opcodetype where "OP_EQUALVERIFY \<equiv> 0x88"
abbreviation (input) OP_RESERVED1 :: opcodetype where "OP_RESERVED1 \<equiv> 0x89"
abbreviation (input) OP_RESERVED2 :: opcodetype where "OP_RESERVED2 \<equiv> 0x8a"
abbreviation (input) OP_1ADD :: opcodetype where "OP_1ADD \<equiv> 0x8b"
abbreviation (input) OP_1SUB :: opcodetype where "OP_1SUB \<equiv> 0x8c"
abbreviation (input) OP_2MUL :: opcodetype where "OP_2MUL \<equiv> 0x8d"
abbreviation (input) OP_2DIV :: opcodetype where "OP_2DIV \<equiv> 0x8e"
abbreviation (input) OP_NEGATE :: opcodetype where "OP_NEGATE \<equiv> 0x8f"
abbreviation (input) OP_ABS :: opcodetype where "OP_ABS \<equiv> 0x90"
abbreviation (input) OP_NOT :: opcodetype where "OP_NOT \<equiv> 0x91"
abbreviation (input) OP_0NOTEQUAL :: opcodetype where "OP_0NOTEQUAL \<equiv> 0x92"
abbreviation (input) OP_ADD :: opcodetype where "OP_ADD \<equiv> 0x93"
abbreviation (input) OP_SUB :: opcodetype where "OP_SUB \<equiv> 0x94"
abbreviation (input) OP_MUL :: opcodetype where "OP_MUL \<equiv> 0x95"
abbreviation (input) OP_DIV :: opcodetype where "OP_DIV \<equiv> 0x96"
abbreviation (input) OP_MOD :: opcodetype where "OP_MOD \<equiv> 0x97"
abbreviation (input) OP_LSHIFT :: opcodetype where "OP_LSHIFT \<equiv> 0x98"
abbreviation (input) OP_RSHIFT :: opcodetype where "OP_RSHIFT \<equiv> 0x99"
abbreviation (input) OP_BOOLAND :: opcodetype where "OP_BOOLAND \<equiv> 0x9a"
abbreviation (input) OP_BOOLOR :: opcodetype where "OP_BOOLOR \<equiv> 0x9b"
abbreviation (input) OP_NUMEQUAL :: opcodetype where "OP_NUMEQUAL \<equiv> 0x9c"
abbreviation (input) OP_NUMEQUALVERIFY :: opcodetype where "OP_NUMEQUALVERIFY \<equiv> 0x9d"
abbreviation (input) OP_NUMNOTEQUAL :: opcodetype where "OP_NUMNOTEQUAL \<equiv> 0x9e"
abbreviation (input) OP_LESSTHAN :: opcodetype where "OP_LESSTHAN \<equiv> 0x9f"
abbreviation (input) OP_GREATERTHAN :: opcodetype where "OP_GREATERTHAN \<equiv> 0xa0"
abbreviation (input) OP_LESSTHANOREQUAL :: opcodetype where "OP_LESSTHANOREQUAL \<equiv> 0xa1"
abbreviation (input) OP_GREATERTHANOREQUAL :: opcodetype where "OP_GREATERTHANOREQUAL \<equiv> 0xa2"
abbreviation (input) OP_MIN :: opcodetype where "OP_MIN \<equiv> 0xa3"
abbreviation (input) OP_MAX :: opcodetype where "OP_MAX \<equiv> 0xa4"
abbreviation (input) OP_WITHIN :: opcodetype where "OP_WITHIN \<equiv> 0xa5"
abbreviation (input) OP_RIPEMD160 :: opcodetype where "OP_RIPEMD160 \<equiv> 0xa6"
abbreviation (input) OP_SHA1 :: opcodetype where "OP_SHA1 \<equiv> 0xa7"
abbreviation (input) OP_SHA256 :: opcodetype where "OP_SHA256 \<equiv> 0xa8"
abbreviation (input) OP_HASH160 :: opcodetype where "OP_HASH160 \<equiv> 0xa9"
abbreviation (input) OP_HASH256 :: opcodetype where "OP_HASH256 \<equiv> 0xaa"
abbreviation (input) OP_CODESEPARATOR :: opcodetype where "OP_CODESEPARATOR \<equiv> 0xab"
abbreviation (input) OP_CHECKSIG :: opcodetype where "OP_CHECKSIG \<equiv> 0xac"
abbreviation (input) OP_CHECKSIGVERIFY :: opcodetype where "OP_CHECKSIGVERIFY \<equiv> 0xad"
abbreviation (input) OP_CHECKMULTISIG :: opcodetype where "OP_CHECKMULTISIG \<equiv> 0xae"
abbreviation (input) OP_CHECKMULTISIGVERIFY :: opcodetype where "OP_CHECKMULTISIGVERIFY \<equiv> 0xaf"
abbreviation (input) OP_NOP1 :: opcodetype where "OP_NOP1 \<equiv> 0xb0"
abbreviation (input) OP_NOP2 :: opcodetype where "OP_NOP2 \<equiv> 0xb1"
abbreviation (input) OP_NOP3 :: opcodetype where "OP_NOP3 \<equiv> 0xb2"
abbreviation (input) OP_NOP4 :: opcodetype where "OP_NOP4 \<equiv> 0xb3"
abbreviation (input) OP_NOP5 :: opcodetype where "OP_NOP5 \<equiv> 0xb4"
abbreviation (input) OP_NOP6 :: opcodetype where "OP_NOP6 \<equiv> 0xb5"
abbreviation (input) OP_NOP7 :: opcodetype where "OP_NOP7 \<equiv> 0xb6"
abbreviation (input) OP_NOP8 :: opcodetype where "OP_NOP8 \<equiv> 0xb7"
abbreviation (input) OP_NOP9 :: opcodetype where "OP_NOP9 \<equiv> 0xb8"
abbreviation (input) OP_NOP10 :: opcodetype where "OP_NOP10 \<equiv> 0xb9"
abbreviation (input) OP_ZEROCOINMINT :: opcodetype where "OP_ZEROCOINMINT \<equiv> 0xc1"
abbreviation (input) OP_ZEROCOINSPEND :: opcodetype where "OP_ZEROCOINSPEND \<equiv> 0xc2"
abbreviation (input) OP_SMALLINTEGER :: opcodetype where "OP_SMALLINTEGER \<equiv> 0xfa"
abbreviation (input) OP_PUBKEYS :: opcodetype where "OP_PUBKEYS \<equiv> 0xfb"
abbreviation (input) OP_PUBKEYHASH :: opcodetype where "OP_PUBKEYHASH \<equiv> 0xfd"
abbreviation (input) OP_PUBKEY :: opcodetype where "OP_PUBKEY \<equiv> 0xfe"
abbreviation (input) OP_INVALIDOPCODE :: opcodetype where "OP_INVALIDOPCODE \<equiv> 0xff"

definition op_names :: "(opcodetype \<times> string) list" where
  "op_names =
    [(OP_0, ''0''),
     (OP_PUSHDATA1, ''OP_PUSHDATA1''),
     (OP_PUSHDATA2, ''OP_PUSHDATA2''),
     (OP_PUSHDATA4, ''OP_PUSHDATA4''),
     (OP_1NEGATE, ''-1''),
     (OP_RESERVED, ''OP_RESERVED''),
     (OP_1, ''1''),
     (OP_2, ''2''),
     (OP_3, ''3''),
     (OP_4, ''4''),
     (OP_5, ''5''),
     (OP_6, ''6''),
     (OP_7, ''7''),
     (OP_8, ''8''),
     (OP_9, ''9''),
     (OP_10, ''10''),
     (OP_11, ''11''),
     (OP_12, ''12''),
     (OP_13, ''13''),
     (OP_14, ''14''),
     (OP_15, ''15''),
     (OP_16, ''16''),
     (OP_NOP, ''OP_NOP''),
     (OP_VER, ''OP_VER''),
     (OP_IF, ''OP_IF''),
     (OP_NOTIF, ''OP_NOTIF''),
     (OP_VERIF, ''OP_VERIF''),
     (OP_VERNOTIF, ''OP_VERNOTIF''),
     (OP_ELSE, ''OP_ELSE''),
     (OP_ENDIF, ''OP_ENDIF''),
     (OP_VERIFY, ''OP_VERIFY''),
     (OP_RETURN, ''OP_RETURN''),
     (OP_TOALTSTACK, ''OP_TOALTSTACK''),
     (OP_FROMALTSTACK, ''OP_FROMALTSTACK''),
     (OP_2DROP, ''OP_2DROP''),
     (OP_2DUP, ''OP_2DUP''),
     (OP_3DUP, ''OP_3DUP''),
     (OP_2OVER, ''OP_2OVER''),
     (OP_2ROT, ''OP_2ROT''),
     (OP_2SWAP, ''OP_2SWAP''),
     (OP_IFDUP, ''OP_IFDUP''),
     (OP_DEPTH, ''OP_DEPTH''),
     (OP_DROP, ''OP_DROP''),
     (OP_DUP, ''OP_DUP''),
     (OP_NIP, ''OP_NIP''),
     (OP_OVER, ''OP_OVER''),
     (OP_PICK, ''OP_PICK''),
     (OP_ROLL, ''OP_ROLL''),
     (OP_ROT, ''OP_ROT''),
     (OP_SWAP, ''OP_SWAP''),
     (OP_TUCK, ''OP_TUCK''),
     (OP_CAT, ''OP_CAT''),
     (OP_SUBSTR, ''OP_SUBSTR''),
     (OP_LEFT, ''OP_LEFT''),
     (OP_RIGHT, ''OP_RIGHT''),
     (OP_SIZE, ''OP_SIZE''),
     (OP_INVERT, ''OP_INVERT''),
     (OP_AND, ''OP_AND''),
     (OP_OR, ''OP_OR''),
     (OP_XOR, ''OP_XOR''),
     (OP_EQUAL, ''OP_EQUAL''),
     (OP_EQUALVERIFY, ''OP_EQUALVERIFY''),
     (OP_RESERVED1, ''OP_RESERVED1''),
     (OP_RESERVED2, ''OP_RESERVED2''),
     (OP_1ADD, ''OP_1ADD''),
     (OP_1SUB, ''OP_1SUB''),
     (OP_2MUL, ''OP_2MUL''),
     (OP_2DIV, ''OP_2DIV''),
     (OP_NEGATE, ''OP_NEGATE''),
     (OP_ABS, ''OP_ABS''),
     (OP_NOT, ''OP_NOT''),
     (OP_0NOTEQUAL, ''OP_0NOTEQUAL''),
     (OP_ADD, ''OP_ADD''),
     (OP_SUB, ''OP_SUB''),
     (OP_MUL, ''OP_MUL''),
     (OP_DIV, ''OP_DIV''),
     (OP_MOD, ''OP_MOD''),
     (OP_LSHIFT, ''OP_LSHIFT''),
     (OP_RSHIFT, ''OP_RSHIFT''),
     (OP_BOOLAND, ''OP_BOOLAND''),
     (OP_BOOLOR, ''OP_BOOLOR''),
     (OP_NUMEQUAL, ''OP_NUMEQUAL''),
     (OP_NUMEQUALVERIFY, ''OP_NUMEQUALVERIFY''),
     (OP_NUMNOTEQUAL, ''OP_NUMNOTEQUAL''),
     (OP_LESSTHAN, ''OP_LESSTHAN''),
     (OP_GREATERTHAN, ''OP_GREATERTHAN''),
     (OP_LESSTHANOREQUAL, ''OP_LESSTHANOREQUAL''),
     (OP_GREATERTHANOREQUAL, ''OP_GREATERTHANOREQUAL''),
     (OP_MIN, ''OP_MIN''),
     (OP_MAX, ''OP_MAX''),
     (OP_WITHIN, ''OP_WITHIN''),
     (OP_RIPEMD160, ''OP_RIPEMD160''),
     (OP_SHA1, ''OP_SHA1''),
     (OP_SHA256, ''OP_SHA256''),
     (OP_HASH160, ''OP_HASH160''),
     (OP_HASH256, ''OP_HASH256''),
     (OP_CODESEPARATOR, ''OP_CODESEPARATOR''),
     (OP_CHECKSIG, ''OP_CHECKSIG''),
     (OP_CHECKSIGVERIFY, ''OP_CHECKSIGVERIFY''),
     (OP_CHECKMULTISIG, ''OP_CHECKMULTISIG''),
     (OP_CHECKMULTISIGVERIFY, ''OP_CHECKMULTISIGVERIFY''),
     (OP_NOP1, ''OP_NOP1''),
     (OP_NOP2, ''OP_NOP2''),
     (OP_NOP3, ''OP_NOP3''),
     (OP_NOP4, ''OP_NOP4''),
     (OP_NOP5, ''OP_NOP5''),
     (OP_NOP6, ''OP_NOP6''),
     (OP_NOP7, ''OP_NOP7''),
     (OP_NOP8, ''OP_NOP8''),
     (OP_NOP9, ''OP_NOP9''),
     (OP_NOP10, ''OP_NOP10''),
     (OP_ZEROCOINMINT, ''OP_ZEROCOINMINT''),
     (OP_ZEROCOINSPEND, ''OP_ZEROCOINSPEND''),
     (OP_INVALIDOPCODE, ''OP_INVALIDOPCODE'')]"

definition GetOpName :: "opcodetype \<Rightarrow> string" where
  "GetOpName opcode = (case map_of op_names opcode of Some s \<Rightarrow> s | None \<Rightarrow> ''OP_UNKNOWN'')"

subsection \<open>Script numbers\<close>

text \<open>
  \<open>m_value\<close> is an \<open>int64_t\<close>: an \<open>int\<close> that is \<open>in_s 64\<close>. The constructor throws a
  \<open>scriptnum_error\<close>; a failed assertion of an operator is \<open>None\<close>.
\<close>

datatype scriptnum_error = NumOverflow | NonMinimal

type_synonym CScriptNum = int

definition nMaxNumSize :: nat where
  "nMaxNumSize = 4"

definition set_vch :: "valtype \<Rightarrow> int" where
  "set_vch vch =
     (if vch = [] then 0
      else let result = foldl (\<lambda>r i. r OR push_bit (8 * i) (uint (vch ! i))) 0 [0..<length vch]
           in if last vch AND 0x80 \<noteq> 0
              then - (result AND NOT (push_bit (8 * (length vch - 1)) 0x80))
              else result)"

definition CScriptNum_of_vch :: "valtype \<Rightarrow> bool \<Rightarrow> scriptnum_error + CScriptNum" where
  "CScriptNum_of_vch vch fRequireMinimal =
     (if length vch > nMaxNumSize then Inl NumOverflow
      else if fRequireMinimal \<and> length vch > 0 \<and> last vch AND 0x7f = 0 \<and>
              (length vch \<le> 1 \<or> vch ! (length vch - 2) AND 0x80 = 0)
           then Inl NonMinimal
      else Inr (set_vch vch))"

fun scriptnum_bytes :: "nat \<Rightarrow> bytes" where
  "scriptnum_bytes absvalue =
     (if absvalue = 0 then [] else word_of_nat (absvalue mod 256) # scriptnum_bytes (absvalue div 256))"

declare scriptnum_bytes.simps [simp del]

definition CScriptNum_serialize :: "int \<Rightarrow> valtype" where
  "CScriptNum_serialize v =
     (if v = 0 then []
      else let neg = v < 0;
               result = scriptnum_bytes (nat \<bar>v\<bar>)
           in if last result AND 0x80 \<noteq> 0 then result @ [if neg then 0x80 else 0]
              else if neg then butlast result @ [last result OR 0x80]
              else result)"

definition num_getint :: "CScriptNum \<Rightarrow> int" where
  "num_getint m_value =
     (if m_value > 2147483647 then 2147483647
      else if m_value < - 2147483648 then - 2147483648 else m_value)"

definition num_neg :: "CScriptNum \<Rightarrow> CScriptNum option" where
  "num_neg m_value = (if m_value = - (2 ^ 63) then None else Some (- m_value))"

definition num_add :: "CScriptNum \<Rightarrow> int \<Rightarrow> CScriptNum option" where
  "num_add m_value rhs =
     (if rhs = 0 \<or> (rhs > 0 \<and> m_value \<le> (2 ^ 63 - 1) - rhs) \<or> (rhs < 0 \<and> m_value \<ge> - (2 ^ 63) - rhs)
      then Some (m_value + rhs) else None)"

definition num_sub :: "CScriptNum \<Rightarrow> int \<Rightarrow> CScriptNum option" where
  "num_sub m_value rhs =
     (if rhs = 0 \<or> (rhs > 0 \<and> m_value \<ge> - (2 ^ 63) + rhs) \<or> (rhs < 0 \<and> m_value \<le> (2 ^ 63 - 1) + rhs)
      then Some (m_value - rhs) else None)"

subsection \<open>Appending to a script\<close>

definition push_op :: "CScript \<Rightarrow> opcodetype \<Rightarrow> CScript" where
  "push_op s opcode = s @ [opcode]"

definition push_data :: "CScript \<Rightarrow> valtype \<Rightarrow> CScript" where
  "push_data s b =
     (if length b < unat OP_PUSHDATA1 then s @ [word_of_nat (length b)]
      else if length b \<le> 0xff then s @ [OP_PUSHDATA1] @ [word_of_nat (length b)]
      else if length b \<le> 0xffff then s @ [OP_PUSHDATA2] @ le_enc 2 (length b)
      else s @ [OP_PUSHDATA4] @ le_enc 4 (length b)) @ b"

definition push_num :: "CScript \<Rightarrow> CScriptNum \<Rightarrow> CScript" where
  "push_num s b = push_data s (CScriptNum_serialize b)"

definition push_int64 :: "CScript \<Rightarrow> int \<Rightarrow> CScript" where
  "push_int64 s n =
     (if n = - 1 \<or> (n \<ge> 1 \<and> n \<le> 16) then s @ [word_of_int (n + (uint OP_1 - 1))]
      else if n = 0 then s @ [OP_0]
      else push_data s (CScriptNum_serialize n))"

definition script_append :: "CScript \<Rightarrow> CScript \<Rightarrow> CScript" where
  "script_append a b = a @ b"

subsection \<open>Reading instructions\<close>

text \<open>
  \<open>GetOp2\<close> returns whether it read an instruction, the opcode, the immediate operand and the
  iterator, which has moved past the opcode and the length bytes also when the operand is
  missing. The length bytes and the bytes after them, or where their reading stopped:
\<close>

definition get_size :: "opcodetype \<Rightarrow> bytes \<Rightarrow> bytes + nat \<times> bytes" where
  "get_size opcode pc =
     (if opcode < OP_PUSHDATA1 then Inr (unat opcode, pc)
      else if opcode = OP_PUSHDATA1 then
        (if length pc < 1 then Inl pc else Inr (le_dec (take 1 pc), drop 1 pc))
      else if opcode = OP_PUSHDATA2 then
        (if length pc < 2 then Inl pc else Inr (le_dec (take 2 pc), drop 2 pc))
      else
        (if length pc < 4 then Inl pc else Inr (le_dec (take 4 pc), drop 4 pc)))"

definition GetOp2 :: "bytes \<Rightarrow> bool \<times> opcodetype \<times> valtype \<times> bytes" where
  "GetOp2 pc =
     (case pc of
        [] \<Rightarrow> (False, OP_INVALIDOPCODE, [], [])
      | opcode # pc1 \<Rightarrow>
          if opcode \<le> OP_PUSHDATA4 then
            (case get_size opcode pc1 of
               Inl pc2 \<Rightarrow> (False, OP_INVALIDOPCODE, [], pc2)
             | Inr (nSize, pc2) \<Rightarrow>
                 if length pc2 < nSize then (False, OP_INVALIDOPCODE, [], pc2)
                 else (True, opcode, take nSize pc2, drop nSize pc2))
          else (True, opcode, [], pc1))"

definition DecodeOP_N :: "opcodetype \<Rightarrow> int option" where
  "DecodeOP_N opcode =
     (if opcode = OP_0 then Some 0
      else if opcode \<ge> OP_1 \<and> opcode \<le> OP_16 then Some (uint opcode - (uint OP_1 - 1))
      else None)"

definition EncodeOP_N :: "int \<Rightarrow> opcodetype option" where
  "EncodeOP_N n =
     (if \<not> (n \<ge> 0 \<and> n \<le> 16) then None
      else if n = 0 then Some OP_0 else Some (word_of_int (uint OP_1 + n - 1)))"

lemma get_size_length:
  "get_size opcode pc = Inr (n, pc') \<Longrightarrow> length pc' \<le> length pc"
  "get_size opcode pc = Inl pc' \<Longrightarrow> length pc' \<le> length pc"
  by (auto simp: get_size_def split: if_splits)

lemma GetOp2_shorter: "GetOp2 pc = (ok, opcode, vch, pc') \<Longrightarrow> pc \<noteq> [] \<Longrightarrow> length pc' < length pc"
  by (cases pc)
    (auto simp: GetOp2_def less_Suc_eq_le split: if_splits sum.splits prod.splits
      dest!: get_size_length intro: le_trans)

lemma GetOp2_nil [simp]: "GetOp2 [] = (False, OP_INVALIDOPCODE, [], [])"
  by (simp add: GetOp2_def)

lemma GetOp2_ok_shorter: "GetOp2 pc = (True, opcode, vch, pc') \<Longrightarrow> length pc' < length pc"
  using GetOp2_shorter [of pc True opcode vch pc'] by (cases "pc = []") auto

subsection \<open>Scans\<close>

text \<open>
  \<open>FindAndDelete\<close>: the inner loop erases \<open>b\<close> at the iterator as long as it is there; the
  outer one moves on by an instruction and ends when there is none. The result is what is
  kept from the iterator on, with the number of erasures.
\<close>

lemma drop_shorter: "b \<noteq> [] \<Longrightarrow> length b \<le> length pc \<Longrightarrow> length pc - length b < length pc"
  by (cases b) auto

function erase_here :: "bytes \<Rightarrow> bytes \<Rightarrow> nat \<times> bytes" where
  "erase_here b pc =
     (if b \<noteq> [] \<and> length b \<le> length pc \<and> take (length b) pc = b
      then (let (n, pc') = erase_here b (drop (length b) pc) in (Suc n, pc'))
      else (0, pc))"
  by pat_completeness auto
termination
  by (relation "measure (\<lambda>(b, pc). length pc)") (simp_all add: drop_shorter)

declare erase_here.simps [simp del]

lemma erase_here_length: "erase_here b pc = (n, pc') \<Longrightarrow> length pc' \<le> length pc"
proof (induction b pc arbitrary: n rule: erase_here.induct)
  case (1 b pc)
  show ?case
  proof (cases "b \<noteq> [] \<and> length b \<le> length pc \<and> take (length b) pc = b")
    case True
    obtain m q where e: "erase_here b (drop (length b) pc) = (m, q)" by (cases "erase_here b (drop (length b) pc)")
    have "length q \<le> length (drop (length b) pc)"
      using 1(1) [OF True, of m] e 1(2) True by (subst (asm) (3) erase_here.simps) simp
    then show ?thesis using 1(2) True e by (subst (asm) erase_here.simps) simp
  next
    case False
    then have "erase_here b pc = (0, pc)" by (subst erase_here.simps) (simp only: if_False)
    then show ?thesis using 1(2) by simp
  qed
qed

function find_delete_loop :: "bytes \<Rightarrow> bytes \<Rightarrow> nat \<times> bytes" where
  "find_delete_loop b pc =
     (let (n, pc1) = erase_here b pc;
          (ok, opcode, vch, pc2) = GetOp2 pc1
      in if ok then
           (let (m, rest) = find_delete_loop b pc2
            in (n + m, take (length pc1 - length pc2) pc1 @ rest))
         else (n, pc1))"
  by pat_completeness auto
termination
  by (relation "measure (\<lambda>(b, pc). length pc)")
    (auto dest!: GetOp2_ok_shorter erase_here_length sym [of _ "GetOp2 _"] sym [of _ "erase_here _ _"])

declare find_delete_loop.simps [simp del]

definition FindAndDelete :: "CScript \<Rightarrow> CScript \<Rightarrow> nat \<times> CScript" where
  "FindAndDelete s b = (if b = [] then (0, s) else find_delete_loop b s)"

function script_find :: "opcodetype \<Rightarrow> bytes \<Rightarrow> nat" where
  "script_find opc pc =
     (case GetOp2 pc of
        (ok, opcode, vch, pc2) \<Rightarrow>
          if pc \<noteq> [] \<and> ok then (if opcode = opc then 1 else 0) + script_find opc pc2 else 0)"
  by pat_completeness auto
termination
  by (relation "measure (\<lambda>(opc, pc). length pc)") (auto dest!: GetOp2_ok_shorter sym [of _ "GetOp2 _"])

declare script_find.simps [simp del]

text \<open>The counter is an \<open>unsigned int\<close>; its additions are \<open>uadd32\<close>.\<close>

function sigops_loop :: "bool \<Rightarrow> opcodetype \<Rightarrow> nat \<Rightarrow> bytes \<Rightarrow> nat" where
  "sigops_loop fAccurate lastOpcode n pc =
     (case GetOp2 pc of
        (ok, opcode, vch, pc2) \<Rightarrow>
          if pc \<noteq> [] \<and> ok then
            sigops_loop fAccurate opcode
              (if opcode = OP_CHECKSIG \<or> opcode = OP_CHECKSIGVERIFY then uadd32 n 1
               else if opcode = OP_CHECKMULTISIG \<or> opcode = OP_CHECKMULTISIGVERIFY then
                 (if fAccurate \<and> lastOpcode \<ge> OP_1 \<and> lastOpcode \<le> OP_16
                  then uadd32 n (case DecodeOP_N lastOpcode of Some k \<Rightarrow> nat k | None \<Rightarrow> 0)
                  else uadd32 n 20)
               else n)
              pc2
          else n)"
  by pat_completeness auto
termination
  by (relation "measure (\<lambda>(fAccurate, lastOpcode, n, pc). length pc)")
    (auto dest!: GetOp2_ok_shorter sym [of _ "GetOp2 _"])

declare sigops_loop.simps [simp del]

definition GetSigOpCount :: "CScript \<Rightarrow> bool \<Rightarrow> nat" where
  "GetSigOpCount s fAccurate = sigops_loop fAccurate OP_INVALIDOPCODE 0 s"

definition IsPayToScriptHash :: "CScript \<Rightarrow> bool" where
  "IsPayToScriptHash s \<longleftrightarrow>
     length s = 23 \<and> s ! 0 = OP_HASH160 \<and> s ! 1 = 0x14 \<and> s ! 22 = OP_EQUAL"

text \<open>The last element that a script signature pushes, if it only pushes.\<close>

function last_push_loop :: "valtype \<Rightarrow> bytes \<Rightarrow> valtype option" where
  "last_push_loop data pc =
     (if pc = [] then Some data
      else case GetOp2 pc of
        (ok, opcode, vch, pc2) \<Rightarrow>
          if \<not> ok then None else if opcode > OP_16 then None else last_push_loop vch pc2)"
  by pat_completeness auto
termination
  by (relation "measure (\<lambda>(data, pc). length pc)") (auto dest!: GetOp2_ok_shorter sym [of _ "GetOp2 _"])

declare last_push_loop.simps [simp del]

definition GetSigOpCount_P2SH :: "CScript \<Rightarrow> CScript \<Rightarrow> nat" where
  "GetSigOpCount_P2SH s scriptSig =
     (if \<not> IsPayToScriptHash s then GetSigOpCount s True
      else case last_push_loop [] scriptSig of
        None \<Rightarrow> 0
      | Some subscript \<Rightarrow> GetSigOpCount subscript True)"

text \<open>The loop goes on after a failed \<open>GetOp\<close>, which has set the opcode to the invalid one.\<close>

function normal_loop :: "nat \<Rightarrow> bytes \<Rightarrow> bool" where
  "normal_loop i pc =
     (if pc = [] then True
      else case GetOp2 pc of
        (ok, opcode, vch, pc2) \<Rightarrow>
          if i = 0 \<and> opcode \<noteq> OP_DUP then False
          else if i = 1 \<and> opcode \<noteq> OP_HASH160 then False
          else if i = 3 \<and> opcode \<noteq> OP_EQUALVERIFY then False
          else if i = 4 \<and> opcode \<noteq> OP_CHECKSIG then False
          else if i = 5 then False
          else normal_loop (i + 1) pc2)"
  by pat_completeness auto
termination
  by (relation "measure (\<lambda>(i, pc). length pc)") (auto dest!: GetOp2_shorter sym [of _ "GetOp2 _"])

declare normal_loop.simps [simp del]

definition IsNormalPaymentScript :: "CScript \<Rightarrow> bool" where
  "IsNormalPaymentScript s \<longleftrightarrow> (if length s \<noteq> 25 then False else normal_loop 0 s)"

definition IsZerocoinMint :: "CScript \<Rightarrow> bool" where
  "IsZerocoinMint s \<longleftrightarrow> length s > 0 \<and> s ! 0 = OP_ZEROCOINMINT"

definition IsZerocoinSpend :: "CScript \<Rightarrow> bool" where
  "IsZerocoinSpend s \<longleftrightarrow> length s > 0 \<and> s ! 0 = OP_ZEROCOINSPEND"

function IsPushOnly :: "bytes \<Rightarrow> bool" where
  "IsPushOnly pc =
     (if pc = [] then True
      else case GetOp2 pc of
        (ok, opcode, vch, pc2) \<Rightarrow>
          if \<not> ok then False else if opcode > OP_16 then False else IsPushOnly pc2)"
  by pat_completeness auto
termination
  by (relation "measure length") (auto dest!: GetOp2_ok_shorter sym [of _ "GetOp2 _"])

declare IsPushOnly.simps [simp del]

definition IsUnspendable :: "CScript \<Rightarrow> bool" where
  "IsUnspendable s \<longleftrightarrow> length s > 0 \<and> s ! 0 = OP_RETURN"

subsection \<open>Script numbers have one minimal form\<close>

lemma foldl_or_le_dec:
  "m \<le> length vch \<Longrightarrow>
   foldl (\<lambda>r i. r OR push_bit (8 * i) (uint (vch ! i))) 0 [0..<m] = int (le_dec (take m vch))"
proof (induction m)
  case (Suc m)
  let ?r = "int (le_dec (take m vch))"
  have lt: "?r < 2 ^ (8 * m)"
    using le_dec_bound [of "take m vch"] Suc.prems by (simp add: power_mult)
  have "?r = take_bit (8 * m) ?r" using lt by (simp add: take_bit_int_eq_self)
  then have "\<And>n. \<not> bit ?r n \<or> \<not> bit (push_bit (8 * m) (uint (vch ! m))) n"
    by (metis bit_push_bit_iff_int bit_take_bit_iff not_le)
  then have "?r OR push_bit (8 * m) (uint (vch ! m)) = ?r + push_bit (8 * m) (uint (vch ! m))"
    by (intro disjunctive_add [symmetric]) blast
  also have "\<dots> = int (le_dec (take (Suc m) vch))"
    using Suc.prems by (simp add: take_Suc_conv_app_nth le_dec_append push_bit_eq_mult power_mult min_def)
  finally show ?case using Suc by simp
qed simp

lemma scriptnum_bytes_props:
  "le_dec (scriptnum_bytes n) = n \<and> (0 < n \<longrightarrow> scriptnum_bytes n \<noteq> [] \<and> last (scriptnum_bytes n) \<noteq> 0)"
proof (induction n rule: scriptnum_bytes.induct)
  case (1 n)
  show ?case
  proof (cases "n = 0")
    case False
    have s: "scriptnum_bytes n = word_of_nat (n mod 256) # scriptnum_bytes (n div 256)"
      using False by (subst scriptnum_bytes.simps) simp
    have v: "le_dec (scriptnum_bytes n) = n" using 1 False by (simp add: s)
    show ?thesis
    proof (cases "n div 256 = 0")
      case True
      then have "scriptnum_bytes (n div 256) = []" by (subst scriptnum_bytes.simps) simp
      moreover have "word_of_nat (n mod 256) \<noteq> (0 :: byte)"
        using True False unat_word_of_nat_byte [of "n mod 256"]
        by (metis div_eq_0_iff mod_less mod_mod_trivial numeral_neq_zero unat_0)
      ultimately show ?thesis using v by (simp add: s)
    next
      case nz: False
      then show ?thesis using 1 False v by (simp add: s)
    qed
  qed (subst scriptnum_bytes.simps, simp)
qed

lemma le_dec_unique:
  "le_dec xs = le_dec ys \<Longrightarrow> (xs \<noteq> [] \<longrightarrow> last xs \<noteq> 0) \<Longrightarrow> (ys \<noteq> [] \<longrightarrow> last ys \<noteq> 0) \<Longrightarrow> xs = ys"
proof (induction xs arbitrary: ys)
  case Nil
  have "le_dec ys = 0 \<Longrightarrow> ys \<noteq> [] \<Longrightarrow> last ys = 0" for ys
    by (induction ys) (auto simp: unat_eq_zero)
  then show ?case using Nil by auto
next
  case (Cons x xs)
  have z: "le_dec ys = 0 \<Longrightarrow> ys \<noteq> [] \<Longrightarrow> last ys = 0" for ys
    by (induction ys) (auto simp: unat_eq_zero)
  show ?case
  proof (cases ys)
    case Nil
    then show ?thesis using Cons.prems z [of "x # xs"] by auto
  next
    case (Cons y zs)
    have "unat x + 256 * le_dec xs = unat y + 256 * le_dec zs" using Cons.prems(1) Cons by simp
    then have "x = y" "le_dec xs = le_dec zs"
      using digit_eq [OF unat_byte_less unat_byte_less] by (auto simp: word_unat_eq_iff)
    then show ?thesis using Cons.IH [of zs] Cons.prems Cons by (auto split: if_splits)
  qed
qed

lemma byte_top: "(b :: byte) AND 0x80 \<noteq> 0 \<longleftrightarrow> 128 \<le> unat b"
proof -
  have "uint b = int (unat b)" by simp
  then have "128 \<le> unat b \<longleftrightarrow> 128 \<le> uint b" by linarith
  then show ?thesis using byte_and_80 [of b] by linarith
qed

lemma byte_low: "(b :: byte) AND 0x7f = 0 \<longleftrightarrow> unat b = 0 \<or> unat b = 128"
proof -
  have "b AND 0x7f = 0 \<longleftrightarrow> uint (b AND 0x7f) = 0" by (simp only: word_uint_eq_iff) simp
  also have "\<dots> \<longleftrightarrow> uint b mod 128 = 0" by (simp only: byte_and_7F)
  also have "\<dots> \<longleftrightarrow> uint b = 0 \<or> uint b = 128"
  proof -
    have "0 \<le> uint b" "uint b < 256" using uint_bounded [of b] by simp_all
    then show ?thesis by presburger
  qed
  also have "\<dots> \<longleftrightarrow> unat b = 0 \<or> unat b = 128"
  proof -
    have "uint b = int (unat b)" by simp
    then show ?thesis by linarith
  qed
  finally show ?thesis .
qed

lemma byte_set_top: "unat (t :: byte) < 128 \<Longrightarrow> unat (t OR 0x80) = unat t + 128"
proof -
  assume t: "unat t < 128"
  have u: "uint t = int (unat t)" "uint (t OR 0x80) = int (unat (t OR 0x80))" by simp_all
  then have "uint (word_of_int (uint t) OR 0x80 :: byte) = uint t + 128"
    using t by (intro byte_or_80) linarith+
  then have "uint (t OR 0x80) = uint t + 128" by simp
  then show ?thesis using u by linarith
qed

definition signed_vch :: "bytes \<Rightarrow> byte \<Rightarrow> int" where
  "signed_vch ini t =
     (if unat t < 128 then int (le_dec ini + 256 ^ length ini * unat t)
      else - int (le_dec ini + 256 ^ length ini * (unat t - 128)))"

lemma set_vch_snoc: "set_vch (ini @ [t]) = signed_vch ini t"
proof -
  let ?n = "length ini"
  have res: "foldl (\<lambda>r i. r OR push_bit (8 * i) (uint ((ini @ [t]) ! i))) 0 [0..<length (ini @ [t])] =
      int (le_dec (ini @ [t]))"
    using foldl_or_le_dec [of "length (ini @ [t])" "ini @ [t]"] by simp
  show ?thesis
  proof (cases "unat t < 128")
    case True
    then have "\<not> t AND 0x80 \<noteq> 0" by (simp only: byte_top not_le)
    then show ?thesis using True res by (simp add: set_vch_def signed_vch_def le_dec_append del: upt_Suc)
  next
    case False
    define R where "R = le_dec ini + 256 ^ ?n * (unat t - 128)"
    define M :: int where "M = push_bit (8 * ?n) 0x80"
    have M: "M = 2 ^ (8 * ?n + 7)" by (simp add: M_def push_bit_eq_mult power_add)
    have "unat t - 128 < 128" using unat_byte_less [of t] by linarith
    then have "R < 256 ^ ?n * 128"
      unfolding R_def using le_dec_bound [of ini] by (intro digit_less)
    then have "R < 2 ^ (8 * ?n + 7)" by (simp add: power_add power_mult)
    then have Rl: "int R < 2 ^ (8 * ?n + 7)" by (simp only: of_nat_less_iff [where 'a = int, symmetric]) simp
    have nb: "\<not> bit (int R) (8 * ?n + 7)"
      using Rl bit_take_bit_iff [of "8 * ?n + 7" "int R" "8 * ?n + 7"] by (simp add: take_bit_int_eq_self)
    have "int (le_dec (ini @ [t])) = int R + M"
    proof -
      have "le_dec ini + 256 ^ ?n * unat t = R + 256 ^ ?n * 128"
        using False by (simp add: R_def flip: distrib_left)
      then show ?thesis by (simp add: le_dec_append M power_add power_mult)
    qed
    also have "\<dots> = int R OR M"
      using nb by (intro disjunctive_add) (auto simp: M bit_exp_iff)
    finally have e: "int (le_dec (ini @ [t])) = int R OR M" .
    have "(int R OR M) AND NOT M = int R"
    proof (rule bit_eqI)
      fix k
      show "bit ((int R OR M) AND NOT M) k \<longleftrightarrow> bit (int R) k"
        using nb by (auto simp: M bit_and_iff bit_or_iff bit_not_iff bit_exp_iff)
    qed
    moreover have "t AND 0x80 \<noteq> 0" using False by (simp only: byte_top not_le)
    ultimately show ?thesis using False res e
      by (simp add: set_vch_def signed_vch_def R_def M_def del: upt_Suc)
  qed
qed

definition vch_minimal :: "valtype \<Rightarrow> bool" where
  "vch_minimal vch \<longleftrightarrow> \<not> (vch \<noteq> [] \<and> last vch AND 0x7f = 0 \<and>
     (length vch \<le> 1 \<or> vch ! (length vch - 2) AND 0x80 = 0))"

lemma vch_minimal_snoc:
  "vch_minimal (ini @ [t]) \<longleftrightarrow>
     unat t \<noteq> 0 \<and> unat t \<noteq> 128 \<or> (ini \<noteq> [] \<and> 128 \<le> unat (last ini))"
proof (cases ini rule: rev_cases)
  case Nil
  then show ?thesis by (simp add: vch_minimal_def byte_low)
next
  case (snoc i u)
  then show ?thesis using byte_top [of u]
    by (auto simp add: vch_minimal_def byte_low nth_append)
qed

lemma scriptnum_bytes_unique:
  "xs \<noteq> [] \<Longrightarrow> last xs \<noteq> 0 \<Longrightarrow> scriptnum_bytes (le_dec xs) = xs"
proof -
  assume xs: "xs \<noteq> []" "last xs \<noteq> 0"
  have "le_dec xs = 0 \<Longrightarrow> xs \<noteq> [] \<Longrightarrow> last xs = 0" by (induction xs) (auto simp: unat_eq_zero)
  then have "0 < le_dec xs" using xs by auto
  then show ?thesis using scriptnum_bytes_props [of "le_dec xs"] xs by (intro le_dec_unique) auto
qed

lemma le_dec_pos: "xs \<noteq> [] \<Longrightarrow> last xs \<noteq> 0 \<Longrightarrow> 0 < le_dec xs"
  by (induction xs) (auto simp: unat_gt_0 split: if_splits)

lemma serialize_signed:
  assumes "vch_minimal (ini @ [t])"
  shows "CScriptNum_serialize (signed_vch ini t) = ini @ [t]"
proof -
  define u where "u = (if unat t < 128 then unat t else unat t - 128)"
  define m where "m = le_dec ini + 256 ^ length ini * u"
  have u: "u < 128" using unat_byte_less [of t] unfolding u_def by (simp only: split: if_split) linarith
  have sv: "signed_vch ini t = (if unat t < 128 then int m else - int m)"
    by (simp add: signed_vch_def m_def u_def)
  have uw: "unat (word_of_nat u :: byte) = u" using u by simp
  show ?thesis
  proof (cases "u = 0")
    case True
    then have t: "unat t = 0 \<or> unat t = 128" by (auto simp: u_def split: if_splits)
    then have ini: "ini \<noteq> []" "128 \<le> unat (last ini)" using assms by (auto simp: vch_minimal_snoc)
    then have l0: "last ini \<noteq> 0" by (auto simp: unat_eq_zero [symmetric])
    have m: "m = le_dec ini" using True by (simp add: m_def)
    have mp: "0 < m" using le_dec_pos [OF ini(1) l0] m by simp
    have b: "scriptnum_bytes m = ini" using scriptnum_bytes_unique [OF ini(1) l0] m by simp
    have top: "last ini AND 0x80 \<noteq> 0" using ini by (simp only: byte_top)
    have "t = 0 \<or> t = 0x80" using t by (auto simp: word_unat_eq_iff)
    then show ?thesis using mp b top by (auto simp: CScriptNum_serialize_def sv Let_def)
  next
    case False
    let ?t = "word_of_nat u :: byte"
    have t0: "?t \<noteq> 0" using False uw by (auto simp: word_unat_eq_iff)
    have m: "m = le_dec (ini @ [?t])" using u by (simp add: m_def le_dec_append)
    have mp: "0 < m" unfolding m by (intro le_dec_pos) (simp_all add: t0)
    have b: "scriptnum_bytes m = ini @ [?t]" unfolding m by (intro scriptnum_bytes_unique) (simp_all add: t0)
    have top: "\<not> ?t AND 0x80 \<noteq> 0" using u uw by (simp only: byte_top not_le)
    show ?thesis
    proof (cases "unat t < 128")
      case True
      then have "?t = t" by (simp add: u_def)
      then show ?thesis using True mp b top by (simp add: CScriptNum_serialize_def sv Let_def)
    next
      case tt: False
      have "unat (?t OR 0x80) = unat t" using byte_set_top [of ?t] u uw tt by (simp add: u_def)
      then have "?t OR 0x80 = t" by (simp only: word_unat_eq_iff)
      then show ?thesis using tt mp b top by (simp add: CScriptNum_serialize_def sv Let_def)
    qed
  qed
qed

text \<open>Every number is the value of a minimal form, its serialization.\<close>

lemma serialize_shape:
  assumes "v \<noteq> 0"
  obtains ini t where "CScriptNum_serialize v = ini @ [t]" "vch_minimal (ini @ [t])" "signed_vch ini t = v"
proof -
  let ?m = "nat \<bar>v\<bar>"
  have p: "le_dec (scriptnum_bytes ?m) = ?m" "scriptnum_bytes ?m \<noteq> []" "last (scriptnum_bytes ?m) \<noteq> 0"
    using scriptnum_bytes_props [of ?m] assms by auto
  obtain ini u where b: "scriptnum_bytes ?m = ini @ [u]" using p(2) by (cases "scriptnum_bytes ?m" rule: rev_cases) auto
  have m: "?m = le_dec ini + 256 ^ length ini * unat u" using p(1) by (simp add: b le_dec_append)
  have mi: "\<bar>v\<bar> = int (le_dec ini + 256 ^ length ini * unat u)" unfolding m [symmetric] by simp
  have u0: "unat u \<noteq> 0" using p(3) by (simp add: b unat_eq_zero)
  show ?thesis
  proof (cases "128 \<le> unat u")
    case True
    then have top: "u AND 0x80 \<noteq> 0" by (simp only: byte_top)
    define t :: byte where "t = (if v < 0 then 0x80 else 0)"
    have s: "CScriptNum_serialize v = (ini @ [u]) @ [t]" unfolding CScriptNum_serialize_def Let_def b t_def using assms top by simp
    have mn: "vch_minimal ((ini @ [u]) @ [t])" using True by (simp only: vch_minimal_snoc) simp
    have mi: "\<bar>v\<bar> = int (le_dec (ini @ [u]))" using p(1) by (simp add: b)
    have "signed_vch (ini @ [u]) t = v"
      using mi by (cases "v < 0") (simp_all add: signed_vch_def t_def)
    then show ?thesis using that s mn by blast
  next
    case False
    then have top: "\<not> u AND 0x80 \<noteq> 0" by (simp only: byte_top not_False_eq_True)
    show ?thesis
    proof (cases "v < 0")
      case True
      have st: "unat (u OR 0x80) = unat u + 128" using False by (intro byte_set_top) simp
      have s: "CScriptNum_serialize v = ini @ [u OR 0x80]" unfolding CScriptNum_serialize_def Let_def b using assms top True by simp
      have mn: "vch_minimal (ini @ [u OR 0x80])" using u0 st by (simp only: vch_minimal_snoc) simp
      have "signed_vch ini (u OR 0x80) = v" using mi True st by (simp add: signed_vch_def)
      then show ?thesis using that s mn by blast
    next
      case nn: False
      have s: "CScriptNum_serialize v = ini @ [u]" unfolding CScriptNum_serialize_def Let_def b using assms top nn by simp
      have mn: "vch_minimal (ini @ [u])" using u0 False by (simp only: vch_minimal_snoc) simp
      have "signed_vch ini u = v" using mi nn False by (simp add: signed_vch_def)
      then show ?thesis using that s mn by blast
    qed
  qed
qed

lemma set_vch_serialize: "set_vch (CScriptNum_serialize v) = v"
proof (cases "v = 0")
  case True
  then show ?thesis by (simp add: CScriptNum_serialize_def set_vch_def)
next
  case False
  then obtain ini t where "CScriptNum_serialize v = ini @ [t]" "signed_vch ini t = v"
    using serialize_shape by metis
  then show ?thesis by (simp only: set_vch_snoc)
qed

lemma length_scriptnum_bytes: "0 < m \<Longrightarrow> 256 ^ (length (scriptnum_bytes m) - 1) \<le> m"
proof (induction m rule: scriptnum_bytes.induct)
  case (1 m)
  have s: "scriptnum_bytes m = word_of_nat (m mod 256) # scriptnum_bytes (m div 256)"
    using 1 by (subst scriptnum_bytes.simps) simp
  show ?case
  proof (cases "m div 256 = 0")
    case True
    then have "scriptnum_bytes (m div 256) = []" by (subst scriptnum_bytes.simps) simp
    then show ?thesis using 1 by (simp add: s)
  next
    case False
    then have IH: "256 ^ (length (scriptnum_bytes (m div 256)) - 1) \<le> m div 256"
      and ne: "scriptnum_bytes (m div 256) \<noteq> []"
      using 1 scriptnum_bytes_props [of "m div 256"] by simp_all
    then have "256 ^ length (scriptnum_bytes (m div 256)) \<le> 256 * (m div 256)"
      by (cases "scriptnum_bytes (m div 256)") auto
    also have "\<dots> \<le> m" by simp
    finally show ?thesis by (simp add: s)
  qed
qed

lemma length_serialize_le4:
  assumes "\<bar>v\<bar> < 2 ^ 31"
  shows "length (CScriptNum_serialize v) \<le> 4"
proof (cases "v = 0")
  case False
  define m where "m = nat \<bar>v\<bar>"
  let ?r = "scriptnum_bytes m"
  have m: "0 < m" "m < 2147483648" using False assms by (auto simp: m_def)
  have p: "le_dec ?r = m" "?r \<noteq> []" using scriptnum_bytes_props [of m] m by auto
  have l: "length ?r \<le> 4"
  proof (rule ccontr)
    assume "\<not> length ?r \<le> 4"
    then have "(256 :: nat) ^ 4 \<le> 256 ^ (length ?r - 1)" by (intro power_increasing) auto
    then show False using length_scriptnum_bytes [OF m(1)] m(2) by simp
  qed
  have "\<not> last ?r AND 0x80 \<noteq> 0" if "length ?r = 4"
  proof -
    obtain i u where r: "?r = i @ [u]" using p(2) by (cases ?r rule: rev_cases) auto
    then have "length i = 3" using that by simp
    then have "16777216 * unat u \<le> m" using p(1) by (simp add: r le_dec_append)
    then have "unat u < 128" using m(2) by linarith
    then show ?thesis by (simp only: r last_snoc byte_top not_le)
  qed
  then have "last ?r AND 0x80 \<noteq> 0 \<Longrightarrow> length ?r \<le> 3" using l by linarith
  then show ?thesis using False l unfolding CScriptNum_serialize_def Let_def m_def [symmetric] by auto
qed (simp add: CScriptNum_serialize_def)

lemma set_vch_bound:
  assumes "length vch \<le> 4" shows "\<bar>set_vch vch\<bar> < 2 ^ 31"
proof (cases vch rule: rev_cases)
  case (snoc ini t)
  define u where "u = (if unat t < 128 then unat t else unat t - 128)"
  have u: "u < 128" using unat_byte_less [of t] unfolding u_def by (simp only: split: if_split) linarith
  have "le_dec ini + 256 ^ length ini * u < 256 ^ length ini * 128"
    using le_dec_bound [of ini] u by (intro digit_less)
  also have "\<dots> \<le> 256 ^ 3 * 128"
  proof -
    have "length ini \<le> 3" using assms snoc by simp
    then have "(256 :: nat) ^ length ini \<le> 256 ^ 3" by (intro power_increasing) auto
    then show ?thesis by (intro mult_le_mono1)
  qed
  finally have "le_dec ini + 256 ^ length ini * u < 2 ^ 31" by simp
  then have "int (le_dec ini + 256 ^ length ini * u) < 2 ^ 31" by (simp only: of_nat_less_iff [where 'a = int, symmetric]) simp
  moreover have "\<bar>set_vch vch\<bar> = int (le_dec ini + 256 ^ length ini * u)"
    by (simp only: snoc set_vch_snoc signed_vch_def u_def split: if_split) (simp only: abs_minus_cancel abs_of_nat split: if_split, blast)
  ultimately show ?thesis by simp
qed (simp add: set_vch_def)

lemma CScriptNum_of_vch_minimal:
  "CScriptNum_of_vch vch True = Inr v \<longleftrightarrow> length vch \<le> 4 \<and> vch_minimal vch \<and> v = set_vch vch"
  by (auto simp: CScriptNum_of_vch_def nMaxNumSize_def vch_minimal_def)

text \<open>
  A byte vector is accepted as a script number under the minimal-encoding rule exactly
  when it is the serialization of a number of at most 31 bits and sign; it then has that
  number as its value. So every number has one accepted form and no value is lost.
\<close>

theorem CScriptNum_minimal_iff:
  "CScriptNum_of_vch vch True = Inr v \<longleftrightarrow> vch = CScriptNum_serialize v \<and> \<bar>v\<bar> < 2 ^ 31"
proof
  assume "CScriptNum_of_vch vch True = Inr v"
  then have a: "length vch \<le> 4" "vch_minimal vch" "v = set_vch vch" by (simp_all add: CScriptNum_of_vch_minimal)
  have "vch = CScriptNum_serialize v"
  proof (cases vch rule: rev_cases)
    case Nil
    then show ?thesis using a by (simp add: set_vch_def CScriptNum_serialize_def)
  next
    case (snoc ini t)
    then show ?thesis using serialize_signed [of ini t] a by (simp add: set_vch_snoc)
  qed
  then show "vch = CScriptNum_serialize v \<and> \<bar>v\<bar> < 2 ^ 31" using set_vch_bound a by simp
next
  assume v: "vch = CScriptNum_serialize v \<and> \<bar>v\<bar> < 2 ^ 31"
  have "vch_minimal (CScriptNum_serialize v)"
  proof (cases "v = 0")
    case True
    then show ?thesis by (simp add: CScriptNum_serialize_def vch_minimal_def)
  next
    case False
    then show ?thesis using serialize_shape by metis
  qed
  then show "CScriptNum_of_vch vch True = Inr v"
    using v length_serialize_le4 [of v] set_vch_serialize [of v] by (simp add: CScriptNum_of_vch_minimal)
qed

subsection \<open>Instructions as chunks of a script\<close>

definition len_bytes :: "opcodetype \<Rightarrow> nat" where
  "len_bytes opcode =
     (if opcode < OP_PUSHDATA1 then 0 else if opcode = OP_PUSHDATA1 then 1
      else if opcode = OP_PUSHDATA2 then 2 else 4)"

lemma get_size_eq:
  "get_size opcode pc =
     (if length pc < len_bytes opcode then Inl pc
      else Inr (if opcode < OP_PUSHDATA1 then unat opcode else le_dec (take (len_bytes opcode) pc),
                drop (len_bytes opcode) pc))"
  unfolding get_size_def len_bytes_def by (simp split: if_split)

lemma get_size_Inr_split:
  assumes "get_size opcode pc = Inr (n, pc')"
  obtains d where "pc = d @ pc'" "\<And>r. get_size opcode (d @ r) = Inr (n, r)"
proof -
  let ?k = "len_bytes opcode"
  have k: "?k \<le> length pc" "pc' = drop ?k pc"
    "n = (if opcode < OP_PUSHDATA1 then unat opcode else le_dec (take ?k pc))"
    using assms by (auto simp: get_size_eq split: if_splits)
  have "pc = take ?k pc @ pc'" using k by simp
  moreover have "get_size opcode (take ?k pc @ r) = Inr (n, r)" for r
    unfolding get_size_eq using k by simp
  ultimately show ?thesis using that by blast
qed

lemma GetOp2_split:
  assumes "GetOp2 pc = (True, opcode, vch, pc2)"
  obtains c where "pc = c @ pc2" "c \<noteq> []" "\<And>r. GetOp2 (c @ r) = (True, opcode, vch, r)"
proof (cases pc)
  case Nil
  then show ?thesis using assms by simp
next
  case (Cons o1 pc1)
  show ?thesis
  proof (cases "o1 \<le> OP_PUSHDATA4")
    case False
    then have "pc2 = pc1" "vch = []" "opcode = o1" using assms Cons by (auto simp: GetOp2_def)
    then show ?thesis using that [of "[o1]"] Cons False by (simp add: GetOp2_def)
  next
    case True
    obtain n pc3 where g: "get_size o1 pc1 = Inr (n, pc3)" "n \<le> length pc3" "vch = take n pc3"
      "pc2 = drop n pc3" "opcode = o1"
      using assms Cons True by (auto simp: GetOp2_def split: sum.splits if_splits)
    obtain d where d: "pc1 = d @ pc3" "\<And>r. get_size o1 (d @ r) = Inr (n, r)"
      using get_size_Inr_split [OF g(1)] by blast
    have "pc = (o1 # d @ take n pc3) @ pc2" using Cons d(1) g(4) by simp
    moreover have "GetOp2 ((o1 # d @ take n pc3) @ r) = (True, opcode, vch, r)" for r
      using True d(2) [of "take n pc3 @ r"] g by (simp add: GetOp2_def)
    ultimately show ?thesis using that by blast
  qed
qed

lemma GetOp2_push_data:
  assumes "length b < 2 ^ 32"
  obtains opcode where "\<And>r. GetOp2 (push_data [] b @ r) = (True, opcode, b, r)" "opcode \<le> OP_PUSHDATA4"
proof -
  consider "length b < 76" | "76 \<le> length b" "length b \<le> 255" | "255 < length b" "length b \<le> 65535"
    | "65535 < length b" by linarith
  then show ?thesis
  proof cases
    case 1
    have u: "unat (word_of_nat (length b) :: byte) = length b" using 1 by simp
    have lt: "word_of_nat (length b) < (76 :: byte)" using u 1 by (simp add: word_less_nat_alt del: unat_word_of_nat_byte)
    have le: "word_of_nat (length b) \<le> (78 :: byte)" using u 1 by (simp add: word_le_nat_alt del: unat_word_of_nat_byte)
    show ?thesis
      by (rule that [of "word_of_nat (length b)"])
        (use 1 u lt le in \<open>simp_all add: push_data_def GetOp2_def get_size_def del: unat_word_of_nat_byte\<close>)
  next
    case 2
    then show ?thesis
      by (intro that [of OP_PUSHDATA1]) (simp_all add: push_data_def GetOp2_def get_size_def)
  next
    case 3
    then show ?thesis
      by (intro that [of OP_PUSHDATA2])
        (simp_all add: push_data_def GetOp2_def get_size_def le_dec_enc del: le_enc.simps)
  next
    case 4
    then show ?thesis using assms
      by (intro that [of OP_PUSHDATA4])
        (simp_all add: push_data_def GetOp2_def get_size_def le_dec_enc del: le_enc.simps)
  qed
qed

function script_ops :: "bytes \<Rightarrow> bytes list \<times> bytes" where
  "script_ops pc =
     (case GetOp2 pc of
        (ok, opcode, vch, pc2) \<Rightarrow>
          if ok then (let (cs, r) = script_ops pc2 in (take (length pc - length pc2) pc # cs, r))
          else ([], pc))"
  by pat_completeness auto
termination
  by (relation "measure length") (auto dest!: GetOp2_ok_shorter sym [of _ "GetOp2 _"])

declare script_ops.simps [simp del]

definition is_instr :: "bytes \<Rightarrow> bool" where
  "is_instr c \<longleftrightarrow> (case GetOp2 c of (ok, opcode, vch, r) \<Rightarrow> ok \<and> r = [])"

lemma is_instr_parse:
  assumes "is_instr c"
  obtains opcode vch where "\<And>r. GetOp2 (c @ r) = (True, opcode, vch, r)" "c \<noteq> []"
proof -
  obtain opcode vch where g: "GetOp2 c = (True, opcode, vch, [])"
    using assms by (cases "GetOp2 c") (auto simp: is_instr_def)
  obtain c' where "c = c' @ []" "c' \<noteq> []" "\<And>r. GetOp2 (c' @ r) = (True, opcode, vch, r)"
    using GetOp2_split [OF g] by blast
  then show ?thesis using that by auto
qed

lemma script_ops_Cons: "is_instr c \<Longrightarrow> script_ops (c @ r) = (c # fst (script_ops r), snd (script_ops r))"
proof -
  assume "is_instr c"
  then obtain opcode vch where "GetOp2 (c @ r) = (True, opcode, vch, r)" using is_instr_parse by metis
  then show ?thesis by (subst script_ops.simps) (simp add: Let_def split: prod.splits)
qed

lemma script_ops_fail: "GetOp2 pc = (False, x) \<Longrightarrow> script_ops pc = ([], pc)"
  by (subst script_ops.simps) (cases x, simp)

lemma is_instr_push_data: "length b < 2 ^ 32 \<Longrightarrow> is_instr (push_data [] b)"
proof -
  assume "length b < 2 ^ 32"
  then obtain opcode where g: "\<And>r. GetOp2 (push_data [] b @ r) = (True, opcode, b, r)"
    using GetOp2_push_data by metis
  from g [of "[]"] show ?thesis by (simp add: is_instr_def)
qed

lemma erase_here_ops:
  assumes "is_instr b" "erase_here b pc = (n, pc1)"
  shows "
    script_ops pc = (replicate n b @ fst (script_ops pc1), snd (script_ops pc1)) \<and>
    \<not> (length b \<le> length pc1 \<and> take (length b) pc1 = b)"
  using assms
proof (induction b pc arbitrary: n rule: erase_here.induct)
  case (1 b pc)
  have b: "is_instr b" and e0: "erase_here b pc = (n, pc1)" using 1 by auto
  show ?case
  proof (cases "b \<noteq> [] \<and> length b \<le> length pc \<and> take (length b) pc = b")
    case True
    obtain m q where e: "erase_here b (drop (length b) pc) = (m, q)" by (cases "erase_here b (drop (length b) pc)")
    have r: "n = Suc m" "pc1 = q" using e0 True e by (subst (asm) erase_here.simps; simp)+
    have "pc = b @ drop (length b) pc" using True by (metis append_take_drop_id)
    then show ?thesis using 1(1) [OF True b] e script_ops_Cons [OF b, of "drop (length b) pc"] r by simp
  next
    case False
    then have "erase_here b pc = (0, pc)" by (subst erase_here.simps) (simp only: if_False)
    moreover have "b \<noteq> []" using b by (auto simp: is_instr_def)
    ultimately show ?thesis using e0 False by auto
  qed
qed

lemma find_delete_loop_ops:
  assumes "is_instr b"
  shows "find_delete_loop b pc = (n, s) \<Longrightarrow>
    script_ops s = (filter (\<lambda>c. c \<noteq> b) (fst (script_ops pc)), snd (script_ops pc)) \<and>
    n = count_list (fst (script_ops pc)) b"
  using assms
proof (induction b pc arbitrary: n s rule: find_delete_loop.induct)
  case (1 b pc)
  have b: "is_instr b" using 1 by simp
  obtain k pc1 where e: "erase_here b pc = (k, pc1)" by (cases "erase_here b pc")
  have E: "script_ops pc = (replicate k b @ fst (script_ops pc1), snd (script_ops pc1))"
    "\<not> (length b \<le> length pc1 \<and> take (length b) pc1 = b)"
    using erase_here_ops [OF b e] by auto
  have rep: "filter (\<lambda>c. c \<noteq> b) (replicate k b) = []" "count_list (replicate k b) b = k"
    by (induction k) auto
  obtain ok opcode vch pc2 where g: "GetOp2 pc1 = (ok, opcode, vch, pc2)" by (cases "GetOp2 pc1") auto
  show ?case
  proof (cases ok)
    case False
    then have "n = k" "s = pc1" using 1(2) e g by (subst (asm) find_delete_loop.simps; simp)+
    moreover have "script_ops pc1 = ([], pc1)" using g False by (intro script_ops_fail) simp
    ultimately show ?thesis using E rep by simp
  next
    case True
    obtain c where c: "pc1 = c @ pc2" "c \<noteq> []" "\<And>r. GetOp2 (c @ r) = (True, opcode, vch, r)"
      using GetOp2_split [OF g [unfolded eqTrueI [OF True]]] by blast
    have ci: "is_instr c" using c(3) [of "[]"] by (simp add: is_instr_def)
    obtain m q where f: "find_delete_loop b pc2 = (m, q)" by (cases "find_delete_loop b pc2")
    have r: "n = k + m" "s = c @ q"
      using 1(2) e g f True c(1) by (subst (asm) find_delete_loop.simps; simp)+
    have IH: "script_ops q = (filter (\<lambda>c. c \<noteq> b) (fst (script_ops pc2)), snd (script_ops pc2)) \<and>
        m = count_list (fst (script_ops pc2)) b"
      by (rule 1(1) [OF e [symmetric] refl g [symmetric] refl refl refl True f b])
    have "c \<noteq> b" using E(2) c(1) by auto
    then show ?thesis
      using IH E(1) rep script_ops_Cons [OF ci, of pc2] script_ops_Cons [OF ci, of q] c(1) r by simp
  qed
qed

text \<open>
  C27: deleting a pushed element from a script removes exactly the instructions equal to that
  push, keeps the others in order with whatever does not parse at the end, and returns how
  many it removed.
\<close>

theorem FindAndDelete_spec:
  assumes "length v < 2 ^ 32"
  shows "case FindAndDelete s (push_data [] v) of (n, s') \<Rightarrow>
    script_ops s' = (filter (\<lambda>c. c \<noteq> push_data [] v) (fst (script_ops s)), snd (script_ops s)) \<and>
    n = count_list (fst (script_ops s)) (push_data [] v)"
proof -
  have i: "is_instr (push_data [] v)" using assms by (rule is_instr_push_data)
  then have "push_data [] v \<noteq> []" by (auto simp: is_instr_def)
  then show ?thesis using find_delete_loop_ops [OF i] by (auto simp: FindAndDelete_def split: prod.splits)
qed

lemma FindAndDelete_spec_witness:
  "script_ops (snd (FindAndDelete [OP_DUP, 1, 7, 1, 7, OP_HASH160] (push_data [] [7]))) = ([[OP_DUP], [OP_HASH160]], [])"
proof -
  have "FindAndDelete [OP_DUP, 1, 7, 1, 7, OP_HASH160] (push_data [] [7]) = (2, [OP_DUP, OP_HASH160])"
    "script_ops [OP_DUP, 1, 7, 1, 7, OP_HASH160] = ([[OP_DUP], [1, 7], [1, 7], [OP_HASH160]], [])"
    "push_data [] [7] = [1, 7]" by code_simp+
  then show ?thesis using FindAndDelete_spec [of "[7]" "[OP_DUP, 1, 7, 1, 7, OP_HASH160]"] by simp
qed

lemma IsPushOnly_pushes:
  assumes "\<forall>v\<in>set vs. length v < 2 ^ 32"
  shows "IsPushOnly (foldl push_data [] vs)"
proof -
  have app: "foldl push_data s vs = s @ concat (map (push_data []) vs)" for s vs
    by (induction vs arbitrary: s) (auto simp: push_data_def)
  have "\<forall>v\<in>set vs. length v < 2 ^ 32 \<Longrightarrow> IsPushOnly (concat (map (push_data []) vs))" for vs
  proof (induction vs)
    case Nil
    then show ?case by (subst IsPushOnly.simps) simp
  next
    case (Cons v vs)
    obtain opcode where g: "GetOp2 (push_data [] v @ concat (map (push_data []) vs)) =
        (True, opcode, v, concat (map (push_data []) vs))" and o: "opcode \<le> OP_PUSHDATA4"
      using GetOp2_push_data [of v] Cons.prems by (metis list.set_intros(1))
    have "\<not> opcode > OP_16" using o by (simp add: word_less_nat_alt word_le_nat_alt)
    then show ?case using g Cons by (subst IsPushOnly.simps) auto
  qed
  then show ?thesis using assms by (simp add: app)
qed

text \<open>
  What is pushed on a script is what an execution reads back: the instruction parses with
  the element as its operand, the rest of the script is untouched, and a script of pushes is
  push-only.
\<close>

theorem push_data_parses:
  assumes "length v < 2 ^ 32" "\<forall>w\<in>set vs. length w < 2 ^ 32"
  shows "(\<exists>opcode \<le> OP_PUSHDATA4. GetOp2 (push_data s v @ r) = GetOp2 (s @ push_data [] v @ r) \<and>
      GetOp2 (push_data [] v @ r) = (True, opcode, v, r)) \<and>
    IsPushOnly (foldl push_data [] vs)"
proof -
  obtain opcode where "\<And>r. GetOp2 (push_data [] v @ r) = (True, opcode, v, r)" "opcode \<le> OP_PUSHDATA4"
    using GetOp2_push_data [OF assms(1)] by metis
  moreover have "push_data s v @ r = s @ push_data [] v @ r" by (simp add: push_data_def)
  ultimately show ?thesis using IsPushOnly_pushes [OF assms(2)] by metis
qed

lemma push_data_parses_witness:
  "IsPushOnly (foldl push_data [] [[1, 2], []])"
  using push_data_parses [of "[]" "[[1, 2], []]" "[]" "[]"] by simp

subsection \<open>Signature operations\<close>

lemma DecodeOP_N_le: "DecodeOP_N opcode = Some k \<Longrightarrow> 0 \<le> k \<and> k \<le> 16"
proof -
  assume d: "DecodeOP_N opcode = Some k"
  have "opcode \<ge> OP_1 \<Longrightarrow> opcode \<le> OP_16 \<Longrightarrow> 81 \<le> uint opcode \<and> uint opcode \<le> 96"
    by (simp add: word_le_def)
  then show ?thesis using d by (auto simp: DecodeOP_N_def split: if_splits)
qed

lemma uadd32_le: "uadd32 a b \<le> a + b"
  by (simp add: uadd32_def)

lemma sigops_loop_le: "sigops_loop fAccurate lastOpcode n pc \<le> n + 20 * length pc"
proof (induction fAccurate lastOpcode n pc rule: sigops_loop.induct)
  case (1 fAccurate lastOpcode n pc)
  obtain ok opcode vch pc2 where g: "GetOp2 pc = (ok, opcode, vch, pc2)" by (cases "GetOp2 pc") auto
  show ?case
  proof (cases "pc \<noteq> [] \<and> ok")
    case True
    define n2 where "n2 = (if opcode = OP_CHECKSIG \<or> opcode = OP_CHECKSIGVERIFY then uadd32 n 1
               else if opcode = OP_CHECKMULTISIG \<or> opcode = OP_CHECKMULTISIGVERIFY then
                 (if fAccurate \<and> lastOpcode \<ge> OP_1 \<and> lastOpcode \<le> OP_16
                  then uadd32 n (case DecodeOP_N lastOpcode of Some k \<Rightarrow> nat k | None \<Rightarrow> 0)
                  else uadd32 n 20)
               else n)"
    have "(case DecodeOP_N lastOpcode of Some k \<Rightarrow> nat k | None \<Rightarrow> 0) \<le> 16"
      by (auto split: option.splits dest!: DecodeOP_N_le)
    then have n2: "n2 \<le> n + 20"
      using uadd32_le [of n 1] uadd32_le [of n 20]
        uadd32_le [of n "case DecodeOP_N lastOpcode of Some k \<Rightarrow> nat k | None \<Rightarrow> 0"]
      unfolding n2_def by (simp only: split: if_split) (intro conjI impI; (linarith | simp))
    have s: "sigops_loop fAccurate lastOpcode n pc = sigops_loop fAccurate opcode n2 pc2"
      using g True unfolding n2_def by (subst sigops_loop.simps) (simp only: prod.case if_True not_False_eq_True simp_thms)
    have "sigops_loop fAccurate opcode n2 pc2 \<le> n2 + 20 * length pc2"
      unfolding n2_def by (rule 1(1) [OF g [symmetric] refl refl True])
    moreover have "length pc2 < length pc" using GetOp2_ok_shorter g True by simp
    ultimately show ?thesis using n2 s by linarith
  next
    case False
    then have "sigops_loop fAccurate lastOpcode n pc = n"
      using g by (subst sigops_loop.simps) (simp only: prod.case if_False)
    then show ?thesis by simp
  qed
qed

lemma sigops_accurate_le:
  "n \<le> n' \<Longrightarrow> n' + 20 * length pc < 2 ^ 32 \<Longrightarrow>
   sigops_loop True lo n pc \<le> sigops_loop False lo n' pc"
proof (induction "length pc" arbitrary: pc n n' lo rule: less_induct)
  case less
  obtain ok opcode vch pc2 where g: "GetOp2 pc = (ok, opcode, vch, pc2)" by (cases "GetOp2 pc") auto
  show ?case
  proof (cases "pc \<noteq> [] \<and> ok")
    case True
    have lt: "length pc2 < length pc" using GetOp2_ok_shorter g True by simp
    define k where "k = (case DecodeOP_N lo of Some k \<Rightarrow> nat k | None \<Rightarrow> 0)"
    have k: "k \<le> 16" by (auto simp: k_def split: option.splits dest!: DecodeOP_N_le)
    have u: "uadd32 x d = x + d" if "x \<le> n'" "d \<le> 20" for x d
      using that less.prems lt by (simp add: uadd32_def)
    define b where "b = (if opcode = OP_CHECKSIG \<or> opcode = OP_CHECKSIGVERIFY then n' + 1
       else if opcode = OP_CHECKMULTISIG \<or> opcode = OP_CHECKMULTISIGVERIFY then n' + 20 else n')"
    define a where "a = (if opcode = OP_CHECKSIG \<or> opcode = OP_CHECKSIGVERIFY then n + 1
       else if opcode = OP_CHECKMULTISIG \<or> opcode = OP_CHECKMULTISIGVERIFY then
         (if lo \<ge> OP_1 \<and> lo \<le> OP_16 then n + k else n + 20) else n)"
    have "sigops_loop True lo n pc = sigops_loop True opcode a pc2"
      using g True less.prems k unfolding a_def
      by (subst sigops_loop.simps) (simp add: u k_def [symmetric])
    moreover have "sigops_loop False lo n' pc = sigops_loop False opcode b pc2"
      using g True unfolding b_def by (subst sigops_loop.simps) (simp add: u)
    moreover have "a \<le> b" using less.prems k by (simp add: a_def b_def)
    moreover have "b + 20 * length pc2 < 2 ^ 32"
    proof -
      have "b \<le> n' + 20" by (simp add: b_def)
      then show ?thesis using less.prems lt by linarith
    qed
    ultimately show ?thesis using less.hyps [OF lt] by simp
  next
    case False
    then have "sigops_loop acc l x pc = x" for acc l x
      using g by (subst sigops_loop.simps) (simp only: prod.case if_False)
    then show ?thesis using less.prems by simp
  qed
qed

text \<open>
  Signature operations are at most twenty per script byte, and counting them accurately
  never gives more than the legacy count, for scripts within the size limits of a block.
\<close>

theorem GetSigOpCount_bounds:
  assumes "20 * length s < 2 ^ 32"
  shows "GetSigOpCount s True \<le> GetSigOpCount s False \<and> GetSigOpCount s False \<le> 20 * length s"
  using assms sigops_accurate_le [of 0 0 s] sigops_loop_le [of False OP_INVALIDOPCODE 0 s]
  by (simp add: GetSigOpCount_def)

lemma GetSigOpCount_bounds_witness:
  "GetSigOpCount [OP_2, OP_CHECKMULTISIG] True \<le> GetSigOpCount [OP_2, OP_CHECKMULTISIG] False \<and>
   GetSigOpCount [OP_2, OP_CHECKMULTISIG] False \<le> 20 * length [OP_2, OP_CHECKMULTISIG]"
  by (rule GetSigOpCount_bounds) simp

end
