(* ===== verification/Transaction.thy ===== *)
theory Transaction
  imports Script Amount Base_Uint
begin

section \<open>Transactions (primitives/transaction.h, primitives/transaction.cpp)\<close>

text \<open>
  Outpoints, inputs, outputs and transactions with their serialization and predicates. The
  hash of a transaction is a field that is set when it is read or built; the hash function
  (\<open>SerializeHash\<close>, a double SHA-256) is the parameter \<open>H\<close>. The lemmas show that the four
  formats round-trip, that the sum of the outputs fails exactly when an output is negative or
  the sum leaves \<open>int64_t\<close>, and that no transaction is both a coinbase and a coinstake.
\<close>

subsection \<open>Outpoints\<close>

datatype COutPoint = COutPoint (op_hash: uint256) (op_n: u32)

definition OutPoint_Null :: COutPoint where
  "OutPoint_Null = COutPoint 0 (- 1)"

definition OutPoint_IsNull :: "COutPoint \<Rightarrow> bool" where
  "OutPoint_IsNull p \<longleftrightarrow> op_hash p = 0 \<and> op_n p = - 1"

definition OutPoint_less :: "COutPoint \<Rightarrow> COutPoint \<Rightarrow> bool" where
  "OutPoint_less a b \<longleftrightarrow> op_hash a < op_hash b \<or> (op_hash a = op_hash b \<and> op_n a < op_n b)"

instantiation COutPoint :: linorder
begin

definition less_COutPoint :: "COutPoint \<Rightarrow> COutPoint \<Rightarrow> bool" where
  "less_COutPoint = OutPoint_less"

definition less_eq_COutPoint :: "COutPoint \<Rightarrow> COutPoint \<Rightarrow> bool" where
  "less_eq_COutPoint a b \<longleftrightarrow> OutPoint_less a b \<or> a = b"

instance
  by standard
    (auto simp: less_COutPoint_def less_eq_COutPoint_def OutPoint_less_def intro: COutPoint.expand)

end

definition u256_Serialize :: "uint256 \<Rightarrow> bytes" where
  "u256_Serialize w = WRITEDATA 32 (unat w)"

definition u256_Unserialize :: "uint256 reader" where
  "u256_Unserialize bs = bindE (READDATA 32 bs) (\<lambda>(n, r). Inr (word_of_nat n, r))"

definition u32_Serialize :: "u32 \<Rightarrow> bytes" where
  "u32_Serialize w = WRITEDATA 4 (unat w)"

definition u32_Unserialize :: "u32 reader" where
  "u32_Unserialize bs = bindE (READDATA 4 bs) (\<lambda>(n, r). Inr (word_of_nat n, r))"

definition OutPoint_Serialize :: "COutPoint \<Rightarrow> bytes" where
  "OutPoint_Serialize p = u256_Serialize (op_hash p) @ u32_Serialize (op_n p)"

definition OutPoint_Unserialize :: "COutPoint reader" where
  "OutPoint_Unserialize bs =
     bindE (u256_Unserialize bs) (\<lambda>(h, r).
     bindE (u32_Unserialize r) (\<lambda>(n, r'). Inr (COutPoint h n, r')))"

subsection \<open>Inputs and outputs\<close>

record CTxIn =
  prevout :: COutPoint
  scriptSig :: CScript
  nSequence :: u32
  prevPubKey :: CScript

definition CTxIn_default :: CTxIn where
  "CTxIn_default = \<lparr>prevout = OutPoint_Null, scriptSig = [], nSequence = - 1, prevPubKey = []\<rparr>"

definition mk_CTxIn :: "COutPoint \<Rightarrow> CScript \<Rightarrow> u32 \<Rightarrow> CTxIn" where
  "mk_CTxIn p s sq = \<lparr>prevout = p, scriptSig = s, nSequence = sq, prevPubKey = []\<rparr>"

definition TxIn_IsFinal :: "CTxIn \<Rightarrow> bool" where
  "TxIn_IsFinal i \<longleftrightarrow> nSequence i = - 1"

definition TxIn_eq :: "CTxIn \<Rightarrow> CTxIn \<Rightarrow> bool" where
  "TxIn_eq a b \<longleftrightarrow> prevout a = prevout b \<and> scriptSig a = scriptSig b \<and> nSequence a = nSequence b"

definition TxIn_Serialize :: "CTxIn \<Rightarrow> bytes" where
  "TxIn_Serialize i = OutPoint_Serialize (prevout i) @ Serialize_blob (scriptSig i) @ u32_Serialize (nSequence i)"

definition TxIn_Unserialize :: "CTxIn reader" where
  "TxIn_Unserialize bs =
     bindE (OutPoint_Unserialize bs) (\<lambda>(p, r1).
     bindE (Unserialize_blob r1) (\<lambda>(s, r2).
     bindE (u32_Unserialize r2) (\<lambda>(sq, r3). Inr (mk_CTxIn p s sq, r3))))"

record CTxOut =
  nValue :: CAmount
  scriptPubKey :: CScript
  nRounds :: int

definition mk_CTxOut :: "CAmount \<Rightarrow> CScript \<Rightarrow> CTxOut" where
  "mk_CTxOut v s = \<lparr>nValue = v, scriptPubKey = s, nRounds = - 10\<rparr>"

definition TxOut_SetNull :: "CTxOut \<Rightarrow> CTxOut" where
  "TxOut_SetNull out = \<lparr>nValue = - 1, scriptPubKey = [], nRounds = - 10\<rparr>"

definition TxOut_IsNull :: "CTxOut \<Rightarrow> bool" where
  "TxOut_IsNull out \<longleftrightarrow> nValue out = - 1"

definition TxOut_SetEmpty :: "CTxOut \<Rightarrow> CTxOut" where
  "TxOut_SetEmpty out = out\<lparr>nValue := 0, scriptPubKey := []\<rparr>"

definition TxOut_IsEmpty :: "CTxOut \<Rightarrow> bool" where
  "TxOut_IsEmpty out \<longleftrightarrow> nValue out = 0 \<and> scriptPubKey out = []"

definition TxOut_Serialize :: "CTxOut \<Rightarrow> bytes" where
  "TxOut_Serialize out = Serialize_int 8 (nValue out) @ Serialize_blob (scriptPubKey out)"

definition TxOut_Unserialize :: "CTxOut reader" where
  "TxOut_Unserialize bs =
     bindE (Unserialize_int 8 bs) (\<lambda>(v, r1).
     bindE (Unserialize_blob r1) (\<lambda>(s, r2). Inr (mk_CTxOut v s, r2)))"

definition TxOut_IsDust :: "CTxOut \<Rightarrow> CFeeRate \<Rightarrow> bool" where
  "TxOut_IsDust out minRelayTxFee \<longleftrightarrow>
     (let nSize = length (TxOut_Serialize out) + 148
      in nValue out < wrap_s 64 (3 * GetFee minRelayTxFee nSize))"

definition TxOut_IsZerocoinMint :: "CTxOut \<Rightarrow> bool" where
  "TxOut_IsZerocoinMint out \<longleftrightarrow> scriptPubKey out \<noteq> [] \<and> IsZerocoinMint (scriptPubKey out)"

definition TxOut_GetHash :: "(bytes \<Rightarrow> uint256) \<Rightarrow> CTxOut \<Rightarrow> uint256" where
  "TxOut_GetHash H out = H (TxOut_Serialize out)"

definition OutPoint_GetHash :: "(bytes \<Rightarrow> uint256) \<Rightarrow> COutPoint \<Rightarrow> uint256" where
  "OutPoint_GetHash H p = H (u256_Serialize (op_hash p) @ u32_Serialize (op_n p))"

subsection \<open>Transactions\<close>

record CMutableTransaction =
  mtx_nVersion :: int
  mtx_vin :: "CTxIn list"
  mtx_vout :: "CTxOut list"
  mtx_nLockTime :: u32

record CTransaction =
  tx_hash :: uint256
  tx_nVersion :: int
  vin :: "CTxIn list"
  vout :: "CTxOut list"
  nLockTime :: u32

text \<open>\<open>sizeof\<close> of the elements, by which a vector's memory grows while it is read.\<close>

definition sizeof_CTxIn :: nat where "sizeof_CTxIn = 96"
definition sizeof_CTxOut :: nat where "sizeof_CTxOut = 40"

definition mtx_Serialize :: "CMutableTransaction \<Rightarrow> bytes" where
  "mtx_Serialize tx =
     Serialize_int 4 (mtx_nVersion tx) @ Serialize_vec TxIn_Serialize (mtx_vin tx) @
     Serialize_vec TxOut_Serialize (mtx_vout tx) @ u32_Serialize (mtx_nLockTime tx)"

definition mtx_Unserialize :: "CMutableTransaction reader" where
  "mtx_Unserialize bs =
     bindE (Unserialize_int 4 bs) (\<lambda>(ver, r1).
     bindE (Unserialize_vec sizeof_CTxIn TxIn_Unserialize r1) (\<lambda>(i, r2).
     bindE (Unserialize_vec sizeof_CTxOut TxOut_Unserialize r2) (\<lambda>(out, r3).
     bindE (u32_Unserialize r3) (\<lambda>(lt, r4).
       Inr (\<lparr>mtx_nVersion = ver, mtx_vin = i, mtx_vout = out, mtx_nLockTime = lt\<rparr>, r4)))))"

definition tx_Serialize :: "CTransaction \<Rightarrow> bytes" where
  "tx_Serialize tx =
     Serialize_int 4 (tx_nVersion tx) @ Serialize_vec TxIn_Serialize (vin tx) @
     Serialize_vec TxOut_Serialize (vout tx) @ u32_Serialize (nLockTime tx)"

definition UpdateHash :: "(bytes \<Rightarrow> uint256) \<Rightarrow> CTransaction \<Rightarrow> CTransaction" where
  "UpdateHash H tx = tx\<lparr>tx_hash := H (tx_Serialize tx)\<rparr>"

definition tx_Unserialize :: "(bytes \<Rightarrow> uint256) \<Rightarrow> CTransaction reader" where
  "tx_Unserialize H bs =
     bindE (Unserialize_int 4 bs) (\<lambda>(ver, r1).
     bindE (Unserialize_vec sizeof_CTxIn TxIn_Unserialize r1) (\<lambda>(i, r2).
     bindE (Unserialize_vec sizeof_CTxOut TxOut_Unserialize r2) (\<lambda>(out, r3).
     bindE (u32_Unserialize r3) (\<lambda>(lt, r4).
       Inr (UpdateHash H \<lparr>tx_hash = 0, tx_nVersion = ver, vin = i, vout = out, nLockTime = lt\<rparr>, r4)))))"

definition tx_of_mtx :: "(bytes \<Rightarrow> uint256) \<Rightarrow> CMutableTransaction \<Rightarrow> CTransaction" where
  "tx_of_mtx H m =
     UpdateHash H \<lparr>tx_hash = 0, tx_nVersion = mtx_nVersion m, vin = mtx_vin m, vout = mtx_vout m,
                   nLockTime = mtx_nLockTime m\<rparr>"

definition mtx_of_tx :: "CTransaction \<Rightarrow> CMutableTransaction" where
  "mtx_of_tx tx = \<lparr>mtx_nVersion = tx_nVersion tx, mtx_vin = vin tx, mtx_vout = vout tx,
                   mtx_nLockTime = nLockTime tx\<rparr>"

definition mtx_GetHash :: "(bytes \<Rightarrow> uint256) \<Rightarrow> CMutableTransaction \<Rightarrow> uint256" where
  "mtx_GetHash H m = H (mtx_Serialize m)"

definition tx_IsNull :: "CTransaction \<Rightarrow> bool" where
  "tx_IsNull tx \<longleftrightarrow> vin tx = [] \<and> vout tx = []"

datatype value_error = ValueNegative | ValueWraps

fun GetValueOut_loop :: "CAmount \<Rightarrow> CTxOut list \<Rightarrow> value_error + CAmount" where
  "GetValueOut_loop nValueOut [] = Inr nValueOut"
| "GetValueOut_loop nValueOut (out # outs) =
     (if nValue out < 0 then Inl ValueNegative
      else if wrap_s 64 (nValueOut + nValue out) < nValueOut then Inl ValueWraps
      else GetValueOut_loop (wrap_s 64 (nValueOut + nValue out)) outs)"

definition GetValueOut :: "CTransaction \<Rightarrow> value_error + CAmount" where
  "GetValueOut tx = GetValueOut_loop 0 (vout tx)"

text \<open>
  The test for a zerocoin spend reads the first byte of the first input's script without
  looking whether there is one: \<open>None\<close> is that read outside of an empty vector.
\<close>

definition IsZerocoinSpend_tx :: "CTransaction \<Rightarrow> bool option" where
  "IsZerocoinSpend_tx tx =
     (case vin tx of
        [] \<Rightarrow> Some False
      | i # _ \<Rightarrow>
          if \<not> OutPoint_IsNull (prevout i) then Some False
          else (case scriptSig i of [] \<Rightarrow> None | b # _ \<Rightarrow> Some (b = OP_ZEROCOINSPEND)))"

definition IsZerocoinMint_tx :: "CTransaction \<Rightarrow> bool" where
  "IsZerocoinMint_tx tx \<longleftrightarrow> list_ex (\<lambda>txout. IsZerocoinMint (scriptPubKey txout)) (vout tx)"

definition ContainsZerocoins :: "CTransaction \<Rightarrow> bool option" where
  "ContainsZerocoins tx =
     (case IsZerocoinSpend_tx tx of None \<Rightarrow> None
      | Some b \<Rightarrow> Some (b \<or> IsZerocoinMint_tx tx))"

definition IsCoinBase :: "CTransaction \<Rightarrow> bool option" where
  "IsCoinBase tx =
     (if length (vin tx) = 1 \<and> OutPoint_IsNull (prevout (vin tx ! 0))
      then map_option Not (ContainsZerocoins tx) else Some False)"

definition IsCoinStake :: "CTransaction \<Rightarrow> bool" where
  "IsCoinStake tx \<longleftrightarrow>
     length (vin tx) > 0 \<and> \<not> OutPoint_IsNull (prevout (vin tx ! 0)) \<and>
     length (vout tx) \<ge> 2 \<and> TxOut_IsEmpty (vout tx ! 0)"

definition IsMasternodeReward :: "COutPoint \<Rightarrow> CTransaction \<Rightarrow> bool" where
  "IsMasternodeReward p tx \<longleftrightarrow>
     (if \<not> IsCoinStake tx then False
      else unat (op_n p) = length (vout tx) - 1 \<and>
           scriptPubKey (vout tx ! 1) \<noteq> scriptPubKey (vout tx ! unat (op_n p)))"

definition GetZerocoinMinted :: "CTransaction \<Rightarrow> CAmount" where
  "GetZerocoinMinted tx =
     (case filter (\<lambda>txOut. IsZerocoinMint (scriptPubKey txOut)) (vout tx) of
        [] \<Rightarrow> 0 | txOut # _ \<Rightarrow> nValue txOut)"

definition GetZerocoinMintCount :: "CTransaction \<Rightarrow> nat" where
  "GetZerocoinMintCount tx = length (filter (\<lambda>out. IsZerocoinMint (scriptPubKey out)) (vout tx))"

definition UsesUTXO :: "CTransaction \<Rightarrow> COutPoint \<Rightarrow> bool" where
  "UsesUTXO tx out \<longleftrightarrow> list_ex (\<lambda>i. prevout i = out) (vin tx)"

definition GetOutPoints :: "CTransaction \<Rightarrow> COutPoint list" where
  "GetOutPoints tx = map (\<lambda>i. COutPoint (tx_hash tx) (word_of_nat i)) [0..<length (vout tx)]"

fun modified_size_loop :: "nat \<Rightarrow> CTxIn list \<Rightarrow> nat" where
  "modified_size_loop nTxSize [] = nTxSize"
| "modified_size_loop nTxSize (i # ins) =
     (let offset = 41 + min 110 (length (scriptSig i))
      in modified_size_loop (if nTxSize > offset then nTxSize - offset else nTxSize) ins)"

definition GetTotalSize :: "CTransaction \<Rightarrow> nat" where
  "GetTotalSize tx = length (tx_Serialize tx) mod 2 ^ 32"

definition CalculateModifiedSize :: "CTransaction \<Rightarrow> nat \<Rightarrow> nat" where
  "CalculateModifiedSize tx nTxSize =
     modified_size_loop (if nTxSize = 0 then GetTotalSize tx else nTxSize) (vin tx)"

subsection \<open>Round trips\<close>

lemma u256_roundtrip [simp]: "u256_Unserialize (u256_Serialize w @ r) = Inr (w, r)"
proof -
  have "unat w < 256 ^ 32" using unsigned_less [of w] by simp
  then show ?thesis by (simp add: u256_Unserialize_def u256_Serialize_def)
qed

lemma u32_roundtrip [simp]: "u32_Unserialize (u32_Serialize w @ r) = Inr (w, r)"
proof -
  have "unat w < 256 ^ 4" using unsigned_less [of w] by simp
  then show ?thesis by (simp add: u32_Unserialize_def u32_Serialize_def)
qed

lemma length_u256_Serialize [simp, codec_simps]: "length (u256_Serialize w) = 32"
  by (simp add: u256_Serialize_def)

lemma length_u32_Serialize [simp, codec_simps]: "length (u32_Serialize w) = 4"
  by (simp add: u32_Serialize_def)

interpretation u256c: codec u256_Serialize u256_Unserialize "\<lambda>_. True"
  by unfold_locales simp

interpretation u32c: codec u32_Serialize u32_Unserialize "\<lambda>_. True"
  by unfold_locales simp

lemma OutPoint_roundtrip [simp]: "OutPoint_Unserialize (OutPoint_Serialize p @ r) = Inr (p, r)"
  by (simp add: OutPoint_Unserialize_def OutPoint_Serialize_def)

interpretation outpoint: codec OutPoint_Serialize OutPoint_Unserialize "\<lambda>_. True"
  by unfold_locales simp

definition TxIn_wf :: "CTxIn \<Rightarrow> bool" where
  "TxIn_wf i \<longleftrightarrow> length (scriptSig i) \<le> MAX_SIZE \<and> prevPubKey i = []"

definition TxOut_wf :: "CTxOut \<Rightarrow> bool" where
  "TxOut_wf out \<longleftrightarrow> in_s 64 (nValue out) \<and> length (scriptPubKey out) \<le> MAX_SIZE \<and> nRounds out = - 10"

lemma TxIn_roundtrip: "TxIn_wf i \<Longrightarrow> TxIn_Unserialize (TxIn_Serialize i @ r) = Inr (i, r)"
  by (simp add: TxIn_Unserialize_def TxIn_Serialize_def TxIn_wf_def blob.roundtrip mk_CTxIn_def)

lemma TxOut_roundtrip: "TxOut_wf out \<Longrightarrow> TxOut_Unserialize (TxOut_Serialize out @ r) = Inr (out, r)"
  by (simp add: TxOut_Unserialize_def TxOut_Serialize_def TxOut_wf_def blob.roundtrip int64.roundtrip mk_CTxOut_def)

interpretation txin: vec_codec TxIn_Serialize TxIn_Unserialize TxIn_wf sizeof_CTxIn
  by unfold_locales (simp_all add: TxIn_roundtrip sizeof_CTxIn_def)

interpretation txout: vec_codec TxOut_Serialize TxOut_Unserialize TxOut_wf sizeof_CTxOut
  by unfold_locales (simp_all add: TxOut_roundtrip sizeof_CTxOut_def)

text \<open>What the constructors and the network give: values of the C types, vectors of readable size.\<close>

definition tx_wf :: "CTransaction \<Rightarrow> bool" where
  "tx_wf tx \<longleftrightarrow> in_s 32 (tx_nVersion tx) \<and>
     list_all TxIn_wf (vin tx) \<and> length (vin tx) \<le> MAX_SIZE \<and>
     list_all TxOut_wf (vout tx) \<and> length (vout tx) \<le> MAX_SIZE"

lemma tx_Unserialize_Serialize:
  assumes "tx_wf tx"
  shows "tx_Unserialize H (tx_Serialize tx @ r) = Inr (tx\<lparr>tx_hash := H (tx_Serialize tx)\<rparr>, r)"
  using assms
  by (simp add: tx_Unserialize_def tx_wf_def int32.roundtrip txin.vec_roundtrip txout.vec_roundtrip
      UpdateHash_def tx_Serialize_def)

interpretation txc: codec tx_Serialize "tx_Unserialize H" "\<lambda>tx. tx_wf tx \<and> tx_hash tx = H (tx_Serialize tx)" for H
  by unfold_locales (simp add: tx_Unserialize_Serialize)

text \<open>
  C33: a transaction survives the wire: reading what was written gives the same transaction,
  with the hash of its bytes, and leaves the rest of the stream; converting it to a mutable
  transaction and back changes nothing, and both forms hash alike.
\<close>

theorem tx_roundtrip:
  assumes "tx_wf tx" "tx_hash tx = H (tx_Serialize tx)"
  shows "tx_Unserialize H (tx_Serialize tx @ r) = Inr (tx, r) \<and>
    tx_of_mtx H (mtx_of_tx tx) = tx \<and> mtx_GetHash H (mtx_of_tx tx) = tx_hash tx"
  using assms txc.roundtrip [of tx H r]
  by (simp add: tx_of_mtx_def mtx_of_tx_def UpdateHash_def mtx_GetHash_def mtx_Serialize_def tx_Serialize_def)

definition sample_tx :: CTransaction where
  "sample_tx = \<lparr>tx_hash = 7, tx_nVersion = 1, vin = [mk_CTxIn (COutPoint 5 0) [OP_1] (- 1)],
     vout = [mk_CTxOut 50 [OP_DUP], mk_CTxOut 3 []], nLockTime = 9\<rparr>"

lemma tx_roundtrip_witness:
  "tx_Unserialize (\<lambda>_. 7) (tx_Serialize sample_tx @ [1]) = Inr (sample_tx, [1])"
  using tx_roundtrip [of sample_tx "\<lambda>_. 7" "[1]"]
  by (simp add: sample_tx_def tx_wf_def mk_CTxIn_def mk_CTxOut_def TxIn_wf_def TxOut_wf_def in_s_def MAX_SIZE_def)

subsection \<open>The sum of the outputs\<close>

lemma wrap_s_above:
  assumes "0 \<le> a" "a < 2 ^ 63" "0 \<le> b" "b < 2 ^ 63" "\<not> a + b < 2 ^ 63"
  shows "wrap_s 64 (a + b) = a + b - 2 ^ 64" "wrap_s 64 (a + b) < a"
proof -
  have r: "0 \<le> a + b - 2 ^ 63" "a + b - 2 ^ 63 < 2 ^ 64" using assms by simp_all
  have "a + b + 2 ^ 63 = (a + b - 2 ^ 63) + 2 ^ 64" by simp
  then have "(a + b + 2 ^ 63) mod 2 ^ 64 = (a + b - 2 ^ 63) mod 2 ^ 64" by (metis mod_add_self2)
  also have "\<dots> = a + b - 2 ^ 63" using r by (rule mod_pos_pos_trivial)
  finally show e: "wrap_s 64 (a + b) = a + b - 2 ^ 64" by (simp add: wrap_s_def)
  show "wrap_s 64 (a + b) < a" unfolding e using assms by simp
qed

lemma GetValueOut_loop_spec:
  assumes "0 \<le> a" "a < 2 ^ 63" "\<forall>out\<in>set outs. in_s 64 (nValue out)"
  shows "GetValueOut_loop a outs = Inr v \<longleftrightarrow>
    (\<forall>out\<in>set outs. 0 \<le> nValue out) \<and> v = a + sum_list (map nValue outs) \<and> v < 2 ^ 63"
  using assms
proof (induction outs arbitrary: a)
  case (Cons out outs)
  have iv: "nValue out < 2 ^ 63" using Cons.prems(3) by (simp add: in_s_def)
  show ?case
  proof (cases "nValue out < 0")
    case False
    show ?thesis
    proof (cases "a + nValue out < 2 ^ 63")
      case True
      then have "in_s 64 (a + nValue out)" using False Cons.prems by (simp add: in_s_def)
      then have w: "wrap_s 64 (a + nValue out) = a + nValue out" by (simp add: wrap_s_id)
      show ?thesis using Cons.IH [of "a + nValue out"] Cons.prems True False w
        by (simp add: add.assoc)
    next
      case over: False
      have "wrap_s 64 (a + nValue out) < a" using Cons.prems False iv over by (intro wrap_s_above) simp_all
      moreover have "(\<forall>o'\<in>set outs. 0 \<le> nValue o') \<Longrightarrow> 0 \<le> sum_list (map nValue outs)"
        by (intro sum_list_nonneg) auto
      ultimately show ?thesis using False over by auto
    qed
  qed simp
qed auto

text \<open>
  C34: the value of a transaction is the sum of its outputs, and it is computed without an
  exception exactly when no output is negative and the sum stays below two to the 63.
\<close>

theorem GetValueOut_spec:
  assumes "\<forall>out\<in>set (vout tx). in_s 64 (nValue out)"
  shows "GetValueOut tx = Inr v \<longleftrightarrow>
    list_all (\<lambda>out. 0 \<le> nValue out) (vout tx) \<and> v = sum_list (map nValue (vout tx)) \<and> v < 2 ^ 63"
  using GetValueOut_loop_spec [of 0 "vout tx" v] assms by (simp add: GetValueOut_def list_all_iff)

lemma GetValueOut_spec_witness:
  "GetValueOut sample_tx = Inr 53"
  using GetValueOut_spec [of sample_tx 53]
  by (simp add: sample_tx_def mk_CTxOut_def in_s_def)

text \<open>
  No transaction is both a coinbase and a coinstake. Classifying a transaction whose only
  input is null and has an empty script reads outside of that script; every other
  transaction is classified.
\<close>

theorem coinbase_coinstake:
  "\<not> (IsCoinBase tx = Some True \<and> IsCoinStake tx) \<and>
   (IsCoinBase tx = None \<longleftrightarrow>
     (\<exists>i. vin tx = [i] \<and> OutPoint_IsNull (prevout i) \<and> scriptSig i = []))"
proof (cases "vin tx")
  case Nil
  then show ?thesis by (simp add: IsCoinBase_def IsCoinStake_def)
next
  case (Cons i ins)
  then show ?thesis
    by (auto simp: IsCoinBase_def IsCoinStake_def ContainsZerocoins_def IsZerocoinSpend_tx_def
        split: list.splits if_splits)
qed

lemma modified_size_loop_le: "modified_size_loop n ins \<le> n"
  by (induction n ins rule: modified_size_loop.induct) (auto simp: Let_def intro: le_trans)

end
