(* ===== verification/Pubkey.thy ===== *)
theory Pubkey
  imports Serialize
begin

section \<open>Encapsulated public keys (pubkey.h)\<close>

text \<open>
  A \<open>CPubKey\<close> is a buffer of 65 bytes whose first byte determines how many of them are
  used. The elliptic-curve operations (full validity, decompression, verification) are calls
  into the secp256k1 library and parameters of the definitions that need them; this theory has
  the container: its length rule, \<open>Set\<close>, comparison and serialization. The lemmas show that
  \<open>Set\<close> accepts exactly the byte strings whose length fits their header, and that a valid key
  survives serialization.
\<close>

type_synonym CPubKey = bytes

definition PUBLIC_KEY_SIZE :: nat where "PUBLIC_KEY_SIZE = 65"
definition COMPRESSED_PUBLIC_KEY_SIZE :: nat where "COMPRESSED_PUBLIC_KEY_SIZE = 33"

definition GetLen :: "byte \<Rightarrow> nat" where
  "GetLen chHeader =
     (if chHeader = 2 \<or> chHeader = 3 then COMPRESSED_PUBLIC_KEY_SIZE
      else if chHeader = 4 \<or> chHeader = 6 \<or> chHeader = 7 then PUBLIC_KEY_SIZE
      else 0)"

definition pk_Invalidate :: "CPubKey \<Rightarrow> CPubKey" where
  "pk_Invalidate vch = vch[0 := 0xFF]"

text \<open>The default constructor leaves the rest of the buffer as it is in memory.\<close>

definition pk_Set :: "CPubKey \<Rightarrow> bytes \<Rightarrow> CPubKey" where
  "pk_Set vch d =
     (let len = (if d = [] then 0 else GetLen (hd d))
      in if len \<noteq> 0 \<and> len = length d then d @ drop len vch else pk_Invalidate vch)"

definition pk_size :: "CPubKey \<Rightarrow> nat" where
  "pk_size vch = GetLen (vch ! 0)"

definition pk_Raw :: "CPubKey \<Rightarrow> bytes" where
  "pk_Raw vch = take (pk_size vch) vch"

fun memcmp_less :: "bytes \<Rightarrow> bytes \<Rightarrow> bool" where
  "memcmp_less (x # xs) (y # ys) \<longleftrightarrow> (x < y \<or> (x = y \<and> memcmp_less xs ys))"
| "memcmp_less _ _ \<longleftrightarrow> False"

definition pk_eq :: "CPubKey \<Rightarrow> CPubKey \<Rightarrow> bool" where
  "pk_eq a b \<longleftrightarrow> a ! 0 = b ! 0 \<and> take (pk_size a) a = take (pk_size a) b"

definition pk_less :: "CPubKey \<Rightarrow> CPubKey \<Rightarrow> bool" where
  "pk_less a b \<longleftrightarrow>
     a ! 0 < b ! 0 \<or> (a ! 0 = b ! 0 \<and> memcmp_less (take (pk_size a) a) (take (pk_size a) b))"

definition pk_GetSerializeSize :: "CPubKey \<Rightarrow> nat" where
  "pk_GetSerializeSize vch = pk_size vch + 1"

definition pk_Serialize :: "CPubKey \<Rightarrow> bytes" where
  "pk_Serialize vch = WriteCompactSize (pk_size vch) @ take (pk_size vch) vch"

text \<open>A short key overwrites the front of the buffer it is read into; a long one is skipped.\<close>

definition pk_Unserialize :: "CPubKey \<Rightarrow> CPubKey reader" where
  "pk_Unserialize vch bs =
     bindE (ReadCompactSize bs) (\<lambda>(len, r).
       if len \<le> PUBLIC_KEY_SIZE then
         bindE (read_bytes len r) (\<lambda>(d, r'). Inr (d @ drop len vch, r'))
       else
         bindE (read_bytes len r) (\<lambda>(d, r'). Inr (pk_Invalidate vch, r')))"

definition pk_GetID :: "(bytes \<Rightarrow> 'h) \<Rightarrow> CPubKey \<Rightarrow> 'h" where
  "pk_GetID Hash160 vch = Hash160 (take (pk_size vch) vch)"

definition pk_IsValid :: "CPubKey \<Rightarrow> bool" where
  "pk_IsValid vch \<longleftrightarrow> pk_size vch > 0"

definition pk_IsCompressed :: "CPubKey \<Rightarrow> bool" where
  "pk_IsCompressed vch \<longleftrightarrow> pk_size vch = COMPRESSED_PUBLIC_KEY_SIZE"

lemma GetLen_cases: "GetLen h = 0 \<or> GetLen h = 33 \<or> GetLen h = 65"
  by (simp add: GetLen_def PUBLIC_KEY_SIZE_def COMPRESSED_PUBLIC_KEY_SIZE_def)

lemma GetLen_le: "GetLen h \<le> 65"
  using GetLen_cases [of h] by auto

lemma GetLen_FF [simp]: "GetLen 0xFF = 0"
  by (simp add: GetLen_def)

lemma pk_Invalidate_invalid: "vch \<noteq> [] \<Longrightarrow> \<not> pk_IsValid (pk_Invalidate vch)"
  by (simp add: pk_IsValid_def pk_size_def pk_Invalidate_def)

lemma length_pk_Set: "length vch = 65 \<Longrightarrow> length (pk_Set vch d) = 65"
  using GetLen_le [of "hd d"] by (auto simp: pk_Set_def pk_Invalidate_def Let_def)

text \<open>
  Setting a key from bytes gives a valid key exactly when the bytes have the length their
  first byte calls for, and then the key's data are those bytes.
\<close>

theorem pk_Set_spec:
  assumes "length vch = 65"
  shows "(pk_IsValid (pk_Set vch d) \<longleftrightarrow> d \<noteq> [] \<and> GetLen (hd d) = length d) \<and>
    (pk_IsValid (pk_Set vch d) \<longrightarrow> pk_Raw (pk_Set vch d) = d)"
proof (cases "d \<noteq> [] \<and> GetLen (hd d) = length d")
  case True
  then have s: "pk_Set vch d = d @ drop (length d) vch" by (simp add: pk_Set_def)
  have h: "(d @ x) ! 0 = hd d" for x using True by (cases d) auto
  then have "pk_size (pk_Set vch d) = length d" using True by (simp only: s pk_size_def h)
  then show ?thesis using True by (simp add: pk_IsValid_def pk_Raw_def s)
next
  case False
  then have "pk_Set vch d = pk_Invalidate vch" by (auto simp: pk_Set_def Let_def)
  moreover have "vch \<noteq> []" using assms by auto
  ultimately show ?thesis using False pk_Invalidate_invalid by auto
qed

lemma pk_Set_spec_witness:
  "pk_Raw (pk_Set (replicate 65 0) (2 # replicate 32 7)) = 2 # replicate 32 7"
  using pk_Set_spec [of "replicate 65 0" "2 # replicate 32 7"]
  by (simp add: GetLen_def COMPRESSED_PUBLIC_KEY_SIZE_def)

lemma pk_roundtrip:
  assumes "length vch = 65" "length vch0 = 65" "pk_IsValid vch"
  shows "\<exists>k. pk_Unserialize vch0 (pk_Serialize vch @ r) = Inr (k, r) \<and> length k = 65 \<and> pk_eq k vch \<and> pk_eq vch k"
proof -
  let ?n = "pk_size vch"
  have n: "0 < ?n" "?n \<le> 65" using assms GetLen_le by (simp_all add: pk_IsValid_def pk_size_def)
  have rd: "ReadCompactSize (pk_Serialize vch @ r) = Inr (?n, take ?n vch @ r)"
    using n by (simp add: ReadCompactSize_iff pk_Serialize_def MAX_SIZE_def)
  let ?k = "take ?n vch @ drop ?n vch0"
  have u: "pk_Unserialize vch0 (pk_Serialize vch @ r) = Inr (?k, r)"
    using n assms by (simp add: pk_Unserialize_def rd read_bytes_def PUBLIC_KEY_SIZE_def)
  have h: "?k ! 0 = vch ! 0" using n assms by (simp add: nth_append)
  then have "pk_size ?k = ?n" by (simp only: pk_size_def)
  then show ?thesis using u h n assms by (intro exI [of _ ?k]) (simp add: pk_eq_def)
qed

end
