(* ===== verification/Compressor.thy ===== *)
theory Compressor
  imports Transaction Pubkey
begin

section \<open>Compact forms of outputs (compressor.h, compressor.cpp)\<close>

text \<open>
  The coin database stores amounts and scripts in a compressed form. Whether an uncompressed
  public key is fully valid and the decompression of a key are calls to the elliptic-curve
  library: the parameters \<open>fv\<close> and \<open>dec\<close>. The lemmas show that amounts round-trip wherever
  the code's arithmetic does not wrap, and scripts round-trip when the library decompresses
  what it declared valid.
\<close>

subsection \<open>Amounts\<close>

function compress_loop :: "nat \<Rightarrow> nat \<Rightarrow> nat \<times> nat" where
  "compress_loop n e = (if n mod 10 = 0 \<and> e < 9 then compress_loop (n div 10) (e + 1) else (n, e))"
  by pat_completeness auto
termination
  by (relation "measure (\<lambda>(n, e). 9 - e)") auto

declare compress_loop.simps [simp del]

text \<open>The results are \<open>uint64_t\<close>; additions and products wrap.\<close>

definition CompressAmount :: "nat \<Rightarrow> nat" where
  "CompressAmount n =
     (if n = 0 then 0
      else let (n1, e) = compress_loop n 0
           in if e < 9 then
                let d = n1 mod 10; n2 = n1 div 10
                in (1 + (n2 * 9 + d - 1) * 10 + e) mod 2 ^ 64
              else (1 + (n1 - 1) * 10 + 9) mod 2 ^ 64)"

fun decompress_loop :: "nat \<Rightarrow> nat \<Rightarrow> nat" where
  "decompress_loop n 0 = n"
| "decompress_loop n (Suc e) = decompress_loop (n * 10 mod 2 ^ 64) e"

definition DecompressAmount :: "nat \<Rightarrow> nat" where
  "DecompressAmount x0 =
     (if x0 = 0 then 0
      else let x = x0 - 1; e = x mod 10; x1 = x div 10;
               n = (if e < 9 then let d = x1 mod 9 + 1; x2 = x1 div 9 in (x2 * 10 + d) mod 2 ^ 64
                    else (x1 + 1) mod 2 ^ 64)
           in decompress_loop n e)"

lemma compress_loop_spec:
  "compress_loop n e = (m, f) \<Longrightarrow> 0 < n \<Longrightarrow> e \<le> 9 \<Longrightarrow>
   n = m * 10 ^ (f - e) \<and> e \<le> f \<and> f \<le> 9 \<and> 0 < m \<and> (f < 9 \<longrightarrow> m mod 10 \<noteq> 0)"
proof (induction n e rule: compress_loop.induct)
  case (1 n e)
  show ?case
  proof (cases "n mod 10 = 0 \<and> e < 9")
    case True
    have "compress_loop (n div 10) (e + 1) = (m, f)"
      using 1(2) True by (subst (asm) compress_loop.simps) simp
    moreover have "0 < n div 10" using True 1(3) by auto
    ultimately have IH: "n div 10 = m * 10 ^ (f - (e + 1)) \<and> e + 1 \<le> f \<and> f \<le> 9 \<and> 0 < m \<and> (f < 9 \<longrightarrow> m mod 10 \<noteq> 0)"
      using 1(1) [OF True] True by simp
    have "n = 10 * (n div 10)" using True by auto
    also have "\<dots> = m * (10 * 10 ^ (f - (e + 1)))" using IH by simp
    also have "10 * 10 ^ (f - (e + 1)) = (10 :: nat) ^ (f - e)"
      using IH by (metis Suc_diff_le Suc_eq_plus1 diff_Suc_Suc power_Suc)
    finally show ?thesis using IH by simp
  next
    case False
    then have "m = n" "f = e" using 1(2) by (subst (asm) compress_loop.simps; simp)+
    then show ?thesis using 1(3,4) False by auto
  qed
qed

lemma decompress_loop_spec:
  "n * 10 ^ e < 2 ^ 64 \<Longrightarrow> decompress_loop n e = n * 10 ^ e"
proof (induction e arbitrary: n)
  case (Suc e)
  have "n * 10 * 1 \<le> n * 10 * 10 ^ e" by (intro mult_le_mono2) simp
  then have "n * 10 < 2 ^ 64" using Suc.prems by (simp only: power_Suc mult.assoc mult_1_right)
  then show ?case using Suc by simp
qed simp

lemma CompressAmount_loop_free:
  assumes "n < 2000000000000000000"
  shows "DecompressAmount (CompressAmount n) = n"
proof (cases "n = 0")
  case False
  obtain m e where c: "compress_loop n 0 = (m, e)" by (cases "compress_loop n 0")
  have s: "n = m * 10 ^ e" "e \<le> 9" "0 < m" "e < 9 \<Longrightarrow> m mod 10 \<noteq> 0"
    using compress_loop_spec [OF c] False by simp_all
  have "m * 1 \<le> m * 10 ^ e" by (intro mult_le_mono2) simp
  then have "m \<le> n" by (simp only: s(1) mult_1_right)
  then have m: "m < 2000000000000000000" using assms by linarith
  have dl: "decompress_loop m e = n"
    using decompress_loop_spec [of m e] s(1) assms by simp
  show ?thesis
  proof (cases "e < 9")
    case True
    define q d where "q = m div 10" and "d = m mod 10"
    have qd: "m = 10 * q + d" "0 < d" "d < 10" using s(4) [OF True] by (simp_all add: q_def d_def)
    define x where "x = (q * 9 + d - 1) * 10 + e"
    have x: "1 + x < 2 ^ 64" using m True qd by (simp add: x_def)
    have C: "CompressAmount n = 1 + x"
      using False c True x by (simp add: CompressAmount_def q_def d_def x_def add.assoc)
    have xm: "x mod 10 = e" "x div 10 = q * 9 + (d - 1)" using True qd by (simp_all add: x_def)
    have nine: "k < 9 \<Longrightarrow> (q * 9 + k) mod 9 = k \<and> (q * 9 + k) div 9 = q" for k by simp
    have "d - 1 < 9" using qd by linarith
    then have "(q * 9 + (d - 1)) mod 9 = d - 1" "(q * 9 + (d - 1)) div 9 = q" using nine by blast+
    then have "q * 10 + ((q * 9 + (d - 1)) mod 9 + 1) = m" using qd by simp
    moreover have "m mod 2 ^ 64 = m" using m by simp
    ultimately show ?thesis
      using True xm dl \<open>(q * 9 + (d - 1)) div 9 = q\<close>
      by (simp add: C DecompressAmount_def Let_def)
  next
    case nine: False
    then have e: "e = 9" using s by simp
    have m9: "m < 2000000000" using s(1) assms by (simp add: e)
    have "CompressAmount n = 1 + ((m - 1) * 10 + 9)"
      using False c nine m9 by (simp add: CompressAmount_def add.assoc)
    moreover have "((m - 1) * 10 + 9) mod 10 = 9" "((m - 1) * 10 + 9) div 10 = m - 1" by simp_all
    moreover have "(m - 1 + 1) mod 2 ^ 64 = m" using m9 s(3) by simp
    ultimately show ?thesis using dl e by (simp add: DecompressAmount_def Let_def)
  qed
qed (simp add: CompressAmount_def DecompressAmount_def)

text \<open>
  Decompressing a compressed amount gives the amount, for every amount whose compressed
  form fits in 64 bits, which all amounts below \<open>2 * 10 ^ 18\<close> (two hundred times the coins
  that a 63-bit sum of \<open>10 ^ 8\<close> units admits of) do.
\<close>

theorem CompressAmount_roundtrip:
  "n < 2000000000000000000 \<Longrightarrow> DecompressAmount (CompressAmount n) = n"
  by (rule CompressAmount_loop_free)

lemma CompressAmount_roundtrip_witness:
  "DecompressAmount (CompressAmount 123000000) = 123000000"
  by (rule CompressAmount_roundtrip) simp

subsection \<open>Scripts\<close>

definition nSpecialScripts :: nat where
  "nSpecialScripts = 6"

definition IsToKeyID :: "CScript \<Rightarrow> bytes option" where
  "IsToKeyID script =
     (if length script = 25 \<and> script ! 0 = OP_DUP \<and> script ! 1 = OP_HASH160 \<and> script ! 2 = 20 \<and>
         script ! 23 = OP_EQUALVERIFY \<and> script ! 24 = OP_CHECKSIG
      then Some (take 20 (drop 3 script)) else None)"

definition IsToScriptID :: "CScript \<Rightarrow> bytes option" where
  "IsToScriptID script =
     (if length script = 23 \<and> script ! 0 = OP_HASH160 \<and> script ! 1 = 20 \<and> script ! 22 = OP_EQUAL
      then Some (take 20 (drop 2 script)) else None)"

definition IsToPubKey :: "(CPubKey \<Rightarrow> bool) \<Rightarrow> CPubKey \<Rightarrow> CScript \<Rightarrow> CPubKey option" where
  "IsToPubKey fv pubkey0 script =
     (if length script = 35 \<and> script ! 0 = 33 \<and> script ! 34 = OP_CHECKSIG \<and>
         (script ! 1 = 0x02 \<or> script ! 1 = 0x03)
      then Some (pk_Set pubkey0 (take 33 (drop 1 script)))
      else if length script = 67 \<and> script ! 0 = 65 \<and> script ! 66 = OP_CHECKSIG \<and> script ! 1 = 0x04
      then let pubkey = pk_Set pubkey0 (take 65 (drop 1 script))
           in if fv pubkey then Some pubkey else None
      else None)"

definition Compress :: "(CPubKey \<Rightarrow> bool) \<Rightarrow> CScript \<Rightarrow> bytes option" where
  "Compress fv script =
     (case IsToKeyID script of
        Some keyID \<Rightarrow> Some (0x00 # keyID)
      | None \<Rightarrow>
     (case IsToScriptID script of
        Some scriptID \<Rightarrow> Some (0x01 # scriptID)
      | None \<Rightarrow>
     (case IsToPubKey fv (0xFF # replicate 64 0) script of
        Some pubkey \<Rightarrow>
          if pubkey ! 0 = 0x02 \<or> pubkey ! 0 = 0x03 then Some (pubkey ! 0 # take 32 (drop 1 pubkey))
          else if pubkey ! 0 = 0x04 then Some ((0x04 OR (pubkey ! 64 AND 0x01)) # take 32 (drop 1 pubkey))
          else None
      | None \<Rightarrow> None)))"

definition GetSpecialSize :: "nat \<Rightarrow> nat" where
  "GetSpecialSize nSize =
     (if nSize = 0 \<or> nSize = 1 then 20
      else if nSize = 2 \<or> nSize = 3 \<or> nSize = 4 \<or> nSize = 5 then 32 else 0)"

text \<open>The script that \<open>Decompress\<close> stores, or \<open>None\<close> where it returns false and leaves it.\<close>

definition Decompress :: "(CPubKey \<Rightarrow> CPubKey option) \<Rightarrow> nat \<Rightarrow> bytes \<Rightarrow> CScript option" where
  "Decompress dec nSize inp =
     (if nSize = 0 then Some ([OP_DUP, OP_HASH160, 20] @ take 20 inp @ [OP_EQUALVERIFY, OP_CHECKSIG])
      else if nSize = 1 then Some ([OP_HASH160, 20] @ take 20 inp @ [OP_EQUAL])
      else if nSize = 2 \<or> nSize = 3 then Some ([33, word_of_nat nSize] @ take 32 inp @ [OP_CHECKSIG])
      else if nSize = 4 \<or> nSize = 5 then
        (let vch = word_of_nat (nSize - 2) # take 32 inp;
             pubkey = pk_Set (0xFF # replicate 64 0) vch
         in case dec pubkey of
              None \<Rightarrow> None
            | Some full \<Rightarrow> Some ([65] @ take 65 full @ [OP_CHECKSIG]))
      else None)"

definition script_compr_Serialize :: "(CPubKey \<Rightarrow> bool) \<Rightarrow> CScript \<Rightarrow> bytes" where
  "script_compr_Serialize fv script =
     (case Compress fv script of
        Some compr \<Rightarrow> compr
      | None \<Rightarrow> WriteVarInt (int ((length script + nSpecialScripts) mod 2 ^ 32)) @ script)"

definition script_compr_GetSerializeSize :: "(CPubKey \<Rightarrow> bool) \<Rightarrow> CScript \<Rightarrow> nat" where
  "script_compr_GetSerializeSize fv script =
     (case Compress fv script of
        Some compr \<Rightarrow> length compr
      | None \<Rightarrow> (length script + GetSizeOfVarInt (int ((length script + nSpecialScripts) mod 2 ^ 32))) mod 2 ^ 32)"

definition script_compr_Unserialize :: "(CPubKey \<Rightarrow> CPubKey option) \<Rightarrow> CScript \<Rightarrow> CScript reader" where
  "script_compr_Unserialize dec script0 bs =
     bindE (ReadVarInt (u_conv 32) bs) (\<lambda>(nSize, r).
       if nSize < int nSpecialScripts then
         bindE (read_bytes (GetSpecialSize (nat nSize)) r) (\<lambda>(vch, r').
           Inr (case Decompress dec (nat nSize) vch of Some s \<Rightarrow> s | None \<Rightarrow> script0, r'))
       else read_bytes (nat nSize - nSpecialScripts) r)"

definition TxOutCompr_Serialize :: "(CPubKey \<Rightarrow> bool) \<Rightarrow> CTxOut \<Rightarrow> bytes" where
  "TxOutCompr_Serialize fv txout =
     WriteVarInt (int (CompressAmount (to_u 64 (nValue txout)))) @
     script_compr_Serialize fv (scriptPubKey txout)"

definition TxOutCompr_Unserialize :: "(CPubKey \<Rightarrow> CPubKey option) \<Rightarrow> CTxOut \<Rightarrow> CTxOut reader" where
  "TxOutCompr_Unserialize dec txout0 bs =
     bindE (ReadVarInt (u_conv 64) bs) (\<lambda>(nVal, r1).
     bindE (script_compr_Unserialize dec (scriptPubKey txout0) r1) (\<lambda>(s, r2).
       Inr (txout0\<lparr>nValue := wrap_s 64 (int (DecompressAmount (nat nVal))), scriptPubKey := s\<rparr>, r2)))"

subsection \<open>Scripts round-trip\<close>

text \<open>
  What the library guarantees: decompressing the compressed form of a fully valid uncompressed
  key gives that key. A fully valid key is a buffer whose header fits (the constructor's rule).
\<close>

definition key_compress :: "CPubKey \<Rightarrow> bytes" where
  "key_compress k = (0x02 OR (k ! 64 AND 0x01)) # take 32 (drop 1 k)"

definition decompresses :: "(CPubKey \<Rightarrow> bool) \<Rightarrow> (CPubKey \<Rightarrow> CPubKey option) \<Rightarrow> bool" where
  "decompresses fv dec \<longleftrightarrow>
     (\<forall>k. length k = 65 \<longrightarrow> k ! 0 = 0x04 \<longrightarrow> fv k \<longrightarrow>
        dec (pk_Set (0xFF # replicate 64 0) (key_compress k)) = Some k)"

lemma list_as_nths: "length xs = n \<Longrightarrow> xs = map ((!) xs) [0..<n]"
  using map_nth [of xs] by simp

lemma IsToKeyID_Some: "IsToKeyID s = Some h \<Longrightarrow> length h = 20 \<and> s = [OP_DUP, OP_HASH160, 20] @ h @ [OP_EQUALVERIFY, OP_CHECKSIG]"
proof -
  assume "IsToKeyID s = Some h"
  then have l: "length s = 25" and v: "s ! 0 = OP_DUP" "s ! 1 = OP_HASH160" "s ! 2 = 20"
    "s ! 23 = OP_EQUALVERIFY" "s ! 24 = OP_CHECKSIG" and h: "h = take 20 (drop 3 s)"
    by (auto simp: IsToKeyID_def split: if_splits)
  have t: "take 3 s = [s ! 0, s ! 1, s ! 2]" and d: "drop 23 s = [s ! 23, s ! 24]"
    using l by (auto simp: numeral_3_eq_3 take_Suc_conv_app_nth Cons_nth_drop_Suc [symmetric] numeral_eq_Suc)
  have "s = take 3 s @ take 20 (drop 3 s) @ drop 23 s"
    using append_take_drop_id [of 20 "drop 3 s"] append_take_drop_id [of 3 s] by simp
  then show ?thesis using t d v h l by simp
qed

lemma IsToScriptID_Some: "IsToScriptID s = Some h \<Longrightarrow> length h = 20 \<and> s = [OP_HASH160, 20] @ h @ [OP_EQUAL]"
proof -
  assume "IsToScriptID s = Some h"
  then have l: "length s = 23" and v: "s ! 0 = OP_HASH160" "s ! 1 = 20" "s ! 22 = OP_EQUAL"
    and h: "h = take 20 (drop 2 s)"
    by (auto simp: IsToScriptID_def split: if_splits)
  have t: "take 2 s = [s ! 0, s ! 1]" and d: "drop 22 s = [s ! 22]"
    using l by (auto simp: numeral_2_eq_2 take_Suc_conv_app_nth Cons_nth_drop_Suc [symmetric] numeral_eq_Suc)
  have "s = take 2 s @ take 20 (drop 2 s) @ drop 22 s"
    using append_take_drop_id [of 20 "drop 2 s"] append_take_drop_id [of 2 s] by simp
  then show ?thesis using t d v h l by simp
qed

lemma framed_key:
  assumes "length s = n + 2" "s ! 0 = a" "s ! (n + 1) = z" "0 < n"
  shows "s = a # take n (drop 1 s) @ [z]"
proof -
  have "s = take 1 s @ take n (drop 1 s) @ drop (n + 1) s"
    using append_take_drop_id [of n "drop 1 s"] append_take_drop_id [of 1 s] by simp
  moreover have "take 1 s = [a]" using assms by (cases s) auto
  moreover have "drop (n + 1) s = [z]"
    using assms Cons_nth_drop_Suc [of "n + 1" s] by simp
  ultimately show ?thesis by simp
qed

lemma ReadVarInt_small:
  "uint b < 128 \<Longrightarrow> 7 \<le> w \<Longrightarrow> ReadVarInt (u_conv w) (b # r) = Inr (uint b, r)"
proof -
  assume b: "uint b < 128" and w: "7 \<le> w"
  have "(128 :: int) \<le> 2 ^ w" using power_increasing [of 7 w "2 :: int"] w by simp
  then have c: "u_conv w (uint b) = uint b" using b by (simp add: u_conv_def mod_pos_pos_trivial)
  have "b AND 0x80 = 0" using b by (simp only: byte_and_80)
  moreover have "uint (b AND 0x7F) = uint b" using b by (simp only: byte_and_7F) (simp add: mod_pos_pos_trivial)
  ultimately show ?thesis using c by (simp add: ReadVarInt_def)
qed

lemma IsToPubKey_Some:
  assumes "IsToPubKey fv pk0 s = Some k" "length pk0 = 65"
  shows "(\<exists>p x. (p = 2 \<or> p = 3) \<and> length x = 32 \<and> s = [33, p] @ x @ [OP_CHECKSIG] \<and> k = (p # x) @ drop 33 pk0) \<or>
    (length k = 65 \<and> k ! 0 = 4 \<and> fv k \<and> s = [65] @ k @ [OP_CHECKSIG])"
proof -
  consider (c) "length s = 35" "s ! 0 = 33" "s ! 34 = OP_CHECKSIG" "s ! 1 = 2 \<or> s ! 1 = 3"
      "k = pk_Set pk0 (take 33 (drop 1 s))"
    | (u) "length s = 67" "s ! 0 = 65" "s ! 66 = OP_CHECKSIG" "s ! 1 = 4"
      "k = pk_Set pk0 (take 65 (drop 1 s))" "fv k"
    using assms(1) by (auto simp: IsToPubKey_def Let_def split: if_splits)
  then show ?thesis
  proof cases
    case c
    let ?d = "take 33 (drop 1 s)"
    have f: "s = 33 # ?d @ [OP_CHECKSIG]" using c framed_key [of s 33 33 OP_CHECKSIG] by simp
    have d1: "?d = s ! 1 # take 32 (drop 2 s)"
      using c Cons_nth_drop_Suc [of 1 s] by (simp add: numeral_2_eq_2 numeral_eq_Suc flip: Cons_nth_drop_Suc)
    have st: "length x = 32 \<Longrightarrow> q = 2 \<or> q = 3 \<Longrightarrow> pk_Set pk0 (q # x) = (q # x) @ drop 33 pk0" for q x
      by (auto simp: pk_Set_def GetLen_def COMPRESSED_PUBLIC_KEY_SIZE_def)
    have "k = ?d @ drop 33 pk0"
      unfolding d1 c(5) using c by (intro st) auto
    then show ?thesis using c f d1 by (intro disjI1 exI [of _ "s ! 1"] exI [of _ "take 32 (drop 2 s)"]) auto
  next
    case u
    let ?d = "take 65 (drop 1 s)"
    have f: "s = 65 # ?d @ [OP_CHECKSIG]" using u framed_key [of s 65 65 OP_CHECKSIG] by simp
    have h: "hd ?d = 4" "?d \<noteq> []" using u by (auto simp: hd_drop_conv_nth hd_take)
    have "k = ?d" using u h assms(2) by (simp add: pk_Set_def GetLen_def PUBLIC_KEY_SIZE_def)
    then show ?thesis using u f h by (intro disjI2) (simp add: hd_conv_nth)
  qed
qed

lemma byte_and_1: "(b :: byte) AND 1 = 0 \<or> b AND 1 = 1"
  by (simp add: and_one_eq mod_2_eq_odd)

lemma script_compr_roundtrip:
  assumes "decompresses fv dec" "length s + 6 < 2 ^ 32"
  shows "script_compr_Unserialize dec s0 (script_compr_Serialize fv s @ r) = Inr (s, r)"
proof -
  let ?pk0 = "0xFF # replicate 64 0 :: bytes"
  consider (k) h where "IsToKeyID s = Some h"
    | (i) h where "IsToKeyID s = None" "IsToScriptID s = Some h"
    | (p) k where "IsToKeyID s = None" "IsToScriptID s = None" "IsToPubKey fv ?pk0 s = Some k"
    | (n) "IsToKeyID s = None" "IsToScriptID s = None" "IsToPubKey fv ?pk0 s = None"
    by (metis option.exhaust)
  then show ?thesis
  proof cases
    case k
    then show ?thesis using IsToKeyID_Some [of s h] ReadVarInt_small [of 0 32]
      by (simp add: script_compr_Serialize_def script_compr_Unserialize_def Compress_def
          GetSpecialSize_def read_bytes_def Decompress_def nSpecialScripts_def)
  next
    case i
    then show ?thesis using IsToScriptID_Some [of s h] ReadVarInt_small [of 1 32]
      by (simp add: script_compr_Serialize_def script_compr_Unserialize_def Compress_def
          GetSpecialSize_def read_bytes_def Decompress_def nSpecialScripts_def)
  next
    case (p k)
    have "length ?pk0 = 65" by simp
    from IsToPubKey_Some [OF p(3) this] show ?thesis
    proof (elim disjE exE conjE, goal_cases)
      case (1 q x)
      then have "Compress fv s = Some (q # x)" using p by (simp add: Compress_def)
      then show ?case using 1 ReadVarInt_small [of q 32]
        by (simp add: script_compr_Serialize_def script_compr_Unserialize_def
          GetSpecialSize_def read_bytes_def Decompress_def nSpecialScripts_def)
    next
      case (2 q x)
      then have "Compress fv s = Some (q # x)" using p by (simp add: Compress_def)
      then show ?case using 2 ReadVarInt_small [of q 32]
        by (simp add: script_compr_Serialize_def script_compr_Unserialize_def
          GetSpecialSize_def read_bytes_def Decompress_def nSpecialScripts_def)
    next
      case 3
      define x where "x = take 32 (drop 1 k)"
      define b where "b = k ! 64 AND 1"
      have x: "length x = 32" using 3 by (simp add: x_def)
      have C: "Compress fv s = Some ((4 OR b) # x)" using p 3 by (simp add: Compress_def x_def b_def)
      have b: "b = 0 \<or> b = 1" unfolding b_def by (rule byte_and_1)
      have d: "dec (pk_Set ?pk0 ((2 OR b) # x)) = Some k"
        using assms(1) 3 by (simp add: decompresses_def key_compress_def x_def b_def)
      have S: "script_compr_Serialize fv s = (4 OR b) # x" by (simp add: C script_compr_Serialize_def)
      have U: "script_compr_Unserialize dec s0 (((4 OR b) # x) @ r) = Inr ([65] @ k @ [OP_CHECKSIG], r)"
        using b d x \<open>length k = 65\<close> ReadVarInt_small [of "4 OR b" 32]
        by (auto simp: script_compr_Unserialize_def GetSpecialSize_def read_bytes_def Decompress_def nSpecialScripts_def)
      show ?case unfolding S U using 3 by simp
    qed
  next
    case n
    have m: "(length s + 6) mod 2 ^ 32 = length s + 6" using assms(2) by simp
    have "ReadVarInt (u_conv 32) (WriteVarInt (int (length s + 6)) @ s @ r) = Inr (int (length s + 6), s @ r)"
      using assms(2) by (intro ReadVarInt_WriteVarInt) (auto simp: u_conv_def mod_pos_pos_trivial)
    then show ?thesis using n m
      by (simp add: script_compr_Serialize_def script_compr_Unserialize_def Compress_def
          read_bytes_def nSpecialScripts_def nat_add_distrib)
  qed
qed

lemma TxOutCompr_reread:
  assumes "decompresses fv dec" "length (scriptPubKey out) + 6 < 2 ^ 32"
    and "0 \<le> nValue out" "nValue out < 2000000000000000000" "nRounds out = nRounds out0"
  shows "TxOutCompr_Unserialize dec out0 (TxOutCompr_Serialize fv out @ r) = Inr (out, r)"
proof -
  let ?n = "nat (nValue out)"
  have u: "to_u 64 (nValue out) = ?n" using assms(3,4) by (simp add: to_u_def)
  have n: "?n < 2000000000000000000" using assms(4) by simp
  define c where "c = CompressAmount ?n"
  have cl: "int c < 2 ^ 64"
  proof -
    have "CompressAmount m < 2 ^ 64" for m
      by (simp add: CompressAmount_def Let_def split: prod.splits)
    then have "c < 2 ^ 64" by (simp add: c_def)
    then have "int c < int (2 ^ 64)" by (simp only: of_nat_less_iff)
    then show ?thesis by simp
  qed
  have rd: "ReadVarInt (u_conv 64) (WriteVarInt (int c) @ t) = Inr (int c, t)" for t
    using cl by (intro ReadVarInt_WriteVarInt) (auto simp: u_conv_def mod_pos_pos_trivial)
  have "wrap_s 64 (int (DecompressAmount c)) = nValue out"
    using CompressAmount_loop_free [OF n] assms(3,4) by (simp add: c_def wrap_s_id in_s_def)
  then show ?thesis using assms
    by (simp add: TxOutCompr_Unserialize_def TxOutCompr_Serialize_def u c_def [symmetric] rd script_compr_roundtrip)
qed

definition sample_key :: CPubKey where
  "sample_key = 4 # replicate 64 1"

text \<open>
  An output of the coin database reads back from its compressed form: the amount, and the
  script whichever of the six special forms it has, for every script whose length fits the
  form's 32-bit size and every non-negative amount in range. The hypothesis on the library is
  that it decompresses the keys it declared fully valid.
\<close>

theorem TxOutCompr_roundtrip:
  assumes "decompresses fv dec" "length (scriptPubKey out) + 6 < 2 ^ 32"
    and "0 \<le> nValue out" "nValue out < 2000000000000000000" "nRounds out = nRounds out0"
  shows "TxOutCompr_Unserialize dec out0 (TxOutCompr_Serialize fv out @ r) = Inr (out, r)"
  using assms by (rule TxOutCompr_reread)

lemma TxOutCompr_roundtrip_witness:
  "TxOutCompr_Unserialize (\<lambda>_. Some sample_key) (mk_CTxOut 0 [])
    (TxOutCompr_Serialize (\<lambda>k. k = sample_key) (mk_CTxOut 1200 ([65] @ sample_key @ [OP_CHECKSIG])) @ [1]) =
   Inr (mk_CTxOut 1200 ([65] @ sample_key @ [OP_CHECKSIG]), [1])"
  by (rule TxOutCompr_roundtrip) (simp_all add: mk_CTxOut_def decompresses_def sample_key_def)

end
