(* ===== verification/Coins.thy ===== *)
theory Coins
  imports Compressor
begin

section \<open>Unspent outputs and undo data (coins.h, coins.cpp, undo.h)\<close>

text \<open>
  \<open>CCoins\<close>, what the coin database keeps of a transaction: its unspent outputs, spent ones
  being null and dropped at the end of the array. The operations, the compact serialization
  with its bit mask, spending with its undo data and the restoring of a spent output that
  \<open>DisconnectBlock\<close> does. The lemmas show that the serialization round-trips, that the mask is
  exactly the unspent outputs, and what spending and restoring keep.
\<close>

subsection \<open>CCoins\<close>

record CCoins =
  fCoinBase :: bool
  fCoinStake :: bool
  cvout :: "CTxOut list"
  nHeight :: int
  cVersion :: int

definition CTxOut_default :: CTxOut where
  "CTxOut_default = \<lparr>nValue = - 1, scriptPubKey = [], nRounds = - 10\<rparr>"

definition CCoins_default :: CCoins where
  "CCoins_default = \<lparr>fCoinBase = False, fCoinStake = False, cvout = [], nHeight = 0, cVersion = 0\<rparr>"

definition coins_Clear :: "CCoins \<Rightarrow> CCoins" where
  "coins_Clear c = c\<lparr>fCoinBase := False, fCoinStake := False, cvout := [], nHeight := 0, cVersion := 0\<rparr>"

fun pop_null :: "CTxOut list \<Rightarrow> CTxOut list" where
  "pop_null [] = []"
| "pop_null (out # outs) =
     (let r = pop_null outs in if r = [] \<and> TxOut_IsNull out then [] else out # r)"

definition Cleanup :: "CCoins \<Rightarrow> CCoins" where
  "Cleanup c = c\<lparr>cvout := pop_null (cvout c)\<rparr>"

definition ClearUnspendable :: "CCoins \<Rightarrow> CCoins" where
  "ClearUnspendable c =
     Cleanup (c\<lparr>cvout := map (\<lambda>out. if IsUnspendable (scriptPubKey out) then TxOut_SetNull out else out) (cvout c)\<rparr>)"

text \<open>\<open>None\<close> is the read outside of an empty script that classifying the transaction may do.\<close>

definition FromTx :: "CTransaction \<Rightarrow> int \<Rightarrow> CCoins \<Rightarrow> CCoins option" where
  "FromTx tx nHeightIn c =
     (case IsCoinBase tx of
        None \<Rightarrow> None
      | Some cb \<Rightarrow>
          Some (ClearUnspendable (c\<lparr>fCoinBase := cb, fCoinStake := IsCoinStake tx, cvout := vout tx,
                  nHeight := nHeightIn, cVersion := tx_nVersion tx\<rparr>)))"

definition IsPruned :: "CCoins \<Rightarrow> bool" where
  "IsPruned c \<longleftrightarrow> list_all TxOut_IsNull (cvout c)"

definition coins_eq :: "CCoins \<Rightarrow> CCoins \<Rightarrow> bool" where
  "coins_eq a b \<longleftrightarrow>
     (if IsPruned a \<and> IsPruned b then True
      else fCoinBase a = fCoinBase b \<and> fCoinStake a = fCoinStake b \<and> nHeight a = nHeight b \<and>
           cVersion a = cVersion b \<and> cvout a = cvout b)"

definition IsAvailable :: "CCoins \<Rightarrow> nat \<Rightarrow> bool" where
  "IsAvailable c nPos \<longleftrightarrow>
     nPos < length (cvout c) \<and> \<not> TxOut_IsNull (cvout c ! nPos) \<and>
     \<not> IsZerocoinMint (scriptPubKey (cvout c ! nPos))"

subsection \<open>Undo data\<close>

record CTxInUndo =
  u_txout :: CTxOut
  u_fCoinBase :: bool
  u_fCoinStake :: bool
  u_nHeight :: nat
  u_nVersion :: int

definition CTxInUndo_default :: CTxInUndo where
  "CTxInUndo_default =
     \<lparr>u_txout = CTxOut_default, u_fCoinBase = False, u_fCoinStake = False, u_nHeight = 0, u_nVersion = 0\<rparr>"

definition CTxInUndo_of :: "CTxOut \<Rightarrow> CTxInUndo" where
  "CTxInUndo_of out = CTxInUndo_default\<lparr>u_txout := out\<rparr>"

definition undo_nCode :: "CTxInUndo \<Rightarrow> nat" where
  "undo_nCode u =
     (u_nHeight u * 4 + (if u_fCoinBase u then 2 else 0) + (if u_fCoinStake u then 1 else 0)) mod 2 ^ 32"

definition TxOutCompr_GetSerializeSize :: "(CPubKey \<Rightarrow> bool) \<Rightarrow> CTxOut \<Rightarrow> nat" where
  "TxOutCompr_GetSerializeSize fv out =
     GetSizeOfVarInt (int (CompressAmount (to_u 64 (nValue out)))) +
     script_compr_GetSerializeSize fv (scriptPubKey out)"

definition undo_GetSerializeSize :: "(CPubKey \<Rightarrow> bool) \<Rightarrow> CTxInUndo \<Rightarrow> nat" where
  "undo_GetSerializeSize fv u =
     (GetSizeOfVarInt (int (undo_nCode u)) +
      (if u_nHeight u > 0 then GetSizeOfVarInt (u_nVersion u) else 0) +
      TxOutCompr_GetSerializeSize fv (u_txout u)) mod 2 ^ 32"

definition undo_Serialize :: "(CPubKey \<Rightarrow> bool) \<Rightarrow> CTxInUndo \<Rightarrow> bytes" where
  "undo_Serialize fv u =
     WriteVarInt (int (undo_nCode u)) @
     (if u_nHeight u > 0 then WriteVarInt (u_nVersion u) else []) @
     TxOutCompr_Serialize fv (u_txout u)"

text \<open>Reading into an object: its version stays where the stream has none.\<close>

definition undo_Unserialize :: "(CPubKey \<Rightarrow> CPubKey option) \<Rightarrow> CTxInUndo \<Rightarrow> CTxInUndo reader" where
  "undo_Unserialize dec u0 bs =
     bindE (ReadVarInt (u_conv 32) bs) (\<lambda>(nCode, r1).
     bindE (if drop_bit 2 (nat nCode) > 0 then ReadVarInt (wrap_s 32) r1 else Inr (u_nVersion u0, r1)) (\<lambda>(ver, r2).
     bindE (TxOutCompr_Unserialize dec (u_txout u0) r2) (\<lambda>(out, r3).
       Inr (\<lparr>u_txout = out, u_fCoinBase = (nCode AND 2 \<noteq> 0), u_fCoinStake = (nCode AND 1 \<noteq> 0),
             u_nHeight = drop_bit 2 (nat nCode), u_nVersion = ver\<rparr>, r3))))"

definition sizeof_CTxInUndo :: nat where "sizeof_CTxInUndo = 56"

definition txundo_Serialize :: "(CPubKey \<Rightarrow> bool) \<Rightarrow> CTxInUndo list \<Rightarrow> bytes" where
  "txundo_Serialize fv = Serialize_vec (undo_Serialize fv)"

definition txundo_Unserialize :: "(CPubKey \<Rightarrow> CPubKey option) \<Rightarrow> CTxInUndo list reader" where
  "txundo_Unserialize dec = Unserialize_vec sizeof_CTxInUndo (undo_Unserialize dec CTxInUndo_default)"

text \<open>\<open>None\<close> is the result false, which changes nothing.\<close>

definition Spend :: "CCoins \<Rightarrow> nat \<Rightarrow> (CCoins \<times> CTxInUndo) option" where
  "Spend c n =
     (if n \<ge> length (cvout c) then None
      else if TxOut_IsNull (cvout c ! n) then None
      else let undo = CTxInUndo_of (cvout c ! n);
               c' = Cleanup (c\<lparr>cvout := (cvout c)[n := TxOut_SetNull (cvout c ! n)]\<rparr>)
           in Some (c', if length (cvout c') = 0
                        then undo\<lparr>u_nHeight := to_u 32 (nHeight c'), u_fCoinBase := fCoinBase c',
                                  u_fCoinStake := fCoinStake c', u_nVersion := cVersion c'\<rparr>
                        else undo))"

subsection \<open>The mask of the unspent outputs\<close>

definition unspent :: "CTxOut list \<Rightarrow> nat \<Rightarrow> bool" where
  "unspent outs i \<longleftrightarrow> i < length outs \<and> \<not> TxOut_IsNull (outs ! i)"

function mask_size_loop :: "CTxOut list \<Rightarrow> nat \<Rightarrow> nat \<Rightarrow> nat \<Rightarrow> nat \<times> nat" where
  "mask_size_loop outs b nLastUsedByte nNonzeroBytes =
     (if 2 + b * 8 < length outs then
        (let fZero = \<not> list_ex (\<lambda>i. unspent outs (2 + b * 8 + i)) [0..<8]
         in if \<not> fZero then mask_size_loop outs (b + 1) (b + 1) (nNonzeroBytes + 1)
            else mask_size_loop outs (b + 1) nLastUsedByte nNonzeroBytes)
      else (nLastUsedByte, nNonzeroBytes))"
  by pat_completeness auto
termination
  by (relation "measure (\<lambda>(outs, b, l, n). length outs - b)") auto

declare mask_size_loop.simps [simp del]

definition CalcMaskSize :: "CTxOut list \<Rightarrow> nat \<times> nat" where
  "CalcMaskSize outs = mask_size_loop outs 0 0 0"

definition mask_byte :: "CTxOut list \<Rightarrow> nat \<Rightarrow> byte" where
  "mask_byte outs b =
     foldl (\<lambda>chAvail i. if unspent outs (2 + b * 8 + i) then chAvail OR push_bit i 1 else chAvail) 0 [0..<8]"

definition byte_bits :: "byte \<Rightarrow> bool list" where
  "byte_bits chAvail = map (\<lambda>p. chAvail AND push_bit p 1 \<noteq> 0) [0..<8]"

fun mask_read_loop :: "nat \<Rightarrow> bool list \<Rightarrow> bool list reader" where
  "mask_read_loop nMaskCode vAvail bs =
     (if nMaskCode > 0 then
        (case bs of
           [] \<Rightarrow> Inl EndOfData
         | chAvail # r \<Rightarrow>
             mask_read_loop (if chAvail \<noteq> 0 then nMaskCode - 1 else nMaskCode) (vAvail @ byte_bits chAvail) r)
      else Inr (vAvail, bs))"

declare mask_read_loop.simps [simp del]

subsection \<open>Serialization\<close>

definition mask_nCode :: "nat \<Rightarrow> CCoins \<Rightarrow> nat" where
  "mask_nCode unit c =
     (let (nMaskSize, nMaskCode) = CalcMaskSize (cvout c);
          fFirst = unspent (cvout c) 0;
          fSecond = unspent (cvout c) 1
      in (unit * (nMaskCode - (if fFirst \<or> fSecond then 0 else 1)) +
          (if fCoinBase c then 1 else 0) + (if fCoinStake c then 2 else 0) +
          (if fFirst then 4 else 0) + (if fSecond then 8 else 0)) mod 2 ^ 32)"

text \<open>\<open>None\<close> is the failed assertion that some output is unspent.\<close>

definition coins_Serialize :: "(CPubKey \<Rightarrow> bool) \<Rightarrow> CCoins \<Rightarrow> bytes option" where
  "coins_Serialize fv c =
     (let (nMaskSize, nMaskCode) = CalcMaskSize (cvout c)
      in if \<not> (unspent (cvout c) 0 \<or> unspent (cvout c) 1 \<or> nMaskCode \<noteq> 0) then None
         else Some
           (WriteVarInt (cVersion c) @
            WriteVarInt (int (mask_nCode 16 c)) @
            map (mask_byte (cvout c)) [0..<nMaskSize] @
            concat (map (\<lambda>i. if unspent (cvout c) i then TxOutCompr_Serialize fv (cvout c ! i) else [])
                     [0..<length (cvout c)]) @
            WriteVarInt (nHeight c)))"

definition coins_GetSerializeSize :: "(CPubKey \<Rightarrow> bool) \<Rightarrow> CCoins \<Rightarrow> nat option" where
  "coins_GetSerializeSize fv c =
     (let (nMaskSize, nMaskCode) = CalcMaskSize (cvout c)
      in if \<not> (unspent (cvout c) 0 \<or> unspent (cvout c) 1 \<or> nMaskCode \<noteq> 0) then None
         else Some
           ((GetSizeOfVarInt (cVersion c) +
             GetSizeOfVarInt (int (mask_nCode 8 c)) +
             nMaskSize +
             sum_list (map (\<lambda>i. if unspent (cvout c) i then TxOutCompr_GetSerializeSize fv (cvout c ! i) else 0)
                        [0..<length (cvout c)]) +
             GetSizeOfVarInt (nHeight c)) mod 2 ^ 32))"

fun read_outs :: "(CPubKey \<Rightarrow> CPubKey option) \<Rightarrow> bool list \<Rightarrow> CTxOut list reader" where
  "read_outs dec [] bs = Inr ([], bs)"
| "read_outs dec (avail # vAvail) bs =
     bindE (if avail then TxOutCompr_Unserialize dec CTxOut_default bs else Inr (CTxOut_default, bs)) (\<lambda>(out, r).
     bindE (read_outs dec vAvail r) (\<lambda>(outs, r'). Inr (out # outs, r')))"

definition coins_Unserialize :: "(CPubKey \<Rightarrow> CPubKey option) \<Rightarrow> CCoins reader" where
  "coins_Unserialize dec bs =
     bindE (ReadVarInt (wrap_s 32) bs) (\<lambda>(ver, r1).
     bindE (ReadVarInt (u_conv 32) r1) (\<lambda>(nCode, r2).
     let cb = (nCode AND 1 \<noteq> 0);
         cs = (nCode AND 2 \<noteq> 0);
         vAvail = [nCode AND 4 \<noteq> 0, nCode AND 8 \<noteq> 0];
         nMaskCode = nat nCode div 16 + (if nCode AND 12 \<noteq> 0 then 0 else 1)
     in bindE (mask_read_loop nMaskCode vAvail r2) (\<lambda>(vAvail', r3).
     bindE (read_outs dec vAvail' r3) (\<lambda>(outs, r4).
     bindE (ReadVarInt (wrap_s 32) r4) (\<lambda>(h, r5).
       Inr (Cleanup \<lparr>fCoinBase = cb, fCoinStake = cs, cvout = outs, nHeight = h, cVersion = ver\<rparr>, r5))))))"

subsection \<open>Restoring a spent output (DisconnectBlock)\<close>

text \<open>
  What \<open>DisconnectBlock\<close> does to the coins of a spent output before the modifier's destructor
  cleans them up: the coins, and whether the undo data was consistent (\<open>fClean\<close>). \<open>n + 1\<close> is an
  \<open>unsigned int\<close>; \<open>None\<close> is the write outside of \<open>vout\<close> when it wraps.
\<close>

definition restore_input :: "CTxInUndo \<Rightarrow> nat \<Rightarrow> CCoins \<Rightarrow> (CCoins \<times> bool) option" where
  "restore_input undo n coins0 =
     (let (coins, clean) =
            (if u_nHeight undo \<noteq> 0 then
               ((coins_Clear coins0)\<lparr>fCoinBase := u_fCoinBase undo, nHeight := wrap_s 32 (int (u_nHeight undo)),
                  cVersion := u_nVersion undo\<rparr>, IsPruned coins0)
             else (coins0, \<not> IsPruned coins0));
          clean' = (clean \<and> \<not> IsAvailable coins n);
          n1 = (n + 1) mod 2 ^ 32;
          outs = (if length (cvout coins) < n1 then resize (cvout coins) n1 CTxOut_default else cvout coins)
      in if n < length outs then Some (coins\<lparr>cvout := outs[n := u_txout undo]\<rparr>, clean') else None)"

subsection \<open>Cleaning up\<close>

lemma pop_null_Nil_iff: "pop_null outs = [] \<longleftrightarrow> list_all TxOut_IsNull outs"
  by (induction outs) (auto simp: Let_def)

lemma pop_null_decomp:
  "\<exists>k. outs = pop_null outs @ k \<and> list_all TxOut_IsNull k"
proof (induction outs)
  case (Cons out outs)
  then obtain k where k: "outs = pop_null outs @ k" "list_all TxOut_IsNull k" by blast
  show ?case
  proof (cases "pop_null outs = [] \<and> TxOut_IsNull out")
    case True
    then show ?thesis using k by (intro exI [of _ "out # outs"]) (auto simp: Let_def)
  next
    case False
    then show ?thesis using k by (intro exI [of _ k]) (auto simp: Let_def)
  qed
qed simp

lemma pop_null_append_null: "list_all TxOut_IsNull k \<Longrightarrow> pop_null (outs @ k) = pop_null outs"
  by (induction outs) (auto simp: Let_def pop_null_Nil_iff)

lemma pop_null_idem [simp]: "pop_null (pop_null outs) = pop_null outs"
  by (induction outs) (auto simp: Let_def)

lemma pop_null_id_iff: "pop_null outs = outs \<longleftrightarrow> outs = [] \<or> \<not> TxOut_IsNull (last outs)"
proof (induction outs)
  case (Cons out outs)
  then show ?case by (cases "outs = []") (auto simp: Let_def)
qed simp

lemma Cleanup_idem [simp]: "Cleanup (Cleanup c) = Cleanup c"
  by (simp add: Cleanup_def)

lemma unspent_pop_null [simp]: "unspent (pop_null outs) i = unspent outs i"
proof -
  obtain k where k: "outs = pop_null outs @ k" "list_all TxOut_IsNull k" using pop_null_decomp by blast
  have "unspent (pop_null outs @ k) i = unspent (pop_null outs) i"
    using k(2) by (auto simp: unspent_def nth_append list_all_length)
  then show ?thesis using k(1) by simp
qed

lemma IsPruned_unspent: "IsPruned c \<longleftrightarrow> (\<forall>i. \<not> unspent (cvout c) i)"
  by (auto simp: IsPruned_def unspent_def list_all_length)

lemma IsPruned_Cleanup [simp]: "IsPruned (Cleanup c) = IsPruned c"
  by (simp add: IsPruned_unspent Cleanup_def)

text \<open>Cleaned-up coins are pruned exactly when they hold no output at all.\<close>

lemma IsPruned_clean: "Cleanup c = c \<Longrightarrow> IsPruned c \<longleftrightarrow> cvout c = []"
  by (cases c) (metis CCoins.select_convs(3) CCoins.update_convs(3) Cleanup_def IsPruned_def list.pred_inject(1) pop_null_Nil_iff)

lemma cvout_Cleanup [simp]: "cvout (Cleanup c) = pop_null (cvout c)"
  by (simp add: Cleanup_def)

subsection \<open>The mask\<close>

lemma bit_foldl_or:
  "bit (foldl (\<lambda>ch i. if P i then ch OR push_bit i 1 else ch) (c0 :: byte) xs) p \<longleftrightarrow>
   bit c0 p \<or> (p < 8 \<and> p \<in> set xs \<and> P p)"
  by (induction xs arbitrary: c0) (auto simp: bit_simps)

lemma byte_and_bit: "(b :: byte) AND push_bit p 1 \<noteq> 0 \<longleftrightarrow> bit b p"
  using and_exp_eq_0_iff_not_bit [of b p] by (simp add: push_bit_of_1)

lemma byte_bits_mask: "byte_bits (mask_byte outs b) = map (\<lambda>i. unspent outs (2 + b * 8 + i)) [0..<8]"
  unfolding byte_bits_def mask_byte_def byte_and_bit bit_foldl_or by (rule map_cong) auto

definition mask_used :: "CTxOut list \<Rightarrow> nat \<Rightarrow> bool" where
  "mask_used outs b \<longleftrightarrow> (\<exists>i<8. unspent outs (2 + b * 8 + i))"

lemma mask_byte_zero: "mask_byte outs b \<noteq> 0 \<longleftrightarrow> mask_used outs b"
proof -
  have "mask_byte outs b = 0 \<longleftrightarrow> (\<forall>p<8. \<not> bit (mask_byte outs b) p)"
    by (auto intro: bit_word_eqI)
  then show ?thesis by (auto simp: mask_byte_def bit_foldl_or mask_used_def)
qed

lemma mask_used_less: "mask_used outs b \<Longrightarrow> 2 + b * 8 < length outs"
  by (auto simp: mask_used_def unspent_def)

lemma mask_size_loop_spec:
  assumes "mask_size_loop outs b l n = (l', n')" "l \<le> b"
    and "n = length (filter (mask_used outs) [0..<l])" "l = 0 \<or> mask_used outs (l - 1)"
    and "\<forall>j. l \<le> j \<longrightarrow> j < b \<longrightarrow> \<not> mask_used outs j"
  shows "n' = length (filter (mask_used outs) [0..<l']) \<and> (l' = 0 \<or> mask_used outs (l' - 1)) \<and>
    (\<forall>j\<ge>l'. \<not> mask_used outs j)"
  using assms
proof (induction outs b l n rule: mask_size_loop.induct)
  case (1 outs b l n)
  have ex: "list_ex (\<lambda>i. unspent outs (2 + b * 8 + i)) [0..<8] = mask_used outs b"
    by (auto simp: mask_used_def list_ex_iff)
  consider (stop) "\<not> 2 + b * 8 < length outs" | (used) "2 + b * 8 < length outs" "mask_used outs b"
    | (free) "2 + b * 8 < length outs" "\<not> mask_used outs b" by blast
  then show ?case
  proof cases
    case stop
    have "\<not> mask_used outs j" if "l \<le> j" for j
      using that 1(7) mask_used_less [of outs j] stop by (cases "j < b") auto
    then show ?thesis using 1(3-6) stop by (subst (asm) mask_size_loop.simps) auto
  next
    case used
    have z: "filter (mask_used outs) [l..<b] = []" using 1(7) by (auto simp: filter_empty_conv)
    have "[0..<b + 1] = [0..<l] @ [l..<b] @ [b]" using 1(4) upt_add_eq_append [of 0 l "b - l"] by simp
    then have c: "length (filter (mask_used outs) [0..<b + 1]) = n + 1" using used z 1(5) by (simp only: filter_append) simp
    have m: "mask_size_loop outs (b + 1) (b + 1) (n + 1) = (l', n')"
      using 1(3) used ex by (subst (asm) mask_size_loop.simps) simp
    have "\<not> \<not> list_ex (\<lambda>i. unspent outs (2 + b * 8 + i)) [0..<8]" using used ex by simp
    from 1(1) [OF used(1) refl, OF _ m] this c used show ?thesis by simp
  next
    case free
    have m: "mask_size_loop outs (b + 1) l n = (l', n')"
      using 1(3) free ex by (subst (asm) mask_size_loop.simps) simp
    have z: "\<forall>j. l \<le> j \<longrightarrow> j < b + 1 \<longrightarrow> \<not> mask_used outs j" using 1(7) free by (auto simp: less_Suc_eq)
    have nz: "\<not> \<not> \<not> list_ex (\<lambda>i. unspent outs (2 + b * 8 + i)) [0..<8]" using free ex by simp
    show ?thesis by (rule 1(2) [OF free(1) refl nz m _ 1(5,6) z]) (use 1(4) in simp)
  qed
qed

lemma CalcMaskSize_spec:
  assumes "CalcMaskSize outs = (l, n)"
  defines "ms \<equiv> map (mask_byte outs) [0..<l]"
  shows "n = length (filter (\<lambda>m. m \<noteq> 0) ms)" "ms = [] \<or> last ms \<noteq> 0"
    "concat (map byte_bits ms) = map (unspent outs) [2..<2 + 8 * l]"
    "\<And>i. 2 + 8 * l \<le> i \<Longrightarrow> \<not> unspent outs i"
proof -
  have s: "n = length (filter (mask_used outs) [0..<l])" "l = 0 \<or> mask_used outs (l - 1)"
    "\<forall>j\<ge>l. \<not> mask_used outs j"
    using mask_size_loop_spec [of outs 0 0 0 l n] assms(1) by (simp_all add: CalcMaskSize_def)
  show "n = length (filter (\<lambda>m. m \<noteq> 0) ms)"
    by (simp add: s(1) ms_def filter_map o_def mask_byte_zero)
  show "ms = [] \<or> last ms \<noteq> 0" using s(2) by (cases l) (auto simp: ms_def mask_byte_zero)
  have "concat (map byte_bits (map (mask_byte outs) [0..<k])) = map (unspent outs) [2..<2 + 8 * k]" for k
  proof (induction k)
    case (Suc k)
    have "[2..<2 + 8 * Suc k] = [2..<2 + 8 * k] @ [2 + 8 * k..<2 + 8 * k + 8]"
      using upt_add_eq_append [of 2 "2 + 8 * k" 8] by simp
    moreover have "[2 + 8 * k..<2 + 8 * k + 8] = map (\<lambda>i. 2 + k * 8 + i) [0..<8]"
      using map_add_upt [of "2 + 8 * k" 8] by (simp add: mult.commute add.commute)
    ultimately show ?case using Suc by (simp add: byte_bits_mask o_def)
  qed simp
  then show "concat (map byte_bits ms) = map (unspent outs) [2..<2 + 8 * l]" by (simp only: ms_def)
  show "\<not> unspent outs i" if "2 + 8 * l \<le> i" for i
  proof -
    have "\<not> mask_used outs ((i - 2) div 8)" using s(3) that by simp
    moreover have "i = 2 + (i - 2) div 8 * 8 + (i - 2) mod 8" using that by simp
    ultimately show ?thesis unfolding mask_used_def by (metis mod_less_divisor zero_less_numeral)
  qed
qed

lemma mask_read_loop_bytes:
  "ms = [] \<or> last ms \<noteq> 0 \<Longrightarrow>
   mask_read_loop (length (filter (\<lambda>m. m \<noteq> 0) ms)) av (ms @ r) = Inr (av @ concat (map byte_bits ms), r)"
proof (induction ms arbitrary: av)
  case Nil
  show ?case by (subst mask_read_loop.simps) simp
next
  case (Cons m ms)
  have "0 < length (filter (\<lambda>m. m \<noteq> 0) (m # ms))"
    using Cons.prems last_in_set [of "m # ms"] by (auto simp: filter_empty_conv simp del: last_in_set)
  moreover have "ms = [] \<or> last ms \<noteq> 0" using Cons.prems by (cases ms) auto
  ultimately show ?case using Cons.IH by (subst mask_read_loop.simps) simp
qed

subsection \<open>Round trip of the coins\<close>

lemma and_pow_iff: "(x :: int) AND 2 ^ k \<noteq> 0 \<longleftrightarrow> odd (x div 2 ^ k)"
  by (simp add: and_exp_eq_0_iff_not_bit bit_iff_odd)

lemma nCode_bits:
  fixes m :: nat and a b c d :: bool
  defines "x \<equiv> int (16 * m + (if a then 1 else 0) + (if b then 2 else 0) + (if c then 4 else 0) + (if d then 8 else 0))"
  shows "x AND 1 \<noteq> 0 \<longleftrightarrow> a" "x AND 2 \<noteq> 0 \<longleftrightarrow> b" "x AND 4 \<noteq> 0 \<longleftrightarrow> c" "x AND 8 \<noteq> 0 \<longleftrightarrow> d"
    "x AND 12 \<noteq> 0 \<longleftrightarrow> c \<or> d" "nat x div 16 = m"
proof -
  show "x AND 1 \<noteq> 0 \<longleftrightarrow> a"
    unfolding x_def using and_pow_iff [of x 0] by (cases a; cases b; cases c; cases d) (simp_all add: x_def)
  show "x AND 2 \<noteq> 0 \<longleftrightarrow> b"
    unfolding x_def using and_pow_iff [of x 1] by (cases a; cases b; cases c; cases d) (simp_all add: x_def, presburger+)
  show c: "x AND 4 \<noteq> 0 \<longleftrightarrow> c"
    using and_pow_iff [of x 2] by (cases a; cases b; cases c; cases d) (simp_all add: x_def, presburger+)
  show d: "x AND 8 \<noteq> 0 \<longleftrightarrow> d"
    using and_pow_iff [of x 3] by (cases a; cases b; cases c; cases d) (simp_all add: x_def, presburger+)
  have "x AND 12 = (x AND 4) OR (x AND 8)"
    using bit.conj_disj_distrib [of x 4 8] by simp
  then show "x AND 12 \<noteq> 0 \<longleftrightarrow> c \<or> d" using c d or_eq_0_iff [of "x AND 4" "x AND 8"] by metis
  show "nat x div 16 = m" unfolding x_def nat_int by (cases a; cases b; cases c; cases d) simp_all
qed

definition TxOut_storable :: "CTxOut \<Rightarrow> bool" where
  "TxOut_storable out \<longleftrightarrow> length (scriptPubKey out) + 6 < 2 ^ 32 \<and> 0 \<le> nValue out \<and>
     nValue out < 2000000000000000000 \<and> nRounds out = - 10"

definition coins_wf :: "CCoins \<Rightarrow> bool" where
  "coins_wf c \<longleftrightarrow> Cleanup c = c \<and>
     list_all (\<lambda>out. out = CTxOut_default \<or> TxOut_storable out) (cvout c) \<and>
     length (cvout c) \<le> 2 ^ 30 \<and> 0 \<le> nHeight c \<and> nHeight c < 2 ^ 31 \<and> - (2 ^ 31) \<le> cVersion c \<and> cVersion c < 2 ^ 31"

text \<open>What is left of the coins in their record: a variable-length integer does not carry a sign.\<close>

definition stored_version :: "int \<Rightarrow> int" where
  "stored_version n = (if n < 0 then n mod 128 else n)"

definition stored :: "CCoins \<Rightarrow> CCoins" where
  "stored c = c\<lparr>cVersion := stored_version (cVersion c)\<rparr>"

lemma stored_nonneg: "0 \<le> cVersion c \<Longrightarrow> stored c = c"
  by (simp add: stored_def stored_version_def)

lemma IsPruned_stored [simp]: "IsPruned (stored c) = IsPruned c"
  by (simp add: stored_def IsPruned_def)

lemma ReadVarInt_nonneg:
  "0 \<le> n \<Longrightarrow> n < 2 ^ 31 \<Longrightarrow> ReadVarInt (wrap_s 32) (WriteVarInt n @ r) = Inr (n, r)"
  "0 \<le> n \<Longrightarrow> n < 2 ^ 32 \<Longrightarrow> ReadVarInt (u_conv 32) (WriteVarInt n @ r) = Inr (n, r)"
  by (intro ReadVarInt_WriteVarInt; auto simp: u_conv_def mod_pos_pos_trivial wrap_s_id in_s_def)+

lemma ReadVarInt_version:
  assumes "- (2 ^ 31) \<le> n" "n < 2 ^ 31"
  shows "ReadVarInt (wrap_s 32) (WriteVarInt n @ r) = Inr (stored_version n, r)"
proof (cases "n < 0")
  case True
  have m: "n AND 127 = n mod 128" using take_bit_eq_mask [of 7 n] by (simp add: take_bit_eq_mod mask_eq_exp_minus_1)
  have b: "0 \<le> n mod 128" "n mod 128 < 128" by simp_all
  define k where "k = n mod 128"
  have u: "uint (word_of_int k :: byte) = k" using b by (simp add: k_def uint_word_of_int mod_pos_pos_trivial)
  have k7: "k AND 127 = k" using take_bit_eq_mask [of 7 k] b by (simp add: take_bit_eq_mod mask_eq_exp_minus_1 k_def)
  have hi: "(word_of_int k :: byte) AND 0x7F = word_of_int k"
  proof -
    have "uint ((word_of_int k :: byte) AND 0x7F) = k AND 127" by (simp only: uint_and u) simp
    then show ?thesis using u k7 by (metis word_uint_eqI)
  qed
  have lo: "(word_of_int k :: byte) AND 0x80 = 0"
  proof -
    have "(word_of_int k :: byte) AND 0x80 = (word_of_int k AND 0x7F) AND 0x80" by (simp only: hi)
    also have "\<dots> = word_of_int k AND (0x7F AND 0x80)" by (simp only: and.assoc)
    finally show ?thesis by simp
  qed
  have "WriteVarInt n = [word_of_int k]"
    unfolding WriteVarInt_def using True by (subst varint_tmp.simps) (simp add: m k_def)
  moreover have "- 2147483648 \<le> k" "k < 2147483648" using b unfolding k_def by linarith+
  then have "wrap_s 32 k = k" by (simp add: wrap_s_id in_s_def)
  ultimately show ?thesis using True by (simp add: ReadVarInt_def Let_def hi lo u stored_version_def) (simp add: k_def)
qed (use assms ReadVarInt_nonneg(1) in \<open>simp add: stored_version_def\<close>)

lemma TxOut_storable_read:
  "decompresses fv dec \<Longrightarrow> TxOut_storable out \<Longrightarrow>
   TxOutCompr_Unserialize dec CTxOut_default (TxOutCompr_Serialize fv out @ r) = Inr (out, r)"
  by (rule TxOutCompr_reread) (auto simp: TxOut_storable_def CTxOut_default_def)

lemma read_outs_written:
  assumes "decompresses fv dec" "list_all (\<lambda>out. out = CTxOut_default \<or> TxOut_storable out) outs"
  shows "read_outs dec (map (unspent outs) is) (concat (map (\<lambda>i. if unspent outs i
    then TxOutCompr_Serialize fv (outs ! i) else []) is) @ r) =
    Inr (map (\<lambda>i. if unspent outs i then outs ! i else CTxOut_default) is, r)"
proof (induction "is")
  case (Cons i "is")
  have "TxOut_storable (outs ! i)" if "unspent outs i"
    using that assms(2) by (auto simp: unspent_def list_all_length TxOut_IsNull_def CTxOut_default_def)
  then show ?case using Cons TxOut_storable_read [OF assms(1)] by simp
qed simp

lemma rebuilt_outs:
  assumes "list_all (\<lambda>out. out = CTxOut_default \<or> TxOut_storable out) outs" "pop_null outs = outs"
    and "\<And>i. n \<le> i \<Longrightarrow> \<not> unspent outs i"
  shows "pop_null (map (\<lambda>i. if unspent outs i then outs ! i else CTxOut_default) [0..<n]) = outs"
proof -
  have len: "length outs \<le> n"
  proof (rule ccontr)
    assume "\<not> length outs \<le> n"
    then have "\<not> TxOut_IsNull (last outs)" "outs \<noteq> []" "n \<le> length outs - 1" using assms(2) pop_null_id_iff [of outs] by auto
    then show False using assms(3) [of "length outs - 1"] by (simp add: unspent_def last_conv_nth)
  qed
  then obtain k where n: "n = length outs + k" using le_Suc_ex by blast
  have "map (\<lambda>i. if unspent outs i then outs ! i else CTxOut_default) [0..<length outs] = outs"
    using assms(1) by (intro nth_equalityI) (auto simp: unspent_def list_all_length TxOut_storable_def TxOut_IsNull_def)
  moreover have "map (\<lambda>i. if unspent outs i then outs ! i else CTxOut_default) [length outs..<n] = replicate k CTxOut_default"
    by (intro nth_equalityI) (auto simp: n unspent_def)
  moreover have "[0..<n] = [0..<length outs] @ [length outs..<n]" using len upt_add_eq_append [of 0 "length outs" k] n by simp
  ultimately show ?thesis using assms(2)
    by (simp add: pop_null_append_null list_all_iff CTxOut_default_def TxOut_IsNull_def)
qed

lemma CalcMaskSize_bound: "CalcMaskSize outs = (l, n) \<Longrightarrow> n \<le> l \<and> (l = 0 \<or> 2 + 8 * (l - 1) < length outs)"
proof -
  assume m: "CalcMaskSize outs = (l, n)"
  have "length (filter P xs) \<le> length xs" for P :: "byte \<Rightarrow> bool" and xs by simp
  then have "n \<le> l" using CalcMaskSize_spec(1) [OF m] by (metis diff_zero length_map length_upt)
  moreover have "mask_used outs (l - 1)" if "l \<noteq> 0"
    using CalcMaskSize_spec(2) [OF m] that by (cases l) (auto simp: mask_byte_zero)
  ultimately show ?thesis using mask_used_less [of outs "l - 1"] by (auto simp: mult.commute)
qed

lemma concat_map_beyond:
  assumes "n \<le> m" "\<And>i. n \<le> i \<Longrightarrow> f i = []"
  shows "concat (map f [0..<n]) = concat (map f [0..<m])"
proof -
  obtain d where "m = n + d" using assms(1) le_Suc_ex by blast
  then have "[0..<m] = [0..<n] @ [n..<m]" using upt_add_eq_append [of 0 n d] by simp
  moreover have "concat (map f [n..<m]) = []" using assms(2) by simp
  ultimately show ?thesis by (simp only: map_append concat_append append_Nil2)
qed

text \<open>Coins with an unspent output pass the assertion of \<open>Serialize\<close>.\<close>

lemma CalcMaskSize_unspent:
  assumes "CalcMaskSize (cvout c) = (l, n)" "\<not> IsPruned c"
  shows "unspent (cvout c) 0 \<or> unspent (cvout c) 1 \<or> n \<noteq> 0"
proof (rule ccontr)
  note spec = CalcMaskSize_spec [OF assms(1)]
  assume a: "\<not> (unspent (cvout c) 0 \<or> unspent (cvout c) 1 \<or> n \<noteq> 0)"
  then have "l = 0" using spec(1,2) by (cases l) (auto simp: filter_empty_conv)
  then have "\<not> unspent (cvout c) i" for i using a spec(4) [of i] by (cases i; cases "i - 1") auto
  then show False using assms(2) by (simp add: IsPruned_unspent)
qed

lemma coins_Serialize_unpruned: "\<not> IsPruned c \<Longrightarrow> \<exists>b. coins_Serialize fv c = Some b"
  using CalcMaskSize_unspent [of c] by (cases "CalcMaskSize (cvout c)") (simp add: coins_Serialize_def)

lemma coins_roundtrip_stored:
  assumes "decompresses fv dec" "coins_wf c" "\<not> IsPruned c"
  shows "\<exists>b. coins_Serialize fv c = Some b \<and> coins_Unserialize dec (b @ r) = Inr (stored c, r) \<and>
    (stored c = c \<longleftrightarrow> 0 \<le> cVersion c)"
proof -
  let ?o = "cvout c" and ?f = "unspent (cvout c) 0" and ?s = "unspent (cvout c) 1"
  obtain l n where m: "CalcMaskSize ?o = (l, n)" by (cases "CalcMaskSize ?o")
  note spec = CalcMaskSize_spec [OF m]
  have mr: "mask_read_loop n av (map (mask_byte ?o) [0..<l] @ t) = Inr (av @ map (unspent ?o) [2..<2 + 8 * l], t)" for av t
    using mask_read_loop_bytes [OF spec(2)] by (simp only: spec(1) [symmetric] spec(3))
  have some: "?f \<or> ?s \<or> n \<noteq> 0" using CalcMaskSize_unspent [OF m assms(3)] .
  define k where "k = n - (if ?f \<or> ?s then 0 else 1)"
  have k: "k + (if ?f \<or> ?s then 0 else 1) = n" using some by (auto simp: k_def)
  let ?code = "16 * k + (if fCoinBase c then 1 else 0) + (if fCoinStake c then 2 else 0) + (if ?f then 4 else 0) + (if ?s then 8 else 0)"
  have "n \<le> 2 ^ 27" using CalcMaskSize_bound [OF m] assms(2) by (auto simp: coins_wf_def)
  then have lt: "?code < 2 ^ 32" using k by (auto split: if_splits)
  have code: "mask_nCode 16 c = ?code" using lt by (simp add: mask_nCode_def m k_def)
  have avs: "[?f, ?s] @ map (unspent ?o) [2..<2 + 8 * l] = map (unspent ?o) [0..<2 + 8 * l]"
    using upt_add_eq_append [of 0 2 "8 * l"] by (simp add: upt_rec [of 0 2] upt_rec [of 1 2] numeral_2_eq_2)
  have nulls: "(if unspent ?o i then TxOutCompr_Serialize fv (?o ! i) else []) = []" if "length ?o \<le> i" for i
    using that by (simp add: unspent_def)
  let ?body = "\<lambda>is. concat (map (\<lambda>i. if unspent ?o i then TxOutCompr_Serialize fv (?o ! i) else []) is)"
  have "?body [0..<length ?o] = ?body [0..<length ?o + (2 + 8 * l)]"
    by (rule concat_map_beyond) (simp_all add: unspent_def)
  also have "\<dots> = ?body [0..<2 + 8 * l]"
    using spec(4) by (intro concat_map_beyond [symmetric]) simp_all
  finally have body: "?body [0..<length ?o] = ?body [0..<2 + 8 * l]" .
  have wf: "pop_null ?o = ?o" "list_all (\<lambda>out. out = CTxOut_default \<or> TxOut_storable out) ?o"
    "0 \<le> nHeight c" "nHeight c < 2 ^ 31" "- (2 ^ 31) \<le> cVersion c" "cVersion c < 2 ^ 31"
    using assms(2) by (auto simp: coins_wf_def dest: arg_cong [of _ _ cvout])
  have rd: "ReadVarInt (u_conv 32) (WriteVarInt (int ?code) @ t) = Inr (int ?code, t)" for t
    using lt by (intro ReadVarInt_nonneg(2)) auto
  note bits = nCode_bits [of k "fCoinBase c" "fCoinStake c" ?f ?s]
  let ?b = "WriteVarInt (cVersion c) @ WriteVarInt (int ?code) @ map (mask_byte ?o) [0..<l] @ ?body [0..<2 + 8 * l] @ WriteVarInt (nHeight c)"
  have "coins_Serialize fv c = Some ?b" 
    unfolding coins_Serialize_def m code body Let_def prod.case using some by (simp only: simp_thms if_False)
  moreover have "coins_Unserialize dec (?b @ r) = Inr (stored c, r)"
    unfolding coins_Unserialize_def append_assoc ReadVarInt_version [OF wf(5,6)] bindE_simps prod.case rd bits Let_def k
      mr avs read_outs_written [OF assms(1) wf(2)] ReadVarInt_nonneg(1) [OF wf(3,4)]
    using rebuilt_outs [OF wf(2,1), of "2 + 8 * l"] spec(4) by (simp add: Cleanup_def stored_def)
  moreover have "stored c = c \<longleftrightarrow> 0 \<le> cVersion c"
    using stored_nonneg [of c] by (cases c) (auto simp: stored_def stored_version_def)
  ultimately show ?thesis by blast
qed

definition sample_coins :: CCoins where
  "sample_coins = \<lparr>fCoinBase = True, fCoinStake = False, cvout = [CTxOut_default, mk_CTxOut 5 [1], CTxOut_default, mk_CTxOut 7 []],
     nHeight = 9, cVersion = 1\<rparr>"

lemma sample_coins_wf: "coins_wf sample_coins" "\<not> IsPruned sample_coins"
  by (simp_all add: sample_coins_def coins_wf_def Cleanup_def IsPruned_def Let_def mk_CTxOut_def
    CTxOut_default_def TxOut_IsNull_def TxOut_storable_def)

text \<open>
  C36: the coins of a transaction with some unspent output read back from the record that the coin
  database keeps of them: the flags in the code number, the bit mask with its number of
  non-zero bytes, the compressed unspent outputs, the height (non-negative) and the version. Coins are read back
  in \<open>stored\<close> form: the variable-length integers do not carry signs, and of a negative version
  only the low seven bits are kept, so the coins read back as they were exactly when the version is not negative.
\<close>

theorem coins_roundtrip:
  assumes "decompresses fv dec" "coins_wf c" "\<not> IsPruned c"
  shows "\<exists>b. coins_Serialize fv c = Some b \<and> coins_Unserialize dec (b @ r) = Inr (stored c, r) \<and>
    (stored c = c \<longleftrightarrow> 0 \<le> cVersion c)"
  using assms by (rule coins_roundtrip_stored)

text \<open>
  Coins of a transaction of version \<open>- 5\<close> that pay to a fully valid uncompressed key, which the record
  holds compressed, and a library that decompresses that key only.
\<close>

definition key_coins :: CCoins where
  "key_coins = \<lparr>fCoinBase = False, fCoinStake = True, cvout = [CTxOut_default, mk_CTxOut 1200 ([65] @ sample_key @ [OP_CHECKSIG])],
     nHeight = 9, cVersion = - 5\<rparr>"

definition sample_dec :: "CPubKey \<Rightarrow> CPubKey option" where
  "sample_dec k = (if k = pk_Set (0xFF # replicate 64 0) (key_compress sample_key) then Some sample_key else None)"

lemma sample_decompresses: "decompresses (\<lambda>k. k = sample_key) sample_dec"
  by (simp add: decompresses_def sample_dec_def)

lemma key_coins_wf: "coins_wf key_coins" "\<not> IsPruned key_coins"
  by (simp_all add: key_coins_def coins_wf_def Cleanup_def IsPruned_def Let_def mk_CTxOut_def
    CTxOut_default_def TxOut_IsNull_def TxOut_storable_def sample_key_def)

lemma coins_roundtrip_witness:
  "\<exists>b. coins_Serialize (\<lambda>k. k = sample_key) key_coins = Some b \<and>
    coins_Unserialize sample_dec (b @ [7]) = Inr (key_coins\<lparr>cVersion := 123\<rparr>, [7]) \<and> stored key_coins \<noteq> key_coins"
proof -
  have "stored key_coins = key_coins\<lparr>cVersion := 123\<rparr>" "\<not> 0 \<le> cVersion key_coins"
    by (simp_all add: stored_def stored_version_def key_coins_def)
  then show ?thesis using coins_roundtrip [OF sample_decompresses key_coins_wf, of "[7]"] by metis
qed

subsection \<open>Round trip of the undo data\<close>

definition undo_wf :: "CTxInUndo \<Rightarrow> bool" where
  "undo_wf u \<longleftrightarrow> TxOut_storable (u_txout u) \<and> u_nHeight u < 2 ^ 30 \<and> 0 \<le> u_nVersion u \<and> u_nVersion u < 2 ^ 31 \<and>
     (u_nHeight u = 0 \<longrightarrow> u_nVersion u = 0)"

lemma undo_code_bits:
  fixes h :: nat and a b :: bool
  defines "x \<equiv> int (h * 4 + (if a then 2 else 0) + (if b then 1 else 0))"
  shows "x AND 2 \<noteq> 0 \<longleftrightarrow> a" "x AND 1 \<noteq> 0 \<longleftrightarrow> b" "drop_bit 2 (nat x) = h"
proof -
  show "x AND 2 \<noteq> 0 \<longleftrightarrow> a"
    using and_pow_iff [of x 1] by (cases a; cases b) (simp_all add: x_def, presburger+)
  show "x AND 1 \<noteq> 0 \<longleftrightarrow> b"
    using and_pow_iff [of x 0] by (cases a; cases b) (simp_all add: x_def)
  show "drop_bit 2 (nat x) = h" unfolding x_def nat_int by (cases a; cases b) (simp_all add: drop_bit_eq_div, presburger?)
qed

lemma undo_read:
  assumes "decompresses fv dec" "undo_wf u"
  shows "undo_Unserialize dec CTxInUndo_default (undo_Serialize fv u @ r) = Inr (u, r)"
proof -
  let ?x = "u_nHeight u * 4 + (if u_fCoinBase u then 2 else 0) + (if u_fCoinStake u then 1 else 0)"
  have lt: "?x < 2 ^ 32" using assms(2) by (auto simp: undo_wf_def)
  then have code: "undo_nCode u = ?x" by (simp add: undo_nCode_def)
  have rd: "ReadVarInt (u_conv 32) (WriteVarInt (int ?x) @ t) = Inr (int ?x, t)" for t
    using lt by (intro ReadVarInt_nonneg(2)) auto
  have ver: "0 \<le> u_nVersion u" "u_nVersion u < 2 ^ 31" and out: "TxOut_storable (u_txout u)"
    using assms(2) by (auto simp: undo_wf_def)
  have d: "u_txout CTxInUndo_default = CTxOut_default" "u_nVersion CTxInUndo_default = 0"
    by (simp_all add: CTxInUndo_default_def)
  note bits = undo_code_bits [of "u_nHeight u" "u_fCoinBase u" "u_fCoinStake u"]
  show ?thesis
    unfolding undo_Serialize_def undo_Unserialize_def code append_assoc rd bindE_simps prod.case bits d
    using TxOut_storable_read [OF assms(1) out] ReadVarInt_nonneg(1) [OF ver] assms(2)
    by (cases "u_nHeight u = 0") (simp_all add: undo_wf_def)
qed

text \<open>
  The undo data of a transaction's inputs, as it is written to the undo files, reads back: for
  each input the spent output and, for the last output of a transaction, its height, version
  and whether it was a coinbase or a coinstake. Heights must fit 30 bits and versions be
  non-negative.
\<close>

theorem txundo_roundtrip:
  assumes "decompresses fv dec" "list_all undo_wf v" "length v \<le> MAX_SIZE"
  shows "txundo_Unserialize dec (txundo_Serialize fv v @ r) = Inr (v, r)"
proof -
  have "Unserialize_vec sizeof_CTxInUndo (undo_Unserialize dec CTxInUndo_default) (Serialize_vec (undo_Serialize fv) v @ r) = Inr (v, r)"
    using assms by (intro vec_codec.vec_roundtrip)
      (unfold_locales, auto simp: sizeof_CTxInUndo_def undo_read)
  then show ?thesis by (simp add: txundo_Unserialize_def txundo_Serialize_def)
qed

lemma txundo_roundtrip_witness:
  "txundo_Unserialize (\<lambda>_. None) (txundo_Serialize (\<lambda>_. False)
     [CTxInUndo_of (mk_CTxOut 5 [1]), (CTxInUndo_of (mk_CTxOut 7 []))\<lparr>u_nHeight := 8, u_nVersion := 1, u_fCoinStake := True\<rparr>] @ [3]) =
   Inr ([CTxInUndo_of (mk_CTxOut 5 [1]), (CTxInUndo_of (mk_CTxOut 7 []))\<lparr>u_nHeight := 8, u_nVersion := 1, u_fCoinStake := True\<rparr>], [3])"
  by (rule txundo_roundtrip)
    (simp_all add: decompresses_def undo_wf_def CTxInUndo_of_def CTxInUndo_default_def TxOut_storable_def mk_CTxOut_def MAX_SIZE_def)

subsection \<open>Spending and restoring\<close>

lemma TxOut_SetNull_default [simp]: "TxOut_SetNull out = CTxOut_default"
  by (simp add: TxOut_SetNull_def CTxOut_default_def)

lemma default_null [simp]: "TxOut_IsNull CTxOut_default"
  by (simp add: TxOut_IsNull_def CTxOut_default_def)

definition nulls_default :: "CTxOut list \<Rightarrow> bool" where
  "nulls_default outs \<longleftrightarrow> list_all (\<lambda>out. TxOut_IsNull out \<longrightarrow> out = CTxOut_default) outs"

lemma restored_outs:
  assumes "pop_null outs = outs" "nulls_default outs" "n < length outs"
  defines "p \<equiv> pop_null (outs[n := CTxOut_default])"
  defines "q \<equiv> (if length p < n + 1 then resize p (n + 1) CTxOut_default else p)"
  shows "n < length q \<and> pop_null (q[n := outs ! n]) = outs"
proof -
  obtain k where k: "outs[n := CTxOut_default] = p @ k" "list_all TxOut_IsNull k"
    using pop_null_decomp unfolding p_def by blast
  define m where "m = max (length p) (n + 1)"
  have len: "length p + length k = length outs" using arg_cong [OF k(1), of length] by simp
  have lq: "length q = m" by (auto simp: q_def m_def resize_def)
  have m: "m \<le> length outs" using len assms(3) by (auto simp: m_def)
  have kn: "outs[n := CTxOut_default] ! i = CTxOut_default" if "length p \<le> i" "i < length outs" for i
  proof -
    have "TxOut_IsNull (outs[n := CTxOut_default] ! i)"
      using k len that by (auto simp: nth_append list_all_length)
    then show ?thesis using assms(2) that by (cases "i = n") (auto simp: nulls_default_def list_all_length)
  qed
  have pn: "outs[n := CTxOut_default] ! i = p ! i" if "i < length p" for i
    using that k(1) by (simp add: nth_append)
  have "q[n := outs ! n] = take m outs"
  proof (rule nth_equalityI)
    show "length (q[n := outs ! n]) = length (take m outs)" using lq m by simp
    fix i assume "i < length (q[n := outs ! n])"
    then have i: "i < m" using lq by simp
    show "q[n := outs ! n] ! i = take m outs ! i"
    proof (cases "i = n")
      case False
      have "q ! i = outs[n := CTxOut_default] ! i"
      proof (cases "i < length p")
        case True
        then show ?thesis using pn by (auto simp: q_def resize_def nth_append)
      next
        case False
        then have "q ! i = CTxOut_default" using i by (auto simp: q_def resize_def nth_append m_def split: if_splits)
        then show ?thesis using kn [of i] False i m by simp
      qed
      then show ?thesis using False i by simp
    qed (use i lq in simp)
  qed
  moreover have "list_all TxOut_IsNull (drop m outs)"
  proof -
    have "TxOut_IsNull (outs ! i)" if "m \<le> i" "i < length outs" for i
      using kn [of i] that default_null by (simp add: m_def)
    then show ?thesis by (simp add: list_all_length)
  qed
  ultimately have "pop_null (q[n := outs ! n]) = pop_null outs"
    using pop_null_append_null [of "drop m outs" "take m outs"] by simp
  then show ?thesis using assms(1) lq by (simp add: m_def)
qed

lemma spend_restored:
  assumes "Cleanup c = c" "nulls_default (cvout c)" "length (cvout c) < 2 ^ 32" "0 < nHeight c" "nHeight c < 2 ^ 31"
    and "Spend c n = Some (c', undo)"
  shows "\<exists>d. restore_input undo n c' = Some (d, True) \<and>
    Cleanup d = c\<lparr>fCoinStake := fCoinStake c \<and> \<not> IsPruned c'\<rparr>"
proof -
  let ?o = "cvout c"
  let ?p = "pop_null (?o[n := CTxOut_default])"
  have n: "n < length ?o" "\<not> TxOut_IsNull (?o ! n)" using assms(6) by (auto simp: Spend_def split: if_splits)
  have c': "c' = c\<lparr>cvout := ?p\<rparr>" and
    u: "undo = (if ?p = [] then CTxInUndo_default\<lparr>u_txout := ?o ! n, u_nHeight := to_u 32 (nHeight c),
       u_fCoinBase := fCoinBase c, u_fCoinStake := fCoinStake c, u_nVersion := cVersion c\<rparr> else CTxInUndo_of (?o ! n))"
    using assms(6) n by (auto simp: Spend_def Let_def Cleanup_def CTxInUndo_of_def)
  have o: "pop_null ?o = ?o" using assms(1) by (metis cvout_Cleanup)
  note r = restored_outs [OF o assms(2) n(1)]
  have pr: "IsPruned c' \<longleftrightarrow> ?p = []"
    unfolding c' IsPruned_def by (simp flip: pop_null_Nil_iff)
  have h: "to_u 32 (nHeight c) \<noteq> 0" "wrap_s 32 (int (to_u 32 (nHeight c))) = nHeight c"
    using assms(4,5) wrap_s_to_u [of 32 "nHeight c"] by (simp_all add: to_u_def in_s_def)
  have n1: "(n + 1) mod 2 ^ 32 = n + 1" using n(1) assms(3) by simp
  have na: "\<not> IsAvailable c' n"
  proof -
    have "\<not> unspent ?p n" unfolding unspent_pop_null by (simp add: unspent_def)
    then show ?thesis by (auto simp: IsAvailable_def unspent_def c')
  qed
  show ?thesis
  proof (cases "?p = []")
    case True
    let ?d0 = "(coins_Clear c')\<lparr>fCoinBase := fCoinBase c, nHeight := nHeight c, cVersion := cVersion c\<rparr>"
    have uu: "u_nHeight undo \<noteq> 0" "wrap_s 32 (int (u_nHeight undo)) = nHeight c" "u_fCoinBase undo = fCoinBase c"
      "u_nVersion undo = cVersion c" "u_txout undo = ?o ! n"
      using True u h by simp_all
    have "restore_input undo n c' = Some (?d0\<lparr>cvout := (resize [] (n + 1) CTxOut_default)[n := ?o ! n]\<rparr>, True)"
      using uu pr True n1 by (simp add: restore_input_def Let_def coins_Clear_def IsAvailable_def resize_def)
    moreover have "Cleanup (?d0\<lparr>cvout := (resize [] (n + 1) CTxOut_default)[n := ?o ! n]\<rparr>) =
        c\<lparr>fCoinStake := fCoinStake c \<and> \<not> IsPruned c'\<rparr>"
      using r True pr by (simp add: Cleanup_def coins_Clear_def c')
    ultimately show ?thesis by blast
  next
    case False
    have uu: "u_nHeight undo = 0" "u_txout undo = ?o ! n"
      using False u by (simp_all add: CTxInUndo_of_def CTxInUndo_default_def)
    let ?q = "if length ?p < n + 1 then resize ?p (n + 1) CTxOut_default else ?p"
    have "restore_input undo n c' = Some (c'\<lparr>cvout := ?q[n := ?o ! n]\<rparr>, True)"
      unfolding restore_input_def Let_def n1 uu using r pr False na by (auto simp: c')
    moreover have "Cleanup (c'\<lparr>cvout := ?q[n := ?o ! n]\<rparr>) = c\<lparr>fCoinStake := fCoinStake c \<and> \<not> IsPruned c'\<rparr>"
      using r False pr by (simp add: Cleanup_def c')
    ultimately show ?thesis by blast
  qed
qed

text \<open>
  C37: restoring a spent output from its undo data undoes the spending: on consistent coins the code
  reports no inconsistency and, once cleaned up, the coins are what they were before, except for
  one field. When the output was the last one, \<open>fCoinStake\<close> is not restored, although the undo
  data holds it: the coins of a coinstake come back as those of an ordinary transaction.
\<close>

theorem spend_restore:
  assumes "Cleanup c = c" "nulls_default (cvout c)" "length (cvout c) < 2 ^ 32" "0 < nHeight c" "nHeight c < 2 ^ 31"
    and "Spend c n = Some (c', undo)"
  shows "\<exists>d. restore_input undo n c' = Some (d, True) \<and>
    Cleanup d = c\<lparr>fCoinStake := fCoinStake c \<and> \<not> IsPruned c'\<rparr>"
  using assms by (rule spend_restored)

lemma spend_restore_witness:
  "\<exists>d. restore_input ((CTxInUndo_of (mk_CTxOut 5 [1]))\<lparr>u_nHeight := 9, u_nVersion := 1, u_fCoinStake := True\<rparr>) 0
      \<lparr>fCoinBase = False, fCoinStake = True, cvout = [], nHeight = 9, cVersion = 1\<rparr> = Some (d, True) \<and>
    Cleanup d = \<lparr>fCoinBase = False, fCoinStake = False, cvout = [mk_CTxOut 5 [1]], nHeight = 9, cVersion = 1\<rparr>"
  using spend_restore [of "\<lparr>fCoinBase = False, fCoinStake = True, cvout = [mk_CTxOut 5 [1]], nHeight = 9, cVersion = 1\<rparr>" 0
      "\<lparr>fCoinBase = False, fCoinStake = True, cvout = [], nHeight = 9, cVersion = 1\<rparr>"
      "(CTxInUndo_of (mk_CTxOut 5 [1]))\<lparr>u_nHeight := 9, u_nVersion := 1, u_fCoinStake := True\<rparr>"]
  by (simp add: Cleanup_def Let_def TxOut_IsNull_def mk_CTxOut_def nulls_default_def Spend_def CTxInUndo_of_def
    CTxInUndo_default_def to_u_def IsPruned_def CTxOut_default_def)

end
