(* ===== verification/CoinsView.thy ===== *)
theory CoinsView
  imports Coins "HOL-Library.AList"
begin

section \<open>Coin views and their caches (coins.h, coins.cpp, txdb.cpp)\<close>

text \<open>
  A view of the unspent outputs is the database or a cache over another view. A cache fetches
  from its base on demand, marks what was changed (\<open>DIRTY\<close>) and what its base does not have
  (\<open>FRESH\<close>), and writes the changes to its base when it is flushed. The database is the
  key-value store of LevelDB, a map from keys to the bytes of the records; it is read by parsing a record and written by
  serializing the coins, and a record that does not parse counts as missing. A \<open>boost::unordered_map\<close> is an association list with
  distinct keys, in the order it is iterated. An operation that may fail an assertion returns
  \<open>None\<close> then. The lemmas show that a stack of caches behaves as one map from transactions to
  unspent outputs: reading changes nothing, modifying updates one entry, flushing moves the
  child's map to its base, as far as the database's records keep it, and no assertion fails.
\<close>

subsection \<open>Views\<close>

record CCoinsCacheEntry =
  e_coins :: CCoins
  DIRTY :: bool
  FRESH :: bool

definition CCoinsCacheEntry_default :: CCoinsCacheEntry where
  "CCoinsCacheEntry_default = \<lparr>e_coins = CCoins_default, DIRTY = False, FRESH = False\<rparr>"

type_synonym CCoinsMap = "(uint256 \<times> CCoinsCacheEntry) list"

text \<open>
  The database: its records under the keys \<open>('c', txid)\<close> and \<open>'B'\<close>, as bytes, and the key operations of the library
  (\<open>IsFullyValid\<close> and \<open>Decompress\<close>) that the serialization of scripts calls. LevelDB is assumed not to report
  an I/O error.
\<close>

record coin_db =
  db_valid :: "CPubKey \<Rightarrow> bool"
  db_dec :: "CPubKey \<Rightarrow> CPubKey option"
  db_coins :: "uint256 \<Rightarrow> bytes option"
  db_best :: "bytes option"

definition db_Read :: "'a reader \<Rightarrow> bytes option \<Rightarrow> 'a option" where
  "db_Read rd strValue =
     (case strValue of
        None \<Rightarrow> None
      | Some b \<Rightarrow> (case rd b of Inl _ \<Rightarrow> None | Inr (v, _) \<Rightarrow> Some v))"

definition db_GetCoins :: "coin_db \<Rightarrow> uint256 \<Rightarrow> CCoins option" where
  "db_GetCoins d txid = db_Read (coins_Unserialize (db_dec d)) (db_coins d txid)"

definition db_GetBestBlock :: "coin_db \<Rightarrow> uint256" where
  "db_GetBestBlock d = (case db_Read u256_Unserialize (db_best d) of None \<Rightarrow> 0 | Some hashBestChain \<Rightarrow> hashBestChain)"

datatype view =
    ViewDB (view_db: coin_db)
  | ViewCache (view_base: view) (hasModifier: bool) (hashBlock: uint256) (cacheCoins: CCoinsMap)

function (sequential) GetCoins :: "view \<Rightarrow> uint256 \<Rightarrow> CCoins option \<times> view"
  and FetchCoins :: "view \<Rightarrow> uint256 \<Rightarrow> CCoinsCacheEntry option \<times> view" where
  "GetCoins (ViewDB d) txid = (db_GetCoins d txid, ViewDB d)"
| "GetCoins (ViewCache b hm hash m) txid =
     (let (it, v) = FetchCoins (ViewCache b hm hash m) txid in (map_option e_coins it, v))"
| "FetchCoins (ViewDB d) txid = (None, ViewDB d)"
| "FetchCoins (ViewCache b hm hash m) txid =
     (case map_of m txid of
        Some e \<Rightarrow> (Some e, ViewCache b hm hash m)
      | None \<Rightarrow>
          (case GetCoins b txid of
             (None, b') \<Rightarrow> (None, ViewCache b' hm hash m)
           | (Some tmp, b') \<Rightarrow>
               let e = CCoinsCacheEntry_default\<lparr>e_coins := tmp, FRESH := IsPruned tmp\<rparr>
               in (Some e, ViewCache b' hm hash (AList.update txid e m))))"
  by pat_completeness auto
termination
  by (relation "measures [case_sum (size \<circ> fst) (size \<circ> fst), case_sum (\<lambda>_. 1) (\<lambda>_. 0)]") auto

definition AccessCoins :: "view \<Rightarrow> uint256 \<Rightarrow> CCoins option \<times> view" where
  "AccessCoins v txid = (let (it, v') = FetchCoins v txid in (map_option e_coins it, v'))"

definition HaveCoins :: "view \<Rightarrow> uint256 \<Rightarrow> bool \<times> view" where
  "HaveCoins v txid =
     (case v of
        ViewDB d \<Rightarrow> (db_coins d txid \<noteq> None, v)
      | ViewCache b hm hash m \<Rightarrow>
          (let (it, v') = FetchCoins v txid
           in (case it of None \<Rightarrow> False | Some e \<Rightarrow> cvout (e_coins e) \<noteq> [], v')))"

fun GetBestBlock :: "view \<Rightarrow> uint256 \<times> view" where
  "GetBestBlock (ViewDB d) = (db_GetBestBlock d, ViewDB d)"
| "GetBestBlock (ViewCache b hm hash m) =
     (if hash = 0 then (let (h, b') = GetBestBlock b in (h, ViewCache b' hm h m))
      else (hash, ViewCache b hm hash m))"

fun SetBestBlock :: "uint256 \<Rightarrow> view \<Rightarrow> view" where
  "SetBestBlock hashIn (ViewCache b hm hash m) = ViewCache b hm hashIn m"
| "SetBestBlock hashIn (ViewDB d) = ViewDB d"

subsection \<open>Modifying an entry\<close>

text \<open>
  \<open>ModifyCoins\<close> hands out a modifier of the entry, which \<open>modifier_end\<close>, its destructor, gives
  back; \<open>with_coins\<close> is a statement that uses the modifier of one entry.
\<close>

definition ModifyCoins :: "uint256 \<Rightarrow> view \<Rightarrow> view option" where
  "ModifyCoins txid v =
     (case v of
        ViewDB d \<Rightarrow> None
      | ViewCache b hm hash m \<Rightarrow>
          if hm then None
          else (case map_of m txid of
             Some e \<Rightarrow> Some (ViewCache b True hash (AList.update txid (e\<lparr>DIRTY := True\<rparr>) m))
           | None \<Rightarrow>
               (case GetCoins b txid of (r, b') \<Rightarrow>
                  let e = (case r of
                             None \<Rightarrow> CCoinsCacheEntry_default\<lparr>e_coins := coins_Clear CCoins_default, FRESH := True\<rparr>
                           | Some c \<Rightarrow> CCoinsCacheEntry_default\<lparr>e_coins := c, FRESH := IsPruned c\<rparr>)
                  in Some (ViewCache b' True hash (AList.update txid (e\<lparr>DIRTY := True\<rparr>) m)))))"

definition modifier_end :: "uint256 \<Rightarrow> view \<Rightarrow> view option" where
  "modifier_end txid v =
     (case v of
        ViewDB d \<Rightarrow> None
      | ViewCache b hm hash m \<Rightarrow>
          if \<not> hm then None
          else (case map_of m txid of
             None \<Rightarrow> None
           | Some e \<Rightarrow>
               let e' = e\<lparr>e_coins := Cleanup (e_coins e)\<rparr>
               in Some (ViewCache b False hash
                    (if FRESH e' \<and> IsPruned (e_coins e') then AList.delete txid m
                     else AList.update txid e' m))))"

definition modify_entry :: "uint256 \<Rightarrow> (CCoins \<Rightarrow> 'r \<times> CCoins) \<Rightarrow> view \<Rightarrow> ('r \<times> view) option" where
  "modify_entry txid f v =
     (case v of
        ViewDB d \<Rightarrow> None
      | ViewCache b hm hash m \<Rightarrow>
          (case map_of m txid of
             None \<Rightarrow> None
           | Some e \<Rightarrow> (case f (e_coins e) of (r, c) \<Rightarrow>
               Some (r, ViewCache b hm hash (AList.update txid (e\<lparr>e_coins := c\<rparr>) m)))))"

definition with_coins :: "uint256 \<Rightarrow> (CCoins \<Rightarrow> 'r \<times> CCoins) \<Rightarrow> view \<Rightarrow> ('r \<times> view) option" where
  "with_coins txid f v =
     (case ModifyCoins txid v of
        None \<Rightarrow> None
      | Some v1 \<Rightarrow>
          (case modify_entry txid f v1 of
             None \<Rightarrow> None
           | Some (r, v2) \<Rightarrow> map_option (\<lambda>v3. (r, v3)) (modifier_end txid v2)))"

subsection \<open>Writing a batch and flushing\<close>

text \<open>The assertion in the serialization of coins that are written fails as \<open>None\<close>.\<close>

definition BatchWriteCoins :: "uint256 \<Rightarrow> CCoins \<Rightarrow> coin_db \<Rightarrow> coin_db option" where
  "BatchWriteCoins hash coins d =
     (if IsPruned coins then Some (d\<lparr>db_coins := (db_coins d)(hash := None)\<rparr>)
      else map_option (\<lambda>b. d\<lparr>db_coins := (db_coins d)(hash \<mapsto> b)\<rparr>) (coins_Serialize (db_valid d) coins))"

fun db_batch_loop :: "CCoinsMap \<Rightarrow> coin_db \<Rightarrow> coin_db option" where
  "db_batch_loop [] d = Some d"
| "db_batch_loop ((txid, e) # mapCoins) d =
     (if DIRTY e then Option.bind (BatchWriteCoins txid (e_coins e) d) (db_batch_loop mapCoins)
      else db_batch_loop mapCoins d)"

fun cache_batch_loop :: "CCoinsMap \<Rightarrow> CCoinsMap \<Rightarrow> CCoinsMap option" where
  "cache_batch_loop [] m = Some m"
| "cache_batch_loop ((txid, e) # mapCoins) m =
     (if DIRTY e then
        (case map_of m txid of
           None \<Rightarrow>
             if \<not> IsPruned (e_coins e) then
               (if \<not> FRESH e then None
                else cache_batch_loop mapCoins (AList.update txid \<lparr>e_coins = e_coins e, DIRTY = True, FRESH = True\<rparr> m))
             else cache_batch_loop mapCoins m
         | Some us \<Rightarrow>
             if FRESH us \<and> IsPruned (e_coins e) then cache_batch_loop mapCoins (AList.delete txid m)
             else cache_batch_loop mapCoins (AList.update txid (us\<lparr>e_coins := e_coins e, DIRTY := True\<rparr>) m))
      else cache_batch_loop mapCoins m)"

fun BatchWrite :: "CCoinsMap \<Rightarrow> uint256 \<Rightarrow> view \<Rightarrow> view option" where
  "BatchWrite mapCoins hashIn (ViewDB d) =
     map_option (\<lambda>d'. ViewDB (if hashIn \<noteq> 0 then d'\<lparr>db_best := Some (u256_Serialize hashIn)\<rparr> else d')) (db_batch_loop mapCoins d)"
| "BatchWrite mapCoins hashIn (ViewCache b hm hash m) =
     (if hm then None
      else map_option (ViewCache b hm hashIn) (cache_batch_loop mapCoins m))"

definition Flush :: "view \<Rightarrow> view option" where
  "Flush v =
     (case v of
        ViewDB d \<Rightarrow> None
      | ViewCache b hm hash m \<Rightarrow> map_option (\<lambda>b'. ViewCache b' hm hash []) (BatchWrite m hash b))"

definition GetCacheSize :: "view \<Rightarrow> nat" where
  "GetCacheSize v = (case v of ViewDB d \<Rightarrow> 0 | ViewCache b hm hash m \<Rightarrow> length m mod 2 ^ 32)"

subsection \<open>Inputs of a transaction\<close>

text \<open>
  \<open>GetOutputFor\<close> asserts that the output is available. The value of a zerocoin spend is a call
  to libzerocoin, the parameter \<open>spent\<close>. The classification of the transaction may read outside
  of an empty script, which is \<open>None\<close> as well.
\<close>

definition GetOutputFor :: "CTxIn \<Rightarrow> view \<Rightarrow> (CTxOut \<times> view) option" where
  "GetOutputFor input v =
     (case AccessCoins v (op_hash (prevout input)) of
        (None, v') \<Rightarrow> None
      | (Some c, v') \<Rightarrow>
          if IsAvailable c (unat (op_n (prevout input))) then Some (cvout c ! unat (op_n (prevout input)), v')
          else None)"

fun value_in_loop :: "CTxIn list \<Rightarrow> CAmount \<Rightarrow> view \<Rightarrow> (CAmount \<times> view) option" where
  "value_in_loop [] nResult v = Some (nResult, v)"
| "value_in_loop (i # ins) nResult v =
     (case GetOutputFor i v of
        None \<Rightarrow> None
      | Some (out, v') \<Rightarrow> value_in_loop ins (wrap_s 64 (nResult + nValue out)) v')"

definition GetValueIn :: "(CTransaction \<Rightarrow> CAmount) \<Rightarrow> CTransaction \<Rightarrow> view \<Rightarrow> (CAmount \<times> view) option" where
  "GetValueIn spent tx v =
     (case IsCoinBase tx of
        None \<Rightarrow> None
      | Some True \<Rightarrow> Some (0, v)
      | Some False \<Rightarrow>
          (case IsZerocoinSpend_tx tx of
             None \<Rightarrow> None
           | Some True \<Rightarrow> Some (spent tx, v)
           | Some False \<Rightarrow> value_in_loop (vin tx) 0 v))"

fun have_inputs_loop :: "CTxIn list \<Rightarrow> view \<Rightarrow> bool \<times> view" where
  "have_inputs_loop [] v = (True, v)"
| "have_inputs_loop (i # ins) v =
     (case AccessCoins v (op_hash (prevout i)) of
        (None, v') \<Rightarrow> (False, v')
      | (Some c, v') \<Rightarrow>
          if IsAvailable c (unat (op_n (prevout i))) then have_inputs_loop ins v' else (False, v'))"

definition HaveInputs :: "CTransaction \<Rightarrow> view \<Rightarrow> (bool \<times> view) option" where
  "HaveInputs tx v =
     (case IsCoinBase tx of
        None \<Rightarrow> None
      | Some cb \<Rightarrow>
          if cb then Some (True, v)
          else (case IsZerocoinSpend_tx tx of
             None \<Rightarrow> None
           | Some zs \<Rightarrow> if zs then Some (True, v) else Some (have_inputs_loop (vin tx) v)))"

subsection \<open>The map a view stands for\<close>

fun view_coins :: "view \<Rightarrow> uint256 \<Rightarrow> CCoins option" where
  "view_coins (ViewDB d) txid = db_GetCoins d txid"
| "view_coins (ViewCache b hm hash m) txid =
     (case map_of m txid of Some e \<Rightarrow> Some (e_coins e) | None \<Rightarrow> view_coins b txid)"

definition keep :: "CCoins \<Rightarrow> CCoins option" where
  "keep c = (if IsPruned c then None else Some c)"

definition utxo :: "view \<Rightarrow> uint256 \<Rightarrow> CCoins option" where
  "utxo v txid = Option.bind (view_coins v txid) keep"

fun best_block :: "view \<Rightarrow> uint256" where
  "best_block (ViewDB d) = db_GetBestBlock d"
| "best_block (ViewCache b hm hash m) = (if hash = 0 then best_block b else hash)"

fun in_cache :: "view \<Rightarrow> uint256 \<Rightarrow> bool" where
  "in_cache (ViewDB d) txid \<longleftrightarrow> True"
| "in_cache (ViewCache b hm hash m) txid \<longleftrightarrow> map_of m txid \<noteq> None"

fun no_modifier :: "view \<Rightarrow> bool" where
  "no_modifier (ViewDB d) \<longleftrightarrow> True"
| "no_modifier (ViewCache b hm hash m) \<longleftrightarrow> \<not> hm"

text \<open>
  What the flags of an entry promise: a fresh entry is not unspent in the base, a clean entry is
  the base's, and an entry that is not fresh was fetched from the base, which has cached it.
\<close>

definition entry_ok :: "view \<Rightarrow> uint256 \<Rightarrow> CCoinsCacheEntry \<Rightarrow> bool" where
  "entry_ok b txid e \<longleftrightarrow>
     (FRESH e \<longrightarrow> utxo b txid = None) \<and>
     (\<not> DIRTY e \<longrightarrow> view_coins b txid = Some (e_coins e)) \<and>
     (\<not> FRESH e \<longrightarrow> in_cache b txid)"

definition map_ok :: "view \<Rightarrow> CCoinsMap \<Rightarrow> bool" where
  "map_ok b m \<longleftrightarrow> distinct (map fst m) \<and> (\<forall>txid e. map_of m txid = Some e \<longrightarrow> entry_ok b txid e)"

fun view_ok :: "view \<Rightarrow> bool" where
  "view_ok (ViewDB d) \<longleftrightarrow> True"
| "view_ok (ViewCache b hm hash m) \<longleftrightarrow> view_ok b \<and> no_modifier b \<and> map_ok b m"

definition same_view :: "view \<Rightarrow> view \<Rightarrow> bool" where
  "same_view v v' \<longleftrightarrow> view_coins v' = view_coins v \<and> best_block v' = best_block v \<and>
     no_modifier v' = no_modifier v \<and> (\<forall>s. in_cache v s \<longrightarrow> in_cache v' s) \<and> (view_ok v \<longrightarrow> view_ok v')"

lemma same_view_refl [simp]: "same_view v v"
  by (simp add: same_view_def)

lemma same_view_trans: "same_view u v \<Longrightarrow> same_view v w \<Longrightarrow> same_view u w"
  by (simp add: same_view_def)

lemma same_view_utxo: "same_view v v' \<Longrightarrow> utxo v' = utxo v"
  by (simp add: same_view_def utxo_def fun_eq_iff)

lemma same_view_ok: "same_view v v' \<Longrightarrow> view_ok v \<Longrightarrow> view_ok v'"
  by (simp add: same_view_def)

lemma entry_ok_same: "same_view b b' \<Longrightarrow> entry_ok b s e \<Longrightarrow> entry_ok b' s e"
  by (auto simp: entry_ok_def same_view_def utxo_def)

lemma map_ok_same: "same_view b b' \<Longrightarrow> map_ok b m \<Longrightarrow> map_ok b' m"
  by (auto simp: map_ok_def intro: entry_ok_same)

lemma map_ok_update: "map_ok b m \<Longrightarrow> entry_ok b t e \<Longrightarrow> map_ok b (AList.update t e m)"
  by (auto simp: map_ok_def update_conv' distinct_update)

lemma map_ok_delete: "map_ok b m \<Longrightarrow> map_ok b (AList.delete t m)"
  by (auto simp: map_ok_def delete_conv' distinct_delete)

lemma same_view_base: "same_view b b' \<Longrightarrow> same_view (ViewCache b hm hash m) (ViewCache b' hm hash m)"
proof -
  assume b: "same_view b b'"
  have "view_coins (ViewCache b' hm hash m) = view_coins (ViewCache b hm hash m)"
    using b by (intro ext) (simp add: same_view_def split: option.splits)
  then show ?thesis using b map_ok_same [OF b, of m] by (simp add: same_view_def)
qed

text \<open>Fetching an entry leaves the view what it was and caches the entry.\<close>

lemma GetCoins_Fetch:
  "(GetCoins v t = (r, v') \<longrightarrow> r = view_coins v t \<and> same_view v v' \<and> (r \<noteq> None \<longrightarrow> in_cache v' t)) \<and>
   (\<forall>b hm hash m it. v = ViewCache b hm hash m \<longrightarrow> FetchCoins v t = (it, v') \<longrightarrow>
      map_option e_coins it = view_coins v t \<and> same_view v v' \<and> (it \<noteq> None \<longrightarrow> in_cache v' t))"
proof (induction v arbitrary: r v')
  case (ViewCache b hm hash m)
  have f: "map_option e_coins it = view_coins (ViewCache b hm hash m) t \<and>
      same_view (ViewCache b hm hash m) w \<and> (it \<noteq> None \<longrightarrow> in_cache w t)"
    if a: "FetchCoins (ViewCache b hm hash m) t = (it, w)" for it w
  proof (cases "map_of m t")
    case None
    obtain rb b' where g: "GetCoins b t = (rb, b')" by (cases "GetCoins b t")
    have IH: "rb = view_coins b t" "same_view b b'" "rb \<noteq> None \<longrightarrow> in_cache b' t"
      using ViewCache [of rb b'] g by auto
    show ?thesis
    proof (cases rb)
      case None
      then show ?thesis using a g IH \<open>map_of m t = None\<close> by (auto intro: same_view_base)
    next
      case (Some c)
      let ?e = "CCoinsCacheEntry_default\<lparr>e_coins := c, FRESH := IsPruned c\<rparr>"
      have w: "it = Some ?e" "w = ViewCache b' hm hash (AList.update t ?e m)"
        using a g Some \<open>map_of m t = None\<close> by (auto simp: Let_def)
      have e: "entry_ok b' t ?e"
        using IH Some same_view_utxo [OF IH(2)]
        by (auto simp: entry_ok_def CCoinsCacheEntry_default_def keep_def same_view_def utxo_def [of b] dest!: sym [of "Some c"])
      have s: "same_view (ViewCache b' hm hash m) w"
        using e IH Some \<open>map_of m t = None\<close>
        by (auto simp: same_view_def w fun_eq_iff update_conv' CCoinsCacheEntry_default_def split: option.splits
            intro: map_ok_update)
      have "same_view (ViewCache b hm hash m) w" by (rule same_view_trans [OF same_view_base [OF IH(2)] s])
      then show ?thesis using w IH Some \<open>map_of m t = None\<close>
        by (simp add: CCoinsCacheEntry_default_def update_conv')
    qed
  qed (use a in \<open>auto split: option.splits\<close>)
  show ?case
  proof (cases "FetchCoins (ViewCache b hm hash m) t")
    case (Pair it w)
    then show ?thesis using f [OF Pair] by (auto simp del: FetchCoins.simps(2) view_coins.simps(2))
  qed
qed auto

lemmas GetCoins_spec = GetCoins_Fetch [THEN conjunct1, rule_format]

lemma FetchCoins_spec:
  "FetchCoins (ViewCache b hm hash m) t = (it, v') \<Longrightarrow>
   map_option e_coins it = view_coins (ViewCache b hm hash m) t \<and> same_view (ViewCache b hm hash m) v'"
  using GetCoins_Fetch [of "ViewCache b hm hash m" t _ v'] by blast

lemma AccessCoins_spec:
  "AccessCoins (ViewCache b hm hash m) t = (r, v') \<Longrightarrow>
   r = view_coins (ViewCache b hm hash m) t \<and> same_view (ViewCache b hm hash m) v'"
  using FetchCoins_spec [of b hm hash m t _ v'] by (auto simp: AccessCoins_def split: prod.splits)

lemma GetBestBlock_spec: "GetBestBlock v = (h, v') \<Longrightarrow> h = best_block v \<and> same_view v v'"
proof (induction v arbitrary: h v')
  case (ViewCache b hm hash m)
  obtain hb b' where g: "GetBestBlock b = (hb, b')" by (cases "GetBestBlock b")
  then have b: "hb = best_block b" "same_view b b'" using ViewCache.IH by auto
  then have "same_view (ViewCache b hm hash m) (ViewCache b' hm hb m)" if "hash = 0"
    using same_view_base [of b b' hm hash m] that by (auto simp: same_view_def fun_eq_iff)
  then show ?case using ViewCache.prems g b by (auto split: if_splits)
qed auto

subsection \<open>Modifying one entry\<close>

lemma utxo_cache:
  "utxo (ViewCache b hm hash m) t = (case map_of m t of Some e \<Rightarrow> keep (e_coins e) | None \<Rightarrow> utxo b t)"
  by (simp add: utxo_def split: option.splits)

lemma keep_None_iff [simp]: "keep c = None \<longleftrightarrow> IsPruned c"
  by (simp add: keep_def)

lemma keep_pruned [simp]: "IsPruned c \<Longrightarrow> keep c = None"
  by (simp add: keep_def)

text \<open>The coins that a modifier of an entry hands out.\<close>

definition modified_coins :: "view \<Rightarrow> uint256 \<Rightarrow> CCoins" where
  "modified_coins v txid = (case view_coins v txid of None \<Rightarrow> CCoins_default | Some c \<Rightarrow> c)"

lemma coins_Clear_default [simp]: "coins_Clear CCoins_default = CCoins_default"
  by (simp add: coins_Clear_def CCoins_default_def)

lemma entry_ok_modified:
  "entry_ok b t e \<Longrightarrow> entry_ok b t (e\<lparr>e_coins := c, DIRTY := True\<rparr>)"
  "entry_ok b t e \<Longrightarrow> entry_ok b t (e\<lparr>DIRTY := True\<rparr>)"
  by (auto simp: entry_ok_def)

lemma ModifyCoins_spec:
  assumes "view_ok (ViewCache b False hash m)"
  shows "\<exists>b' e. ModifyCoins t (ViewCache b False hash m) = Some (ViewCache b' True hash (AList.update t e m)) \<and>
    e_coins e = modified_coins (ViewCache b False hash m) t \<and> DIRTY e \<and> same_view b b' \<and> entry_ok b' t e"
proof (cases "map_of m t")
  case None
  obtain r b' where g: "GetCoins b t = (r, b')" by (cases "GetCoins b t")
  note s = GetCoins_spec [OF g]
  show ?thesis
  proof (cases r)
    case None
    then have "utxo b' t = None" using s same_view_utxo [of b b'] by (simp add: utxo_def)
    then show ?thesis using \<open>map_of m t = None\<close> g s None
      by (intro exI [of _ b'] exI [of _ "CCoinsCacheEntry_default\<lparr>FRESH := True, DIRTY := True\<rparr>"]) (simp add: ModifyCoins_def modified_coins_def entry_ok_def CCoinsCacheEntry_default_def)
  next
    case (Some c)
    then have "IsPruned c \<Longrightarrow> utxo b' t = None" using s same_view_utxo [of b b']
      by (auto simp: utxo_def dest: sym [of "Some c"])
    then show ?thesis using \<open>map_of m t = None\<close> g s Some
      by (intro exI [of _ b'] exI [of _ "CCoinsCacheEntry_default\<lparr>e_coins := c, FRESH := IsPruned c, DIRTY := True\<rparr>"])
        (auto simp: ModifyCoins_def modified_coins_def entry_ok_def CCoinsCacheEntry_default_def dest: sym [of "Some c"])
  qed
next
  case (Some e)
  then have "entry_ok b t e" using assms by (auto simp: map_ok_def)
  then show ?thesis using Some
    by (intro exI [of _ b] exI [of _ "e\<lparr>DIRTY := True\<rparr>"])
      (simp add: ModifyCoins_def modified_coins_def entry_ok_modified)
qed

lemma with_coins_run:
  assumes "view_ok (ViewCache b False hash m)" "f (modified_coins (ViewCache b False hash m) t) = (r, c)"
  shows "\<exists>b' m'. with_coins t f (ViewCache b False hash m) = Some (r, ViewCache b' False hash m') \<and>
    view_ok (ViewCache b' False hash m') \<and> same_view b b' \<and>
    utxo (ViewCache b' False hash m') = (utxo (ViewCache b False hash m))(t := keep (Cleanup c))"
proof -
  obtain b' e where M: "ModifyCoins t (ViewCache b False hash m) = Some (ViewCache b' True hash (AList.update t e m))"
      "e_coins e = modified_coins (ViewCache b False hash m) t" "DIRTY e" "same_view b b'" "entry_ok b' t e"
    using ModifyCoins_spec [OF assms(1)] by blast
  define m1 where "m1 = AList.update t (e\<lparr>e_coins := c\<rparr>) (AList.update t e m)"
  have E: "modify_entry t f (ViewCache b' True hash (AList.update t e m)) = Some (r, ViewCache b' True hash m1)"
    using assms(2) by (simp add: modify_entry_def update_conv' M(2) m1_def)
  let ?e = "e\<lparr>e_coins := Cleanup c\<rparr>"
  have ok: "map_ok b' m" using assms(1) map_ok_same [OF M(4)] by simp
  have eok: "entry_ok b' t ?e" "entry_ok b' t (e\<lparr>e_coins := c\<rparr>)" using M(3,5) by (auto simp: entry_ok_def)
  have b: "view_ok b'" "no_modifier b'" "utxo b' = utxo b"
    using M(4) assms(1) same_view_utxo by (auto simp: same_view_def)
  have mok: "map_ok b' m1" using ok eok M(5) by (simp add: m1_def map_ok_update)
  have mo: "map_of m1 = (map_of m)(t \<mapsto> e\<lparr>e_coins := c\<rparr>)" by (simp add: m1_def update_conv')
  define m2 where "m2 = (if FRESH e \<and> IsPruned c then AList.delete t m1 else AList.update t ?e m1)"
  have E2: "modifier_end t (ViewCache b' True hash m1) = Some (ViewCache b' False hash m2)"
    by (simp add: modifier_end_def mo m2_def)
  have "map_ok b' m2" using mok eok by (simp add: m2_def map_ok_delete map_ok_update)
  moreover have "utxo (ViewCache b' False hash m2) s = ((utxo (ViewCache b False hash m))(t := keep (Cleanup c))) s" for s
  proof (cases "s = t")
    case True
    have "FRESH e \<Longrightarrow> utxo b t = None" using M(5) b(3) by (simp add: entry_ok_def)
    then show ?thesis using True by (simp add: utxo_cache m2_def delete_conv' update_conv' b(3))
  next
    case False
    then show ?thesis by (simp add: utxo_cache m2_def delete_conv' update_conv' mo b(3) split: option.splits)
  qed
  ultimately show ?thesis using M(1,4) E E2 b
    by (intro exI [of _ b'] exI [of _ m2]) (simp add: with_coins_def fun_eq_iff)
qed

subsection \<open>Writing a batch\<close>

lemma utxo_of_entry: "entry_ok b t e \<Longrightarrow> \<not> DIRTY e \<Longrightarrow> utxo b t = keep (e_coins e)"
  by (simp add: entry_ok_def utxo_def)

lemma entry_ok_cache_cong:
  "map_of m t = map_of m' t \<Longrightarrow> entry_ok (ViewCache b hm hash m) t e = entry_ok (ViewCache b hm hash m') t e"
  by (simp add: entry_ok_def utxo_cache)

lemma cache_batch_loop_spec:
  assumes "map_ok b m" "distinct (map fst mc)"
    and "\<And>t e. (t, e) \<in> set mc \<Longrightarrow> entry_ok (ViewCache b False hash m) t e"
  shows "\<exists>m'. cache_batch_loop mc m = Some m' \<and> map_ok b m' \<and>
    (\<forall>t. utxo (ViewCache b False hash m') t =
      (case map_of mc t of Some e \<Rightarrow> keep (e_coins e) | None \<Rightarrow> utxo (ViewCache b False hash m) t))"
  using assms
proof (induction mc arbitrary: m)
  case (Cons te mc)
  obtain t e where te: "te = (t, e)" by (cases te)
  have e: "entry_ok (ViewCache b False hash m) t e" using Cons.prems(3) te by simp
  have t: "map_of mc t = None" using Cons.prems(2) te by (simp add: map_of_eq_None_iff)
  have step: ?case
    if l: "cache_batch_loop (te # mc) m = cache_batch_loop mc m1" and ok: "map_ok b m1"
      and other: "\<And>s. s \<noteq> t \<Longrightarrow> map_of m1 s = map_of m s"
      and here: "utxo (ViewCache b False hash m1) t = keep (e_coins e)" for m1
  proof -
    have "entry_ok (ViewCache b False hash m1) s x" if x: "(s, x) \<in> set mc" for s x
    proof -
      have "s \<noteq> t" using x t by (force simp: map_of_eq_None_iff)
      then show ?thesis using Cons.prems(3) [of s x] x entry_ok_cache_cong [OF other] by simp
    qed
    then obtain m' where m': "cache_batch_loop mc m1 = Some m'" "map_ok b m'"
      "\<forall>t. utxo (ViewCache b False hash m') t =
        (case map_of mc t of Some e \<Rightarrow> keep (e_coins e) | None \<Rightarrow> utxo (ViewCache b False hash m1) t)"
      using Cons.IH [OF ok] Cons.prems(2) te by auto
    have "utxo (ViewCache b False hash m1) s = utxo (ViewCache b False hash m) s" if "s \<noteq> t" for s
      using other [OF that] by (simp add: utxo_cache)
    then show ?thesis using m' l te here t by (auto split: option.splits)
  qed
  show ?case
  proof (cases "DIRTY e")
    case False
    then show ?thesis using utxo_of_entry [OF e] Cons.prems(1) te by (intro step [of m]) simp_all
  next
    case dirty: True
    show ?thesis
    proof (cases "map_of m t")
      case None
      have fresh: "FRESH e" using e None by (auto simp: entry_ok_def)
      then have bt: "utxo b t = None" using e None by (simp add: entry_ok_def utxo_cache)
      show ?thesis
      proof (cases "IsPruned (e_coins e)")
        case True
        then show ?thesis using dirty None te bt Cons.prems(1) by (intro step [of m]) (simp_all add: utxo_cache)
      next
        case False
        let ?e = "\<lparr>e_coins = e_coins e, DIRTY = True, FRESH = True\<rparr>"
        have "entry_ok b t ?e" using bt by (simp add: entry_ok_def)
        then show ?thesis using dirty None te fresh False Cons.prems(1)
          by (intro step [of "AList.update t ?e m"]) (simp_all add: map_ok_update update_conv' utxo_cache)
      qed
    next
      case (Some us)
      have us: "entry_ok b t us" using Some Cons.prems(1) by (auto simp: map_ok_def)
      show ?thesis
      proof (cases "FRESH us \<and> IsPruned (e_coins e)")
        case True
        then show ?thesis using dirty Some te us Cons.prems(1)
          by (intro step [of "AList.delete t m"]) (simp_all add: map_ok_delete delete_conv' utxo_cache entry_ok_def)
      next
        case False
        let ?e = "us\<lparr>e_coins := e_coins e, DIRTY := True\<rparr>"
        have "entry_ok b t ?e" using us by (rule entry_ok_modified)
        then show ?thesis using dirty Some te False Cons.prems(1)
          by (intro step [of "AList.update t ?e m"]) (auto simp: map_ok_update update_conv' utxo_cache)
      qed
    qed
  qed
qed simp

text \<open>What a base gives back of an entry that is written to it: a database rereads its record.\<close>

definition reread :: "coin_db \<Rightarrow> CCoins \<Rightarrow> CCoins option" where
  "reread d c = (if IsPruned c then None
     else Option.bind (db_Read (coins_Unserialize (db_dec d)) (coins_Serialize (db_valid d) c)) keep)"

definition flushed :: "view \<Rightarrow> CCoinsCacheEntry \<Rightarrow> CCoins option" where
  "flushed b e =
     (case b of
        ViewDB d \<Rightarrow> if DIRTY e then reread d (e_coins e) else keep (e_coins e)
      | ViewCache bb hm hash m \<Rightarrow> keep (e_coins e))"

lemma reread_stored:
  assumes "decompresses (db_valid d) (db_dec d)" "coins_wf c"
  shows "reread d c = map_option stored (keep c)"
proof (cases "IsPruned c")
  case False
  then obtain b where "coins_Serialize (db_valid d) c = Some b" "coins_Unserialize (db_dec d) (b @ []) = Inr (stored c, [])"
    using coins_roundtrip_stored [OF assms] by blast
  then show ?thesis using False by (simp add: reread_def db_Read_def keep_def)
qed (simp add: reread_def)

lemma db_GetCoins_update:
  "db_GetCoins (d\<lparr>db_coins := X\<rparr>) t = db_Read (coins_Unserialize (db_dec d)) (X t)"
  by (simp add: db_GetCoins_def)

lemma BatchWriteCoins_spec:
  "\<exists>X. BatchWriteCoins t c d = Some (d\<lparr>db_coins := X\<rparr>) \<and> (\<forall>s. s \<noteq> t \<longrightarrow> X s = db_coins d s) \<and>
    utxo (ViewDB (d\<lparr>db_coins := X\<rparr>)) t = reread d c"
proof (cases "IsPruned c")
  case True
  then show ?thesis
    by (intro exI [of _ "(db_coins d)(t := None)"]) (simp add: BatchWriteCoins_def utxo_def db_GetCoins_update db_Read_def reread_def)
next
  case False
  then obtain b where "coins_Serialize (db_valid d) c = Some b" using coins_Serialize_unpruned by blast
  then show ?thesis using False
    by (intro exI [of _ "(db_coins d)(t \<mapsto> b)"]) (simp add: BatchWriteCoins_def utxo_def db_GetCoins_update reread_def)
qed

lemma db_batch_loop_spec:
  assumes "distinct (map fst mc)" "\<And>t e. (t, e) \<in> set mc \<Longrightarrow> \<not> DIRTY e \<Longrightarrow> utxo (ViewDB d) t = keep (e_coins e)"
  shows "\<exists>X. db_batch_loop mc d = Some (d\<lparr>db_coins := X\<rparr>) \<and>
    (\<forall>t. utxo (ViewDB (d\<lparr>db_coins := X\<rparr>)) t = (case map_of mc t of Some e \<Rightarrow> flushed (ViewDB d) e | None \<Rightarrow> utxo (ViewDB d) t))"
  using assms
proof (induction mc arbitrary: d)
  case Nil
  then show ?case by (intro exI [of _ "db_coins d"]) simp
next
  case (Cons te mc)
  obtain s e where te: "te = (s, e)" by (cases te)
  have s: "map_of mc s = None" using Cons.prems(1) te by (simp add: map_of_eq_None_iff)
  have other: "u \<noteq> s" if "(u, x) \<in> set mc" for u x using that s by (force simp: map_of_eq_None_iff)
  show ?case
  proof (cases "DIRTY e")
    case True
    obtain Y where Y: "BatchWriteCoins s (e_coins e) d = Some (d\<lparr>db_coins := Y\<rparr>)" "\<forall>u. u \<noteq> s \<longrightarrow> Y u = db_coins d u"
      "utxo (ViewDB (d\<lparr>db_coins := Y\<rparr>)) s = reread d (e_coins e)" using BatchWriteCoins_spec by blast
    have same: "utxo (ViewDB (d\<lparr>db_coins := Y\<rparr>)) u = utxo (ViewDB d) u" if "u \<noteq> s" for u
      using Y(2) that by (simp add: utxo_def db_GetCoins_def)
    have "utxo (ViewDB (d\<lparr>db_coins := Y\<rparr>)) u = keep (e_coins x)" if "(u, x) \<in> set mc" "\<not> DIRTY x" for u x
      using Cons.prems(2) [of u x] that same [OF other [OF that(1)]] by simp
    then obtain X where X: "db_batch_loop mc (d\<lparr>db_coins := Y\<rparr>) = Some (d\<lparr>db_coins := X\<rparr>)"
      "\<forall>t. utxo (ViewDB (d\<lparr>db_coins := X\<rparr>)) t =
        (case map_of mc t of Some e \<Rightarrow> flushed (ViewDB (d\<lparr>db_coins := Y\<rparr>)) e | None \<Rightarrow> utxo (ViewDB (d\<lparr>db_coins := Y\<rparr>)) t)"
      using Cons.IH [of "d\<lparr>db_coins := Y\<rparr>"] Cons.prems(1) te by auto
    have "flushed (ViewDB (d\<lparr>db_coins := Y\<rparr>)) = flushed (ViewDB d)" by (simp add: flushed_def reread_def fun_eq_iff)
    then show ?thesis using X Y te s True same
      by (intro exI [of _ X]) (simp add: flushed_def [of "ViewDB d" e] split: option.splits)
  next
    case False
    obtain X where "db_batch_loop mc d = Some (d\<lparr>db_coins := X\<rparr>)"
      "\<forall>t. utxo (ViewDB (d\<lparr>db_coins := X\<rparr>)) t = (case map_of mc t of Some e \<Rightarrow> flushed (ViewDB d) e | None \<Rightarrow> utxo (ViewDB d) t)"
      using Cons.IH [of d] Cons.prems te by auto
    then show ?thesis using te s False Cons.prems(2) [of s e]
      by (intro exI [of _ X]) (simp add: flushed_def [of "ViewDB d" e] split: option.splits)
  qed
qed

lemma BatchWrite_spec:
  assumes "view_ok b" "no_modifier b" "map_ok b mc"
  shows "\<exists>b'. BatchWrite mc hash b = Some b' \<and> view_ok b' \<and> no_modifier b' \<and>
    (\<forall>t. utxo b' t = (case map_of mc t of Some e \<Rightarrow> flushed b e | None \<Rightarrow> utxo b t)) \<and>
    (hash \<noteq> 0 \<longrightarrow> best_block b' = hash)"
proof (cases b)
  case (ViewDB d)
  have d: "distinct (map fst mc)" using assms(3) by (simp add: map_ok_def)
  have "utxo (ViewDB d) t = keep (e_coins e)" if "(t, e) \<in> set mc" "\<not> DIRTY e" for t e
    using assms(3) that map_of_is_SomeI [OF d that(1)] ViewDB by (simp add: map_ok_def utxo_of_entry)
  from db_batch_loop_spec [OF d this] obtain X where X: "db_batch_loop mc d = Some (d\<lparr>db_coins := X\<rparr>)"
    "\<forall>t. utxo (ViewDB (d\<lparr>db_coins := X\<rparr>)) t = (case map_of mc t of Some e \<Rightarrow> flushed b e | None \<Rightarrow> utxo b t)"
    unfolding ViewDB by blast
  have best: "utxo (ViewDB (d\<lparr>db_coins := X, db_best := B\<rparr>)) = utxo (ViewDB (d\<lparr>db_coins := X\<rparr>))" for B
    by (simp add: fun_eq_iff utxo_def db_GetCoins_def)
  have "db_Read u256_Unserialize (Some (u256_Serialize hash)) = Some hash"
    using u256_roundtrip [of hash "[]"] by (simp add: db_Read_def)
  then show ?thesis using X ViewDB best by (simp add: db_GetBestBlock_def)
next
  case (ViewCache bb hm h m)
  have d: "distinct (map fst mc)" using assms(3) by (simp add: map_ok_def)
  have hm: "\<not> hm" and mok: "map_ok bb m" using assms(1,2) ViewCache by auto
  have "entry_ok (ViewCache bb False h m) t e" if "(t, e) \<in> set mc" for t e
    using assms(3) map_of_is_SomeI [OF d that] ViewCache hm by (simp add: map_ok_def)
  then obtain m' where m': "cache_batch_loop mc m = Some m'" "map_ok bb m'"
    "\<forall>t. utxo (ViewCache bb False h m') t =
      (case map_of mc t of Some e \<Rightarrow> keep (e_coins e) | None \<Rightarrow> utxo (ViewCache bb False h m) t)"
    using cache_batch_loop_spec [OF mok d] by blast
  have "utxo (ViewCache bb False hash m') t = utxo (ViewCache bb False h m') t" for t by (simp add: utxo_cache)
  then show ?thesis using m' ViewCache assms(1) hm by (simp add: flushed_def split: option.splits)
qed

lemma Flush_run:
  assumes "view_ok (ViewCache b hm hash m)"
  shows "\<exists>b'. Flush (ViewCache b hm hash m) = Some (ViewCache b' hm hash []) \<and>
    view_ok (ViewCache b' hm hash []) \<and> utxo (ViewCache b' hm hash []) = utxo b' \<and>
    (\<forall>t. utxo b' t = (case map_of m t of Some e \<Rightarrow> flushed b e | None \<Rightarrow> utxo b t)) \<and>
    (hash \<noteq> 0 \<longrightarrow> best_block b' = hash)"
proof -
  have "view_ok b" "no_modifier b" "map_ok b m" using assms by simp_all
  then obtain b' where b': "BatchWrite m hash b = Some b'" "view_ok b'" "no_modifier b'"
    "\<forall>t. utxo b' t = (case map_of m t of Some e \<Rightarrow> flushed b e | None \<Rightarrow> utxo b t)"
    "hash \<noteq> 0 \<longrightarrow> best_block b' = hash"
    using BatchWrite_spec by blast
  moreover have "utxo (ViewCache b' hm hash []) = utxo b'" by (simp add: fun_eq_iff utxo_cache)
  ultimately show ?thesis by (simp add: Flush_def map_ok_def)
qed

subsection \<open>Views that the node can reach\<close>

text \<open>
  The steps of a stack of views: reading through the top cache, modifying an entry, setting the
  best block, putting a new cache on top, flushing the top cache and dropping it.
\<close>

inductive view_step :: "view \<Rightarrow> view \<Rightarrow> bool" where
  step_Access: "AccessCoins (ViewCache b hm hash m) t = (r, v') \<Longrightarrow> view_step (ViewCache b hm hash m) v'"
| step_Get: "GetCoins v t = (r, v') \<Longrightarrow> view_step v v'"
| step_Have: "HaveCoins v t = (h, v') \<Longrightarrow> view_step v v'"
| step_Best: "GetBestBlock v = (h, v') \<Longrightarrow> view_step v v'"
| step_SetBest: "view_step v (SetBestBlock h v)"
| step_Modify: "with_coins t f v = Some ((), v') \<Longrightarrow> view_step v v'"
| step_Flush: "Flush v = Some v' \<Longrightarrow> view_step v v'"
| step_Push: "view_step v (ViewCache v False 0 [])"
| step_Drop: "view_step (ViewCache b hm hash m) b"

lemma HaveCoins_same: "HaveCoins v t = (h, v') \<Longrightarrow> same_view v v'"
  by (auto simp: HaveCoins_def simp del: FetchCoins.simps split: view.splits prod.splits option.splits dest!: FetchCoins_spec)

lemma SetBestBlock_ok: "view_ok v \<Longrightarrow> view_ok (SetBestBlock h v)" "no_modifier (SetBestBlock h v) = no_modifier v"
  by (cases v; simp)+

lemma view_step_ok:
  assumes "view_step v v'" "view_ok v" "no_modifier v"
  shows "view_ok v' \<and> no_modifier v'"
  using assms
proof (induction rule: view_step.induct)
  case (step_Access b hm hash m t r v')
  then show ?case using AccessCoins_spec [of b hm hash m t r v'] by (simp add: same_view_def)
next
  case (step_Get v t r v')
  then show ?case using GetCoins_spec [of v t r v'] by (simp add: same_view_def)
next
  case (step_Have v t h v')
  then show ?case using HaveCoins_same [of v t h v'] by (simp add: same_view_def)
next
  case (step_Best v h v')
  then show ?case using GetBestBlock_spec [of v h v'] by (simp add: same_view_def)
next
  case (step_Modify t f v v')
  then obtain b hash m where v: "v = ViewCache b False hash m"
    by (cases v) (auto simp: with_coins_def ModifyCoins_def)
  obtain c where "f (modified_coins (ViewCache b False hash m) t) = ((), c)"
    by (cases "f (modified_coins (ViewCache b False hash m) t)") auto
  from with_coins_run [of b hash m f t "()" c, OF _ this] show ?case
    using step_Modify unfolding v by auto
next
  case (step_Flush v v')
  then obtain b hm hash m where v: "v = ViewCache b hm hash m" by (cases v) (auto simp: Flush_def)
  then show ?case using step_Flush Flush_run [of b hm hash m] by auto
qed (simp_all add: SetBestBlock_ok map_ok_def)

lemma view_reachable_ok: "view_step\<^sup>*\<^sup>* (ViewDB d) v \<Longrightarrow> view_ok v \<and> no_modifier v"
  by (induction rule: rtranclp_induct) (auto dest: view_step_ok)

text \<open>
  C3: no stack of caches that the operations can build over a database ever fails one of the
  assertions of \<open>ModifyCoins\<close>, of its modifier, of \<open>BatchWrite\<close> (a new unpruned entry of the
  child is fresh), of the serialization of the coins that are written, or of \<open>Flush\<close>.
\<close>

theorem views_never_assert:
  assumes "view_step\<^sup>*\<^sup>* (ViewDB d) (ViewCache b hm hash m)"
  shows "with_coins t f (ViewCache b hm hash m) \<noteq> None \<and> Flush (ViewCache b hm hash m) \<noteq> None"
proof -
  have ok: "view_ok (ViewCache b False hash m)" "hm = False" using view_reachable_ok [OF assms] by auto
  obtain r c where "f (modified_coins (ViewCache b False hash m) t) = (r, c)" by fastforce
  from with_coins_run [of b hash m f t r c, OF ok(1) this] Flush_run [of b hm hash m] show ?thesis using ok by auto
qed

definition spend_all :: "CCoins \<Rightarrow> unit \<times> CCoins" where
  "spend_all c = ((), c\<lparr>cvout := []\<rparr>)"

text \<open>A database that holds the records of given coins.\<close>

definition sample_db :: "(uint256 \<Rightarrow> CCoins option) \<Rightarrow> uint256 \<Rightarrow> coin_db" where
  "sample_db U best =
     \<lparr>db_valid = \<lambda>k. k = sample_key, db_dec = sample_dec, db_coins = \<lambda>t. Option.bind (U t) (coins_Serialize (\<lambda>k. k = sample_key)),
      db_best = Some (u256_Serialize best)\<rparr>"

lemma sample_db_sel [simp]: "db_valid (sample_db U best) = (\<lambda>k. k = sample_key)" "db_dec (sample_db U best) = sample_dec"
  by (simp_all add: sample_db_def)

lemma sample_db_GetCoins:
  assumes "\<And>c. U t = Some c \<Longrightarrow> coins_wf c \<and> \<not> IsPruned c"
  shows "db_GetCoins (sample_db U best) t = map_option stored (U t)"
proof (cases "U t")
  case (Some c)
  then obtain b where "coins_Serialize (\<lambda>k. k = sample_key) c = Some b" "coins_Unserialize sample_dec (b @ []) = Inr (stored c, [])"
    using coins_roundtrip_stored [OF sample_decompresses] assms by blast
  then show ?thesis using Some by (simp add: db_GetCoins_def db_Read_def sample_db_def)
qed (simp add: db_GetCoins_def db_Read_def sample_db_def)

lemma sample_db_GetBestBlock: "db_GetBestBlock (sample_db U best) = best"
  using u256_roundtrip [of best "[]"] by (simp add: db_GetBestBlock_def db_Read_def sample_db_def)

lemma sample_coins_stored: "stored sample_coins = sample_coins"
  by (rule stored_nonneg) (simp add: sample_coins_def)

abbreviation full_db :: coin_db where "full_db \<equiv> sample_db (\<lambda>_. Some sample_coins) 0"
abbreviation empty_db :: coin_db where "empty_db \<equiv> sample_db (\<lambda>_. None) 0"

lemma full_db_GetCoins [simp]: "db_GetCoins full_db t = Some sample_coins"
  using sample_coins_wf sample_coins_stored by (subst sample_db_GetCoins) simp_all

lemma empty_db_GetCoins [simp]: "db_GetCoins empty_db t = None"
  by (subst sample_db_GetCoins) simp_all

lemma views_never_assert_witness:
  "Flush (ViewCache (ViewCache (ViewDB full_db) False 0
      [(1, \<lparr>e_coins = sample_coins, DIRTY = False, FRESH = False\<rparr>)]) False 0
    [(1, \<lparr>e_coins = sample_coins\<lparr>cvout := []\<rparr>, DIRTY = True, FRESH = False\<rparr>)]) \<noteq> None"
proof -
  let ?v = "ViewCache (ViewCache (ViewDB full_db) False 0 []) False 0 []"
  let ?w = "ViewCache (ViewCache (ViewDB full_db) False 0
      [(1, \<lparr>e_coins = sample_coins, DIRTY = False, FRESH = False\<rparr>)]) False 0
    [(1, \<lparr>e_coins = sample_coins\<lparr>cvout := []\<rparr>, DIRTY = True, FRESH = False\<rparr>)]"
  have "view_step (ViewDB full_db) (ViewCache (ViewDB full_db) False 0 [])"
    by (rule step_Push)
  moreover have "view_step (ViewCache (ViewDB full_db) False 0 []) ?v" by (rule step_Push)
  moreover have "with_coins 1 spend_all ?v = Some ((), ?w)"
    using sample_coins_wf(2)
    by (simp add: with_coins_def ModifyCoins_def modify_entry_def modifier_end_def CCoinsCacheEntry_default_def spend_all_def
        Cleanup_def Let_def)
  then have "view_step ?v ?w" by (rule step_Modify)
  ultimately have "view_step\<^sup>*\<^sup>* (ViewDB full_db) ?w"
    by (meson rtranclp.rtrancl_into_rtrancl rtranclp.rtrancl_refl)
  from views_never_assert [OF this] show ?thesis by blast
qed

text \<open>
  A statement that modifies the coins of one transaction in a cache cannot fail, keeps the cache
  consistent with its base, and changes the map of unspent outputs at that transaction only: to
  the modified coins, cleaned up, or to nothing when they are pruned.
\<close>

theorem with_coins_spec:
  assumes "view_ok (ViewCache b False hash m)" "f (modified_coins (ViewCache b False hash m) t) = (r, c)"
  shows "\<exists>b' m'. with_coins t f (ViewCache b False hash m) = Some (r, ViewCache b' False hash m') \<and>
    view_ok (ViewCache b' False hash m') \<and> same_view b b' \<and>
    utxo (ViewCache b' False hash m') = (utxo (ViewCache b False hash m))(t := keep (Cleanup c))"
  using assms by (rule with_coins_run)

lemma with_coins_spec_witness:
  "\<exists>b' m'. with_coins 1 spend_all (ViewCache (ViewDB full_db) False 0 []) =
      Some ((), ViewCache b' False 0 m') \<and> utxo (ViewCache b' False 0 m') 1 = None"
  using with_coins_spec [of "ViewDB full_db" 0 "[]" spend_all 1 "()" "sample_coins\<lparr>cvout := []\<rparr>"]
  by (force simp: spend_all_def modified_coins_def map_ok_def IsPruned_def)

text \<open>Entries that a flush writes to a database, and what has to hold of them.\<close>

fun is_db :: "view \<Rightarrow> bool" where
  "is_db (ViewDB d) \<longleftrightarrow> True"
| "is_db (ViewCache b hm hash m) \<longleftrightarrow> False"

definition dirty :: "CCoinsMap \<Rightarrow> uint256 \<Rightarrow> bool" where
  "dirty m t \<longleftrightarrow> (\<exists>e. map_of m t = Some e \<and> DIRTY e)"

definition storable :: "view \<Rightarrow> CCoinsMap \<Rightarrow> bool" where
  "storable b m \<longleftrightarrow> is_db b \<longrightarrow> decompresses (db_valid (view_db b)) (db_dec (view_db b)) \<and>
     (\<forall>t e. map_of m t = Some e \<and> DIRTY e \<and> \<not> IsPruned (e_coins e) \<longrightarrow> coins_wf (e_coins e))"

lemma flushed_storable:
  assumes "storable b m" "map_of m t = Some e"
  shows "flushed b e = (if is_db b \<and> DIRTY e then map_option stored (keep (e_coins e)) else keep (e_coins e))"
proof (cases b)
  case (ViewDB d)
  have "reread d (e_coins e) = map_option stored (keep (e_coins e))" if "DIRTY e"
  proof (cases "IsPruned (e_coins e)")
    case False
    then show ?thesis using assms that ViewDB by (intro reread_stored) (auto simp: storable_def)
  qed (simp add: reread_def)
  then show ?thesis using ViewDB by (simp add: flushed_def)
qed (simp add: flushed_def)

text \<open>
  C4: flushing a cache cannot fail an assertion; afterwards the emptied cache and its base stand for one map and are
  consistent, and a best block set in the cache is the base's. Over another cache that map is the one the cache stood for.
  Over the database, where the dirty entries are serialized, it is that map too except that the dirty entries come
  back in \<open>stored\<close> form, with a negative version replaced by its low seven bits; so it is the same map if no version is negative.
  The coins that are written to the database must be well-formed (cleaned up, amounts and heights in range), and the library must
  decompress the keys that it declared fully valid.
\<close>

theorem Flush_spec:
  assumes "view_ok (ViewCache b hm hash m)" "storable b m"
  shows "\<exists>b'. Flush (ViewCache b hm hash m) = Some (ViewCache b' hm hash []) \<and>
    view_ok (ViewCache b' hm hash []) \<and> utxo (ViewCache b' hm hash []) = utxo b' \<and>
    (\<forall>t. utxo b' t = (if is_db b \<and> dirty m t then map_option stored (utxo (ViewCache b hm hash m) t) else utxo (ViewCache b hm hash m) t)) \<and>
    ((\<forall>t c. utxo (ViewCache b hm hash m) t = Some c \<longrightarrow> 0 \<le> cVersion c) \<longrightarrow> utxo b' = utxo (ViewCache b hm hash m)) \<and>
    (hash \<noteq> 0 \<longrightarrow> best_block b' = hash)"
proof -
  obtain b' where b': "Flush (ViewCache b hm hash m) = Some (ViewCache b' hm hash [])" "view_ok (ViewCache b' hm hash [])"
    "utxo (ViewCache b' hm hash []) = utxo b'"
    "\<forall>t. utxo b' t = (case map_of m t of Some e \<Rightarrow> flushed b e | None \<Rightarrow> utxo b t)" "hash \<noteq> 0 \<longrightarrow> best_block b' = hash"
    using Flush_run [OF assms(1)] by blast
  have u: "utxo b' t = (if is_db b \<and> dirty m t then map_option stored (utxo (ViewCache b hm hash m) t)
      else utxo (ViewCache b hm hash m) t)" for t
    using b'(4) flushed_storable [OF assms(2), of t] by (auto simp: utxo_cache dirty_def split: option.splits)
  have "utxo b' t = utxo (ViewCache b hm hash m) t"
    if "\<forall>t c. utxo (ViewCache b hm hash m) t = Some c \<longrightarrow> 0 \<le> cVersion c" for t
    using that u [of t] stored_nonneg by (cases "utxo (ViewCache b hm hash m) t") auto
  then show ?thesis using b'(1-3,5) u by (intro exI [of _ b']) (simp add: fun_eq_iff)
qed

text \<open>Coins of a negative version that are flushed to an empty database.\<close>

lemma Flush_spec_witness:
  "\<exists>b'. Flush (ViewCache (ViewDB empty_db) False 7 [(1, \<lparr>e_coins = key_coins, DIRTY = True, FRESH = True\<rparr>)]) =
      Some (ViewCache b' False 7 []) \<and> utxo b' 1 = Some (key_coins\<lparr>cVersion := 123\<rparr>) \<and> best_block b' = 7"
proof -
  let ?m = "[(1, \<lparr>e_coins = key_coins, DIRTY = True, FRESH = True\<rparr>)] :: CCoinsMap"
  have ok: "view_ok (ViewCache (ViewDB empty_db) False 7 ?m)" by (simp add: map_ok_def entry_ok_def utxo_def)
  have st: "storable (ViewDB empty_db) ?m" using sample_decompresses key_coins_wf(1) by (simp add: storable_def)
  have d: "dirty ?m 1" by (simp add: dirty_def)
  have u: "utxo (ViewCache (ViewDB empty_db) False 7 ?m) 1 = Some key_coins"
    using key_coins_wf(2) by (simp add: utxo_cache keep_def)
  have "stored key_coins = key_coins\<lparr>cVersion := 123\<rparr>" by (simp add: stored_def stored_version_def key_coins_def)
  moreover obtain b' where b': "Flush (ViewCache (ViewDB empty_db) False 7 ?m) = Some (ViewCache b' False 7 [])"
    "utxo b' 1 = (if is_db (ViewDB empty_db) \<and> dirty ?m 1 then map_option stored (utxo (ViewCache (ViewDB empty_db) False 7 ?m) 1)
      else utxo (ViewCache (ViewDB empty_db) False 7 ?m) 1)" "(7 :: uint256) \<noteq> 0 \<longrightarrow> best_block b' = 7"
    using Flush_spec [OF ok st] by blast
  ultimately show ?thesis using d u by (intro exI [of _ b']) simp
qed

subsection \<open>The inputs of a transaction\<close>

definition available :: "view \<Rightarrow> COutPoint \<Rightarrow> bool" where
  "available v p \<longleftrightarrow> (\<exists>c. utxo v (op_hash p) = Some c \<and> IsAvailable c (unat (op_n p)))"

definition output_of :: "view \<Rightarrow> COutPoint \<Rightarrow> CTxOut" where
  "output_of v p = cvout (the (utxo v (op_hash p))) ! unat (op_n p)"

lemma available_coins:
  "available v p \<longleftrightarrow> (case view_coins v (op_hash p) of None \<Rightarrow> False | Some c \<Rightarrow> IsAvailable c (unat (op_n p)))"
proof -
  have "IsPruned c \<Longrightarrow> \<not> IsAvailable c n" for c n by (auto simp: IsPruned_unspent unspent_def IsAvailable_def)
  then show ?thesis by (auto simp: available_def utxo_def keep_def split: option.splits)
qed

lemma same_view_cache: "same_view (ViewCache b hm hash m) v' \<Longrightarrow> AccessCoins (ViewCache b hm hash m) t = (r, v') \<Longrightarrow>
    \<exists>b' m'. v' = ViewCache b' hm hash m'"
  by (auto simp: AccessCoins_def Let_def split: prod.splits option.splits)

lemma AccessCoins_cache:
  "AccessCoins (ViewCache b hm hash m) t = (r, v') \<Longrightarrow>
   \<exists>b' m'. v' = ViewCache b' hm hash m' \<and> r = view_coins (ViewCache b hm hash m) t \<and> same_view (ViewCache b hm hash m) v'"
  using AccessCoins_spec [of b hm hash m t r v'] same_view_cache [of b hm hash m v' t r] by blast

lemma have_inputs_loop_spec:
  "have_inputs_loop ins (ViewCache b hm hash m) = (r, v') \<Longrightarrow>
   r = list_all (\<lambda>i. available (ViewCache b hm hash m) (prevout i)) ins \<and> same_view (ViewCache b hm hash m) v'"
proof (induction ins arbitrary: b m)
  case (Cons i ins)
  obtain c w where a: "AccessCoins (ViewCache b hm hash m) (op_hash (prevout i)) = (c, w)" by fastforce
  then obtain b1 m1 where w: "w = ViewCache b1 hm hash m1" "c = view_coins (ViewCache b hm hash m) (op_hash (prevout i))"
    "same_view (ViewCache b hm hash m) w" using AccessCoins_cache by blast
  have av: "available (ViewCache b hm hash m) (prevout i) \<longleftrightarrow>
      (case c of None \<Rightarrow> False | Some c \<Rightarrow> IsAvailable c (unat (op_n (prevout i))))"
    by (simp only: available_coins w(2))
  have eq: "available w = available (ViewCache b hm hash m)"
    using same_view_utxo [OF w(3)] by (simp add: available_def fun_eq_iff)
  show ?case
  proof (cases "available (ViewCache b hm hash m) (prevout i)")
    case True
    then have "have_inputs_loop ins w = (r, v')" using Cons.prems a av by (auto split: option.splits)
    then show ?thesis using Cons.IH [of b1 m1] w(1,3) True eq same_view_trans by auto
  next
    case False
    then have "r = False" "v' = w" using Cons.prems a av by (auto split: option.splits if_splits)
    then show ?thesis using False w(3) by simp
  qed
qed simp

lemma value_in_loop_spec:
  assumes "list_all (\<lambda>i. available (ViewCache b hm hash m) (prevout i)) ins" "in_s 64 x"
  shows "\<exists>v'. value_in_loop ins x (ViewCache b hm hash m) =
      Some (wrap_s 64 (x + sum_list (map (\<lambda>i. nValue (output_of (ViewCache b hm hash m) (prevout i))) ins)), v') \<and>
    same_view (ViewCache b hm hash m) v'"
  using assms
proof (induction ins arbitrary: b m x)
  case Nil
  then show ?case by (simp add: wrap_s_id)
next
  case (Cons i ins)
  let ?v = "ViewCache b hm hash m"
  obtain c w where a: "AccessCoins ?v (op_hash (prevout i)) = (c, w)" by fastforce
  then obtain b1 m1 where w: "w = ViewCache b1 hm hash m1" "c = view_coins ?v (op_hash (prevout i))" "same_view ?v w"
    using AccessCoins_cache by blast
  have "available ?v (prevout i)" using Cons.prems by simp
  then obtain k where k: "c = Some k" "IsAvailable k (unat (op_n (prevout i)))" "utxo ?v (op_hash (prevout i)) = Some k"
    using w(2) by (auto simp: available_coins available_def utxo_def keep_def simp del: view_coins.simps split: option.splits if_splits)
      (metis IsPruned_unspent IsAvailable_def unspent_def)
  have eq: "utxo w = utxo ?v" using same_view_utxo [OF w(3)] .
  have out: "GetOutputFor i ?v = Some (output_of ?v (prevout i), w)"
    using a k by (simp add: GetOutputFor_def output_of_def)
  let ?x = "wrap_s 64 (x + nValue (output_of ?v (prevout i)))"
  have "list_all (\<lambda>i. available w (prevout i)) ins" using Cons.prems eq by (simp add: available_def)
  then obtain v' where "value_in_loop ins ?x w = Some (wrap_s 64 (?x + sum_list (map (\<lambda>i. nValue (output_of w (prevout i))) ins)), v')"
    "same_view w v'" using Cons.IH [of b1 m1 ?x] w(1) wrap_s_in_s by auto
  moreover have "wrap_s 64 (wrap_s 64 y + z) = wrap_s 64 (y + z)" for y z
    by (simp add: wrap_s_def mod_simps algebra_simps)
  ultimately show ?case using out same_view_trans [OF w(3)]
    by (auto simp: eq output_of_def add.assoc)
qed

text \<open>
  On any cache, \<open>HaveInputs\<close> of an ordinary transaction is true exactly when every input's
  output is available in the map of unspent outputs; then \<open>GetValueIn\<close> fails no assertion and
  is the sum of the outputs' values in the wrap-around arithmetic of \<open>int64_t\<close>. Neither changes
  the map.
\<close>

theorem inputs_spec:
  assumes "IsCoinBase tx = Some False" "IsZerocoinSpend_tx tx = Some False"
  shows "\<exists>v1 v2. HaveInputs tx (ViewCache b hm hash m) =
      Some (list_all (\<lambda>i. available (ViewCache b hm hash m) (prevout i)) (vin tx), v1) \<and>
    utxo v1 = utxo (ViewCache b hm hash m) \<and>
    (list_all (\<lambda>i. available (ViewCache b hm hash m) (prevout i)) (vin tx) \<longrightarrow>
      GetValueIn spent tx (ViewCache b hm hash m) = Some (wrap_s 64
        (sum_list (map (\<lambda>i. nValue (output_of (ViewCache b hm hash m) (prevout i))) (vin tx))), v2) \<and>
      utxo v2 = utxo (ViewCache b hm hash m))"
proof -
  obtain r v1 where h: "have_inputs_loop (vin tx) (ViewCache b hm hash m) = (r, v1)" by fastforce
  then show ?thesis using assms have_inputs_loop_spec [OF h] value_in_loop_spec [of b hm hash m "vin tx" 0]
    by (auto simp: HaveInputs_def GetValueIn_def in_s_def same_view_utxo simp del: have_inputs_loop.simps)
qed

lemma inputs_spec_witness:
  "\<exists>v1. HaveInputs sample_tx (ViewCache (ViewDB empty_db) False 0 []) = Some (False, v1)"
  using inputs_spec [of sample_tx "ViewDB empty_db" False 0 "[]"]
  by (auto simp: sample_tx_def mk_CTxIn_def IsCoinBase_def IsZerocoinSpend_tx_def OutPoint_IsNull_def available_def utxo_def)

end
