(* ===== verification/Interpreter.thy ===== *)
theory Interpreter
  imports Script
begin

section \<open>The script interpreter (script/interpreter.h, script/interpreter.cpp, script/script_error.h)\<close>

text \<open>
  The stack machine that decides whether an output may be spent. A stack is a list with its
  top at the head, so \<open>stacktop(-i)\<close> is element \<open>i - 1\<close>; the same holds for the alternate stack
  and for the conditions of the open \<open>OP_IF\<close> blocks. A step returns the new state, or the
  error the code sets; an exception that the interpreter catches is
  \<open>SCRIPT_ERR_UNKNOWN_ERROR\<close>, and a failed assertion, which would end the process, is \<open>Abort\<close>.
  The hash functions, the signature check and the low-S test are the fields of the
  environment record.

  The lemmas show that every execution stays within the limits on stack, elements and
  operations, that no assertion fails, that verification flags only ever reject more scripts,
  what the signature encoding rule accepts, and what pay-to-public-key-hash verifies.
\<close>

subsection \<open>Errors, flags and the environment\<close>

datatype ScriptError =
    SCRIPT_ERR_OK
  | SCRIPT_ERR_UNKNOWN_ERROR
  | SCRIPT_ERR_EVAL_FALSE
  | SCRIPT_ERR_OP_RETURN
  | SCRIPT_ERR_SCRIPT_SIZE
  | SCRIPT_ERR_PUSH_SIZE
  | SCRIPT_ERR_OP_COUNT
  | SCRIPT_ERR_STACK_SIZE
  | SCRIPT_ERR_SIG_COUNT
  | SCRIPT_ERR_PUBKEY_COUNT
  | SCRIPT_ERR_VERIFY
  | SCRIPT_ERR_EQUALVERIFY
  | SCRIPT_ERR_CHECKMULTISIGVERIFY
  | SCRIPT_ERR_CHECKSIGVERIFY
  | SCRIPT_ERR_NUMEQUALVERIFY
  | SCRIPT_ERR_BAD_OPCODE
  | SCRIPT_ERR_DISABLED_OPCODE
  | SCRIPT_ERR_INVALID_STACK_OPERATION
  | SCRIPT_ERR_INVALID_ALTSTACK_OPERATION
  | SCRIPT_ERR_UNBALANCED_CONDITIONAL
  | SCRIPT_ERR_SIG_HASHTYPE
  | SCRIPT_ERR_SIG_DER
  | SCRIPT_ERR_MINIMALDATA
  | SCRIPT_ERR_SIG_PUSHONLY
  | SCRIPT_ERR_SIG_HIGH_S
  | SCRIPT_ERR_SIG_NULLDUMMY
  | SCRIPT_ERR_PUBKEYTYPE
  | SCRIPT_ERR_DISCOURAGE_UPGRADABLE_NOPS

datatype stop = Err ScriptError | Abort

fun ScriptErrorString :: "ScriptError \<Rightarrow> string" where
  "ScriptErrorString SCRIPT_ERR_OK = ''No error''"
| "ScriptErrorString SCRIPT_ERR_EVAL_FALSE =
     ''Script evaluated without error but finished with a false/empty top stack element''"
| "ScriptErrorString SCRIPT_ERR_VERIFY = ''Script failed an OP_VERIFY operation''"
| "ScriptErrorString SCRIPT_ERR_EQUALVERIFY = ''Script failed an OP_EQUALVERIFY operation''"
| "ScriptErrorString SCRIPT_ERR_CHECKMULTISIGVERIFY = ''Script failed an OP_CHECKMULTISIGVERIFY operation''"
| "ScriptErrorString SCRIPT_ERR_CHECKSIGVERIFY = ''Script failed an OP_CHECKSIGVERIFY operation''"
| "ScriptErrorString SCRIPT_ERR_NUMEQUALVERIFY = ''Script failed an OP_NUMEQUALVERIFY operation''"
| "ScriptErrorString SCRIPT_ERR_SCRIPT_SIZE = ''Script is too big''"
| "ScriptErrorString SCRIPT_ERR_PUSH_SIZE = ''Push value size limit exceeded''"
| "ScriptErrorString SCRIPT_ERR_OP_COUNT = ''Operation limit exceeded''"
| "ScriptErrorString SCRIPT_ERR_STACK_SIZE = ''Stack size limit exceeded''"
| "ScriptErrorString SCRIPT_ERR_SIG_COUNT = ''Signature count negative or greater than pubkey count''"
| "ScriptErrorString SCRIPT_ERR_PUBKEY_COUNT = ''Pubkey count negative or limit exceeded''"
| "ScriptErrorString SCRIPT_ERR_BAD_OPCODE = ''Opcode missing or not understood''"
| "ScriptErrorString SCRIPT_ERR_DISABLED_OPCODE = ''Attempted to use a disabled opcode''"
| "ScriptErrorString SCRIPT_ERR_INVALID_STACK_OPERATION = ''Operation not valid with the current stack size''"
| "ScriptErrorString SCRIPT_ERR_INVALID_ALTSTACK_OPERATION =
     ''Operation not valid with the current altstack size''"
| "ScriptErrorString SCRIPT_ERR_OP_RETURN = ''OP_RETURN was encountered''"
| "ScriptErrorString SCRIPT_ERR_UNBALANCED_CONDITIONAL = ''Invalid OP_IF construction''"
| "ScriptErrorString SCRIPT_ERR_SIG_HASHTYPE = ''Signature hash type missing or not understood''"
| "ScriptErrorString SCRIPT_ERR_SIG_DER = ''Non-canonical DER signature''"
| "ScriptErrorString SCRIPT_ERR_MINIMALDATA = ''Data push larger than necessary''"
| "ScriptErrorString SCRIPT_ERR_SIG_PUSHONLY = ''Only non-push operators allowed in signatures''"
| "ScriptErrorString SCRIPT_ERR_SIG_HIGH_S = ''Non-canonical signature: S value is unnecessarily high''"
| "ScriptErrorString SCRIPT_ERR_SIG_NULLDUMMY = ''Dummy CHECKMULTISIG argument must be zero''"
| "ScriptErrorString SCRIPT_ERR_DISCOURAGE_UPGRADABLE_NOPS = ''NOPx reserved for soft-fork upgrades''"
| "ScriptErrorString SCRIPT_ERR_PUBKEYTYPE = ''Public key is neither compressed or uncompressed''"
| "ScriptErrorString SCRIPT_ERR_UNKNOWN_ERROR = ''unknown error''"

type_synonym flags = u32

definition SCRIPT_VERIFY_NONE :: flags where "SCRIPT_VERIFY_NONE = 0"
definition SCRIPT_VERIFY_P2SH :: flags where "SCRIPT_VERIFY_P2SH = push_bit 0 1"
definition SCRIPT_VERIFY_STRICTENC :: flags where "SCRIPT_VERIFY_STRICTENC = push_bit 1 1"
definition SCRIPT_VERIFY_DERSIG :: flags where "SCRIPT_VERIFY_DERSIG = push_bit 2 1"
definition SCRIPT_VERIFY_LOW_S :: flags where "SCRIPT_VERIFY_LOW_S = push_bit 3 1"
definition SCRIPT_VERIFY_NULLDUMMY :: flags where "SCRIPT_VERIFY_NULLDUMMY = push_bit 4 1"
definition SCRIPT_VERIFY_SIGPUSHONLY :: flags where "SCRIPT_VERIFY_SIGPUSHONLY = push_bit 5 1"
definition SCRIPT_VERIFY_MINIMALDATA :: flags where "SCRIPT_VERIFY_MINIMALDATA = push_bit 6 1"
definition SCRIPT_VERIFY_DISCOURAGE_UPGRADABLE_NOPS :: flags where
  "SCRIPT_VERIFY_DISCOURAGE_UPGRADABLE_NOPS = push_bit 7 1"

abbreviation (input) flag :: "flags \<Rightarrow> flags \<Rightarrow> bool" where
  "flag f x \<equiv> f AND x \<noteq> 0"

definition SIGHASH_ALL :: byte where "SIGHASH_ALL = 1"
definition SIGHASH_NONE :: byte where "SIGHASH_NONE = 2"
definition SIGHASH_SINGLE :: byte where "SIGHASH_SINGLE = 3"
definition SIGHASH_ANYONECANPAY :: byte where "SIGHASH_ANYONECANPAY = 0x80"

record env =
  CRIPEMD160 :: "bytes \<Rightarrow> bytes"
  CSHA1 :: "bytes \<Rightarrow> bytes"
  CSHA256 :: "bytes \<Rightarrow> bytes"
  CHash160 :: "bytes \<Rightarrow> bytes"
  CHash256 :: "bytes \<Rightarrow> bytes"
  CheckSig :: "valtype \<Rightarrow> valtype \<Rightarrow> CScript \<Rightarrow> bool"
  CheckLowS :: "bytes \<Rightarrow> bool"

subsection \<open>Encodings\<close>

fun CastToBool :: "valtype \<Rightarrow> bool" where
  "CastToBool [] = False"
| "CastToBool (b # bs) =
     (if b \<noteq> 0 then (if bs = [] \<and> b = 0x80 then False else True) else CastToBool bs)"

definition IsCompressedOrUncompressedPubKey :: "valtype \<Rightarrow> bool" where
  "IsCompressedOrUncompressedPubKey vchPubKey \<longleftrightarrow>
     (if length vchPubKey < 33 then False
      else if vchPubKey ! 0 = 0x04 then length vchPubKey = 65
      else if vchPubKey ! 0 = 0x02 \<or> vchPubKey ! 0 = 0x03 then length vchPubKey = 33
      else False)"

definition IsValidSignatureEncoding :: "bytes \<Rightarrow> bool" where
  "IsValidSignatureEncoding sig \<longleftrightarrow>
     (if length sig < 9 then False
      else if length sig > 73 then False
      else if sig ! 0 \<noteq> 0x30 then False
      else if unat (sig ! 1) \<noteq> length sig - 3 then False
      else let lenR = unat (sig ! 3) in
      if 5 + lenR \<ge> length sig then False
      else let lenS = unat (sig ! (5 + lenR)) in
      if lenR + lenS + 7 \<noteq> length sig then False
      else if sig ! 2 \<noteq> 0x02 then False
      else if lenR = 0 then False
      else if sig ! 4 AND 0x80 \<noteq> 0 then False
      else if lenR > 1 \<and> sig ! 4 = 0x00 \<and> \<not> sig ! 5 AND 0x80 \<noteq> 0 then False
      else if sig ! (lenR + 4) \<noteq> 0x02 then False
      else if lenS = 0 then False
      else if sig ! (lenR + 6) AND 0x80 \<noteq> 0 then False
      else if lenS > 1 \<and> sig ! (lenR + 6) = 0x00 \<and> \<not> sig ! (lenR + 7) AND 0x80 \<noteq> 0 then False
      else True)"

text \<open>The checks return the error they set, or \<open>None\<close> for success.\<close>

definition IsLowDERSignature :: "env \<Rightarrow> valtype \<Rightarrow> ScriptError option" where
  "IsLowDERSignature e vchSig =
     (if \<not> IsValidSignatureEncoding vchSig then Some SCRIPT_ERR_SIG_DER
      else if \<not> CheckLowS e (butlast vchSig) then Some SCRIPT_ERR_SIG_HIGH_S
      else None)"

definition IsDefinedHashtypeSignature :: "valtype \<Rightarrow> bool" where
  "IsDefinedHashtypeSignature vchSig \<longleftrightarrow>
     (if length vchSig = 0 then False
      else let nHashType = last vchSig AND NOT SIGHASH_ANYONECANPAY
           in \<not> (nHashType < SIGHASH_ALL \<or> nHashType > SIGHASH_SINGLE))"

definition CheckSignatureEncoding :: "env \<Rightarrow> flags \<Rightarrow> valtype \<Rightarrow> ScriptError option" where
  "CheckSignatureEncoding e flags vchSig =
     (if length vchSig = 0 then None
      else if flag flags (SCRIPT_VERIFY_DERSIG OR SCRIPT_VERIFY_LOW_S OR SCRIPT_VERIFY_STRICTENC) \<and>
              \<not> IsValidSignatureEncoding vchSig then Some SCRIPT_ERR_SIG_DER
      else if flag flags SCRIPT_VERIFY_LOW_S \<and> IsLowDERSignature e vchSig \<noteq> None
        then IsLowDERSignature e vchSig
      else if flag flags SCRIPT_VERIFY_STRICTENC \<and> \<not> IsDefinedHashtypeSignature vchSig
        then Some SCRIPT_ERR_SIG_HASHTYPE
      else None)"

definition CheckPubKeyEncoding :: "flags \<Rightarrow> valtype \<Rightarrow> ScriptError option" where
  "CheckPubKeyEncoding flags vchPubKey =
     (if flag flags SCRIPT_VERIFY_STRICTENC \<and> \<not> IsCompressedOrUncompressedPubKey vchPubKey
      then Some SCRIPT_ERR_PUBKEYTYPE else None)"

definition CheckMinimalPush :: "valtype \<Rightarrow> opcodetype \<Rightarrow> bool" where
  "CheckMinimalPush d opcode \<longleftrightarrow>
     (if length d = 0 then opcode = OP_0
      else if length d = 1 \<and> d ! 0 \<ge> 1 \<and> d ! 0 \<le> 16 then uint opcode = uint OP_1 + (uint (d ! 0) - 1)
      else if length d = 1 \<and> d ! 0 = 0x81 then opcode = OP_1NEGATE
      else if length d \<le> 75 then unat opcode = length d
      else if length d \<le> 255 then opcode = OP_PUSHDATA1
      else if length d \<le> 65535 then opcode = OP_PUSHDATA2
      else True)"

subsection \<open>The state and its operations\<close>

record estate =
  stack :: "valtype list"
  altstack :: "valtype list"
  vfExec :: "bool list"
  nOpCount :: nat
  pbegincodehash :: bytes

type_synonym outcome = "stop + estate"

definition vchFalse :: valtype where "vchFalse = []"
definition vchTrue :: valtype where "vchTrue = [1]"

definition vch_bool :: "bool \<Rightarrow> valtype" where
  "vch_bool b = (if b then vchTrue else vchFalse)"

definition fail :: "ScriptError \<Rightarrow> outcome" where
  "fail e = Inl (Err e)"

text \<open>Reading a stack element as a number: the exception of a bad number is caught.\<close>

definition num_of :: "flags \<Rightarrow> valtype \<Rightarrow> stop + CScriptNum" where
  "num_of flags vch =
     (case CScriptNum_of_vch vch (flag flags SCRIPT_VERIFY_MINIMALDATA) of
        Inl _ \<Rightarrow> Inl (Err SCRIPT_ERR_UNKNOWN_ERROR) | Inr n \<Rightarrow> Inr n)"

definition assert_num :: "CScriptNum option \<Rightarrow> stop + CScriptNum" where
  "assert_num r = (case r of None \<Rightarrow> Inl Abort | Some n \<Rightarrow> Inr n)"

definition exec_OP_N :: "opcodetype \<Rightarrow> estate \<Rightarrow> outcome" where
  "exec_OP_N opcode s =
     Inr (s\<lparr>stack := CScriptNum_serialize (uint opcode - (uint OP_1 - 1)) # stack s\<rparr>)"

definition exec_NOPx :: "flags \<Rightarrow> estate \<Rightarrow> outcome" where
  "exec_NOPx flags s =
     (if flag flags SCRIPT_VERIFY_DISCOURAGE_UPGRADABLE_NOPS
      then fail SCRIPT_ERR_DISCOURAGE_UPGRADABLE_NOPS else Inr s)"

definition exec_IF :: "opcodetype \<Rightarrow> bool \<Rightarrow> estate \<Rightarrow> outcome" where
  "exec_IF opcode fExec s =
     (if fExec then
        (case stack s of
           [] \<Rightarrow> fail SCRIPT_ERR_UNBALANCED_CONDITIONAL
         | vch # st \<Rightarrow>
             (let fValue = (if opcode = OP_NOTIF then \<not> CastToBool vch else CastToBool vch)
              in Inr (s\<lparr>stack := st, vfExec := fValue # vfExec s\<rparr>)))
      else Inr (s\<lparr>vfExec := False # vfExec s\<rparr>))"

definition exec_ELSE :: "estate \<Rightarrow> outcome" where
  "exec_ELSE s =
     (case vfExec s of
        [] \<Rightarrow> fail SCRIPT_ERR_UNBALANCED_CONDITIONAL
      | v # vf \<Rightarrow> Inr (s\<lparr>vfExec := (\<not> v) # vf\<rparr>))"

definition exec_ENDIF :: "estate \<Rightarrow> outcome" where
  "exec_ENDIF s =
     (case vfExec s of
        [] \<Rightarrow> fail SCRIPT_ERR_UNBALANCED_CONDITIONAL
      | v # vf \<Rightarrow> Inr (s\<lparr>vfExec := vf\<rparr>))"

definition exec_VERIFY :: "estate \<Rightarrow> outcome" where
  "exec_VERIFY s =
     (case stack s of
        [] \<Rightarrow> fail SCRIPT_ERR_INVALID_STACK_OPERATION
      | vch # st \<Rightarrow>
          if CastToBool vch then Inr (s\<lparr>stack := st\<rparr>) else fail SCRIPT_ERR_VERIFY)"

definition exec_TOALTSTACK :: "estate \<Rightarrow> outcome" where
  "exec_TOALTSTACK s =
     (case stack s of
        [] \<Rightarrow> fail SCRIPT_ERR_INVALID_STACK_OPERATION
      | x # st \<Rightarrow> Inr (s\<lparr>stack := st, altstack := x # altstack s\<rparr>))"

definition exec_FROMALTSTACK :: "estate \<Rightarrow> outcome" where
  "exec_FROMALTSTACK s =
     (case altstack s of
        [] \<Rightarrow> fail SCRIPT_ERR_INVALID_ALTSTACK_OPERATION
      | x # al \<Rightarrow> Inr (s\<lparr>stack := x # stack s, altstack := al\<rparr>))"

text \<open>
  The operations that only rearrange the stack: \<open>None\<close> where the stack is too small. The
  stack effects are those of the comments in the code, read from the top down.
\<close>

definition stack_op :: "opcodetype \<Rightarrow> valtype list \<Rightarrow> valtype list option" where
  "stack_op opcode st =
     (if opcode = OP_2DROP then
        (case st of x2 # x1 # r \<Rightarrow> Some r | _ \<Rightarrow> None)
      else if opcode = OP_2DUP then
        (case st of x2 # x1 # r \<Rightarrow> Some (x2 # x1 # x2 # x1 # r) | _ \<Rightarrow> None)
      else if opcode = OP_3DUP then
        (case st of x3 # x2 # x1 # r \<Rightarrow> Some (x3 # x2 # x1 # x3 # x2 # x1 # r) | _ \<Rightarrow> None)
      else if opcode = OP_2OVER then
        (case st of x4 # x3 # x2 # x1 # r \<Rightarrow> Some (x2 # x1 # x4 # x3 # x2 # x1 # r) | _ \<Rightarrow> None)
      else if opcode = OP_2ROT then
        (case st of x6 # x5 # x4 # x3 # x2 # x1 # r \<Rightarrow> Some (x2 # x1 # x6 # x5 # x4 # x3 # r) | _ \<Rightarrow> None)
      else if opcode = OP_2SWAP then
        (case st of x4 # x3 # x2 # x1 # r \<Rightarrow> Some (x2 # x1 # x4 # x3 # r) | _ \<Rightarrow> None)
      else if opcode = OP_IFDUP then
        (case st of x # r \<Rightarrow> Some (if CastToBool x then x # x # r else x # r) | _ \<Rightarrow> None)
      else if opcode = OP_DEPTH then
        Some (CScriptNum_serialize (int (length st)) # st)
      else if opcode = OP_DROP then
        (case st of x # r \<Rightarrow> Some r | _ \<Rightarrow> None)
      else if opcode = OP_DUP then
        (case st of x # r \<Rightarrow> Some (x # x # r) | _ \<Rightarrow> None)
      else if opcode = OP_NIP then
        (case st of x2 # x1 # r \<Rightarrow> Some (x2 # r) | _ \<Rightarrow> None)
      else if opcode = OP_OVER then
        (case st of x2 # x1 # r \<Rightarrow> Some (x1 # x2 # x1 # r) | _ \<Rightarrow> None)
      else if opcode = OP_ROT then
        (case st of x3 # x2 # x1 # r \<Rightarrow> Some (x1 # x3 # x2 # r) | _ \<Rightarrow> None)
      else if opcode = OP_SWAP then
        (case st of x2 # x1 # r \<Rightarrow> Some (x1 # x2 # r) | _ \<Rightarrow> None)
      else if opcode = OP_TUCK then
        (case st of x2 # x1 # r \<Rightarrow> Some (x2 # x1 # x2 # r) | _ \<Rightarrow> None)
      else \<comment> \<open>\<open>OP_SIZE\<close>\<close>
        (case st of x # r \<Rightarrow> Some (CScriptNum_serialize (int (length x)) # x # r) | _ \<Rightarrow> None))"

definition exec_stack_op :: "opcodetype \<Rightarrow> estate \<Rightarrow> outcome" where
  "exec_stack_op opcode s =
     (case stack_op opcode (stack s) of
        None \<Rightarrow> fail SCRIPT_ERR_INVALID_STACK_OPERATION
      | Some st \<Rightarrow> Inr (s\<lparr>stack := st\<rparr>))"

definition exec_PICK_ROLL :: "flags \<Rightarrow> opcodetype \<Rightarrow> estate \<Rightarrow> outcome" where
  "exec_PICK_ROLL flags opcode s =
     (if length (stack s) < 2 then fail SCRIPT_ERR_INVALID_STACK_OPERATION
      else bindE (num_of flags (stack s ! 0)) (\<lambda>num.
        let n = num_getint num;
            st = tl (stack s)
        in if n < 0 \<or> n \<ge> int (length st) then fail SCRIPT_ERR_INVALID_STACK_OPERATION
           else let k = nat n;
                    vch = st ! k;
                    st' = (if opcode = OP_ROLL then take k st @ drop (k + 1) st else st)
                in Inr (s\<lparr>stack := vch # st'\<rparr>)))"

definition exec_EQUAL :: "opcodetype \<Rightarrow> estate \<Rightarrow> outcome" where
  "exec_EQUAL opcode s =
     (case stack s of
        vch2 # vch1 # st \<Rightarrow>
          (let fEqual = (vch1 = vch2)
           in if opcode = OP_EQUALVERIFY then
                (if fEqual then Inr (s\<lparr>stack := st\<rparr>) else fail SCRIPT_ERR_EQUALVERIFY)
              else Inr (s\<lparr>stack := vch_bool fEqual # st\<rparr>))
      | _ \<Rightarrow> fail SCRIPT_ERR_INVALID_STACK_OPERATION)"

definition unary_num :: "opcodetype \<Rightarrow> CScriptNum \<Rightarrow> stop + CScriptNum" where
  "unary_num opcode bn =
     (if opcode = OP_1ADD then assert_num (num_add bn 1)
      else if opcode = OP_1SUB then assert_num (num_sub bn 1)
      else if opcode = OP_NEGATE then assert_num (num_neg bn)
      else if opcode = OP_ABS then (if bn < 0 then assert_num (num_neg bn) else Inr bn)
      else if opcode = OP_NOT then Inr (if bn = 0 then 1 else 0)
      else if opcode = OP_0NOTEQUAL then Inr (if bn \<noteq> 0 then 1 else 0)
      else Inl Abort)"

definition exec_unary :: "flags \<Rightarrow> opcodetype \<Rightarrow> estate \<Rightarrow> outcome" where
  "exec_unary flags opcode s =
     (case stack s of
        [] \<Rightarrow> fail SCRIPT_ERR_INVALID_STACK_OPERATION
      | x # st \<Rightarrow>
          bindE (num_of flags x) (\<lambda>bn.
          bindE (unary_num opcode bn) (\<lambda>r.
            Inr (s\<lparr>stack := CScriptNum_serialize r # st\<rparr>))))"

definition binary_num :: "opcodetype \<Rightarrow> CScriptNum \<Rightarrow> CScriptNum \<Rightarrow> stop + CScriptNum" where
  "binary_num opcode bn1 bn2 =
     (let b = (\<lambda>c. Inr (if c then 1 else 0)) in
      if opcode = OP_ADD then Inr (wrap_s 64 (bn1 + bn2))
      else if opcode = OP_SUB then Inr (wrap_s 64 (bn1 - bn2))
      else if opcode = OP_BOOLAND then b (bn1 \<noteq> 0 \<and> bn2 \<noteq> 0)
      else if opcode = OP_BOOLOR then b (bn1 \<noteq> 0 \<or> bn2 \<noteq> 0)
      else if opcode = OP_NUMEQUAL then b (bn1 = bn2)
      else if opcode = OP_NUMEQUALVERIFY then b (bn1 = bn2)
      else if opcode = OP_NUMNOTEQUAL then b (bn1 \<noteq> bn2)
      else if opcode = OP_LESSTHAN then b (bn1 < bn2)
      else if opcode = OP_GREATERTHAN then b (bn1 > bn2)
      else if opcode = OP_LESSTHANOREQUAL then b (bn1 \<le> bn2)
      else if opcode = OP_GREATERTHANOREQUAL then b (bn1 \<ge> bn2)
      else if opcode = OP_MIN then Inr (if bn1 < bn2 then bn1 else bn2)
      else if opcode = OP_MAX then Inr (if bn1 > bn2 then bn1 else bn2)
      else Inl Abort)"

definition exec_binary :: "flags \<Rightarrow> opcodetype \<Rightarrow> estate \<Rightarrow> outcome" where
  "exec_binary flags opcode s =
     (case stack s of
        x2 # x1 # st \<Rightarrow>
          bindE (num_of flags x1) (\<lambda>bn1.
          bindE (num_of flags x2) (\<lambda>bn2.
          bindE (binary_num opcode bn1 bn2) (\<lambda>bn.
            let r = CScriptNum_serialize bn
            in if opcode = OP_NUMEQUALVERIFY then
                 (if CastToBool r then Inr (s\<lparr>stack := st\<rparr>) else fail SCRIPT_ERR_NUMEQUALVERIFY)
               else Inr (s\<lparr>stack := r # st\<rparr>))))
      | _ \<Rightarrow> fail SCRIPT_ERR_INVALID_STACK_OPERATION)"

definition exec_WITHIN :: "flags \<Rightarrow> estate \<Rightarrow> outcome" where
  "exec_WITHIN flags s =
     (case stack s of
        x3 # x2 # x1 # st \<Rightarrow>
          bindE (num_of flags x1) (\<lambda>bn1.
          bindE (num_of flags x2) (\<lambda>bn2.
          bindE (num_of flags x3) (\<lambda>bn3.
            Inr (s\<lparr>stack := vch_bool (bn2 \<le> bn1 \<and> bn1 < bn3) # st\<rparr>))))
      | _ \<Rightarrow> fail SCRIPT_ERR_INVALID_STACK_OPERATION)"

definition exec_hash :: "env \<Rightarrow> opcodetype \<Rightarrow> estate \<Rightarrow> outcome" where
  "exec_hash e opcode s =
     (case stack s of
        [] \<Rightarrow> fail SCRIPT_ERR_INVALID_STACK_OPERATION
      | vch # st \<Rightarrow>
          (let vchHash =
             (if opcode = OP_RIPEMD160 then CRIPEMD160 e vch
              else if opcode = OP_SHA1 then CSHA1 e vch
              else if opcode = OP_SHA256 then CSHA256 e vch
              else if opcode = OP_HASH160 then CHash160 e vch
              else CHash256 e vch)
           in Inr (s\<lparr>stack := vchHash # st\<rparr>)))"

definition exec_CHECKSIG :: "env \<Rightarrow> flags \<Rightarrow> opcodetype \<Rightarrow> estate \<Rightarrow> outcome" where
  "exec_CHECKSIG e flags opcode s =
     (case stack s of
        vchPubKey # vchSig # st \<Rightarrow>
          (let scriptCode = snd (FindAndDelete (pbegincodehash s) (push_data [] vchSig)) in
           case CheckSignatureEncoding e flags vchSig of Some err \<Rightarrow> fail err | None \<Rightarrow>
           case CheckPubKeyEncoding flags vchPubKey of Some err \<Rightarrow> fail err | None \<Rightarrow>
           let fSuccess = CheckSig e vchSig vchPubKey scriptCode
           in if opcode = OP_CHECKSIGVERIFY then
                (if fSuccess then Inr (s\<lparr>stack := st\<rparr>) else fail SCRIPT_ERR_CHECKSIGVERIFY)
              else Inr (s\<lparr>stack := vch_bool fSuccess # st\<rparr>))
      | _ \<Rightarrow> fail SCRIPT_ERR_INVALID_STACK_OPERATION)"

text \<open>
  The loop over signatures and keys, each from the top of the stack down. There are never more
  signatures than keys when it is entered or goes on.
\<close>

fun multisig_loop :: "env \<Rightarrow> flags \<Rightarrow> CScript \<Rightarrow> valtype list \<Rightarrow> valtype list \<Rightarrow> ScriptError + bool" where
  "multisig_loop e flags scriptCode [] keys = Inr True"
| "multisig_loop e flags scriptCode (vchSig # sigs) [] = Inr False"
| "multisig_loop e flags scriptCode (vchSig # sigs) (vchPubKey # keys) =
     (case CheckSignatureEncoding e flags vchSig of Some err \<Rightarrow> Inl err | None \<Rightarrow>
      case CheckPubKeyEncoding flags vchPubKey of Some err \<Rightarrow> Inl err | None \<Rightarrow>
      (let fOk = CheckSig e vchSig vchPubKey scriptCode;
           sigs' = (if fOk then sigs else vchSig # sigs)
       in if length sigs' > length keys then Inr False
          else multisig_loop e flags scriptCode sigs' keys))"

definition exec_CHECKMULTISIG :: "env \<Rightarrow> flags \<Rightarrow> opcodetype \<Rightarrow> estate \<Rightarrow> outcome" where
  "exec_CHECKMULTISIG e flags opcode s =
     (let st = stack s in
      if length st < 1 then fail SCRIPT_ERR_INVALID_STACK_OPERATION else
      bindE (num_of flags (st ! 0)) (\<lambda>numKeys.
      let nKeys = num_getint numKeys in
      if nKeys < 0 \<or> nKeys > 20 then fail SCRIPT_ERR_PUBKEY_COUNT else
      let nKeysCount = nat nKeys;
          s1 = s\<lparr>nOpCount := nOpCount s + nKeysCount\<rparr> in
      if nOpCount s1 > 201 then fail SCRIPT_ERR_OP_COUNT else
      if length st < 2 + nKeysCount then fail SCRIPT_ERR_INVALID_STACK_OPERATION else
      bindE (num_of flags (st ! (1 + nKeysCount))) (\<lambda>numSigs.
      let nSigs = num_getint numSigs in
      if nSigs < 0 \<or> nSigs > nKeys then fail SCRIPT_ERR_SIG_COUNT else
      let nSigsCount = nat nSigs in
      if length st < 3 + nKeysCount + nSigsCount then fail SCRIPT_ERR_INVALID_STACK_OPERATION else
      let keys = take nKeysCount (drop 1 st);
          sigs = take nSigsCount (drop (2 + nKeysCount) st);
          scriptCode = foldl (\<lambda>c vchSig. snd (FindAndDelete c (push_data [] vchSig))) (pbegincodehash s) sigs in
      case multisig_loop e flags scriptCode sigs keys of Inl err \<Rightarrow> fail err | Inr fSuccess \<Rightarrow>
      let st1 = drop (2 + nKeysCount + nSigsCount) st in
      case st1 of
        [] \<Rightarrow> fail SCRIPT_ERR_INVALID_STACK_OPERATION
      | dummy # st2 \<Rightarrow>
          if flag flags SCRIPT_VERIFY_NULLDUMMY \<and> length dummy \<noteq> 0 then fail SCRIPT_ERR_SIG_NULLDUMMY
          else if opcode = OP_CHECKMULTISIGVERIFY then
            (if fSuccess then Inr (s1\<lparr>stack := st2\<rparr>) else fail SCRIPT_ERR_CHECKMULTISIGVERIFY)
          else Inr (s1\<lparr>stack := vch_bool fSuccess # st2\<rparr>))))"

definition disabled_ops :: "opcodetype list" where
  "disabled_ops =
     [OP_CAT, OP_SUBSTR, OP_LEFT, OP_RIGHT, OP_INVERT, OP_AND, OP_OR, OP_XOR, OP_2MUL, OP_2DIV,
      OP_MUL, OP_DIV, OP_MOD, OP_LSHIFT, OP_RSHIFT]"

text \<open>The switch over the opcode; \<open>pc\<close> is the rest of the script after the instruction.\<close>

definition exec_switch :: "env \<Rightarrow> flags \<Rightarrow> opcodetype \<Rightarrow> bool \<Rightarrow> bytes \<Rightarrow> estate \<Rightarrow> outcome" where
  "exec_switch e flags opcode fExec pc s =
     (if opcode = OP_1NEGATE \<or> (OP_1 \<le> opcode \<and> opcode \<le> OP_16) then exec_OP_N opcode s
      else if opcode = OP_NOP then Inr s
      else if OP_NOP1 \<le> opcode \<and> opcode \<le> OP_NOP10 then exec_NOPx flags s
      else if opcode = OP_IF \<or> opcode = OP_NOTIF then exec_IF opcode fExec s
      else if opcode = OP_ELSE then exec_ELSE s
      else if opcode = OP_ENDIF then exec_ENDIF s
      else if opcode = OP_VERIFY then exec_VERIFY s
      else if opcode = OP_RETURN then fail SCRIPT_ERR_OP_RETURN
      else if opcode = OP_TOALTSTACK then exec_TOALTSTACK s
      else if opcode = OP_FROMALTSTACK then exec_FROMALTSTACK s
      else if opcode = OP_PICK \<or> opcode = OP_ROLL then exec_PICK_ROLL flags opcode s
      else if (OP_2DROP \<le> opcode \<and> opcode \<le> OP_TUCK) \<or> opcode = OP_SIZE then exec_stack_op opcode s
      else if opcode = OP_EQUAL \<or> opcode = OP_EQUALVERIFY then exec_EQUAL opcode s
      else if opcode = OP_1ADD \<or> opcode = OP_1SUB \<or> opcode = OP_NEGATE \<or> opcode = OP_ABS \<or>
              opcode = OP_NOT \<or> opcode = OP_0NOTEQUAL then exec_unary flags opcode s
      else if opcode = OP_ADD \<or> opcode = OP_SUB \<or> (OP_BOOLAND \<le> opcode \<and> opcode \<le> OP_MAX)
        then exec_binary flags opcode s
      else if opcode = OP_WITHIN then exec_WITHIN flags s
      else if OP_RIPEMD160 \<le> opcode \<and> opcode \<le> OP_HASH256 then exec_hash e opcode s
      else if opcode = OP_CODESEPARATOR then Inr (s\<lparr>pbegincodehash := pc\<rparr>)
      else if opcode = OP_CHECKSIG \<or> opcode = OP_CHECKSIGVERIFY then exec_CHECKSIG e flags opcode s
      else if opcode = OP_CHECKMULTISIG \<or> opcode = OP_CHECKMULTISIGVERIFY
        then exec_CHECKMULTISIG e flags opcode s
      else fail SCRIPT_ERR_BAD_OPCODE)"

text \<open>One pass of the loop: the checks before the switch, the instruction, the size limit.\<close>

definition exec_instr :: "env \<Rightarrow> flags \<Rightarrow> opcodetype \<Rightarrow> valtype \<Rightarrow> bytes \<Rightarrow> estate \<Rightarrow> outcome" where
  "exec_instr e flags opcode vchPushValue pc s0 =
     (let fExec = list_all id (vfExec s0) in
      if length vchPushValue > MAX_SCRIPT_ELEMENT_SIZE then fail SCRIPT_ERR_PUSH_SIZE else
      let s = (if opcode > OP_16 then s0\<lparr>nOpCount := nOpCount s0 + 1\<rparr> else s0) in
      if opcode > OP_16 \<and> nOpCount s > 201 then fail SCRIPT_ERR_OP_COUNT else
      if opcode \<in> set disabled_ops then fail SCRIPT_ERR_DISABLED_OPCODE else
      bindE
        (if fExec \<and> opcode \<le> OP_PUSHDATA4 then
           (if flag flags SCRIPT_VERIFY_MINIMALDATA \<and> \<not> CheckMinimalPush vchPushValue opcode
            then fail SCRIPT_ERR_MINIMALDATA
            else Inr (s\<lparr>stack := vchPushValue # stack s\<rparr>))
         else if fExec \<or> (OP_IF \<le> opcode \<and> opcode \<le> OP_ENDIF)
           then exec_switch e flags opcode fExec pc s
         else Inr s)
        (\<lambda>s'. if length (stack s') + length (altstack s') > 1000 then fail SCRIPT_ERR_STACK_SIZE
              else Inr s'))"

function eval_loop :: "env \<Rightarrow> flags \<Rightarrow> bytes \<Rightarrow> estate \<Rightarrow> outcome" where
  "eval_loop e flags pc s =
     (if pc = [] then Inr s
      else case GetOp2 pc of
        (ok, opcode, vchPushValue, pc') \<Rightarrow>
          if \<not> ok then fail SCRIPT_ERR_BAD_OPCODE
          else bindE (exec_instr e flags opcode vchPushValue pc' s) (eval_loop e flags pc'))"
  by pat_completeness auto
termination
  by (relation "measure (\<lambda>(e, flags, pc, s). length pc)")
    (auto dest!: GetOp2_ok_shorter sym [of _ "GetOp2 _"])

declare eval_loop.simps [simp del]

definition initial_state :: "valtype list \<Rightarrow> CScript \<Rightarrow> estate" where
  "initial_state st script =
     \<lparr>stack = st, altstack = [], vfExec = [], nOpCount = 0, pbegincodehash = script\<rparr>"

definition EvalScript :: "env \<Rightarrow> flags \<Rightarrow> valtype list \<Rightarrow> CScript \<Rightarrow> stop + valtype list" where
  "EvalScript e flags st script =
     (if length script > 10000 then Inl (Err SCRIPT_ERR_SCRIPT_SIZE)
      else bindE (eval_loop e flags script (initial_state st script)) (\<lambda>s.
        if vfExec s \<noteq> [] then Inl (Err SCRIPT_ERR_UNBALANCED_CONDITIONAL)
        else Inr (stack s)))"

definition VerifyScript :: "env \<Rightarrow> flags \<Rightarrow> CScript \<Rightarrow> CScript \<Rightarrow> stop + unit" where
  "VerifyScript e flags scriptSig scriptPubKey =
     (if flag flags SCRIPT_VERIFY_SIGPUSHONLY \<and> \<not> IsPushOnly scriptSig
      then Inl (Err SCRIPT_ERR_SIG_PUSHONLY)
      else
      bindE (EvalScript e flags [] scriptSig) (\<lambda>st1.
      bindE (EvalScript e flags st1 scriptPubKey) (\<lambda>st2.
      if st2 = [] then Inl (Err SCRIPT_ERR_EVAL_FALSE)
      else if \<not> CastToBool (hd st2) then Inl (Err SCRIPT_ERR_EVAL_FALSE)
      else if flag flags SCRIPT_VERIFY_P2SH \<and> IsPayToScriptHash scriptPubKey then
        (if \<not> IsPushOnly scriptSig then Inl (Err SCRIPT_ERR_SIG_PUSHONLY)
         else (case st1 of
           [] \<Rightarrow> Inl Abort
         | pubKeySerialized # stackCopy \<Rightarrow>
             bindE (EvalScript e flags stackCopy pubKeySerialized) (\<lambda>st3.
             if st3 = [] then Inl (Err SCRIPT_ERR_EVAL_FALSE)
             else if \<not> CastToBool (hd st3) then Inl (Err SCRIPT_ERR_EVAL_FALSE)
             else Inr ())))
      else Inr ())))"

subsection \<open>Bounds on stack elements\<close>

named_theorems exec_defs \<open>the definitions of the operation groups\<close>

lemmas [exec_defs] = exec_OP_N_def exec_NOPx_def exec_IF_def exec_ELSE_def exec_ENDIF_def exec_VERIFY_def
  exec_TOALTSTACK_def exec_FROMALTSTACK_def exec_stack_op_def exec_PICK_ROLL_def exec_EQUAL_def
  exec_unary_def exec_binary_def exec_WITHIN_def exec_hash_def exec_CHECKSIG_def exec_CHECKMULTISIG_def
  fail_def

lemma length_serialize_le9: "\<bar>v\<bar> < 2 ^ 64 \<Longrightarrow> length (CScriptNum_serialize v) \<le> 9"
proof (cases "v = 0")
  case False
  assume v: "\<bar>v\<bar> < 2 ^ 64"
  let ?m = "nat \<bar>v\<bar>"
  have m: "0 < ?m" using False by simp
  have "int ?m < int (2 ^ 64)" using v by simp
  then have m64: "?m < 2 ^ 64" by (simp only: of_nat_less_iff)
  have "length (scriptnum_bytes ?m) \<le> 8"
  proof (rule ccontr)
    assume "\<not> length (scriptnum_bytes ?m) \<le> 8"
    then have "(256 :: nat) ^ 8 \<le> 256 ^ (length (scriptnum_bytes ?m) - 1)" by (intro power_increasing) auto
    then have "256 ^ 8 \<le> ?m" using length_scriptnum_bytes [OF m] by (rule le_trans)
    moreover have "(256 :: nat) ^ 8 = 2 ^ 64" by simp
    ultimately show False using m64 by linarith
  qed
  moreover have "scriptnum_bytes ?m \<noteq> []" using scriptnum_bytes_props [of ?m] m by simp
  ultimately show ?thesis using False by (auto simp: CScriptNum_serialize_def Let_def)
qed (simp add: CScriptNum_serialize_def)

definition small :: "valtype \<Rightarrow> bool" where
  "small v \<longleftrightarrow> length v \<le> MAX_SCRIPT_ELEMENT_SIZE"

definition small_state :: "estate \<Rightarrow> bool" where
  "small_state s \<longleftrightarrow> list_all small (stack s) \<and> list_all small (altstack s) \<and> length (stack s) \<le> 1000"

lemma small_num: "\<bar>v\<bar> < 2 ^ 64 \<Longrightarrow> small (CScriptNum_serialize v)"
  using length_serialize_le9 [of v] by (simp add: small_def MAX_SCRIPT_ELEMENT_SIZE_def)

lemma small_bool [simp]: "small (vch_bool b)"
  by (simp add: vch_bool_def vchTrue_def vchFalse_def small_def MAX_SCRIPT_ELEMENT_SIZE_def)

lemma num_of_range: "num_of flags v = Inr n \<Longrightarrow> \<bar>n\<bar> < 2 ^ 31"
  using set_vch_bound [of v]
  by (auto simp: num_of_def CScriptNum_of_vch_def nMaxNumSize_def split: if_splits sum.splits)

lemma unary_num_range: "unary_num opcode n = Inr r \<Longrightarrow> \<bar>n\<bar> < 2 ^ 31 \<Longrightarrow> \<bar>r\<bar> < 2 ^ 64"
  by (auto simp: unary_num_def assert_num_def num_add_def num_sub_def num_neg_def split: if_splits option.splits)

lemma binary_num_range:
  "binary_num opcode a b = Inr r \<Longrightarrow> \<bar>a\<bar> < 2 ^ 31 \<Longrightarrow> \<bar>b\<bar> < 2 ^ 31 \<Longrightarrow> \<bar>r\<bar> < 2 ^ 64"
proof -
  have w: "\<bar>wrap_s 64 x\<bar> < 2 ^ 64" for x using wrap_s_in_s [of 64 x] by (simp add: in_s_def abs_less_iff)
  assume "binary_num opcode a b = Inr r" "\<bar>a\<bar> < 2 ^ 31" "\<bar>b\<bar> < 2 ^ 31"
  then show ?thesis using w [of "a + b"] w [of "a - b"]
    by (auto simp: binary_num_def Let_def split: if_splits)
qed

text \<open>What the library guarantees of the hash functions: digests of 20 and 32 bytes.\<close>

definition env_ok :: "env \<Rightarrow> bool" where
  "env_ok e \<longleftrightarrow> (\<forall>x. length (CRIPEMD160 e x) = 20 \<and> length (CSHA1 e x) = 20 \<and> length (CSHA256 e x) = 32 \<and>
     length (CHash160 e x) = 20 \<and> length (CHash256 e x) = 32)"

lemma stack_op_small:
  "stack_op opcode st = Some st' \<Longrightarrow> list_all small st \<Longrightarrow> length st \<le> 1000 \<Longrightarrow> list_all small st'"
proof -
  assume st: "stack_op opcode st = Some st'" "list_all small st" "length st \<le> 1000"
  have n: "n \<le> 1000 \<Longrightarrow> small (CScriptNum_serialize (int n))" for n by (rule small_num) simp
  have le: "small x \<Longrightarrow> small (CScriptNum_serialize (int (length x)))" for x
    by (rule n) (simp add: small_def MAX_SCRIPT_ELEMENT_SIZE_def)
  show ?thesis using st unfolding stack_op_def by (auto intro: n le split: if_splits list.splits)
qed

lemma exec_stack_op_small:
  "exec_stack_op opcode s = Inr s' \<Longrightarrow> small_state s \<Longrightarrow> list_all small (stack s') \<and> list_all small (altstack s')"
  using stack_op_small [of opcode "stack s"]
  by (auto simp: exec_stack_op_def fail_def small_state_def split: option.splits)

lemma exec_PICK_ROLL_small:
  "exec_PICK_ROLL flags opcode s = Inr s' \<Longrightarrow> small_state s \<Longrightarrow> list_all small (stack s') \<and> list_all small (altstack s')"
  by (cases "stack s")
    (auto simp: exec_PICK_ROLL_def fail_def small_state_def bindE_Inr_conv Let_def list_all_iff
      split: if_splits dest!: in_set_takeD in_set_dropD)

lemma exec_unary_small:
  "exec_unary flags opcode s = Inr s' \<Longrightarrow> small_state s \<Longrightarrow> list_all small (stack s') \<and> list_all small (altstack s')"
  by (auto simp: exec_unary_def fail_def small_state_def bindE_Inr_conv split: list.splits
      intro!: small_num dest!: num_of_range unary_num_range)

lemma exec_binary_small:
  "exec_binary flags opcode s = Inr s' \<Longrightarrow> small_state s \<Longrightarrow> list_all small (stack s') \<and> list_all small (altstack s')"
  by (auto simp: exec_binary_def fail_def small_state_def bindE_Inr_conv Let_def split: list.splits if_splits
      intro!: small_num dest!: num_of_range binary_num_range)

lemma exec_hash_small:
  "env_ok e \<Longrightarrow> exec_hash e opcode s = Inr s' \<Longrightarrow> small_state s \<Longrightarrow>
    list_all small (stack s') \<and> list_all small (altstack s')"
  by (auto simp: exec_hash_def fail_def small_state_def env_ok_def small_def MAX_SCRIPT_ELEMENT_SIZE_def Let_def
      split: list.splits if_splits)

lemma exec_CHECKMULTISIG_shape:
  assumes "exec_CHECKMULTISIG e flags opcode s = Inr s'"
  shows "\<exists>nk k b dummy st2. drop k (stack s) = dummy # st2 \<and> nOpCount s + nk \<le> 201 \<and>
    s' = s\<lparr>nOpCount := nOpCount s + nk,
           stack := (if opcode = OP_CHECKMULTISIGVERIFY then st2 else vch_bool b # st2)\<rparr>"
proof -
  let ?st = "stack s"
  obtain a where a: "num_of flags (?st ! 0) = Inr a" "\<not> nOpCount s + nat (num_getint a) > 201"
    and r1: "bindE (num_of flags (?st ! (1 + nat (num_getint a)))) (\<lambda>numSigs.
      let nSigs = num_getint numSigs in
      if nSigs < 0 \<or> nSigs > num_getint a then fail SCRIPT_ERR_SIG_COUNT else
      let nSigsCount = nat nSigs in
      if length ?st < 3 + nat (num_getint a) + nSigsCount then fail SCRIPT_ERR_INVALID_STACK_OPERATION else
      let keys = take (nat (num_getint a)) (drop 1 ?st);
          sigs = take nSigsCount (drop (2 + nat (num_getint a)) ?st);
          scriptCode = foldl (\<lambda>c vchSig. snd (FindAndDelete c (push_data [] vchSig))) (pbegincodehash s) sigs in
      case multisig_loop e flags scriptCode sigs keys of Inl err \<Rightarrow> fail err | Inr fSuccess \<Rightarrow>
      let st1 = drop (2 + nat (num_getint a) + nSigsCount) ?st in
      case st1 of
        [] \<Rightarrow> fail SCRIPT_ERR_INVALID_STACK_OPERATION
      | dummy # st2 \<Rightarrow>
          if flag flags SCRIPT_VERIFY_NULLDUMMY \<and> length dummy \<noteq> 0 then fail SCRIPT_ERR_SIG_NULLDUMMY
          else if opcode = OP_CHECKMULTISIGVERIFY then
            (if fSuccess then Inr (s\<lparr>nOpCount := nOpCount s + nat (num_getint a)\<rparr>\<lparr>stack := st2\<rparr>)
             else fail SCRIPT_ERR_CHECKMULTISIGVERIFY)
          else Inr (s\<lparr>nOpCount := nOpCount s + nat (num_getint a)\<rparr>\<lparr>stack := vch_bool fSuccess # st2\<rparr>)) = Inr s'"
    using assms unfolding exec_CHECKMULTISIG_def
    by (auto simp: fail_def bindE_Inr_conv Let_def split: if_splits)
  obtain b' where b: "num_of flags (?st ! (1 + nat (num_getint a))) = Inr b'"
    using r1 by (auto simp: bindE_Inr_conv)
  let ?k = "2 + nat (num_getint a) + nat (num_getint b')"
  show ?thesis
  proof (cases "drop ?k ?st")
    case Nil
    then show ?thesis using r1 b by (auto simp: fail_def Let_def split: if_splits sum.splits)
  next
    case (Cons dummy st2)
    have "\<exists>c. s' = s\<lparr>nOpCount := nOpCount s + nat (num_getint a),
           stack := (if opcode = OP_CHECKMULTISIGVERIFY then st2 else vch_bool c # st2)\<rparr>"
      using r1 b Cons by (auto simp: fail_def Let_def split: if_splits sum.splits)
    then show ?thesis using Cons a(2) by (metis not_le)
  qed
qed

lemma list_all_drop: "list_all P xs \<Longrightarrow> list_all P (drop k xs)"
  by (auto simp: list_all_iff dest: in_set_dropD)

lemma exec_CHECKMULTISIG_small:
  assumes "exec_CHECKMULTISIG e flags opcode s = Inr s'" "small_state s"
  shows "list_all small (stack s') \<and> list_all small (altstack s')"
proof -
  obtain nk k b dummy st2 where d: "drop k (stack s) = dummy # st2"
    and s': "s' = s\<lparr>nOpCount := nOpCount s + nk,
           stack := (if opcode = OP_CHECKMULTISIGVERIFY then st2 else vch_bool b # st2)\<rparr>"
    using exec_CHECKMULTISIG_shape [OF assms(1)] by blast
  have "list_all small (dummy # st2)"
    using assms(2) list_all_drop [of small "stack s" k] by (simp add: small_state_def d)
  then show ?thesis using assms(2) by (simp add: s' small_state_def)
qed

text \<open>What holds of every group of operations holds of the switch.\<close>

lemma if_intro: "(c \<Longrightarrow> P a) \<Longrightarrow> (\<not> c \<Longrightarrow> P b) \<Longrightarrow> P (if c then a else b)"
  by simp

lemma if_fail: "(if c then fail err else r) = Inr x \<longleftrightarrow> \<not> c \<and> r = Inr x"
  by (simp add: fail_def)

lemma exec_switch_all:
  assumes
    "P (exec_OP_N opcode s)"
    "P (Inr s)"
    "P (exec_NOPx flags s)"
    "P (exec_IF opcode fExec s)"
    "P (exec_ELSE s)"
    "P (exec_ENDIF s)"
    "P (exec_VERIFY s)"
    "P (fail SCRIPT_ERR_OP_RETURN)"
    "P (exec_TOALTSTACK s)"
    "P (exec_FROMALTSTACK s)"
    "P (exec_PICK_ROLL flags opcode s)"
    "P (exec_stack_op opcode s)"
    "P (exec_EQUAL opcode s)"
    "opcode = OP_1ADD \<or> opcode = OP_1SUB \<or> opcode = OP_NEGATE \<or> opcode = OP_ABS \<or> opcode = OP_NOT \<or> opcode = OP_0NOTEQUAL \<Longrightarrow> P (exec_unary flags opcode s)"
    "opcode = OP_ADD \<or> opcode = OP_SUB \<or> (OP_BOOLAND \<le> opcode \<and> opcode \<le> OP_MAX) \<Longrightarrow> P (exec_binary flags opcode s)"
    "P (exec_WITHIN flags s)"
    "P (exec_hash e opcode s)"
    "P (Inr (s\<lparr>pbegincodehash := pc\<rparr>))"
    "P (exec_CHECKSIG e flags opcode s)"
    "P (exec_CHECKMULTISIG e flags opcode s)"
    "P (fail SCRIPT_ERR_BAD_OPCODE)"
  shows "P (exec_switch e flags opcode fExec pc s)"
  unfolding exec_switch_def
  by (rule if_intro [where P = P] | rule assms | assumption)+

lemma exec_switchE:
  assumes "exec_switch e flags opcode fExec pc s = Inr s'"
    "exec_OP_N opcode s = Inr s' \<Longrightarrow> thesis"
    "s' = s \<Longrightarrow> thesis"
    "exec_NOPx flags s = Inr s' \<Longrightarrow> thesis"
    "exec_IF opcode fExec s = Inr s' \<Longrightarrow> thesis"
    "exec_ELSE s = Inr s' \<Longrightarrow> thesis"
    "exec_ENDIF s = Inr s' \<Longrightarrow> thesis"
    "exec_VERIFY s = Inr s' \<Longrightarrow> thesis"
    "exec_TOALTSTACK s = Inr s' \<Longrightarrow> thesis"
    "exec_FROMALTSTACK s = Inr s' \<Longrightarrow> thesis"
    "exec_PICK_ROLL flags opcode s = Inr s' \<Longrightarrow> thesis"
    "exec_stack_op opcode s = Inr s' \<Longrightarrow> thesis"
    "exec_EQUAL opcode s = Inr s' \<Longrightarrow> thesis"
    "exec_unary flags opcode s = Inr s' \<Longrightarrow> thesis"
    "exec_binary flags opcode s = Inr s' \<Longrightarrow> thesis"
    "exec_WITHIN flags s = Inr s' \<Longrightarrow> thesis"
    "exec_hash e opcode s = Inr s' \<Longrightarrow> thesis"
    "s' = s\<lparr>pbegincodehash := pc\<rparr> \<Longrightarrow> thesis"
    "exec_CHECKSIG e flags opcode s = Inr s' \<Longrightarrow> thesis"
    "exec_CHECKMULTISIG e flags opcode s = Inr s' \<Longrightarrow> thesis"
  shows thesis
proof -
  have "exec_switch e flags opcode fExec pc s = Inr s' \<longrightarrow> thesis"
    by (rule exec_switch_all) (use assms(2-) in \<open>simp_all add: fail_def\<close>)
  then show thesis using assms(1) by simp
qed

lemma exec_switch_small:
  assumes "env_ok e" "exec_switch e flags opcode fExec pc s = Inr s'" "small_state s"
  shows "list_all small (stack s') \<and> list_all small (altstack s')"
  using assms(2)
proof (rule exec_switchE)
  assume o: "exec_OP_N opcode s = Inr s'"
  have "0 \<le> uint opcode" "uint opcode < 256" using uint_bounded [of opcode] by simp_all
  then have "\<bar>uint opcode - 80\<bar> < 256" by linarith
  then have "\<bar>uint opcode - (uint OP_1 - 1)\<bar> < 2 ^ 64" by simp
  then show ?thesis using assms(3) small_num o by (auto simp: exec_OP_N_def small_state_def)
next
  assume "exec_stack_op opcode s = Inr s'"
  then show ?thesis using assms(3) by (rule exec_stack_op_small)
next
  assume "exec_PICK_ROLL flags opcode s = Inr s'"
  then show ?thesis using assms(3) by (rule exec_PICK_ROLL_small)
next
  assume "exec_unary flags opcode s = Inr s'"
  then show ?thesis using assms(3) by (rule exec_unary_small)
next
  assume "exec_binary flags opcode s = Inr s'"
  then show ?thesis using assms(3) by (rule exec_binary_small)
next
  assume "exec_hash e opcode s = Inr s'"
  then show ?thesis using assms(3) by (rule exec_hash_small [OF assms(1)])
next
  assume "exec_CHECKMULTISIG e flags opcode s = Inr s'"
  then show ?thesis using assms(3) by (rule exec_CHECKMULTISIG_small)
qed (use assms(3) in \<open>auto simp: exec_defs small_state_def bindE_Inr_conv Let_def
        simp del: exec_CHECKMULTISIG_def split: if_splits list.splits option.splits\<close>)

lemma exec_switch_ops:
  assumes "exec_switch e flags opcode fExec pc s = Inr s'" "nOpCount s \<le> 201"
  shows "nOpCount s' \<le> 201"
  using assms(1)
proof (rule exec_switchE)
  assume "exec_CHECKMULTISIG e flags opcode s = Inr s'"
  then show ?thesis using exec_CHECKMULTISIG_shape [of e flags opcode s s'] by auto
qed (use assms(2) in \<open>auto simp: exec_defs bindE_Inr_conv Let_def
        simp del: exec_CHECKMULTISIG_def split: if_splits list.splits option.splits\<close>)

text \<open>The limits that hold between instructions.\<close>

definition within_limits :: "estate \<Rightarrow> bool" where
  "within_limits s \<longleftrightarrow> list_all small (stack s) \<and> list_all small (altstack s) \<and>
     length (stack s) + length (altstack s) \<le> 1000 \<and> nOpCount s \<le> 201"

lemma exec_instr_limits:
  assumes "env_ok e" "exec_instr e flags opcode v pc s = Inr s'" "within_limits s"
  shows "within_limits s'"
proof -
  define s1 where "s1 = (if opcode > OP_16 then s\<lparr>nOpCount := nOpCount s + 1\<rparr> else s)"
  have sm: "small_state s1" using assms(3) by (simp add: s1_def within_limits_def small_state_def)
  define r where "r = (if list_all id (vfExec s) \<and> opcode \<le> OP_PUSHDATA4 then
           (if flag flags SCRIPT_VERIFY_MINIMALDATA \<and> \<not> CheckMinimalPush v opcode
            then fail SCRIPT_ERR_MINIMALDATA
            else Inr (s1\<lparr>stack := v # stack s1\<rparr>))
         else if list_all id (vfExec s) \<or> (OP_IF \<le> opcode \<and> opcode \<le> OP_ENDIF)
           then exec_switch e flags opcode (list_all id (vfExec s)) pc s1
         else Inr s1)"
  define g where "g = (\<lambda>s'. if length (stack s') + length (altstack s') > 1000 then fail SCRIPT_ERR_STACK_SIZE else Inr s')"
  have eq: "exec_instr e flags opcode v pc s =
     (if length v > MAX_SCRIPT_ELEMENT_SIZE then fail SCRIPT_ERR_PUSH_SIZE
      else if opcode > OP_16 \<and> nOpCount s1 > 201 then fail SCRIPT_ERR_OP_COUNT
      else if opcode \<in> set disabled_ops then fail SCRIPT_ERR_DISABLED_OPCODE
      else bindE r g)"
    unfolding exec_instr_def Let_def r_def s1_def g_def by (rule refl)
  have v: "small v" and ops: "\<not> (opcode > OP_16 \<and> nOpCount s1 > 201)" and "bindE r g = Inr s'"
    using assms(2) unfolding eq if_fail small_def by simp_all
  then have x: "r = Inr s'" "length (stack s') + length (altstack s') \<le> 1000"
    by (auto simp: bindE_Inr_conv g_def fail_def split: if_splits)
  have n1: "nOpCount s1 \<le> 201" using ops assms(3) by (auto simp: s1_def within_limits_def)
  have "list_all small (stack s') \<and> list_all small (altstack s') \<and> nOpCount s' \<le> 201"
  proof -
    consider "s' = s1\<lparr>stack := v # stack s1\<rparr>" | "exec_switch e flags opcode (list_all id (vfExec s)) pc s1 = Inr s'"
      | "s' = s1"
    proof (cases "list_all id (vfExec s) \<and> opcode \<le> OP_PUSHDATA4")
      case True
      then have "s' = s1\<lparr>stack := v # stack s1\<rparr>" using x(1) by (auto simp: r_def if_fail)
      then show thesis by (rule that(1))
    next
      case False
      then have "(if list_all id (vfExec s) \<or> (OP_IF \<le> opcode \<and> opcode \<le> OP_ENDIF)
         then exec_switch e flags opcode (list_all id (vfExec s)) pc s1 else Inr s1) = Inr s'"
        using x(1) by (simp only: r_def if_False)
      then show thesis using that(2,3) by (cases "list_all id (vfExec s) \<or> (OP_IF \<le> opcode \<and> opcode \<le> OP_ENDIF)") simp_all
    qed
    then show ?thesis
    proof cases
      case 1
      then show ?thesis using sm n1 v by (simp add: small_state_def)
    next
      case 2
      then show ?thesis using exec_switch_small [OF assms(1) 2 sm] exec_switch_ops [OF 2 n1] by simp
    next
      case 3
      then show ?thesis using sm n1 by (simp add: small_state_def)
    qed
  qed
  then show ?thesis using x(2) by (simp add: within_limits_def)
qed

lemma eval_loop_limits:
  "env_ok e \<Longrightarrow> eval_loop e flags pc s = Inr s' \<Longrightarrow> within_limits s \<Longrightarrow> within_limits s'"
proof (induction e flags pc s rule: eval_loop.induct)
  case (1 e flags pc s)
  show ?case
  proof (cases "pc = []")
    case True
    then show ?thesis using 1 by (subst (asm) (2) eval_loop.simps) simp
  next
    case False
    obtain ok opcode v pc' where g: "GetOp2 pc = (ok, opcode, v, pc')" by (cases "GetOp2 pc") auto
    obtain s1 where s1: "ok" "exec_instr e flags opcode v pc' s = Inr s1" "eval_loop e flags pc' s1 = Inr s'"
      using 1(3) False g by (subst (asm) eval_loop.simps) (auto simp: fail_def bindE_Inr_conv split: if_splits)
    show ?thesis
      using 1(1) [OF False g [symmetric] refl refl _ ] s1 exec_instr_limits [OF 1(2) s1(2) 1(4)] 1(2) by auto
  qed
qed

subsection \<open>No assertion fails\<close>

lemma num_of_no_abort: "num_of flags v \<noteq> Inl Abort"
  by (auto simp: num_of_def split: sum.splits)

lemma bindE_no_abort:
  "m \<noteq> Inl Abort \<Longrightarrow> (\<And>x. m = Inr x \<Longrightarrow> f x \<noteq> Inl Abort) \<Longrightarrow> bindE m f \<noteq> Inl Abort"
  by (cases m) auto

lemma unary_num_no_abort:
  "\<bar>n\<bar> < 2 ^ 31 \<Longrightarrow> opcode = OP_1ADD \<or> opcode = OP_1SUB \<or> opcode = OP_NEGATE \<or> opcode = OP_ABS \<or>
    opcode = OP_NOT \<or> opcode = OP_0NOTEQUAL \<Longrightarrow> unary_num opcode n \<noteq> Inl Abort"
  by (auto simp: unary_num_def assert_num_def num_add_def num_sub_def num_neg_def)

lemma binary_num_no_abort:
  assumes "opcode = OP_ADD \<or> opcode = OP_SUB \<or> (OP_BOOLAND \<le> opcode \<and> opcode \<le> OP_MAX)"
  shows "binary_num opcode a b \<noteq> Inl Abort"
proof -
  have u: "unat opcode = n \<Longrightarrow> n < 256 \<Longrightarrow> opcode = of_nat n" for n by auto
  have r: "n = 154 \<or> n = 155 \<or> n = 156 \<or> n = 157 \<or> n = 158 \<or> n = 159 \<or> n = 160 \<or> n = 161 \<or> n = 162 \<or>
    n = 163 \<or> n = 164" if "154 \<le> n" "n \<le> 164" for n :: nat using that by presburger
  have "opcode = OP_ADD \<or> opcode = OP_SUB \<or> (154 \<le> unat opcode \<and> unat opcode \<le> 164)"
    using assms by (auto simp: word_le_nat_alt)
  then show ?thesis
  proof (elim disjE conjE)
    assume "154 \<le> unat opcode" "unat opcode \<le> 164"
    from r [OF this] show ?thesis
      by (elim disjE) (drule u, simp, simp add: binary_num_def Let_def)+
  qed (simp_all add: binary_num_def Let_def)
qed

lemma fail_no_abort [simp]: "fail err \<noteq> Inl Abort"
  by (simp add: fail_def)

lemma fail_abort [simp]: "fail err = Inl Abort \<longleftrightarrow> False"
  by (simp add: fail_def)

lemma bindE_abort [simp]: "bindE m f = Inl Abort \<longleftrightarrow> m = Inl Abort \<or> (\<exists>x. m = Inr x \<and> f x = Inl Abort)"
  by (cases m) auto

lemma num_of_abort [simp]: "num_of flags v = Inl Abort \<longleftrightarrow> False"
  using num_of_no_abort by blast

lemma exec_unary_no_abort:
  assumes "opcode = OP_1ADD \<or> opcode = OP_1SUB \<or> opcode = OP_NEGATE \<or> opcode = OP_ABS \<or> opcode = OP_NOT \<or> opcode = OP_0NOTEQUAL"
  shows "exec_unary flags opcode s \<noteq> Inl Abort"
proof (cases "stack s")
  case (Cons x st)
  show ?thesis unfolding exec_unary_def Cons list.case
  proof (rule bindE_no_abort [OF num_of_no_abort])
    fix n assume "num_of flags x = Inr n"
    then have "\<bar>n\<bar> < 2 ^ 31" by (rule num_of_range)
    then have "unary_num opcode n \<noteq> Inl Abort" using assms by (rule unary_num_no_abort)
    then show "bindE (unary_num opcode n) (\<lambda>r. Inr (s\<lparr>stack := CScriptNum_serialize r # st\<rparr>)) \<noteq> Inl Abort"
      by simp
  qed
qed (simp add: exec_unary_def)

lemma exec_binary_no_abort:
  assumes "opcode = OP_ADD \<or> opcode = OP_SUB \<or> (OP_BOOLAND \<le> opcode \<and> opcode \<le> OP_MAX)"
  shows "exec_binary flags opcode s \<noteq> Inl Abort"
  using binary_num_no_abort [OF assms]
  by (auto simp: exec_binary_def Let_def split: list.splits if_splits)

lemma exec_CHECKMULTISIG_no_abort: "exec_CHECKMULTISIG e flags opcode s \<noteq> Inl Abort"
  unfolding exec_CHECKMULTISIG_def Let_def
  by (auto split: sum.splits list.splits if_splits)

lemma exec_switch_no_abort: "exec_switch e flags opcode fExec pc s \<noteq> Inl Abort"
proof (rule exec_switch_all [where P = "\<lambda>r. r \<noteq> Inl Abort"])
  show "exec_PICK_ROLL flags opcode s \<noteq> Inl Abort"
    unfolding exec_PICK_ROLL_def Let_def by (auto split: if_splits)
  show "exec_WITHIN flags s \<noteq> Inl Abort"
    unfolding exec_WITHIN_def by (auto split: list.splits)
qed (auto simp: exec_OP_N_def exec_NOPx_def exec_IF_def exec_ELSE_def exec_ENDIF_def exec_VERIFY_def exec_hash_def
    exec_TOALTSTACK_def exec_FROMALTSTACK_def exec_stack_op_def exec_EQUAL_def exec_CHECKSIG_def Let_def
    exec_unary_no_abort exec_binary_no_abort exec_CHECKMULTISIG_no_abort split: list.splits option.splits)

lemma exec_instr_no_abort: "exec_instr e flags opcode v pc s \<noteq> Inl Abort"
  unfolding exec_instr_def Let_def
  using exec_switch_no_abort by (auto split: if_splits)

lemma eval_loop_no_abort: "eval_loop e flags pc s \<noteq> Inl Abort"
proof (induction e flags pc s rule: eval_loop.induct)
  case (1 e flags pc s)
  obtain ok opcode v pc' where g: "GetOp2 pc = (ok, opcode, v, pc')" by (cases "GetOp2 pc") auto
  show ?case
  proof (cases "pc \<noteq> [] \<and> ok")
    case True
    then have "eval_loop e flags pc s = bindE (exec_instr e flags opcode v pc' s) (eval_loop e flags pc')"
      using g by (subst eval_loop.simps) simp
    also have "\<dots> \<noteq> Inl Abort"
      using 1 [OF _ g [symmetric] refl refl] True by (auto simp: exec_instr_no_abort)
    finally show ?thesis .
  next
    case False
    then show ?thesis using g by (subst eval_loop.simps) (auto simp: fail_def)
  qed
qed

lemma EvalScript_no_abort: "EvalScript e flags st script \<noteq> Inl Abort"
  unfolding EvalScript_def by (auto simp: eval_loop_no_abort split: if_splits)

text \<open>An empty stack does not survive a pay-to-script-hash script.\<close>

lemma GetOp2_big: "opcode > OP_PUSHDATA4 \<Longrightarrow> GetOp2 (opcode # pc) = (True, opcode, [], pc)"
  by (auto simp: GetOp2_def dest: leD)

lemma EvalScript_P2SH_empty:
  assumes "IsPayToScriptHash spk" shows "\<not> isOk (EvalScript e flags [] spk)"
proof -
  obtain pc where spk: "spk = OP_HASH160 # pc" "length spk = 23"
    using assms by (cases spk) (auto simp: IsPayToScriptHash_def)
  have "exec_instr e flags OP_HASH160 [] pc (initial_state [] spk) = fail SCRIPT_ERR_INVALID_STACK_OPERATION"
    by (simp add: exec_instr_def initial_state_def MAX_SCRIPT_ELEMENT_SIZE_def Let_def disabled_ops_def
        exec_switch_def exec_hash_def) (simp add: fail_def)
  then have "eval_loop e flags spk (initial_state [] spk) = fail SCRIPT_ERR_INVALID_STACK_OPERATION"
    unfolding spk(1) by (subst eval_loop.simps) (simp add: GetOp2_big fail_def)
  then show ?thesis using spk(2) by (simp add: EvalScript_def fail_def)
qed

text \<open>
  C14: verifying a script never fails an assertion, so no pair of scripts ends the process:
  the invalid-opcode and overflow assertions of script numbers, and the non-empty stack that
  the pay-to-script-hash branch asserts.
\<close>

theorem VerifyScript_no_abort: "VerifyScript e flags scriptSig scriptPubKey \<noteq> Inl Abort"
proof -
  have p: "IsPayToScriptHash scriptPubKey \<Longrightarrow> EvalScript e flags [] scriptPubKey \<noteq> Inr st2" for st2
    using EvalScript_P2SH_empty [of scriptPubKey e flags] by (auto simp: isOk_def)
  show ?thesis
    unfolding VerifyScript_def
    by (auto simp: EvalScript_no_abort p split: list.splits if_splits)
qed

text \<open>
  C15: an evaluation that succeeds on a stack within the limits ends within them: at most 1000
  elements of at most 520 bytes, after at most 201 counted operations, with no block left open.
\<close>

theorem EvalScript_limits:
  assumes "env_ok e" "list_all small st" "length st \<le> 1000" "EvalScript e flags st script = Inr st'"
  shows "length script \<le> 10000 \<and> list_all small st' \<and> length st' \<le> 1000 \<and>
    (\<exists>s. eval_loop e flags script (initial_state st script) = Inr s \<and> stack s = st' \<and>
      vfExec s = [] \<and> nOpCount s \<le> 201)"
proof -
  obtain s where s: "eval_loop e flags script (initial_state st script) = Inr s" "stack s = st'" "vfExec s = []"
    and l: "length script \<le> 10000"
    using assms(4) by (auto simp: EvalScript_def bindE_Inr_conv split: if_splits)
  have "within_limits (initial_state st script)" using assms by (simp add: initial_state_def within_limits_def)
  then have "within_limits s" using eval_loop_limits [OF assms(1) s(1)] by simp
  then show ?thesis using s l by (auto simp: within_limits_def)
qed

definition sample_env :: env where
  "sample_env = \<lparr>CRIPEMD160 = (\<lambda>x. replicate 20 1), CSHA1 = (\<lambda>x. replicate 20 2), CSHA256 = (\<lambda>x. replicate 32 3),
     CHash160 = (\<lambda>x. replicate 20 4), CHash256 = (\<lambda>x. replicate 32 5),
     CheckSig = (\<lambda>sig key code. sig = key), CheckLowS = (\<lambda>_. True)\<rparr>"

lemma EvalScript_limits_witness:
  "EvalScript sample_env 0 [[7]] [OP_DUP, OP_HASH160] = Inr [replicate 20 4, [7]] \<and> length [replicate 20 (4::byte), [7]] \<le> 1000"
proof -
  have r: "EvalScript sample_env 0 [[7]] [OP_DUP, OP_HASH160] = Inr [replicate 20 4, [7]]" by code_simp
  have "env_ok sample_env" "list_all small [[7]]"
    by (simp_all add: env_ok_def sample_env_def small_def MAX_SCRIPT_ELEMENT_SIZE_def)
  then show ?thesis using EvalScript_limits [OF _ _ _ r] r by simp
qed

subsection \<open>Verification flags only reject\<close>

text \<open>\<open>stricter r' r\<close>: whenever \<open>r'\<close> succeeds, \<open>r\<close> succeeds with the same value.\<close>

definition stricter :: "'e + 'a \<Rightarrow> 'e + 'a \<Rightarrow> bool" where
  "stricter r' r \<longleftrightarrow> (\<forall>x. r' = Inr x \<longrightarrow> r = Inr x)"

lemma stricter_refl [simp]: "stricter r r"
  by (simp add: stricter_def)

lemma stricter_Inl [simp]: "stricter (Inl err) r"
  by (simp add: stricter_def)

lemma stricter_fail [simp]: "stricter (fail err) r"
  by (simp add: fail_def)

lemma stricter_bindE:
  "stricter m' m \<Longrightarrow> (\<And>x. m = Inr x \<Longrightarrow> stricter (f' x) (f x)) \<Longrightarrow> stricter (bindE m' f') (bindE m f)"
  by (cases m') (auto simp: stricter_def bindE_Inr_conv)

definition flags_le :: "flags \<Rightarrow> flags \<Rightarrow> bool" where
  "flags_le f g \<longleftrightarrow> f AND g = f"

lemma flags_leD: "flags_le f g \<Longrightarrow> flag f x \<Longrightarrow> flag g x"
proof -
  assume le: "flags_le f g" and f: "flag f x"
  have "f AND x = f AND (g AND x)" using le by (simp only: flags_le_def flip: and.assoc)
  then show "flag g x" using f by auto
qed

lemma num_of_stricter: "flags_le f g \<Longrightarrow> stricter (num_of g v) (num_of f v)"
  using flags_leD [of f g SCRIPT_VERIFY_MINIMALDATA]
  by (auto simp: stricter_def num_of_def CScriptNum_of_vch_def split: sum.splits if_splits)

lemma CheckSignatureEncoding_le:
  assumes "flags_le f g" "CheckSignatureEncoding e g v = None" shows "CheckSignatureEncoding e f v = None"
  using assms(2) flags_leD [OF assms(1), of SCRIPT_VERIFY_LOW_S] flags_leD [OF assms(1), of SCRIPT_VERIFY_STRICTENC]
    flags_leD [OF assms(1), of "SCRIPT_VERIFY_DERSIG OR SCRIPT_VERIFY_LOW_S OR SCRIPT_VERIFY_STRICTENC"]
  unfolding CheckSignatureEncoding_def by (auto split: if_splits)

lemma CheckPubKeyEncoding_le:
  "flags_le f g \<Longrightarrow> CheckPubKeyEncoding g v = None \<Longrightarrow> CheckPubKeyEncoding f v = None"
  using flags_leD [of f g SCRIPT_VERIFY_STRICTENC] unfolding CheckPubKeyEncoding_def by (auto split: if_splits)

lemma multisig_loop_stricter:
  "flags_le f g \<Longrightarrow> stricter (multisig_loop e g code sigs keys) (multisig_loop e f code sigs keys)"
proof (induction e g code sigs keys rule: multisig_loop.induct)
  case (3 e g code sig sigs key keys)
  then show ?case
    by (auto simp: Let_def CheckSignatureEncoding_le CheckPubKeyEncoding_le split: option.splits
        dest: CheckSignatureEncoding_le [of f g e sig] CheckPubKeyEncoding_le [of f g key])
qed simp_all

lemma exec_CHECKMULTISIG_stricter:
  assumes "flags_le f g"
  shows "stricter (exec_CHECKMULTISIG e g opcode s) (exec_CHECKMULTISIG e f opcode s)"
proof -
  have m: "stricter (multisig_loop e g code sigs keys) (multisig_loop e f code sigs keys)" for code sigs keys
    using assms by (rule multisig_loop_stricter)
  have n: "g AND SCRIPT_VERIFY_NULLDUMMY = 0 \<Longrightarrow> f AND SCRIPT_VERIFY_NULLDUMMY = 0"
    using flags_leD [OF assms, of SCRIPT_VERIFY_NULLDUMMY] by blast
  have c: "stricter (case r' of Inl err \<Rightarrow> fail err | Inr b \<Rightarrow> k' b) (case r of Inl err \<Rightarrow> fail err | Inr b \<Rightarrow> k b)"
    if "stricter r' r" "\<And>b. stricter (k' b) (k b)" for r' r :: "ScriptError + bool" and k' k
    using that by (cases r') (auto simp: stricter_def fail_def split: sum.splits)
  show ?thesis
    unfolding exec_CHECKMULTISIG_def Let_def
    by (auto intro!: stricter_bindE num_of_stricter [OF assms] c m simp: n split: list.splits)
qed

lemma exec_switch_stricter:
  assumes le: "flags_le f g"
  shows "stricter (exec_switch e g opcode fExec pc s) (exec_switch e f opcode fExec pc s)"
proof -
  have [simp]: "stricter (exec_NOPx g s) (exec_NOPx f s)"
    using flags_leD [OF le, of SCRIPT_VERIFY_DISCOURAGE_UPGRADABLE_NOPS] by (auto simp: exec_NOPx_def)
  have [simp]: "stricter (exec_PICK_ROLL g opcode s) (exec_PICK_ROLL f opcode s)"
    unfolding exec_PICK_ROLL_def by (auto intro!: stricter_bindE num_of_stricter [OF le])
  have [simp]: "stricter (exec_unary g opcode s) (exec_unary f opcode s)"
    unfolding exec_unary_def by (auto intro!: stricter_bindE num_of_stricter [OF le] split: list.splits)
  have [simp]: "stricter (exec_binary g opcode s) (exec_binary f opcode s)"
    unfolding exec_binary_def by (auto intro!: stricter_bindE num_of_stricter [OF le] split: list.splits)
  have [simp]: "stricter (exec_WITHIN g s) (exec_WITHIN f s)"
    unfolding exec_WITHIN_def by (auto intro!: stricter_bindE num_of_stricter [OF le] split: list.splits)
  have [simp]: "stricter (exec_CHECKSIG e g opcode s) (exec_CHECKSIG e f opcode s)"
    unfolding exec_CHECKSIG_def Let_def
    by (auto split: list.splits option.splits dest: CheckSignatureEncoding_le [OF le] CheckPubKeyEncoding_le [OF le])
  have [simp]: "stricter (exec_CHECKMULTISIG e g opcode s) (exec_CHECKMULTISIG e f opcode s)"
    using le by (rule exec_CHECKMULTISIG_stricter)
  have st: "(if c then a' else b') = (if c then a' else b')" for c and a' b' :: outcome by (rule refl)
  have ifs: "stricter a' a \<Longrightarrow> stricter b' b \<Longrightarrow> stricter (if c then a' else b') (if c then a else b)"
    for c and a a' b b' :: outcome by simp
  show ?thesis unfolding exec_switch_def
    by (rule ifs | simp only: stricter_refl | simp)+
qed

lemma exec_instr_stricter:
  assumes le: "flags_le f g"
  shows "stricter (exec_instr e g opcode v pc s) (exec_instr e f opcode v pc s)"
proof -
  have ifs: "(c \<Longrightarrow> stricter a' a) \<Longrightarrow> (\<not> c \<Longrightarrow> stricter b' b) \<Longrightarrow> stricter (if c then a' else b') (if c then a else b)"
    for c and a a' b b' :: outcome by simp
  have md: "flag f SCRIPT_VERIFY_MINIMALDATA \<Longrightarrow> flag g SCRIPT_VERIFY_MINIMALDATA"
    using le by (rule flags_leD)
  show ?thesis unfolding exec_instr_def Let_def
    by (intro ifs stricter_bindE exec_switch_stricter [OF le] stricter_refl)
      (auto dest: md)
qed

lemma eval_loop_stricter:
  "flags_le f g \<Longrightarrow> stricter (eval_loop e g pc s) (eval_loop e f pc s)"
proof (induction e g pc s rule: eval_loop.induct)
  case (1 e g pc s)
  obtain ok opcode v pc' where p: "GetOp2 pc = (ok, opcode, v, pc')" by (cases "GetOp2 pc") auto
  show ?case
  proof (cases "pc \<noteq> [] \<and> ok")
    case True
    then have eq: "eval_loop e h pc s = bindE (exec_instr e h opcode v pc' s) (eval_loop e h pc')" for h
      using p by (subst eval_loop.simps) simp
    have "stricter (eval_loop e g pc' s') (eval_loop e f pc' s')" for s'
      using 1(1) [OF _ p [symmetric] refl refl] True 1(2) by auto
    then show ?thesis unfolding eq by (intro stricter_bindE exec_instr_stricter [OF 1(2)])
  next
    case False
    then have "eval_loop e g pc s = eval_loop e f pc s"
      using p by (subst (1 2) eval_loop.simps) auto
    then show ?thesis by simp
  qed
qed

lemma EvalScript_stricter:
  "flags_le f g \<Longrightarrow> stricter (EvalScript e g st script) (EvalScript e f st script)"
  unfolding EvalScript_def by (auto intro!: stricter_bindE eval_loop_stricter)

text \<open>
  C5: verification flags are soft forks: a script that verifies under a set of flags verifies
  under every subset of it, so turning a flag on never makes a rejected script acceptable.
\<close>

theorem VerifyScript_soft_fork:
  assumes "flags_le f g" "VerifyScript e g scriptSig scriptPubKey = Inr ()"
  shows "VerifyScript e f scriptSig scriptPubKey = Inr ()"
proof -
  have e: "EvalScript e g st sc = Inr x \<Longrightarrow> EvalScript e f st sc = Inr x" for st sc x
    using EvalScript_stricter [OF assms(1), of e st sc] by (simp add: stricter_def)
  have 1: "flag f SCRIPT_VERIFY_SIGPUSHONLY \<Longrightarrow> flag g SCRIPT_VERIFY_SIGPUSHONLY"
    and 2: "flag f SCRIPT_VERIFY_P2SH \<Longrightarrow> flag g SCRIPT_VERIFY_P2SH"
    using flags_leD [OF assms(1)] by blast+
  obtain st1 st2 where s: "EvalScript e g [] scriptSig = Inr st1" "EvalScript e g st1 scriptPubKey = Inr st2"
    and "\<not> (flag g SCRIPT_VERIFY_SIGPUSHONLY \<and> \<not> IsPushOnly scriptSig)" "st2 \<noteq> []" "CastToBool (hd st2)"
    and p: "flag g SCRIPT_VERIFY_P2SH \<and> IsPayToScriptHash scriptPubKey \<Longrightarrow> IsPushOnly scriptSig \<and>
      (\<exists>r stc st3. st1 = r # stc \<and> EvalScript e g stc r = Inr st3 \<and> st3 \<noteq> [] \<and> CastToBool (hd st3))"
    using assms(2) unfolding VerifyScript_def
    by (auto simp: bindE_Inr_conv split: if_splits list.splits)
  then show ?thesis using 1 e [OF s(1)] e [OF s(2)] p 2
    by (auto simp: VerifyScript_def dest!: e)
qed

lemma VerifyScript_soft_fork_witness:
  "VerifyScript sample_env 1 [1, 9] [OP_DUP, OP_EQUAL] = Inr ()"
proof -
  have "VerifyScript sample_env 0x21 [1, 9] [OP_DUP, OP_EQUAL] = Inr ()" by code_simp
  then show ?thesis using VerifyScript_soft_fork [of 1 "0x21"] by (simp add: flags_le_def)
qed

subsection \<open>Canonical signatures\<close>

text \<open>A non-negative integer in the fewest bytes, most significant first, with a clear sign bit.\<close>

definition der_int :: "bytes \<Rightarrow> bool" where
  "der_int R \<longleftrightarrow> R \<noteq> [] \<and> hd R AND 0x80 = 0 \<and> (length R > 1 \<and> hd R = 0 \<longrightarrow> R ! 1 AND 0x80 \<noteq> 0)"

definition der_signature :: "bytes \<Rightarrow> bytes \<Rightarrow> byte \<Rightarrow> bytes" where
  "der_signature R S hashtype =
     [0x30, word_of_nat (length R + length S + 4), 0x02, word_of_nat (length R)] @ R @
     [0x02, word_of_nat (length S)] @ S @ [hashtype]"

lemma IsValidSignatureEncoding_der_signature:
  assumes "length R + length S \<le> 66" "R \<noteq> []" "S \<noteq> []"
  shows "IsValidSignatureEncoding (der_signature R S h) \<longleftrightarrow> der_int R \<and> der_int S"
proof -
  let ?sig = "der_signature R S h"
  let ?pre = "[0x30, word_of_nat (length R + length S + 4), 0x02, word_of_nat (length R)] :: bytes"
  have split1: "?sig = ?pre @ R @ ([0x02, word_of_nat (length S)] @ S @ [h])"
    and split2: "?sig = (?pre @ R @ [0x02, word_of_nat (length S)]) @ S @ [h]"
    by (simp_all add: der_signature_def)
  have len: "length ?sig = length R + length S + 7" by (simp add: der_signature_def)
  have R: "?sig ! (4 + i) = R ! i" if "i < length R" for i
    using that by (simp add: split1 nth_append)
  have S: "?sig ! (length R + 6 + i) = S ! i" if "i < length S" for i
    using that by (simp add: split2 nth_append)
  have mid: "?sig ! (length R + 4) = 0x02" "?sig ! (5 + length R) = word_of_nat (length S)"
    by (simp_all add: der_signature_def nth_append)
  have h0: "?sig ! 0 = 0x30" "?sig ! 1 = word_of_nat (length R + length S + 4)" "?sig ! 2 = 0x02"
    "?sig ! 3 = word_of_nat (length R)"
    by (simp_all add: der_signature_def)
  have u: "unat (word_of_nat (length R) :: byte) = length R" "unat (word_of_nat (length S) :: byte) = length S"
    "unat (word_of_nat (length R + length S + 4) :: byte) = length R + length S + 4"
    using assms by (simp_all only: unat_word_of_nat_byte) simp_all
  have pos: "0 < length R" "0 < length S" using assms by auto
  then have two: "\<not> length R + length S < 2" by linarith
  have R0: "?sig ! 4 = hd R" and S0: "?sig ! (length R + 6) = hd S"
    using R [of 0] S [of 0] pos by (simp_all add: hd_conv_nth)
  have R1: "length R > 1 \<Longrightarrow> ?sig ! 5 = R ! 1" and S1: "length S > 1 \<Longrightarrow> ?sig ! (length R + 7) = S ! 1"
    using R [of 1] S [of 1] by (simp_all add: add.commute)
  show ?thesis
    unfolding IsValidSignatureEncoding_def Let_def h0 u mid len R0 S0 der_int_def
    using assms(1) pos R1 S1 two by (auto simp: assms(2,3))
qed

lemma list_split_at: "k < length xs \<Longrightarrow> xs = take k xs @ xs ! k # drop (Suc k) xs"
  by (rule id_take_nth_drop)

lemma IsValidSignatureEncoding_shape:
  assumes v: "IsValidSignatureEncoding sig"
  shows "\<exists>R S h. sig = der_signature R S h \<and> length R + length S \<le> 66 \<and> R \<noteq> [] \<and> S \<noteq> []"
proof -
  define r where "r = unat (sig ! 3)"
  define s where "s = unat (sig ! (5 + r))"
  have c: "length sig \<le> 73" "sig ! 0 = 0x30" "unat (sig ! 1) = length sig - 3" "r + s + 7 = length sig"
    "sig ! 2 = 0x02" "sig ! (r + 4) = 0x02" "r \<noteq> 0" "s \<noteq> 0"
    using v unfolding IsValidSignatureEncoding_def Let_def r_def [symmetric] s_def [symmetric]
    by (simp_all split: if_splits)
  define R where "R = take r (drop 4 sig)"
  define S where "S = take s (drop (r + 6) sig)"
  have lR: "length R = r" and lS: "length S = s" using c(4) by (simp_all add: R_def S_def)
  have w: "word_of_nat (unat x) = x" for x :: byte by simp
  have "sig = der_signature R S (sig ! (r + s + 6))"
  proof (rule nth_equalityI)
    show "length sig = length (der_signature R S (sig ! (r + s + 6)))"
      using c(4) lR lS by (simp add: der_signature_def)
    fix i assume i: "i < length sig"
    have split2: "der_signature R S (sig ! (r + s + 6)) =
        ([0x30, word_of_nat (r + s + 4), 0x02, word_of_nat r] @ R @ [0x02, word_of_nat s]) @ S @ [sig ! (r + s + 6)]"
      by (simp add: der_signature_def lR lS)
    have "unat (sig ! 1) = r + s + 4" using c(3,4) by simp
    then have n1: "sig ! 1 = word_of_nat (r + s + 4)" using w [of "sig ! 1"] by (simp only:)
    have n3: "sig ! 3 = word_of_nat r" using w [of "sig ! 3"] by (simp add: r_def)
    have n5: "sig ! (5 + r) = word_of_nat s" using w [of "sig ! (5 + r)"] by (simp add: s_def)
    consider "i = 0" | "i = 1" | "i = 2" | "i = 3" | "4 \<le> i \<and> i < 4 + r" | "i = r + 4" | "i = 5 + r"
      | "r + 6 \<le> i \<and> i < r + s + 6" | "i = r + s + 6"
      using i c(4) by linarith
    then show "sig ! i = der_signature R S (sig ! (r + s + 6)) ! i"
    proof cases
      case 5
      then obtain k where k: "i = 4 + k" "k < r" by (metis add_less_cancel_left le_Suc_ex)
      have "der_signature R S (sig ! (r + s + 6)) =
          [0x30, word_of_nat (r + s + 4), 0x02, word_of_nat r] @ R @ ([0x02, word_of_nat s] @ S @ [sig ! (r + s + 6)])"
        by (simp add: der_signature_def lR lS)
      then have "der_signature R S (sig ! (r + s + 6)) ! i = R ! k" using k lR by (simp add: nth_append)
      then show ?thesis using k c(4) by (simp add: R_def)
    next
      case 8
      then obtain k where k: "i = (r + 6) + k" by (metis le_Suc_ex)
      with 8 have ks: "k < s" by linarith
      have "der_signature R S (sig ! (r + s + 6)) ! i = S ! k" using k ks lR lS by (simp add: split2 nth_append)
      then show ?thesis using k ks c(4) by (simp add: S_def)
    qed (use c n1 n3 n5 lR lS in \<open>simp_all add: split2 nth_append\<close>)
  qed
  moreover have "length R + length S \<le> 66" "R \<noteq> []" "S \<noteq> []" using c lR lS by auto
  ultimately show ?thesis by blast
qed

text \<open>
  C29: the signature encodings accepted are exactly the strict DER sequences of two minimal
  non-negative integers that fit in 73 bytes, followed by one hash type byte.
\<close>

theorem IsValidSignatureEncoding_iff:
  "IsValidSignatureEncoding sig \<longleftrightarrow>
     (\<exists>R S hashtype. sig = der_signature R S hashtype \<and> der_int R \<and> der_int S \<and> length R + length S \<le> 66)"
proof
  assume v: "IsValidSignatureEncoding sig"
  then obtain R S h where "sig = der_signature R S h" "length R + length S \<le> 66" "R \<noteq> []" "S \<noteq> []"
    using IsValidSignatureEncoding_shape by blast
  then show "\<exists>R S h. sig = der_signature R S h \<and> der_int R \<and> der_int S \<and> length R + length S \<le> 66"
    using v IsValidSignatureEncoding_der_signature by blast
next
  assume "\<exists>R S h. sig = der_signature R S h \<and> der_int R \<and> der_int S \<and> length R + length S \<le> 66"
  then obtain R S h where s: "sig = der_signature R S h" "der_int R" "der_int S" "length R + length S \<le> 66" by blast
  then have "R \<noteq> []" "S \<noteq> []" by (simp_all add: der_int_def)
  then show "IsValidSignatureEncoding sig" using s IsValidSignatureEncoding_der_signature by blast
qed

subsection \<open>Pay to public key hash\<close>

definition p2pkh :: "bytes \<Rightarrow> CScript" where
  "p2pkh h = push_op (push_op (push_data (push_op (push_op [] OP_DUP) OP_HASH160) h) OP_EQUALVERIFY) OP_CHECKSIG"

lemma GetOp2_push_small:
  "length v \<le> 75 \<Longrightarrow> GetOp2 (push_data [] v @ r) = (True, word_of_nat (length v), v, r)"
proof -
  assume v: "length v \<le> 75"
  have u: "unat (word_of_nat (length v) :: byte) = length v" using v by (simp only: unat_word_of_nat_byte) simp
  have "word_of_nat (length v) < (76 :: byte)" using v u by (simp add: word_less_nat_alt)
  moreover from this have "word_of_nat (length v) \<le> (78 :: byte)" by (simp add: word_less_nat_alt word_le_nat_alt)
  ultimately show ?thesis using v u by (simp add: GetOp2_def push_data_def get_size_def)
qed

lemma eval_loop_push:
  assumes "length v \<le> 75" "length v \<noteq> 1" "list_all id (vfExec s)"
    and "length (stack s) + length (altstack s) < 1000"
  shows "eval_loop e flags (push_data [] v @ r) s = eval_loop e flags r (s\<lparr>stack := v # stack s\<rparr>)"
proof -
  let ?op = "word_of_nat (length v) :: byte"
  have u: "unat ?op = length v" using assms(1) by (simp only: unat_word_of_nat_byte) simp
  have le: "?op \<le> 78" "\<not> ?op > 96" using assms(1) u by (simp_all add: word_le_nat_alt word_less_nat_alt)
  have d: "?op \<notin> set disabled_ops"
  proof
    assume "?op \<in> set disabled_ops"
    then have "\<not> ?op \<le> 78" by (auto simp: disabled_ops_def)
    then show False using le by simp
  qed
  have m: "CheckMinimalPush v ?op" using assms(1,2) u by (auto simp: CheckMinimalPush_def)
  have "exec_instr e flags ?op v r s = Inr (s\<lparr>stack := v # stack s\<rparr>)"
    unfolding exec_instr_def Let_def using le d m assms
    by (simp add: MAX_SCRIPT_ELEMENT_SIZE_def)
  then show ?thesis using GetOp2_push_small [OF assms(1), of r]
    by (subst eval_loop.simps) (simp add: push_data_def)
qed


lemma eval_loop_op:
  assumes "opcode > OP_16" "opcode \<notin> set disabled_ops" "list_all id (vfExec s)" "nOpCount s < 201"
  shows "eval_loop e flags (opcode # r) s =
     bindE (bindE (exec_switch e flags opcode True r (s\<lparr>nOpCount := nOpCount s + 1\<rparr>))
        (\<lambda>s'. if length (stack s') + length (altstack s') > 1000 then fail SCRIPT_ERR_STACK_SIZE else Inr s'))
       (eval_loop e flags r)"
proof -
  have le: "\<not> opcode \<le> OP_PUSHDATA4" using assms(1) by (simp add: word_less_nat_alt word_le_nat_alt)
  then have "opcode > OP_PUSHDATA4" by simp
  from GetOp2_big [OF this, of r] show ?thesis
    using assms le by (subst eval_loop.simps) (simp add: exec_instr_def MAX_SCRIPT_ELEMENT_SIZE_def Let_def)
qed

lemma eval_loop_Nil [simp]: "eval_loop e flags [] s = Inr s"
  by (subst eval_loop.simps) simp

lemma IsPushOnly_two: "length a < 2 ^ 32 \<Longrightarrow> length b < 2 ^ 32 \<Longrightarrow> IsPushOnly (push_data (push_data [] a) b)"
  using IsPushOnly_pushes [of "[a, b]"] by simp

lemma push_data_append: "push_data s v = s @ push_data [] v"
  by (simp add: push_data_def)

text \<open>
  C7: a signature and a key verify against the pay-to-public-key-hash script of \<open>h\<close> exactly
  when the key hashes to \<open>h\<close>, both encodings pass the checks of the flags, and the signature
  check accepts them for the script (with any push of the signature itself removed). The error
  of every other case is the one of the first check that fails.
\<close>

theorem VerifyScript_P2PKH:
  assumes "2 \<le> length sig" "length sig \<le> 75" "2 \<le> length key" "length key \<le> 75" "length h = 20"
  shows "VerifyScript e flags (push_data (push_data [] sig) key) (p2pkh h) =
    (if CHash160 e key \<noteq> h then Inl (Err SCRIPT_ERR_EQUALVERIFY)
     else case CheckSignatureEncoding e flags sig of Some err \<Rightarrow> Inl (Err err) | None \<Rightarrow>
     case CheckPubKeyEncoding flags key of Some err \<Rightarrow> Inl (Err err) | None \<Rightarrow>
     if CheckSig e sig key (snd (FindAndDelete (p2pkh h) (push_data [] sig))) then Inr ()
     else Inl (Err SCRIPT_ERR_EVAL_FALSE))"
proof -
  let ?ss = "push_data (push_data [] sig) key"
  have l: "length ?ss \<le> 152" using assms by (simp add: push_data_def)
  have "?ss = push_data [] sig @ push_data [] key @ []" by (simp add: push_data_append [of "push_data [] sig"])
  then have e1: "EvalScript e flags [] ?ss = Inr [key, sig]"
    using l assms eval_loop_push [of key _ e flags "[]"]
    by (simp add: EvalScript_def initial_state_def eval_loop_push)
  have p: "p2pkh h = OP_DUP # OP_HASH160 # push_data [] h @ [OP_EQUALVERIFY, OP_CHECKSIG]"
    by (simp add: p2pkh_def push_op_def push_data_append [of "[118, 169]"])
  have lp: "length (p2pkh h) = 25" using assms(5) by (simp add: p push_data_def)
  then have np: "\<not> IsPayToScriptHash (p2pkh h)" by (simp add: IsPayToScriptHash_def)
  have po: "IsPushOnly ?ss" using assms by (intro IsPushOnly_two) auto
  have b: "CastToBool (vch_bool x) = x" for x by (simp add: vch_bool_def vchTrue_def vchFalse_def)
  have e2: "EvalScript e flags [key, sig] (p2pkh h) =
    (if CHash160 e key \<noteq> h then Inl (Err SCRIPT_ERR_EQUALVERIFY)
     else case CheckSignatureEncoding e flags sig of Some err \<Rightarrow> Inl (Err err) | None \<Rightarrow>
     case CheckPubKeyEncoding flags key of Some err \<Rightarrow> Inl (Err err) | None \<Rightarrow>
     Inr [vch_bool (CheckSig e sig key (snd (FindAndDelete (p2pkh h) (push_data [] sig))))])"
    using lp assms(5)
    by (simp add: EvalScript_def initial_state_def p eval_loop_op disabled_ops_def exec_switch_def
        exec_stack_op_def stack_op_def exec_hash_def eval_loop_push exec_EQUAL_def exec_CHECKSIG_def fail_def
        split: option.split)
  show ?thesis unfolding VerifyScript_def using np po
    by (simp add: e1 e2 b split: option.split)
qed

lemma VerifyScript_P2PKH_witness:
  "VerifyScript sample_env 0 (push_data (push_data [] [1, 2]) [1, 2]) (p2pkh (replicate 20 4)) = Inr ()"
  using VerifyScript_P2PKH [of "[1, 2]" "[1, 2]" "replicate 20 4" sample_env 0]
  by (simp add: sample_env_def CheckSignatureEncoding_def CheckPubKeyEncoding_def)

end
