(* ===== verification/Standard.thy ===== *)
theory Standard
  imports Interpreter Pubkey Base_Uint
begin

section \<open>Standard scripts (script/standard.h, script/standard.cpp)\<close>

text \<open>
  Which scripts pay to what. \<open>Solver\<close> compares a script with templates and returns the keys
  or hashes it contains; the destinations are read off its result, and written as scripts by
  \<open>GetScriptForDestination\<close> and \<open>GetScriptForMultisig\<close>. \<open>Solver\<close> of the one-byte zerocoin mint
  script makes a vector from an iterator range that ends before it begins; \<open>None\<close> is that
  exception. The theorems show that written scripts are recognised with their contents, that
  the templates recognise nothing else, and which scripts raise the exception.
\<close>

datatype txnouttype =
    TX_NONSTANDARD
  | TX_PUBKEY
  | TX_PUBKEYHASH
  | TX_SCRIPTHASH
  | TX_MULTISIG
  | TX_NULL_DATA
  | TX_ZEROCOINMINT

fun GetTxnOutputType :: "txnouttype \<Rightarrow> string" where
  "GetTxnOutputType TX_NONSTANDARD = ''nonstandard''"
| "GetTxnOutputType TX_PUBKEY = ''pubkey''"
| "GetTxnOutputType TX_PUBKEYHASH = ''pubkeyhash''"
| "GetTxnOutputType TX_SCRIPTHASH = ''scripthash''"
| "GetTxnOutputType TX_MULTISIG = ''multisig''"
| "GetTxnOutputType TX_NULL_DATA = ''nulldata''"
| "GetTxnOutputType TX_ZEROCOINMINT = ''zerocoinmint''"

datatype CTxDestination = CNoDestination | CKeyID uint160 | CScriptID uint160

definition MAX_OP_RETURN_RELAY :: nat where "MAX_OP_RETURN_RELAY = 83"

definition MANDATORY_SCRIPT_VERIFY_FLAGS :: flags where
  "MANDATORY_SCRIPT_VERIFY_FLAGS = SCRIPT_VERIFY_P2SH"

definition STANDARD_SCRIPT_VERIFY_FLAGS :: flags where
  "STANDARD_SCRIPT_VERIFY_FLAGS =
     MANDATORY_SCRIPT_VERIFY_FLAGS OR SCRIPT_VERIFY_DERSIG OR SCRIPT_VERIFY_STRICTENC OR
     SCRIPT_VERIFY_MINIMALDATA OR SCRIPT_VERIFY_NULLDUMMY OR SCRIPT_VERIFY_DISCOURAGE_UPGRADABLE_NOPS"

definition STANDARD_NOT_MANDATORY_VERIFY_FLAGS :: flags where
  "STANDARD_NOT_MANDATORY_VERIFY_FLAGS = STANDARD_SCRIPT_VERIFY_FLAGS AND NOT MANDATORY_SCRIPT_VERIFY_FLAGS"

subsection \<open>Template matching\<close>

definition mTemplates :: "(txnouttype \<times> CScript) list" where
  "mTemplates =
     [(TX_PUBKEY, [OP_PUBKEY, OP_CHECKSIG]),
      (TX_PUBKEYHASH, [OP_DUP, OP_HASH160, OP_PUBKEYHASH, OP_EQUALVERIFY, OP_CHECKSIG]),
      (TX_MULTISIG, [OP_SMALLINTEGER, OP_PUBKEYS, OP_SMALLINTEGER, OP_CHECKMULTISIG])]"

text \<open>The keys at the place of \<open>OP_PUBKEYS\<close>: what was read after them, with its iterator.\<close>

function pubkeys_loop ::
    "opcodetype \<Rightarrow> valtype \<Rightarrow> bytes \<Rightarrow> valtype list \<Rightarrow> opcodetype \<times> valtype \<times> bytes \<times> valtype list" where
  "pubkeys_loop opcode1 vch1 pc1 sols =
     (if length vch1 \<ge> 33 \<and> length vch1 \<le> 65 then
        (case GetOp2 pc1 of (ok, opcode1', vch1', pc1') \<Rightarrow>
           if \<not> ok then (opcode1', vch1', pc1', sols @ [vch1])
           else pubkeys_loop opcode1' vch1' pc1' (sols @ [vch1]))
      else (opcode1, vch1, pc1, sols))"
  by pat_completeness auto
termination
  by (relation "measure (\<lambda>(opcode1, vch1, pc1, sols). length pc1)")
    (auto dest!: GetOp2_ok_shorter sym [of _ "GetOp2 _"])

declare pubkeys_loop.simps [simp del]

lemma pubkeys_loop_length: "length (fst (snd (snd (pubkeys_loop o1 v1 pc1 sols)))) \<le> length pc1"
proof (induction o1 v1 pc1 sols rule: pubkeys_loop.induct)
  case (1 o1 v1 pc1 sols)
  obtain ok o2 v2 pc2 where g: "GetOp2 pc1 = (ok, o2, v2, pc2)" by (cases "GetOp2 pc1") auto
  have le: "length pc2 \<le> length pc1"
    using GetOp2_shorter [OF g] g by (cases "pc1 = []") (auto simp: GetOp2_def)
  show ?case
  proof (cases "33 \<le> length v1 \<and> length v1 \<le> 65 \<and> ok")
    case True
    then have "length (fst (snd (snd (pubkeys_loop o2 v2 pc2 (sols @ [v1]))))) \<le> length pc2"
      using 1 [OF _ g [symmetric] refl refl] by auto
    then show ?thesis using True g le by (subst pubkeys_loop.simps) simp
  next
    case False
    then show ?thesis using g le by (subst pubkeys_loop.simps) auto
  qed
qed

lemma pubkeys_loop_le: "pubkeys_loop o1 v1 pc sols = (a, b, pc', d) \<Longrightarrow> length pc' \<le> length pc"
  using pubkeys_loop_length [of o1 v1 pc sols] by simp

text \<open>
  One template: \<open>Some\<close> of the solutions when both scripts end together, \<open>None\<close> on a break.
\<close>

function match_loop :: "bytes \<Rightarrow> bytes \<Rightarrow> valtype list \<Rightarrow> valtype list option" where
  "match_loop pc1 pc2 sols =
     (if pc1 = [] \<and> pc2 = [] then Some sols
      else case GetOp2 pc1 of (ok1, opcode1, vch1, pc1') \<Rightarrow>
      if \<not> ok1 then None
      else case GetOp2 pc2 of (ok2, opcode2, vch2, pc2') \<Rightarrow>
      if \<not> ok2 then None
      else
      let (opcode1', vch1', pc1'', sols') =
            (if opcode2 = OP_PUBKEYS then pubkeys_loop opcode1 vch1 pc1' sols else (opcode1, vch1, pc1', sols));
          (ok2', opcode2', vch2', pc2'') =
            (if opcode2 = OP_PUBKEYS then GetOp2 pc2' else (True, opcode2, vch2, pc2'))
      in if \<not> ok2' then None
      else if opcode2' = OP_PUBKEY then
        (if length vch1' < 33 \<or> length vch1' > 65 then None else match_loop pc1'' pc2'' (sols' @ [vch1']))
      else if opcode2' = OP_PUBKEYHASH then
        (if length vch1' \<noteq> 20 then None else match_loop pc1'' pc2'' (sols' @ [vch1']))
      else if opcode2' = OP_SMALLINTEGER then
        (case DecodeOP_N opcode1' of
           None \<Rightarrow> None
         | Some n \<Rightarrow> match_loop pc1'' pc2'' (sols' @ [[word_of_int n]]))
      else if opcode1' \<noteq> opcode2' \<or> vch1' \<noteq> vch2' then None
      else match_loop pc1'' pc2'' sols')"
  by pat_completeness auto
termination
  by (relation "measure (\<lambda>(pc1, pc2, sols). length pc1)")
    (auto dest!: GetOp2_ok_shorter sym [of _ "GetOp2 _"] sym [of _ "pubkeys_loop _ _ _ _"] pubkeys_loop_le
      split: if_splits)

declare match_loop.simps [simp del]

subsection \<open>Solver\<close>

text \<open>\<open>Solver\<close> returns whether it succeeds, the type and the solutions it sets.\<close>

fun scan_templates :: "(txnouttype \<times> CScript) list \<Rightarrow> CScript \<Rightarrow> bool \<times> txnouttype \<times> valtype list" where
  "scan_templates [] scriptPubKey = (False, TX_NONSTANDARD, [])"
| "scan_templates ((t, script2) # ts) scriptPubKey =
     (case match_loop scriptPubKey script2 [] of
        None \<Rightarrow> scan_templates ts scriptPubKey
      | Some sols \<Rightarrow>
          if t = TX_MULTISIG then
            (let m = hd sols ! 0; n = last sols ! 0
             in if m < 1 \<or> n < 1 \<or> m > n \<or> length sols - 2 \<noteq> unat n then (False, t, sols)
                else (True, t, sols))
          else (True, t, sols))"

definition Solver :: "CScript \<Rightarrow> (bool \<times> txnouttype \<times> valtype list) option" where
  "Solver scriptPubKey =
     (if IsPayToScriptHash scriptPubKey
      then Some (True, TX_SCRIPTHASH, [take 20 (drop 2 scriptPubKey)])
      else if IsZerocoinMint scriptPubKey then
        (if length scriptPubKey > 150 then Some (False, TX_ZEROCOINMINT, [])
         else if length scriptPubKey < 2 then None
         else Some (True, TX_ZEROCOINMINT, [drop 2 scriptPubKey]))
      else if length scriptPubKey \<ge> 1 \<and> scriptPubKey ! 0 = OP_RETURN \<and> IsPushOnly (drop 1 scriptPubKey)
      then Some (True, TX_NULL_DATA, [])
      else Some (scan_templates mTemplates scriptPubKey))"

definition ScriptSigArgsExpected :: "txnouttype \<Rightarrow> valtype list \<Rightarrow> int" where
  "ScriptSigArgsExpected t vSolutions =
     (case t of
        TX_PUBKEY \<Rightarrow> 1
      | TX_PUBKEYHASH \<Rightarrow> 2
      | TX_MULTISIG \<Rightarrow>
          if length vSolutions < 1 \<or> length (vSolutions ! 0) < 1 then - 1
          else uint (vSolutions ! 0 ! 0) + 1
      | TX_SCRIPTHASH \<Rightarrow> 1
      | _ \<Rightarrow> - 1)"

text \<open>\<open>datacarrier\<close> and \<open>nMaxDatacarrierBytes\<close> are the command line's.\<close>

definition IsStandard :: "bool \<Rightarrow> nat \<Rightarrow> CScript \<Rightarrow> (bool \<times> txnouttype) option" where
  "IsStandard datacarrier nMaxDatacarrierBytes scriptPubKey =
     (case Solver scriptPubKey of
        None \<Rightarrow> None
      | Some (ok, whichType, vSolutions) \<Rightarrow>
          Some
            ((if \<not> ok then False
              else if whichType = TX_MULTISIG then
                (let m = hd vSolutions ! 0; n = last vSolutions ! 0
                 in if n < 1 \<or> n > 3 then False else if m < 1 \<or> m > n then False else True)
              else if whichType = TX_NULL_DATA \<and> (\<not> datacarrier \<or> length scriptPubKey > nMaxDatacarrierBytes)
                then False
              else whichType \<noteq> TX_NONSTANDARD), whichType))"

subsection \<open>Destinations\<close>

text \<open>Hashes as the bytes of the code's \<open>uint160\<close>, and back by its constructor from 20 bytes.\<close>

definition ToByteVector160 :: "uint160 \<Rightarrow> bytes" where
  "ToByteVector160 h = le_enc 20 (unat h)"

definition uint160_of_vch :: "bytes \<Rightarrow> uint160" where
  "uint160_of_vch v = word_of_nat (le_dec v)"

definition CPubKey_of :: "bytes \<Rightarrow> CPubKey" where
  "CPubKey_of v = pk_Set (replicate PUBLIC_KEY_SIZE 0) v"

definition ExtractDestination :: "(bytes \<Rightarrow> uint160) \<Rightarrow> CScript \<Rightarrow> CTxDestination option option" where
  "ExtractDestination Hash160 scriptPubKey =
     (case Solver scriptPubKey of
        None \<Rightarrow> None
      | Some (ok, whichType, vSolutions) \<Rightarrow>
          Some
            (if \<not> ok then None
             else if whichType = TX_PUBKEY then
               (let pubKey = CPubKey_of (vSolutions ! 0)
                in if \<not> pk_IsValid pubKey then None else Some (CKeyID (pk_GetID Hash160 pubKey)))
             else if whichType = TX_PUBKEYHASH then Some (CKeyID (uint160_of_vch (vSolutions ! 0)))
             else if whichType = TX_SCRIPTHASH then Some (CScriptID (uint160_of_vch (vSolutions ! 0)))
             else None))"

text \<open>On success: the type, the destinations and the number of signatures required.\<close>

definition ExtractDestinations ::
    "(bytes \<Rightarrow> uint160) \<Rightarrow> CScript \<Rightarrow> (txnouttype \<times> CTxDestination list \<times> nat) option option" where
  "ExtractDestinations Hash160 scriptPubKey =
     (case Solver scriptPubKey of
        None \<Rightarrow> None
      | Some (ok, typeRet, vSolutions) \<Rightarrow>
          if \<not> ok then Some None
          else if typeRet = TX_NULL_DATA then Some None
          else if typeRet = TX_MULTISIG then
            (let keys = filter pk_IsValid (map CPubKey_of (butlast (tl vSolutions)));
                 addresses = map (\<lambda>k. CKeyID (pk_GetID Hash160 k)) keys
             in Some (if addresses = [] then None
                      else Some (typeRet, addresses, unat (hd vSolutions ! 0))))
          else
            (case ExtractDestination Hash160 scriptPubKey of
               None \<Rightarrow> None
             | Some None \<Rightarrow> Some None
             | Some (Some address) \<Rightarrow> Some (Some (typeRet, [address], 1))))"

fun GetScriptForDestination :: "CTxDestination \<Rightarrow> CScript" where
  "GetScriptForDestination CNoDestination = []"
| "GetScriptForDestination (CKeyID keyID) =
     push_op (push_op (push_data (push_op (push_op [] OP_DUP) OP_HASH160) (ToByteVector160 keyID)) OP_EQUALVERIFY) OP_CHECKSIG"
| "GetScriptForDestination (CScriptID scriptID) =
     push_op (push_data (push_op [] OP_HASH160) (ToByteVector160 scriptID)) OP_EQUAL"

text \<open>\<open>None\<close> is the assertion of \<open>EncodeOP_N\<close>.\<close>

definition GetScriptForMultisig :: "int \<Rightarrow> CPubKey list \<Rightarrow> CScript option" where
  "GetScriptForMultisig nRequired keys =
     (case EncodeOP_N nRequired of
        None \<Rightarrow> None
      | Some m \<Rightarrow>
          let script = foldl push_data (push_op [] m) (map pk_Raw keys)
          in case EncodeOP_N (int (length keys)) of
               None \<Rightarrow> None
             | Some n \<Rightarrow> Some (push_op (push_op script n) OP_CHECKMULTISIG))"

subsection \<open>What is written is recognised\<close>

lemma GetOp2_op: "opcode > OP_PUSHDATA4 \<Longrightarrow> GetOp2 (opcode # r) = (True, opcode, [], r)"
  by (rule GetOp2_big)

lemma length_ToByteVector160 [simp]: "length (ToByteVector160 h) = 20"
  by (simp add: ToByteVector160_def)

lemma uint160_roundtrip [simp]: "uint160_of_vch (ToByteVector160 h) = h"
proof -
  have "unat h < 256 ^ 20" using unsigned_less [of h] by simp
  then show ?thesis by (simp add: uint160_of_vch_def ToByteVector160_def)
qed

lemma match_pubkey_op:
  assumes "opcode > OP_PUSHDATA4"
  shows "match_loop (opcode # r) [OP_PUBKEY, OP_CHECKSIG] [] = None"
  using assms by (subst match_loop.simps) (simp add: GetOp2_big)

lemma match_p2pkh:
  assumes "length h = 20"
  shows "match_loop (p2pkh h) [OP_DUP, OP_HASH160, OP_PUBKEYHASH, OP_EQUALVERIFY, OP_CHECKSIG] [] = Some [h]"
proof -
  have p: "p2pkh h = OP_DUP # OP_HASH160 # push_data [] h @ [OP_EQUALVERIFY, OP_CHECKSIG]"
    by (simp add: p2pkh_def push_op_def push_data_append [of "[118, 169]"])
  have g: "GetOp2 (push_data [] h @ r) = (True, 20, h, r)" for r
    using GetOp2_push_small [of h r] assms by simp
  have ne: "push_data [] h @ r \<noteq> []" for r by (simp add: push_data_def)
  have 1: "match_loop (push_data [] h @ [OP_EQUALVERIFY, OP_CHECKSIG]) [OP_PUBKEYHASH, OP_EQUALVERIFY, OP_CHECKSIG] [] =
      match_loop [OP_EQUALVERIFY, OP_CHECKSIG] [OP_EQUALVERIFY, OP_CHECKSIG] [h]"
    using assms ne by (subst match_loop.simps) (simp add: g GetOp2_big)
  have 2: "match_loop [OP_EQUALVERIFY, OP_CHECKSIG] [OP_EQUALVERIFY, OP_CHECKSIG] sols = Some sols" for sols
    by (subst match_loop.simps, simp add: GetOp2_big)+
  have "match_loop (p2pkh h) [OP_DUP, OP_HASH160, OP_PUBKEYHASH, OP_EQUALVERIFY, OP_CHECKSIG] [] =
      match_loop (push_data [] h @ [OP_EQUALVERIFY, OP_CHECKSIG]) [OP_PUBKEYHASH, OP_EQUALVERIFY, OP_CHECKSIG] []"
    unfolding p by (subst match_loop.simps, simp add: GetOp2_big)+
  then show ?thesis by (simp only: 1 2)
qed

lemma Solver_p2pkh:
  assumes "length h = 20" shows "Solver (p2pkh h) = Some (True, TX_PUBKEYHASH, [h])"
proof -
  have p: "p2pkh h = OP_DUP # OP_HASH160 # push_data [] h @ [OP_EQUALVERIFY, OP_CHECKSIG]"
    by (simp add: p2pkh_def push_op_def push_data_append [of "[118, 169]"])
  have "length (p2pkh h) = 25" using assms by (simp add: p push_data_def)
  then have "\<not> IsPayToScriptHash (p2pkh h)" by (simp add: IsPayToScriptHash_def)
  moreover have "\<not> IsZerocoinMint (p2pkh h)" by (simp add: p IsZerocoinMint_def)
  moreover have "p2pkh h ! 0 = OP_DUP" by (simp add: p)
  moreover have "match_loop (p2pkh h) [OP_PUBKEY, OP_CHECKSIG] [] = None"
    unfolding p by (rule match_pubkey_op) simp
  ultimately show ?thesis using match_p2pkh [OF assms] by (simp add: Solver_def mTemplates_def)
qed

lemma p2sh_script: "length h = 20 \<Longrightarrow> push_op (push_data (push_op [] OP_HASH160) h) OP_EQUAL = OP_HASH160 # 20 # h @ [OP_EQUAL]"
  by (simp add: push_op_def push_data_def)

lemma Solver_p2sh:
  assumes "length h = 20"
  shows "Solver (OP_HASH160 # 20 # h @ [OP_EQUAL]) = Some (True, TX_SCRIPTHASH, [h])"
  using assms by (simp add: Solver_def IsPayToScriptHash_def nth_append nth_Cons')

text \<open>
  The script written for a key hash or a script hash is read back as exactly that
  destination, and the one for no destination as none.
\<close>

theorem destination_roundtrip:
  "ExtractDestination Hash160 (GetScriptForDestination d) = Some (if d = CNoDestination then None else Some d)"
proof (cases d)
  case CNoDestination
  have "match_loop [] t [] = None" if "t \<noteq> []" for t
    using that by (subst match_loop.simps) (simp add: GetOp2_def)
  then show ?thesis using CNoDestination
    by (simp add: ExtractDestination_def Solver_def IsPayToScriptHash_def IsZerocoinMint_def mTemplates_def)
next
  case (CKeyID h)
  have "GetScriptForDestination d = p2pkh (ToByteVector160 h)" by (simp add: CKeyID p2pkh_def)
  then show ?thesis using Solver_p2pkh [of "ToByteVector160 h"] by (simp add: ExtractDestination_def CKeyID)
next
  case (CScriptID h)
  then show ?thesis using Solver_p2sh [of "ToByteVector160 h"]
    by (simp add: ExtractDestination_def p2sh_script)
qed

text \<open>
  The only script on which the solver raises the exception of an invalid iterator range is
  the single byte \<open>OP_ZEROCOINMINT\<close>; the standardness test and the destination readers raise it
  for that script too.
\<close>

theorem Solver_exception:
  "(Solver s = None \<longleftrightarrow> s = [OP_ZEROCOINMINT]) \<and>
   (IsStandard dc n s = None \<longleftrightarrow> s = [OP_ZEROCOINMINT]) \<and>
   (ExtractDestinations Hash160 s = None \<longleftrightarrow> s = [OP_ZEROCOINMINT])"
proof -
  have s: "Solver s = None \<longleftrightarrow> s = [OP_ZEROCOINMINT]"
  proof
    assume "Solver s = None"
    then have "length s < 2" "IsZerocoinMint s" by (auto simp: Solver_def split: if_splits)
    then show "s = [OP_ZEROCOINMINT]" by (cases s) (auto simp: IsZerocoinMint_def)
  qed (simp add: Solver_def IsPayToScriptHash_def IsZerocoinMint_def)
  then show ?thesis
    by (auto simp: IsStandard_def ExtractDestinations_def ExtractDestination_def Let_def split: option.splits prod.splits)
qed

subsection \<open>Multisignature scripts\<close>

lemma EncodeOP_N_iff:
  assumes "1 \<le> m" "m \<le> 16"
  obtains c where "EncodeOP_N m = Some c" "c > OP_PUSHDATA4" "DecodeOP_N c = Some m" "c \<noteq> OP_DUP"
    "c \<noteq> OP_ZEROCOINMINT" "c \<noteq> OP_RETURN" "c \<noteq> OP_HASH160" "uint c = 80 + m"
proof -
  let ?c = "word_of_int (81 + m - 1) :: byte"
  have "81 + m - 1 = 80 + m" by simp
  moreover have "uint (word_of_int (80 + m) :: byte) = (80 + m) mod 256" by (simp only: uint_word_of_int) simp
  ultimately have u: "uint ?c = 80 + m" using assms by (simp only:) simp
  have "EncodeOP_N m = Some ?c" using assms by (simp add: EncodeOP_N_def)
  moreover have "?c > OP_PUSHDATA4" "?c \<ge> OP_1" "?c \<le> OP_16"
    unfolding word_less_def word_le_def u using assms by simp_all
  moreover have "?c \<noteq> OP_DUP" "?c \<noteq> OP_ZEROCOINMINT" "?c \<noteq> OP_RETURN" "?c \<noteq> OP_HASH160" "?c \<noteq> OP_0"
    unfolding word_uint_eq_iff u using assms by simp_all
  ultimately show ?thesis using that [of ?c] u by (simp add: DecodeOP_N_def)
qed

lemma foldl_push_data: "foldl push_data s vs = s @ concat (map (push_data []) vs)"
proof (induction vs arbitrary: s)
  case (Cons v vs)
  show ?case by (simp add: Cons.IH push_data_append [of s v])
qed simp

lemma pubkeys_loop_keys:
  assumes "\<forall>k\<in>set keys. 33 \<le> length k \<and> length k \<le> 65" "33 \<le> length k" "length k \<le> 65" "c > OP_PUSHDATA4"
  shows "pubkeys_loop opc k (concat (map (push_data []) keys) @ c # r) sols = (c, [], r, sols @ k # keys)"
  using assms
proof (induction keys arbitrary: opc k sols)
  case Nil
  then show ?case by (subst pubkeys_loop.simps) (simp add: GetOp2_big, subst pubkeys_loop.simps, simp)
next
  case (Cons k' keys)
  have g: "GetOp2 (push_data [] k' @ r') = (True, word_of_nat (length k'), k', r')" for r'
    using Cons.prems by (intro GetOp2_push_small) auto
  show ?case
    using Cons.prems Cons.IH [of k' "word_of_nat (length k')" "sols @ [k]"]
    by (subst pubkeys_loop.simps) (simp add: g)
qed


lemma match_multisig:
  assumes keys: "keys \<noteq> []" "\<forall>k\<in>set keys. 33 \<le> length k \<and> length k \<le> 65"
    and m: "c > OP_PUSHDATA4" "DecodeOP_N c = Some m" and n: "d > OP_PUSHDATA4" "DecodeOP_N d = Some n"
  shows "match_loop (c # concat (map (push_data []) keys) @ [d, OP_CHECKMULTISIG])
      [OP_SMALLINTEGER, OP_PUBKEYS, OP_SMALLINTEGER, OP_CHECKMULTISIG] [] =
    Some ([word_of_int m] # keys @ [[word_of_int n]])"
proof -
  obtain k ks where k: "keys = k # ks" using keys(1) by (cases keys) auto
  have g: "GetOp2 (push_data [] k @ r) = (True, word_of_nat (length k), k, r)" for r
    using keys k by (intro GetOp2_push_small) auto
  have p: "pubkeys_loop opc k (concat (map (push_data []) ks) @ [d, OP_CHECKMULTISIG]) sols =
      (d, [], [OP_CHECKMULTISIG], sols @ keys)" for opc sols
    using pubkeys_loop_keys [of ks k d opc "[OP_CHECKMULTISIG]" sols] keys k n by simp
  have 3: "match_loop [OP_CHECKMULTISIG] [OP_CHECKMULTISIG] sols = Some sols" for sols
    by (subst match_loop.simps, simp add: GetOp2_big)+
  have 2: "match_loop (push_data [] k @ concat (map (push_data []) ks) @ [d, OP_CHECKMULTISIG])
      [OP_PUBKEYS, OP_SMALLINTEGER, OP_CHECKMULTISIG] sols = Some (sols @ keys @ [[word_of_int n]])" for sols
    by (subst match_loop.simps) (simp add: g p GetOp2_big n 3)
  show ?thesis unfolding k
    by (subst match_loop.simps) (simp add: GetOp2_big m 2 [unfolded k])
qed

lemma match_op_p2pkh:
  "c > OP_PUSHDATA4 \<Longrightarrow> c \<noteq> OP_DUP \<Longrightarrow>
    match_loop (c # r) [OP_DUP, OP_HASH160, OP_PUBKEYHASH, OP_EQUALVERIFY, OP_CHECKSIG] [] = None"
  by (subst match_loop.simps) (simp add: GetOp2_big)

lemma Solver_multisig:
  assumes "keys \<noteq> []" "\<forall>k\<in>set keys. 33 \<le> length k \<and> length k \<le> 65" "1 \<le> m" "m \<le> length keys" "length keys \<le> 16"
  obtains c d where "EncodeOP_N (int m) = Some c" "EncodeOP_N (int (length keys)) = Some d"
    "Solver (c # concat (map (push_data []) keys) @ [d, OP_CHECKMULTISIG]) =
      Some (True, TX_MULTISIG, [word_of_nat m] # keys @ [[word_of_nat (length keys)]])"
proof -
  have mr: "1 \<le> int m" "int m \<le> 16" and nr: "1 \<le> int (length keys)" "int (length keys) \<le> 16"
    using assms by simp_all
  obtain c where c: "EncodeOP_N (int m) = Some c" "c > OP_PUSHDATA4" "DecodeOP_N c = Some (int m)" "c \<noteq> OP_DUP"
    "c \<noteq> OP_ZEROCOINMINT" "c \<noteq> OP_RETURN" "c \<noteq> OP_HASH160"
    using EncodeOP_N_iff [OF mr] by metis
  obtain d where d: "EncodeOP_N (int (length keys)) = Some d" "d > OP_PUSHDATA4" "DecodeOP_N d = Some (int (length keys))"
    using EncodeOP_N_iff [OF nr] by metis
  let ?s = "c # concat (map (push_data []) keys) @ [d, OP_CHECKMULTISIG]"
  have "match_loop ?s [OP_SMALLINTEGER, OP_PUBKEYS, OP_SMALLINTEGER, OP_CHECKMULTISIG] [] =
      Some ([word_of_nat m] # keys @ [[word_of_nat (length keys)]])"
    using match_multisig [OF assms(1,2) c(2,3) d(2,3)] by simp
  moreover have "\<not> (word_of_nat m :: byte) < 1" "\<not> (word_of_nat (length keys) :: byte) < 1"
    "\<not> (word_of_nat m :: byte) > word_of_nat (length keys)" "unat (word_of_nat (length keys) :: byte) = length keys"
    unfolding word_less_nat_alt unat_word_of_nat_byte using assms by simp_all
  ultimately have "Solver ?s = Some (True, TX_MULTISIG, [word_of_nat m] # keys @ [[word_of_nat (length keys)]])"
    using c match_pubkey_op [OF c(2)] match_op_p2pkh [OF c(2,4)]
    by (simp add: Solver_def mTemplates_def IsPayToScriptHash_def IsZerocoinMint_def Let_def)
  then show ?thesis using that c(1) d(1) by blast
qed

lemma CPubKey_of_Raw:
  assumes "length k = 65" "pk_IsValid k"
  shows "pk_IsValid (CPubKey_of (pk_Raw k))" "pk_Raw (CPubKey_of (pk_Raw k)) = pk_Raw k"
    "33 \<le> length (pk_Raw k) \<and> length (pk_Raw k) \<le> 65"
proof -
  let ?r = "pk_Raw k"
  have sz: "pk_size k = 33 \<or> pk_size k = 65" using assms(2) GetLen_cases [of "k ! 0"] by (auto simp: pk_IsValid_def pk_size_def)
  then have len: "length ?r = pk_size k" using assms(1) by (auto simp: pk_Raw_def)
  have hd: "hd ?r = k ! 0" "?r \<noteq> []" using sz assms(1) by (cases k; auto simp: pk_Raw_def)+
  then have s: "CPubKey_of ?r = ?r @ drop (length ?r) (replicate PUBLIC_KEY_SIZE 0)"
    using len sz by (auto simp: CPubKey_of_def pk_Set_def Let_def pk_size_def)
  have sz': "pk_size (CPubKey_of ?r) = length ?r"
    using hd len sz by (auto simp: s pk_size_def nth_append hd_conv_nth)
  then show "pk_IsValid (CPubKey_of ?r)" using len sz by (auto simp: pk_IsValid_def)
  have "pk_Raw (CPubKey_of ?r) = take (length ?r) (?r @ drop (length ?r) (replicate PUBLIC_KEY_SIZE 0))"
    unfolding pk_Raw_def [of "CPubKey_of ?r"] sz' by (simp only: s)
  then show "pk_Raw (CPubKey_of ?r) = ?r" by simp
  show "33 \<le> length ?r \<and> length ?r \<le> 65" using len sz by auto
qed

text \<open>
  The script of an m-of-n multisignature over valid keys is written without a failed
  assertion, is solved as such with its keys and both numbers, has the keys' identifiers as
  destinations with \<open>m\<close> signatures required, and is standard exactly up to three keys.
\<close>

theorem multisig_roundtrip:
  assumes "1 \<le> m" "m \<le> length keys" "length keys \<le> 16" "\<forall>k\<in>set keys. length k = 65 \<and> pk_IsValid k"
  shows "\<exists>s. GetScriptForMultisig (int m) keys = Some s \<and>
    Solver s = Some (True, TX_MULTISIG, [word_of_nat m] # map pk_Raw keys @ [[word_of_nat (length keys)]]) \<and>
    ExtractDestinations Hash160 s = Some (Some (TX_MULTISIG, map (\<lambda>k. CKeyID (pk_GetID Hash160 k)) keys, m)) \<and>
    IsStandard dc n s = Some (length keys \<le> 3, TX_MULTISIG)"
proof -
  let ?raw = "map pk_Raw keys"
  have raw: "?raw \<noteq> []" "\<forall>k\<in>set ?raw. 33 \<le> length k \<and> length k \<le> 65" "m \<le> length ?raw" "length ?raw \<le> 16"
    using assms CPubKey_of_Raw(3) by auto
  obtain c d where cd: "EncodeOP_N (int m) = Some c" "EncodeOP_N (int (length ?raw)) = Some d"
    "Solver (c # concat (map (push_data []) ?raw) @ [d, OP_CHECKMULTISIG]) =
      Some (True, TX_MULTISIG, [word_of_nat m] # ?raw @ [[word_of_nat (length ?raw)]])"
    using Solver_multisig [OF raw(1,2) assms(1) raw(3,4)] by metis
  define s where "s = c # concat (map (push_data []) ?raw) @ [d, OP_CHECKMULTISIG]"
  have gs: "GetScriptForMultisig (int m) keys = Some s"
    using cd(1,2) by (simp add: GetScriptForMultisig_def s_def push_op_def foldl_push_data Let_def)
  have sol: "Solver s = Some (True, TX_MULTISIG, [word_of_nat m] # ?raw @ [[word_of_nat (length keys)]])"
    using cd(3) by (simp add: s_def)
  have val: "filter pk_IsValid (map CPubKey_of ?raw) = map CPubKey_of ?raw"
    using assms(4) CPubKey_of_Raw(1) by (auto simp: filter_id_conv)
  have id: "map (\<lambda>k. CKeyID (pk_GetID Hash160 k)) (map CPubKey_of ?raw) = map (\<lambda>k. CKeyID (pk_GetID Hash160 k)) keys"
    using assms(4) CPubKey_of_Raw(2) by (auto simp: pk_GetID_def pk_Raw_def [symmetric])
  have mu: "unat (word_of_nat m :: byte) = m" "unat (word_of_nat (length keys) :: byte) = length keys"
    unfolding unat_word_of_nat_byte using assms by simp_all
  have "ExtractDestinations Hash160 s = Some (Some (TX_MULTISIG, map (\<lambda>k. CKeyID (pk_GetID Hash160 k)) keys, m))"
    using sol val id mu raw(1) by (simp add: ExtractDestinations_def Let_def)
  moreover have "IsStandard dc n s = Some (length keys \<le> 3, TX_MULTISIG)"
    using sol mu assms by (auto simp: IsStandard_def Let_def word_less_nat_alt)
  ultimately show ?thesis using gs sol by blast
qed

lemma multisig_roundtrip_witness:
  "\<exists>s. GetScriptForMultisig 1 [2 # replicate 64 7] = Some s \<and> IsStandard True 83 s = Some (True, TX_MULTISIG)"
  using multisig_roundtrip [of 1 "[2 # replicate 64 7]" "\<lambda>_. 0" True 83]
  by (auto simp: pk_IsValid_def pk_size_def GetLen_def COMPRESSED_PUBLIC_KEY_SIZE_def)

end
