(* ===== verification/Sighash.thy ===== *)
theory Sighash
  imports Interpreter Transaction Pubkey
begin

section \<open>Signature hashes (script/interpreter.h, script/interpreter.cpp)\<close>

text \<open>
  What a transaction signature signs: the transaction serialized with the changes the hash
  type asks for, done on the fly by \<open>CTransactionSignatureSerializer\<close>. The hash of a byte
  string and the verification of a signature by a key are parameters; vectors are shorter than
  \<open>2 ^ 32\<close>. The theorems show that this serialization is the one of the reference in the test
  suite, which builds the changed transaction, and what a signature commits to.
\<close>

subsection \<open>The serializer\<close>

definition fAnyoneCanPay :: "u32 \<Rightarrow> bool" where
  "fAnyoneCanPay nHashType \<longleftrightarrow> nHashType AND ucast SIGHASH_ANYONECANPAY \<noteq> 0"

definition fHashSingle :: "u32 \<Rightarrow> bool" where
  "fHashSingle nHashType \<longleftrightarrow> nHashType AND 0x1f = ucast SIGHASH_SINGLE"

definition fHashNone :: "u32 \<Rightarrow> bool" where
  "fHashNone nHashType \<longleftrightarrow> nHashType AND 0x1f = ucast SIGHASH_NONE"

function count_separators :: "bytes \<Rightarrow> nat" where
  "count_separators it =
     (case GetOp2 it of (ok, opcode, vch, it2) \<Rightarrow>
        if ok then (if opcode = OP_CODESEPARATOR then 1 else 0) + count_separators it2 else 0)"
  by pat_completeness auto
termination
  by (relation "measure length") (auto dest!: GetOp2_ok_shorter sym [of _ "GetOp2 _"])

declare count_separators.simps [simp del]

text \<open>The pieces between the separators; the iterators are the rests of the script they point at.\<close>

function write_code :: "bytes \<Rightarrow> bytes \<Rightarrow> bytes" where
  "write_code itBegin it =
     (case GetOp2 it of (ok, opcode, vch, it2) \<Rightarrow>
        if ok then
          (if opcode = OP_CODESEPARATOR
           then take (length itBegin - length it2 - 1) itBegin @ write_code it2 it2
           else write_code itBegin it2)
        else if itBegin \<noteq> [] then take (length itBegin - length it2) itBegin
        else [])"
  by pat_completeness auto
termination
  by (relation "measure (\<lambda>(itBegin, it). length it)") (auto dest!: GetOp2_ok_shorter sym [of _ "GetOp2 _"])

declare write_code.simps [simp del]

definition SerializeScriptCode :: "CScript \<Rightarrow> bytes" where
  "SerializeScriptCode scriptCode =
     WriteCompactSize (length scriptCode - count_separators scriptCode) @ write_code scriptCode scriptCode"

definition SerializeInput :: "CTransaction \<Rightarrow> CScript \<Rightarrow> nat \<Rightarrow> u32 \<Rightarrow> nat \<Rightarrow> bytes" where
  "SerializeInput txTo scriptCode nIn nHashType nInput0 =
     (let nInput = (if fAnyoneCanPay nHashType then nIn else nInput0)
      in OutPoint_Serialize (prevout (vin txTo ! nInput)) @
         (if nInput \<noteq> nIn then Serialize_blob [] else SerializeScriptCode scriptCode) @
         (if nInput \<noteq> nIn \<and> (fHashSingle nHashType \<or> fHashNone nHashType) then Serialize_int 4 0
          else u32_Serialize (nSequence (vin txTo ! nInput))))"

definition SerializeOutput :: "CTransaction \<Rightarrow> nat \<Rightarrow> u32 \<Rightarrow> nat \<Rightarrow> bytes" where
  "SerializeOutput txTo nIn nHashType nOutput =
     (if fHashSingle nHashType \<and> nOutput \<noteq> nIn
      then TxOut_Serialize \<lparr>nValue = - 1, scriptPubKey = [], nRounds = - 10\<rparr>
      else TxOut_Serialize (vout txTo ! nOutput))"

definition sig_Serialize :: "CTransaction \<Rightarrow> CScript \<Rightarrow> nat \<Rightarrow> u32 \<Rightarrow> bytes" where
  "sig_Serialize txTo scriptCode nIn nHashType =
     (let nInputs = (if fAnyoneCanPay nHashType then 1 else length (vin txTo));
          nOutputs = (if fHashNone nHashType then 0
                      else if fHashSingle nHashType then nIn + 1 else length (vout txTo))
      in Serialize_int 4 (tx_nVersion txTo) @
         WriteCompactSize nInputs @
         concat (map (SerializeInput txTo scriptCode nIn nHashType) [0..<nInputs]) @
         WriteCompactSize nOutputs @
         concat (map (SerializeOutput txTo nIn nHashType) [0..<nOutputs]) @
         u32_Serialize (nLockTime txTo))"

definition SignatureHash ::
    "(bytes \<Rightarrow> uint256) \<Rightarrow> CScript \<Rightarrow> CTransaction \<Rightarrow> nat \<Rightarrow> u32 \<Rightarrow> uint256" where
  "SignatureHash Hash scriptCode txTo nIn nHashType =
     (if nIn \<ge> length (vin txTo) then 1
      else if fHashSingle nHashType \<and> nIn \<ge> length (vout txTo) then 1
      else Hash (sig_Serialize txTo scriptCode nIn nHashType @ u32_Serialize nHashType))"

definition tx_CheckSig ::
    "(CPubKey \<Rightarrow> uint256 \<Rightarrow> bytes \<Rightarrow> bool) \<Rightarrow> (bytes \<Rightarrow> uint256) \<Rightarrow> CTransaction \<Rightarrow> nat \<Rightarrow>
     valtype \<Rightarrow> valtype \<Rightarrow> CScript \<Rightarrow> bool" where
  "tx_CheckSig Verify Hash txTo nIn vchSigIn vchPubKey scriptCode =
     (let pubkey = pk_Set (replicate PUBLIC_KEY_SIZE 0) vchPubKey
      in if \<not> pk_IsValid pubkey then False
         else if vchSigIn = [] then False
         else let nHashType = ucast (last vchSigIn) :: u32;
                  sighash = SignatureHash Hash scriptCode txTo nIn nHashType
              in Verify pubkey sighash (butlast vchSigIn))"

subsection \<open>The reference of the test suite (test/sighash_tests.cpp)\<close>

definition blank_sequences :: "nat \<Rightarrow> CTxIn list \<Rightarrow> CTxIn list" where
  "blank_sequences nIn v = map (\<lambda>i. if i \<noteq> nIn then (v ! i)\<lparr>nSequence := 0\<rparr> else v ! i) [0..<length v]"

definition SignatureHashOld ::
    "(bytes \<Rightarrow> uint256) \<Rightarrow> CScript \<Rightarrow> CTransaction \<Rightarrow> nat \<Rightarrow> u32 \<Rightarrow> uint256" where
  "SignatureHashOld Hash scriptCode0 txTo nIn nHashType =
     (if nIn \<ge> length (vin txTo) then 1 else
      let txTmp = mtx_of_tx txTo;
          scriptCode = snd (FindAndDelete scriptCode0 (push_op [] OP_CODESEPARATOR));
          vin1 = map (\<lambda>i. i\<lparr>scriptSig := []\<rparr>) (mtx_vin txTmp);
          vin2 = vin1[nIn := (vin1 ! nIn)\<lparr>scriptSig := scriptCode\<rparr>];
          vo = mtx_vout txTmp
      in if fHashSingle nHashType \<and> nIn \<ge> length vo then 1 else
      let (vin3, vout3) =
            (if fHashNone nHashType then (blank_sequences nIn vin2, [])
             else if fHashSingle nHashType then
               (blank_sequences nIn vin2,
                map (\<lambda>i. if i < nIn then TxOut_SetNull (vo ! i) else vo ! i) [0..<nIn + 1])
             else (vin2, vo));
          vin4 = (if fAnyoneCanPay nHashType then [vin3 ! nIn] else vin3)
      in Hash (mtx_Serialize (txTmp\<lparr>mtx_vin := vin4, mtx_vout := vout3\<rparr>) @ u32_Serialize nHashType))"

subsection \<open>The script code\<close>

lemma script_ops_concat: "concat (fst (script_ops pc)) @ snd (script_ops pc) = pc"
proof (induction pc rule: script_ops.induct)
  case (1 pc)
  obtain ok opcode v pc2 where g: "GetOp2 pc = (ok, opcode, v, pc2)" by (cases "GetOp2 pc") auto
  show ?case
  proof (cases ok)
    case True
    obtain c where c: "pc = c @ pc2" using GetOp2_split [OF g [unfolded eqTrueI [OF True]]] by blast
    have "concat (fst (script_ops pc2)) @ snd (script_ops pc2) = pc2"
      using 1 [OF g [symmetric] refl refl True] .
    then show ?thesis using g True c
      by (subst (1 2) script_ops.simps) (cases "script_ops pc2", simp add: Let_def)
  next
    case False
    then show ?thesis using g by (subst (1 2) script_ops.simps) simp
  qed
qed

abbreviation separator :: bytes where
  "separator \<equiv> [OP_CODESEPARATOR]"

lemma GetOp2_separator:
  assumes "GetOp2 pc = (True, opcode, v, pc2)"
  shows "opcode = OP_CODESEPARATOR \<longleftrightarrow> take (length pc - length pc2) pc = separator"
proof -
  obtain c where c: "pc = c @ pc2" "c \<noteq> []" "\<And>r. GetOp2 (c @ r) = (True, opcode, v, r)"
    using GetOp2_split [OF assms] by blast
  then obtain x xs where x: "c = x # xs" by (cases c) auto
  have "x = OP_CODESEPARATOR \<longleftrightarrow> opcode = OP_CODESEPARATOR"
    using c(3) [of "[]"] x by (auto simp: GetOp2_def split: if_splits sum.splits)
  moreover have "x = OP_CODESEPARATOR \<Longrightarrow> xs = []"
    using c(3) [of "[]"] x GetOp2_big [of OP_CODESEPARATOR xs] by auto
  ultimately show ?thesis using c(1) x by auto
qed

lemma write_code_ops:
  assumes "snd (script_ops it) = []"
  shows "write_code (p @ it) it = p @ concat (filter (\<lambda>c. c \<noteq> separator) (fst (script_ops it)))"
  using assms
proof (induction it arbitrary: p rule: script_ops.induct)
  case (1 it)
  obtain ok opcode v it2 where g: "GetOp2 it = (ok, opcode, v, it2)" by (cases "GetOp2 it") auto
  show ?case
  proof (cases ok)
    case False
    then have "it = []" "script_ops it = ([], [])" using 1(2) g script_ops_fail [of it] by auto
    then show ?thesis using g False by (subst write_code.simps) (auto simp: GetOp2_def)
  next
    case True
    let ?c = "take (length it - length it2) it"
    have g': "GetOp2 it = (True, opcode, v, it2)" using g True by simp
    obtain c where c: "it = c @ it2" using GetOp2_split [OF g'] by blast
    have cc: "?c = c" using c by simp
    have ops: "script_ops it = (c # fst (script_ops it2), snd (script_ops it2))"
      using g' cc by (subst script_ops.simps) (simp add: Let_def split: prod.splits)
    have r: "snd (script_ops it2) = []" using 1(2) ops by simp
    have IH: "write_code (q @ it2) it2 = q @ concat (filter (\<lambda>c. c \<noteq> separator) (fst (script_ops it2)))" for q
      using 1(1) [OF g [symmetric] refl refl True r] .
    have sep: "opcode = OP_CODESEPARATOR \<longleftrightarrow> c = separator"
      using GetOp2_separator [OF g'] cc by simp
    show ?thesis
      using g' IH [of "[]"] IH [of "p @ c"] ops c sep by (subst write_code.simps) auto
  qed
qed

lemma count_separators_ops:
  "count_separators it = count_list (fst (script_ops it)) separator"
proof (induction it rule: script_ops.induct)
  case (1 it)
  obtain ok opcode v it2 where g: "GetOp2 it = (ok, opcode, v, it2)" by (cases "GetOp2 it") auto
  show ?case
  proof (cases ok)
    case True
    then have "script_ops it = (take (length it - length it2) it # fst (script_ops it2), snd (script_ops it2))"
      using g by (subst script_ops.simps) (simp add: Let_def split: prod.splits)
    then show ?thesis using g True 1 [OF g [symmetric] refl refl True] GetOp2_separator [of it opcode v it2]
      by (subst count_separators.simps) auto
  next
    case False
    then show ?thesis using g script_ops_fail [of it] by (subst count_separators.simps) simp
  qed
qed

lemma length_concat_filter_separator:
  "length (concat (filter (\<lambda>c. c \<noteq> separator) cs)) = length (concat cs) - count_list cs separator \<and>
   count_list cs separator \<le> length (concat cs)"
  by (induction cs) auto

lemma FindAndDelete_separator:
  assumes "snd (script_ops code) = []"
  shows "snd (FindAndDelete code separator) = concat (filter (\<lambda>c. c \<noteq> separator) (fst (script_ops code)))"
proof -
  have i: "is_instr separator" using GetOp2_big [of OP_CODESEPARATOR "[]"] by (simp add: is_instr_def)
  obtain n s where fd: "find_delete_loop separator code = (n, s)" by fastforce
  have "script_ops s = (filter (\<lambda>c. c \<noteq> separator) (fst (script_ops code)), [])"
    using find_delete_loop_ops [OF i fd] assms by simp
  then show ?thesis using script_ops_concat [of s] by (simp add: FindAndDelete_def fd)
qed

lemma length_FindAndDelete_separator:
  assumes "snd (script_ops code) = []"
  shows "length (snd (FindAndDelete code separator)) = length code - count_separators code"
  using length_concat_filter_separator [of "fst (script_ops code)"] script_ops_concat [of code] assms
  by (simp add: count_separators_ops FindAndDelete_separator)

lemma SerializeScriptCode_ops:
  assumes "snd (script_ops code) = []"
  shows "SerializeScriptCode code = Serialize_blob (snd (FindAndDelete code separator))"
  using write_code_ops [OF assms, of "[]"] length_FindAndDelete_separator [OF assms]
  by (simp add: SerializeScriptCode_def Serialize_blob_def FindAndDelete_separator [OF assms])

subsection \<open>The two serializations agree\<close>

lemma hash_kinds: "\<not> (fHashNone t \<and> fHashSingle t)"
  by (simp add: fHashNone_def fHashSingle_def SIGHASH_NONE_def SIGHASH_SINGLE_def)

lemma map_nth_upt: "map (\<lambda>i. f (xs ! i)) [0..<length xs] = map f xs"
  by (rule nth_equalityI) auto

lemma Serialize_int_0: "Serialize_int 4 0 = u32_Serialize 0"
  by (simp add: Serialize_int_def u32_Serialize_def to_u_def)

text \<open>The inputs of the changed transaction.\<close>

definition signed_input :: "CTransaction \<Rightarrow> CScript \<Rightarrow> nat \<Rightarrow> u32 \<Rightarrow> nat \<Rightarrow> CTxIn" where
  "signed_input txTo code nIn t i =
     (vin txTo ! i)\<lparr>scriptSig := (if i = nIn then code else []),
        nSequence := (if i \<noteq> nIn \<and> (fHashSingle t \<or> fHashNone t) then 0 else nSequence (vin txTo ! i))\<rparr>"

definition signed_inputs :: "CTransaction \<Rightarrow> CScript \<Rightarrow> nat \<Rightarrow> u32 \<Rightarrow> CTxIn list" where
  "signed_inputs txTo code nIn t =
     (if fAnyoneCanPay t then [signed_input txTo code nIn t nIn]
      else map (signed_input txTo code nIn t) [0..<length (vin txTo)])"

definition signed_outputs :: "CTransaction \<Rightarrow> nat \<Rightarrow> u32 \<Rightarrow> CTxOut list" where
  "signed_outputs txTo nIn t =
     (if fHashNone t then []
      else if fHashSingle t then
        map (\<lambda>i. if i \<noteq> nIn then mk_CTxOut (- 1) [] else vout txTo ! i) [0..<nIn + 1]
      else vout txTo)"

definition signed_tx :: "CTransaction \<Rightarrow> CScript \<Rightarrow> nat \<Rightarrow> u32 \<Rightarrow> CTransaction" where
  "signed_tx txTo code nIn t =
     txTo\<lparr>vin := signed_inputs txTo code nIn t, vout := signed_outputs txTo nIn t\<rparr>"

lemma SerializeInput_signed:
  assumes "snd (script_ops code) = []" "\<not> fAnyoneCanPay t \<or> i = nIn"
  shows "SerializeInput tx code nIn t i = TxIn_Serialize (signed_input tx (snd (FindAndDelete code separator)) nIn t i)"
  using assms
  by (auto simp: SerializeInput_def Let_def signed_input_def TxIn_Serialize_def SerializeScriptCode_ops Serialize_int_0)

lemma SerializeOutput_signed:
  "SerializeOutput tx nIn t i =
     TxOut_Serialize (if fHashSingle t \<and> i \<noteq> nIn then mk_CTxOut (- 1) [] else vout tx ! i)"
  by (simp add: SerializeOutput_def mk_CTxOut_def)

lemma sig_Serialize_signed:
  assumes "snd (script_ops code) = []"
  shows "sig_Serialize tx code nIn t = tx_Serialize (signed_tx tx (snd (FindAndDelete code separator)) nIn t)"
proof -
  let ?code = "snd (FindAndDelete code separator)"
  have i: "concat (map (SerializeInput tx code nIn t) [0..<(if fAnyoneCanPay t then 1 else length (vin tx))]) =
      concat (map TxIn_Serialize (signed_inputs tx ?code nIn t))"
  proof (cases "fAnyoneCanPay t")
    case True
    have "SerializeInput tx code nIn t 0 = SerializeInput tx code nIn t nIn"
      using True by (simp add: SerializeInput_def)
    then show ?thesis using True SerializeInput_signed [OF assms, of t nIn nIn tx]
      by (simp add: signed_inputs_def)
  next
    case False
    then have "map (SerializeInput tx code nIn t) [0..<length (vin tx)] =
        map (TxIn_Serialize \<circ> signed_input tx ?code nIn t) [0..<length (vin tx)]"
      using SerializeInput_signed [OF assms, of t _ nIn tx] by simp
    then show ?thesis using False by (simp only: signed_inputs_def if_False map_map)
  qed
  have li: "length (signed_inputs tx ?code nIn t) = (if fAnyoneCanPay t then 1 else length (vin tx))"
    by (simp add: signed_inputs_def)
  have o: "map (SerializeOutput tx nIn t) [0..<length (signed_outputs tx nIn t)] =
      map TxOut_Serialize (signed_outputs tx nIn t)"
    by (rule nth_equalityI) (auto simp: SerializeOutput_signed signed_outputs_def simp del: upt_Suc)
  have lo: "length (signed_outputs tx nIn t) =
      (if fHashNone t then 0 else if fHashSingle t then nIn + 1 else length (vout tx))"
    by (simp add: signed_outputs_def)
  show ?thesis
    unfolding sig_Serialize_def Let_def i tx_Serialize_def Serialize_vec_def signed_tx_def
    by (simp add: li o flip: lo)
qed

lemma blank_sequences_signed:
  assumes "nIn < length (vin tx)" "fHashSingle t \<or> fHashNone t"
  shows "blank_sequences nIn ((map (\<lambda>i. i\<lparr>scriptSig := []\<rparr>) (vin tx))
      [nIn := (map (\<lambda>i. i\<lparr>scriptSig := []\<rparr>) (vin tx) ! nIn)\<lparr>scriptSig := code\<rparr>]) =
    map (signed_input tx code nIn t) [0..<length (vin tx)]"
  using assms by (intro nth_equalityI) (auto simp: blank_sequences_def signed_input_def nth_list_update)

lemma plain_inputs_signed:
  assumes "nIn < length (vin tx)" "\<not> fHashSingle t" "\<not> fHashNone t"
  shows "(map (\<lambda>i. i\<lparr>scriptSig := []\<rparr>) (vin tx))
      [nIn := (map (\<lambda>i. i\<lparr>scriptSig := []\<rparr>) (vin tx) ! nIn)\<lparr>scriptSig := code\<rparr>] =
    map (signed_input tx code nIn t) [0..<length (vin tx)]"
  using assms by (intro nth_equalityI) (auto simp: signed_input_def nth_list_update)

lemma signed_outputs_single:
  assumes "fHashSingle t" "nIn < length (vout tx)"
  shows "map (\<lambda>i. if i < nIn then TxOut_SetNull (vout tx ! i) else vout tx ! i) [0..<nIn + 1] =
    signed_outputs tx nIn t"
  using assms hash_kinds [of t]
  by (intro nth_equalityI) (auto simp: signed_outputs_def TxOut_SetNull_def mk_CTxOut_def simp del: upt_Suc)

lemma mtx_of_tx_fields [simp]: "mtx_vin (mtx_of_tx tx) = vin tx" "mtx_vout (mtx_of_tx tx) = vout tx"
  by (simp_all add: mtx_of_tx_def)

lemma mtx_tx_Serialize:
  "mtx_Serialize ((mtx_of_tx tx)\<lparr>mtx_vin := i, mtx_vout := out\<rparr>) = tx_Serialize (tx\<lparr>vin := i, vout := out\<rparr>)"
  by (simp add: mtx_Serialize_def tx_Serialize_def mtx_of_tx_def)

text \<open>
  C10: for every script code that parses to its end, the serializer that blanks on the fly gives
  the same signature hash as the reference that builds the changed transaction, for every
  input, hash type and transaction, the two out-of-range cases included.
\<close>

theorem SignatureHash_reference:
  assumes "snd (script_ops code) = []"
  shows "SignatureHash Hash code tx nIn t = SignatureHashOld Hash code tx nIn t"
proof -
  let ?code = "snd (FindAndDelete code separator)"
  consider "nIn \<ge> length (vin tx)" | "nIn < length (vin tx)" "fHashSingle t \<and> nIn \<ge> length (vout tx)"
    | "nIn < length (vin tx)" "\<not> (fHashSingle t \<and> nIn \<ge> length (vout tx))" by linarith
  then show ?thesis
  proof cases
    case 3
    have nth: "map (signed_input tx ?code nIn t) [0..<length (vin tx)] ! nIn = signed_input tx ?code nIn t nIn"
      using 3(1) by simp
    have "SignatureHashOld Hash code tx nIn t =
        Hash (tx_Serialize (signed_tx tx ?code nIn t) @ u32_Serialize t)"
    proof -
      consider "fHashNone t" "\<not> fHashSingle t" | "fHashSingle t" "\<not> fHashNone t"
        | "\<not> fHashSingle t" "\<not> fHashNone t" using hash_kinds by blast
      then show ?thesis
      proof cases
        case 1
        then show ?thesis using 3 blank_sequences_signed [OF 3(1), of t ?code] nth
          unfolding SignatureHashOld_def Let_def mtx_of_tx_fields push_op_def
          by (simp add: mtx_tx_Serialize signed_tx_def signed_inputs_def
              signed_outputs_def Let_def del: list_update_id)
      next
        case 2
        then show ?thesis using 3 blank_sequences_signed [OF 3(1), of t ?code] nth
            signed_outputs_single [of t nIn tx, unfolded Suc_eq_plus1 [symmetric]]
          unfolding SignatureHashOld_def Let_def mtx_of_tx_fields push_op_def
          by (simp add: mtx_tx_Serialize signed_tx_def signed_inputs_def Let_def del: upt_Suc)
      next
        case 3
        then show ?thesis using \<open>nIn < length (vin tx)\<close> plain_inputs_signed [of nIn tx t ?code] nth
          unfolding SignatureHashOld_def Let_def mtx_of_tx_fields push_op_def
          by (simp add: mtx_tx_Serialize signed_tx_def signed_inputs_def
              signed_outputs_def Let_def)
      qed
    qed
    then show ?thesis using 3 by (auto simp: SignatureHash_def sig_Serialize_signed [OF assms])
  qed (auto simp: SignatureHash_def SignatureHashOld_def Let_def mtx_of_tx_def)
qed

text \<open>
  For a code that ends inside of a push the two differ: the serializer announces the whole length and leaves
  the end of the code out.
\<close>

lemma reference_truncated:
  "SerializeScriptCode [5, 1] = [2, 5] \<and> Serialize_blob (snd (FindAndDelete [5, 1] separator)) = [2, 5, 1]"
  by code_simp

lemma SignatureHash_reference_witness:
  "SignatureHash (\<lambda>b. of_nat (length b)) [OP_DUP, OP_CODESEPARATOR] sample_tx 0 1 =
   SignatureHashOld (\<lambda>b. of_nat (length b)) [OP_DUP, OP_CODESEPARATOR] sample_tx 0 1"
  by (rule SignatureHash_reference) code_simp


subsection \<open>What a signature commits to\<close>

lemma signed_tx_wf:
  assumes "tx_wf tx" "nIn < length (vin tx)" "\<not> fHashSingle t" "length code \<le> MAX_SIZE"
  shows "tx_wf (signed_tx tx code nIn t)"
proof -
  have "TxIn_wf (signed_input tx code nIn t i)" if "i < length (vin tx)" for i
    using assms that by (auto simp: signed_input_def TxIn_wf_def tx_wf_def list_all_length)
  then show ?thesis using assms
    by (auto simp: signed_tx_def tx_wf_def signed_inputs_def signed_outputs_def list_all_iff MAX_SIZE_def)
qed

lemma tx_Serialize_inj:
  assumes "tx_wf a" "tx_wf b" "tx_Serialize a = tx_Serialize b"
  shows "tx_nVersion a = tx_nVersion b \<and> vin a = vin b \<and> vout a = vout b \<and> nLockTime a = nLockTime b"
proof -
  have "a\<lparr>tx_hash := 0\<rparr> = b\<lparr>tx_hash := 0\<rparr>"
    using tx_Unserialize_Serialize [OF assms(1), of "\<lambda>_. 0" "[]"]
      tx_Unserialize_Serialize [OF assms(2), of "\<lambda>_. 0" "[]"] assms(3) by simp
  then show ?thesis by (cases a; cases b) simp
qed

text \<open>
  C8: a signature over all inputs and outputs commits to the transaction. If two well-formed transactions
  have the same bytes to sign under such a hash type, for script codes that parse to their ends (as the code of
  every script that runs to its end does), they have the same version, lock time and outputs, and spend the same
  outpoints with the same sequence numbers. Unless the code without its separators is empty, they also sign
  at the same input, and their codes are equal up to \<open>OP_CODESEPARATOR\<close>s. Nothing is said of the signature
  scripts of the inputs, which are not signed.
\<close>

theorem signature_commits:
  assumes "tx_wf tx" "nIn < length (vin tx)" "snd (script_ops code) = []" "length code \<le> MAX_SIZE"
    and "tx_wf tx'" "nIn' < length (vin tx')" "snd (script_ops code') = []" "length code' \<le> MAX_SIZE"
    and "\<not> fAnyoneCanPay t" "\<not> fHashSingle t" "\<not> fHashNone t"
    and "sig_Serialize tx code nIn t = sig_Serialize tx' code' nIn' t"
  shows "tx_nVersion tx = tx_nVersion tx' \<and> nLockTime tx = nLockTime tx' \<and> vout tx = vout tx' \<and>
    map prevout (vin tx) = map prevout (vin tx') \<and> map nSequence (vin tx) = map nSequence (vin tx') \<and>
    (snd (FindAndDelete code (push_op [] OP_CODESEPARATOR)) \<noteq> [] \<longrightarrow>
       nIn = nIn' \<and> snd (FindAndDelete code (push_op [] OP_CODESEPARATOR)) =
                    snd (FindAndDelete code' (push_op [] OP_CODESEPARATOR)))"
proof -
  let ?c = "snd (FindAndDelete code separator)" and ?c' = "snd (FindAndDelete code' separator)"
  let ?i = "map (signed_input tx ?c nIn t) [0..<length (vin tx)]"
  let ?i' = "map (signed_input tx' ?c' nIn' t) [0..<length (vin tx')]"
  have "length ?c \<le> MAX_SIZE" "length ?c' \<le> MAX_SIZE"
    using assms length_FindAndDelete_separator [of code] length_FindAndDelete_separator [of code'] by simp_all
  then have wf: "tx_wf (signed_tx tx ?c nIn t)" "tx_wf (signed_tx tx' ?c' nIn' t)"
    using assms by (simp_all add: signed_tx_wf)
  have e: "tx_nVersion tx = tx_nVersion tx' \<and> ?i = ?i' \<and> vout tx = vout tx' \<and> nLockTime tx = nLockTime tx'"
    using tx_Serialize_inj [OF wf] assms
    by (simp add: sig_Serialize_signed signed_tx_def signed_inputs_def signed_outputs_def)
  then have len: "length (vin tx) = length (vin tx')" by (metis length_map length_upt minus_nat.diff_0)
  have nth: "signed_input tx ?c nIn t i = signed_input tx' ?c' nIn' t i" if "i < length (vin tx)" for i
    using e that len by (metis (no_types, lifting) add_0 nth_map_upt minus_nat.diff_0)
  have pr: "prevout (vin tx ! i) = prevout (vin tx' ! i)" "nSequence (vin tx ! i) = nSequence (vin tx' ! i)"
    if "i < length (vin tx)" for i
    using arg_cong [OF nth [OF that], of prevout] arg_cong [OF nth [OF that], of nSequence] assms
    by (simp_all add: signed_input_def)
  have sc: "(if i = nIn then ?c else []) = (if i = nIn' then ?c' else [])" if "i < length (vin tx)" for i
    using arg_cong [OF nth [OF that], of scriptSig] by (simp add: signed_input_def)
  have "map prevout (vin tx) = map prevout (vin tx')" "map nSequence (vin tx) = map nSequence (vin tx')"
    using len pr by (auto intro!: nth_equalityI)
  moreover have "?c \<noteq> [] \<longrightarrow> nIn = nIn' \<and> ?c = ?c'"
    using sc [OF assms(2)] by (auto split: if_splits)
  ultimately show ?thesis using e by (simp add: push_op_def)
qed

text \<open>Two transactions that differ in their hashes and signature scripts, and codes that differ in a separator.\<close>

definition resigned_tx :: CTransaction where
  "resigned_tx = sample_tx\<lparr>tx_hash := 9, vin := map (\<lambda>i. i\<lparr>scriptSig := [OP_1]\<rparr>) (vin sample_tx)\<rparr>"

lemma same_bytes_signed: "sig_Serialize sample_tx [OP_DUP, OP_CODESEPARATOR] 0 1 = sig_Serialize resigned_tx [OP_DUP] 0 1"
proof -
  have p: "snd (script_ops [OP_DUP, OP_CODESEPARATOR]) = []" "snd (script_ops [OP_DUP]) = []" by code_simp+
  have "snd (FindAndDelete [OP_DUP, OP_CODESEPARATOR] separator) = snd (FindAndDelete [OP_DUP] separator)" by code_simp
  moreover have "signed_inputs resigned_tx code 0 1 = signed_inputs sample_tx code 0 1" for code
    by (simp add: signed_inputs_def signed_input_def resigned_tx_def fAnyoneCanPay_def SIGHASH_ANYONECANPAY_def)
  moreover have "signed_outputs resigned_tx 0 1 = signed_outputs sample_tx 0 1"
    by (simp add: signed_outputs_def resigned_tx_def)
  ultimately show ?thesis
    by (simp add: sig_Serialize_signed p signed_tx_def tx_Serialize_def resigned_tx_def)
qed

lemma signature_commits_witness:
  "sig_Serialize sample_tx [OP_DUP, OP_CODESEPARATOR] 0 1 = sig_Serialize resigned_tx [OP_DUP] 0 1 \<and>
   vout sample_tx = vout resigned_tx \<and> map prevout (vin sample_tx) = map prevout (vin resigned_tx) \<and>
   snd (FindAndDelete [OP_DUP, OP_CODESEPARATOR] (push_op [] OP_CODESEPARATOR)) =
     snd (FindAndDelete [OP_DUP] (push_op [] OP_CODESEPARATOR))"
proof -
  have "tx_wf sample_tx" "tx_wf resigned_tx" "0 < length (vin sample_tx)" "0 < length (vin resigned_tx)"
    by (simp_all add: resigned_tx_def sample_tx_def tx_wf_def mk_CTxIn_def mk_CTxOut_def TxIn_wf_def TxOut_wf_def in_s_def MAX_SIZE_def)
  moreover have "snd (script_ops [OP_DUP, OP_CODESEPARATOR]) = []" "snd (script_ops [OP_DUP]) = []" by code_simp+
  moreover have "snd (FindAndDelete [OP_DUP, OP_CODESEPARATOR] (push_op [] OP_CODESEPARATOR)) \<noteq> []" by code_simp
  moreover have "\<not> fAnyoneCanPay 1" "\<not> fHashSingle 1" "\<not> fHashNone 1" "length [OP_DUP] \<le> MAX_SIZE"
    "length [OP_DUP, OP_CODESEPARATOR] \<le> MAX_SIZE"
    by (simp_all add: fAnyoneCanPay_def fHashSingle_def fHashNone_def MAX_SIZE_def SIGHASH_ANYONECANPAY_def
        SIGHASH_SINGLE_def SIGHASH_NONE_def)
  ultimately show ?thesis
    using signature_commits [of sample_tx 0 "[OP_DUP, OP_CODESEPARATOR]" resigned_tx 0 "[OP_DUP]" 1] same_bytes_signed by blast
qed

end
