(* ===== verification/TxCheck.thy ===== *)
theory TxCheck
  imports Params CoinsView Standard Sighash
begin

section \<open>Context-free and standardness checks of transactions (main.h, main.cpp)\<close>

text \<open>
  The checks of a transaction that need no chain, the standardness rules with the inputs' coins,
  the lock time and the signature operation counts. The zerocoin mint check (libzerocoin) is
  the parameter \<open>mint_ok\<close>. A failed check is the call to \<open>CValidationState\<close> it makes;
  \<open>OutOfRange\<close> is the read outside of an empty script that classifying a transaction may do and
  \<open>Assertion\<close> a failed assertion, \<open>Exception\<close> an exception.
\<close>

subsection \<open>Validation states\<close>

datatype failure =
    DoS int nat string
  | Invalid nat string
  | RunError
  | Exception
  | OutOfRange
  | Assertion

datatype mode_state = MODE_VALID | MODE_INVALID | MODE_ERROR

record CValidationState =
  mode :: mode_state
  nDoS :: int
  strRejectReason :: string
  chRejectCode :: nat
  corruptionPossible :: bool

definition CValidationState_default :: CValidationState where
  "CValidationState_default =
     \<lparr>mode = MODE_VALID, nDoS = 0, strRejectReason = [], chRejectCode = 0, corruptionPossible = False\<rparr>"

definition state_DoS :: "int \<Rightarrow> nat \<Rightarrow> string \<Rightarrow> bool \<Rightarrow> CValidationState \<Rightarrow> CValidationState" where
  "state_DoS level code reason corruptionIn st =
     (let st' = st\<lparr>chRejectCode := code, strRejectReason := reason, corruptionPossible := corruptionIn\<rparr>
      in if mode st = MODE_ERROR then st' else st'\<lparr>nDoS := nDoS st + level, mode := MODE_INVALID\<rparr>)"

definition state_Invalid :: "nat \<Rightarrow> string \<Rightarrow> CValidationState \<Rightarrow> CValidationState" where
  "state_Invalid code reason st = state_DoS 0 code reason False st"

definition state_Error :: "string \<Rightarrow> CValidationState \<Rightarrow> CValidationState" where
  "state_Error reason st =
     (if mode st = MODE_VALID then st\<lparr>strRejectReason := reason\<rparr> else st)\<lparr>mode := MODE_ERROR\<rparr>"

definition state_IsInvalid :: "CValidationState \<Rightarrow> int option" where
  "state_IsInvalid st = (if mode st = MODE_INVALID then Some (nDoS st) else None)"

definition REJECT_INVALID :: nat where "REJECT_INVALID = 0x10"
definition REJECT_NONSTANDARD :: nat where "REJECT_NONSTANDARD = 0x40"

definition MAX_STANDARD_TX_SIZE :: nat where "MAX_STANDARD_TX_SIZE = 100000"
definition MAX_ZEROCOIN_TX_SIZE :: nat where "MAX_ZEROCOIN_TX_SIZE = 150000"
definition MAX_P2SH_SIGOPS :: nat where "MAX_P2SH_SIGOPS = 15"
definition LOCKTIME_THRESHOLD :: int where "LOCKTIME_THRESHOLD = 500000000"
definition DEFAULT_BLOCK_PRIORITY_SIZE :: nat where "DEFAULT_BLOCK_PRIORITY_SIZE = 50000"

definition MoneyRange :: "CChainParams \<Rightarrow> CAmount \<Rightarrow> bool" where
  "MoneyRange P nValueOut \<longleftrightarrow> nValueOut \<ge> 0 \<and> nValueOut \<le> nMaxMoneyOut P"

definition tx_size :: "CTransaction \<Rightarrow> nat" where
  "tx_size tx = length (tx_Serialize tx) mod 2 ^ 32"

text \<open>The classification, as a step that may fail.\<close>

definition coinbase :: "CTransaction \<Rightarrow> failure + bool" where
  "coinbase tx = (case IsCoinBase tx of None \<Rightarrow> Inl OutOfRange | Some b \<Rightarrow> Inr b)"

definition zerospend :: "CTransaction \<Rightarrow> failure + bool" where
  "zerospend tx = (case IsZerocoinSpend_tx tx of None \<Rightarrow> Inl OutOfRange | Some b \<Rightarrow> Inr b)"

subsection \<open>CheckTransaction\<close>

fun check_outputs ::
    "CChainParams \<Rightarrow> (uint256 \<Rightarrow> CTxOut \<Rightarrow> bool) \<Rightarrow> bool \<Rightarrow> CTransaction \<Rightarrow> CTxOut list \<Rightarrow> CAmount \<Rightarrow> int \<Rightarrow> failure + int" where
  "check_outputs P mint_ok fZ tx [] nValueOut nZCSpendCount = Inr nZCSpendCount"
| "check_outputs P mint_ok fZ tx (txout # outs) nValueOut nZCSpendCount =
     bindE (if TxOut_IsEmpty txout then bindE (coinbase tx) (\<lambda>cb. Inr (\<not> cb \<and> \<not> IsCoinStake tx)) else Inr False) (\<lambda>empty.
     if empty then Inl (DoS 100 0 [])
     else if nValue txout < 0 then Inl (DoS 100 REJECT_INVALID ''bad-txns-vout-negative'')
     else if nValue txout > nMaxMoneyOut P then Inl (DoS 100 REJECT_INVALID ''bad-txns-vout-toolarge'')
     else if \<not> MoneyRange P (wrap_s 64 (nValueOut + nValue txout))
       then Inl (DoS 100 REJECT_INVALID ''bad-txns-txouttotal-toolarge'')
     else if fZ \<and> TxOut_IsZerocoinMint txout \<and> \<not> mint_ok (tx_hash tx) txout then Inl (DoS 100 0 [])
     else check_outputs P mint_ok fZ tx outs (wrap_s 64 (nValueOut + nValue txout))
            (if fZ \<and> IsZerocoinSpend (scriptPubKey txout) then nZCSpendCount + 1 else nZCSpendCount))"

fun check_duplicates :: "CTxIn list \<Rightarrow> COutPoint set \<Rightarrow> failure + unit" where
  "check_duplicates [] vInOutPoints = Inr ()"
| "check_duplicates (txin # ins) vInOutPoints =
     (if prevout txin \<in> vInOutPoints then Inl (DoS 100 REJECT_INVALID ''bad-txns-inputs-duplicate'')
      else check_duplicates ins
             (if \<not> IsZerocoinSpend (scriptSig txin) then insert (prevout txin) vInOutPoints else vInOutPoints))"

definition check_zerocoin_inputs :: "CChainParams \<Rightarrow> bool \<Rightarrow> CTransaction \<Rightarrow> int \<Rightarrow> failure + unit" where
  "check_zerocoin_inputs P fZ tx nZCSpendCount =
     (if fZ then
        (if nZCSpendCount > nMaxZerocoinSpendsPerTransaction P then Inl (DoS 100 0 [])
         else bindE (zerospend tx) (\<lambda>zs.
           if zs \<and> list_ex (\<lambda>i. \<not> IsZerocoinSpend (scriptSig i)) (vin tx) then Inl (DoS 100 0 []) else Inr ()))
      else Inr ())"

definition check_inputs_form :: "CChainParams \<Rightarrow> bool \<Rightarrow> CTransaction \<Rightarrow> failure + unit" where
  "check_inputs_form P fZ tx =
     bindE (coinbase tx) (\<lambda>cb.
     if cb then
       (if length (scriptSig (vin tx ! 0)) < 2 \<or> length (scriptSig (vin tx ! 0)) > 150
        then Inl (DoS 100 REJECT_INVALID ''bad-cb-length'') else Inr ())
     else
     bindE (if fZ then zerospend tx else Inr False) (\<lambda>zs.
     if zs then
       (if length (vin tx) < 1 \<or> wrap_s 32 (int (length (vin tx))) > nMaxZerocoinSpendsPerTransaction P
        then Inl (DoS 10 REJECT_INVALID ''bad-zerocoinspend'') else Inr ())
     else if list_ex (\<lambda>i. OutPoint_IsNull (prevout i) \<and> (fZ \<and> \<not> IsZerocoinSpend (scriptSig i))) (vin tx)
       then Inl (DoS 10 REJECT_INVALID ''bad-txns-prevout-null'')
     else Inr ()))"

definition CheckTransaction ::
    "CChainParams \<Rightarrow> (uint256 \<Rightarrow> CTxOut \<Rightarrow> bool) \<Rightarrow> bool \<Rightarrow> CTransaction \<Rightarrow> failure + unit" where
  "CheckTransaction P mint_ok fZerocoinActive tx =
     (if vin tx = [] then Inl (DoS 10 REJECT_INVALID ''bad-txns-vin-empty'')
      else if vout tx = [] then Inl (DoS 10 REJECT_INVALID ''bad-txns-vout-empty'')
      else if tx_size tx > MAX_ZEROCOIN_TX_SIZE then Inl (DoS 100 REJECT_INVALID ''bad-txns-oversize'')
      else
        bindE (check_outputs P mint_ok fZerocoinActive tx (vout tx) 0 0) (\<lambda>nZCSpendCount.
        bindE (check_zerocoin_inputs P fZerocoinActive tx nZCSpendCount) (\<lambda>_.
        bindE (check_duplicates (vin tx) {}) (\<lambda>_.
        check_inputs_form P fZerocoinActive tx))))"

subsection \<open>Lock time and signature operations\<close>

text \<open>\<open>height\<close> and \<open>now\<close> are the active chain's height and the adjusted time.\<close>

definition IsFinalTx :: "int \<Rightarrow> int \<Rightarrow> CTransaction \<Rightarrow> int \<Rightarrow> int \<Rightarrow> bool" where
  "IsFinalTx height now tx nBlockHeight0 nBlockTime0 =
     (if nLockTime tx = 0 then True
      else
        let nBlockHeight = (if nBlockHeight0 = 0 then height else nBlockHeight0);
            nBlockTime = (if nBlockTime0 = 0 then now else nBlockTime0)
        in if uint (nLockTime tx) < (if uint (nLockTime tx) < LOCKTIME_THRESHOLD then nBlockHeight else nBlockTime)
           then True
           else list_all TxIn_IsFinal (vin tx))"

definition LOCKTIME_MEDIAN_TIME_PAST :: int where "LOCKTIME_MEDIAN_TIME_PAST = 2"

definition CheckFinalTx :: "int \<Rightarrow> int \<Rightarrow> int \<Rightarrow> CTransaction \<Rightarrow> int \<Rightarrow> bool" where
  "CheckFinalTx height now median tx flags0 =
     (let flags = max flags0 0;
          nBlockHeight = height + 1;
          nBlockTime = (if flags AND LOCKTIME_MEDIAN_TIME_PAST \<noteq> 0 then median else now)
      in IsFinalTx height now tx nBlockHeight nBlockTime)"

definition GetLegacySigOpCount :: "CTransaction \<Rightarrow> nat" where
  "GetLegacySigOpCount tx =
     foldl uadd32
       (foldl uadd32 0 (map (\<lambda>i. GetSigOpCount (scriptSig i) False) (vin tx)))
       (map (\<lambda>out. GetSigOpCount (scriptPubKey out) False) (vout tx))"

fun p2sh_sigops_loop :: "CTxIn list \<Rightarrow> nat \<Rightarrow> view \<Rightarrow> failure + nat \<times> view" where
  "p2sh_sigops_loop [] nSigOps v = Inr (nSigOps, v)"
| "p2sh_sigops_loop (i # ins) nSigOps v =
     (case GetOutputFor i v of
        None \<Rightarrow> Inl Assertion
      | Some (prev, v') \<Rightarrow>
          p2sh_sigops_loop ins
            (if IsPayToScriptHash (scriptPubKey prev)
             then uadd32 nSigOps (GetSigOpCount_P2SH (scriptPubKey prev) (scriptSig i)) else nSigOps) v')"

definition GetP2SHSigOpCount :: "CTransaction \<Rightarrow> view \<Rightarrow> failure + nat \<times> view" where
  "GetP2SHSigOpCount tx v =
     bindE (coinbase tx) (\<lambda>cb. if cb then Inr (0, v) else
     bindE (zerospend tx) (\<lambda>zs. if zs then Inr (0, v) else p2sh_sigops_loop (vin tx) 0 v))"

subsection \<open>Standard transactions\<close>

text \<open>Results are the reason of the rejection.\<close>

fun standard_inputs :: "CTxIn list \<Rightarrow> string option" where
  "standard_inputs [] = None"
| "standard_inputs (txin # ins) =
     (if IsZerocoinSpend (scriptSig txin) then standard_inputs ins
      else if length (scriptSig txin) > 1650 then Some ''scriptsig-size''
      else if \<not> IsPushOnly (scriptSig txin) then Some ''scriptsig-not-pushonly''
      else standard_inputs ins)"

text \<open>\<open>Inr\<close> of the number of data outputs, \<open>Inl None\<close> for the exception in \<open>Solver\<close>.\<close>

fun standard_outputs ::
    "bool \<Rightarrow> nat \<Rightarrow> bool \<Rightarrow> CFeeRate \<Rightarrow> CTxOut list \<Rightarrow> nat \<Rightarrow> string option + nat" where
  "standard_outputs dc maxdc fIsBareMultisigStd minRelayTxFee [] nDataOut = Inr nDataOut"
| "standard_outputs dc maxdc fIsBareMultisigStd minRelayTxFee (txout # outs) nDataOut =
     (case IsStandard dc maxdc (scriptPubKey txout) of
        None \<Rightarrow> Inl None
      | Some (ok, whichType) \<Rightarrow>
          if \<not> ok then Inl (Some ''scriptpubkey'')
          else if whichType = TX_NULL_DATA then
            standard_outputs dc maxdc fIsBareMultisigStd minRelayTxFee outs (nDataOut + 1)
          else if whichType = TX_MULTISIG \<and> \<not> fIsBareMultisigStd then Inl (Some ''bare-multisig'')
          else if TxOut_IsDust txout minRelayTxFee then Inl (Some ''dust'')
          else standard_outputs dc maxdc fIsBareMultisigStd minRelayTxFee outs nDataOut)"

definition IsStandardTx ::
    "int \<Rightarrow> int \<Rightarrow> bool \<Rightarrow> nat \<Rightarrow> bool \<Rightarrow> CFeeRate \<Rightarrow> CTransaction \<Rightarrow> string option + unit" where
  "IsStandardTx height now dc maxdc fIsBareMultisigStd minRelayTxFee tx =
     (if tx_nVersion tx > 1 \<or> tx_nVersion tx < 1 then Inl (Some ''version'')
      else if \<not> IsFinalTx height now tx (height + 1) 0 then Inl (Some ''non-final'')
      else (case ContainsZerocoins tx of
         None \<Rightarrow> Inl None
       | Some zc \<Rightarrow>
           if tx_size tx \<ge> (if zc then MAX_ZEROCOIN_TX_SIZE else MAX_STANDARD_TX_SIZE) then Inl (Some ''tx-size'')
           else (case standard_inputs (vin tx) of
              Some reason \<Rightarrow> Inl (Some reason)
            | None \<Rightarrow>
                bindE (standard_outputs dc maxdc fIsBareMultisigStd minRelayTxFee (vout tx) 0) (\<lambda>nDataOut.
                if nDataOut > 1 then Inl (Some ''multi-op-return'') else Inr ()))))"

text \<open>
  The inputs of a standard transaction against their coins. \<open>e\<close> gives the hash functions;
  the base signature checker accepts no signature. \<open>None\<close> is an assertion or exception.
\<close>

definition base_checker :: "env \<Rightarrow> env" where
  "base_checker e = e\<lparr>CheckSig := (\<lambda>_ _ _. False)\<rparr>"

fun standard_spends :: "env \<Rightarrow> CTxIn list \<Rightarrow> view \<Rightarrow> (bool \<times> view) option" where
  "standard_spends e [] v = Some (True, v)"
| "standard_spends e (i # ins) v =
     (case GetOutputFor i v of
        None \<Rightarrow> None
      | Some (prev, v') \<Rightarrow>
     (case Solver (scriptPubKey prev) of
        None \<Rightarrow> None
      | Some (ok, whichType, vSolutions) \<Rightarrow>
          if \<not> ok then Some (False, v')
          else
          let nArgsExpected = ScriptSigArgsExpected whichType vSolutions in
          if nArgsExpected < 0 then Some (False, v')
          else (case EvalScript (base_checker e) 0 [] (scriptSig i) of
             Inl Abort \<Rightarrow> None
           | Inl (Err _) \<Rightarrow> Some (False, v')
           | Inr stk \<Rightarrow>
               if whichType = TX_SCRIPTHASH then
                 (case stk of
                    [] \<Rightarrow> Some (False, v')
                  | subscript # _ \<Rightarrow>
                      (case Solver subscript of
                         None \<Rightarrow> None
                       | Some (ok2, whichType2, vSolutions2) \<Rightarrow>
                           if ok2 then
                             (let tmpExpected = ScriptSigArgsExpected whichType2 vSolutions2 in
                              if tmpExpected < 0 then Some (False, v')
                              else if length stk \<noteq> to_u 32 (nArgsExpected + tmpExpected) then Some (False, v')
                              else standard_spends e ins v')
                           else Some (GetSigOpCount subscript True \<le> MAX_P2SH_SIGOPS, v')))
               else if length stk \<noteq> to_u 32 nArgsExpected then Some (False, v')
               else standard_spends e ins v')))"

definition AreInputsStandard :: "env \<Rightarrow> CTransaction \<Rightarrow> view \<Rightarrow> (bool \<times> view) option" where
  "AreInputsStandard e tx v =
     (case IsCoinBase tx of
        None \<Rightarrow> None
      | Some cb \<Rightarrow>
          if cb then Some (True, v)
          else (case IsZerocoinSpend_tx tx of
             None \<Rightarrow> None
           | Some zs \<Rightarrow> if zs then Some (True, v) else standard_spends e (vin tx) v))"

text \<open>The minimum fee to relay; \<open>prio\<close> is whether the memory pool prioritises the transaction.\<close>

definition GetMinRelayFee :: "CChainParams \<Rightarrow> CFeeRate \<Rightarrow> bool \<Rightarrow> nat \<Rightarrow> bool \<Rightarrow> CAmount" where
  "GetMinRelayFee P minRelayTxFee prio nBytes fAllowFree =
     (if prio then 0
      else
        let nMinFee = GetFee minRelayTxFee nBytes;
            nMinFee' = (if fAllowFree \<and> nBytes < DEFAULT_BLOCK_PRIORITY_SIZE - 1000 then 0 else nMinFee)
        in if \<not> MoneyRange P nMinFee' then nMaxMoneyOut P else nMinFee')"

subsection \<open>What an accepted transaction satisfies\<close>

lemma wrap_add_range:
  assumes "0 \<le> s" "s \<le> M" "0 \<le> v" "v \<le> M" "M < 2 ^ 62"
  shows "wrap_s 64 (s + v) = s + v"
  using assms by (intro wrap_s_id) (auto simp: in_s_def)

lemma check_outputs_ok:
  assumes "check_outputs P mint_ok fZ tx outs s n = Inr m" "0 \<le> s" "s \<le> nMaxMoneyOut P" "nMaxMoneyOut P < 2 ^ 62"
  shows "list_all (\<lambda>out. 0 \<le> nValue out) outs \<and> s + sum_list (map nValue outs) \<le> nMaxMoneyOut P"
  using assms(1-3)
proof (induction outs arbitrary: s n)
  case (Cons out outs)
  have v: "0 \<le> nValue out" "nValue out \<le> nMaxMoneyOut P" and r: "MoneyRange P (wrap_s 64 (s + nValue out))"
    using Cons.prems(1) by (auto simp: bindE_Inr_conv split: if_splits)
  have w: "wrap_s 64 (s + nValue out) = s + nValue out"
    using wrap_add_range [OF Cons.prems(2,3) v assms(4)] .
  obtain k where "check_outputs P mint_ok fZ tx outs (s + nValue out) k = Inr m"
    using Cons.prems(1) unfolding check_outputs.simps w
    by (auto simp: bindE_Inr_conv split: if_splits)
  from Cons.IH [OF this] show ?case using r v Cons.prems(2) by (simp add: w MoneyRange_def add.assoc)
qed simp

lemma check_duplicates_ok:
  "check_duplicates ins S = Inr () \<Longrightarrow>
   (\<forall>i<length ins. prevout (ins ! i) \<notin> S) \<and>
   (\<forall>i<length ins. \<forall>j<i. \<not> IsZerocoinSpend (scriptSig (ins ! j)) \<longrightarrow> prevout (ins ! j) \<noteq> prevout (ins ! i))"
proof (induction ins arbitrary: S)
  case (Cons x ins)
  let ?S = "if \<not> IsZerocoinSpend (scriptSig x) then insert (prevout x) S else S"
  have IH: "\<forall>i<length ins. prevout (ins ! i) \<notin> ?S"
    "\<forall>i<length ins. \<forall>j<i. \<not> IsZerocoinSpend (scriptSig (ins ! j)) \<longrightarrow> prevout (ins ! j) \<noteq> prevout (ins ! i)"
    and x: "prevout x \<notin> S"
    using Cons.prems Cons.IH [of ?S] by (auto split: if_splits)
  show ?case
  proof (intro conjI allI impI)
    fix i assume "i < length (x # ins)"
    then show "prevout ((x # ins) ! i) \<notin> S" using IH(1) x by (cases i) (auto split: if_splits)
  next
    fix i j assume i: "i < length (x # ins)" "j < i" and z: "\<not> IsZerocoinSpend (scriptSig ((x # ins) ! j))"
    then obtain k where k: "i = Suc k" by (cases i) auto
    show "prevout ((x # ins) ! j) \<noteq> prevout ((x # ins) ! i)"
    proof (cases j)
      case 0
      then show ?thesis using IH(1) i k z by auto
    next
      case (Suc l)
      then show ?thesis using IH(2) i k z by auto
    qed
  qed
qed simp

lemma distinct_prevouts:
  assumes "check_duplicates ins {} = Inr ()" "list_all (\<lambda>i. \<not> IsZerocoinSpend (scriptSig i)) ins"
  shows "distinct (map prevout ins)"
  using check_duplicates_ok [OF assms(1)] assms(2)
  by (auto simp: distinct_conv_nth list_all_length neq_iff)

text \<open>
  C26: a transaction that \<open>CheckTransaction\<close> accepts has inputs and outputs, no negative output,
  a sum of outputs that the code computes without overflow and that is within \<open>MaxMoneyOut\<close>,
  and no input whose script does not begin with \<open>OP_ZEROCOINSPEND\<close> names the same output as a later one; its
  coinbase script, if it is one, has between 2 and 150 bytes. Of inputs whose scripts begin with
  \<open>OP_ZEROCOINSPEND\<close> several may name the same output (\<open>zerocoin_inputs_repeat\<close>).
\<close>

theorem CheckTransaction_sound:
  assumes "CheckTransaction P mint_ok fZ tx = Inr ()" "0 \<le> nMaxMoneyOut P" "nMaxMoneyOut P < 2 ^ 62"
  shows "vin tx \<noteq> [] \<and> vout tx \<noteq> [] \<and>
    GetValueOut tx = Inr (sum_list (map nValue (vout tx))) \<and>
    0 \<le> sum_list (map nValue (vout tx)) \<and> sum_list (map nValue (vout tx)) \<le> nMaxMoneyOut P \<and>
    (\<forall>i<length (vin tx). \<forall>j<i. \<not> IsZerocoinSpend (scriptSig (vin tx ! j)) \<longrightarrow>
       prevout (vin tx ! j) \<noteq> prevout (vin tx ! i)) \<and>
    (IsCoinBase tx = Some True \<longrightarrow> length (scriptSig (vin tx ! 0)) \<in> {2..150})"
proof -
  obtain m where ne: "vin tx \<noteq> []" "vout tx \<noteq> []" and o: "check_outputs P mint_ok fZ tx (vout tx) 0 0 = Inr m"
    and d: "check_duplicates (vin tx) {} = Inr ()" and f: "check_inputs_form P fZ tx = Inr ()"
    using assms(1) by (auto simp: CheckTransaction_def bindE_Inr_conv split: if_splits)
  have v: "list_all (\<lambda>out. 0 \<le> nValue out) (vout tx)" "sum_list (map nValue (vout tx)) \<le> nMaxMoneyOut P"
    using check_outputs_ok [OF o] assms(2,3) by simp_all
  then have pos: "0 \<le> sum_list (map nValue (vout tx))" by (intro sum_list_nonneg) (auto simp: list_all_iff)
  have le: "nValue out \<le> sum_list (map nValue (vout tx))" if "out \<in> set (vout tx)" for out
    using v(1) that by (intro member_le_sum_list) (auto simp: list_all_iff)
  have "GetValueOut tx = Inr (sum_list (map nValue (vout tx)))"
    using GetValueOut_loop_spec [of 0 "vout tx"] v pos le assms(3)
    by (force simp: GetValueOut_def in_s_def list_all_iff)
  moreover have "length (scriptSig (vin tx ! 0)) \<in> {2..150}" if "IsCoinBase tx = Some True"
    using f that by (auto simp: check_inputs_form_def coinbase_def split: if_splits)
  ultimately show ?thesis using ne v(2) pos check_duplicates_ok [OF d] by blast
qed

text \<open>Before zerocoin is active a null outpoint among several inputs is accepted.\<close>

definition null_input_tx :: CTransaction where
  "null_input_tx = \<lparr>tx_hash = 7, tx_nVersion = 1, vin = [mk_CTxIn OutPoint_Null [OP_1] (- 1), mk_CTxIn (COutPoint 5 0) [OP_1] (- 1)],
     vout = [mk_CTxOut 50 [OP_DUP]], nLockTime = 0\<rparr>"

lemma null_input_accepted: "CheckTransaction mainParams (\<lambda>_ _. True) False null_input_tx = Inr ()"
  by (simp add: CheckTransaction_def tx_size_def check_zerocoin_inputs_def check_inputs_form_def null_input_tx_def mk_CTxIn_def
    mk_CTxOut_def coinbase_def IsCoinBase_def mainParams_def MoneyRange_def COIN_def wrap_s_def TxOut_IsEmpty_def
    OutPoint_Null_def tx_Serialize_def Serialize_vec_def TxIn_Serialize_def TxOut_Serialize_def OutPoint_Serialize_def
    u256_Serialize_def u32_Serialize_def Serialize_blob_def Serialize_int_def WriteCompactSize_def MAX_ZEROCOIN_TX_SIZE_def)

text \<open>An input that is marked as a zerocoin spend may be there twice.\<close>

definition repeated_input_tx :: CTransaction where
  "repeated_input_tx = \<lparr>tx_hash = 7, tx_nVersion = 1, vin = [mk_CTxIn (COutPoint 5 0) [0xc2] 0, mk_CTxIn (COutPoint 5 0) [0xc2] 0],
     vout = [mk_CTxOut 50 [OP_DUP]], nLockTime = 0\<rparr>"

lemma zerocoin_inputs_repeat: "CheckTransaction mainParams (\<lambda>_ _. True) False repeated_input_tx = Inr ()"
  by (simp add: CheckTransaction_def tx_size_def check_zerocoin_inputs_def check_inputs_form_def repeated_input_tx_def mk_CTxIn_def
    mk_CTxOut_def coinbase_def IsCoinBase_def mainParams_def MoneyRange_def COIN_def wrap_s_def TxOut_IsEmpty_def
    OutPoint_Null_def tx_Serialize_def Serialize_vec_def TxIn_Serialize_def TxOut_Serialize_def OutPoint_Serialize_def
    u256_Serialize_def u32_Serialize_def Serialize_blob_def Serialize_int_def WriteCompactSize_def MAX_ZEROCOIN_TX_SIZE_def
    IsZerocoinSpend_def OutPoint_IsNull_def)

lemma CheckTransaction_sound_witness:
  "CheckTransaction mainParams (\<lambda>_ _. True) False null_input_tx = Inr () \<and> GetValueOut null_input_tx = Inr 50 \<and>
   prevout (vin null_input_tx ! 0) \<noteq> prevout (vin null_input_tx ! 1)"
proof -
  have v: "length (vin null_input_tx) = 2" "\<not> IsZerocoinSpend (scriptSig (vin null_input_tx ! 0))"
    "sum_list (map nValue (vout null_input_tx)) = 50"
    by (simp_all add: null_input_tx_def mk_CTxIn_def mk_CTxOut_def IsZerocoinSpend_def)
  have m: "0 \<le> nMaxMoneyOut mainParams" "nMaxMoneyOut mainParams < 2 ^ 62" by (simp_all add: mainParams_def COIN_def)
  note s = CheckTransaction_sound [OF null_input_accepted m]
  have "GetValueOut null_input_tx = Inr 50" using s v(3) by simp
  moreover have "prevout (vin null_input_tx ! 0) \<noteq> prevout (vin null_input_tx ! 1)" using s v(1,2) by auto
  ultimately show ?thesis using null_input_accepted by blast
qed

end
