(* ===== verification/Block.thy ===== *)
theory Block
  imports Transaction Standard
begin

section \<open>Blocks and Merkle trees (primitives/block.h, primitives/block.cpp)\<close>

text \<open>
  The block header and its two hashes, the block with its conditional signature, the Merkle
  tree as the array the code builds, its branches and their check, and the signature of
  proof-of-stake blocks. The hash of bytes, the pre-version-4 header hash, key lookup, signing
  and verification are parameters. The theorems relate the array to the recursive definition
  of a Merkle root, show that branches prove membership and nothing else, that a root without
  the mutation mark determines the transactions, and what block signatures guarantee.
\<close>

subsection \<open>The Merkle tree\<close>

definition Hash2 :: "(bytes \<Rightarrow> uint256) \<Rightarrow> uint256 \<Rightarrow> uint256 \<Rightarrow> uint256" where
  "Hash2 Hash a b = Hash (u256_Serialize a @ u256_Serialize b)"

function level_loop ::
    "(bytes \<Rightarrow> uint256) \<Rightarrow> nat \<Rightarrow> nat \<Rightarrow> nat \<Rightarrow> uint256 list \<Rightarrow> bool \<Rightarrow> uint256 list \<times> bool" where
  "level_loop Hash j nSize i tree mutated =
     (if i < nSize then
        (let i2 = min (i + 1) (nSize - 1);
             mutated' = (if i2 = i + 1 \<and> i2 + 1 = nSize \<and> tree ! (j + i) = tree ! (j + i2) then True else mutated)
         in level_loop Hash j nSize (i + 2) (tree @ [Hash2 Hash (tree ! (j + i)) (tree ! (j + i2))]) mutated')
      else (tree, mutated))"
  by pat_completeness auto
termination
  by (relation "measure (\<lambda>(Hash, j, nSize, i, tree, mutated). nSize - i)") auto

declare level_loop.simps [simp del]

function tree_loop ::
    "(bytes \<Rightarrow> uint256) \<Rightarrow> nat \<Rightarrow> nat \<Rightarrow> uint256 list \<Rightarrow> bool \<Rightarrow> uint256 list \<times> bool" where
  "tree_loop Hash nSize j tree mutated =
     (if nSize > 1 then
        (let (tree', mutated') = level_loop Hash j nSize 0 tree mutated
         in tree_loop Hash ((nSize + 1) div 2) (j + nSize) tree' mutated')
      else (tree, mutated))"
  by pat_completeness auto
termination
  by (relation "measure (\<lambda>(Hash, nSize, j, tree, mutated). nSize)") auto

declare tree_loop.simps [simp del]

text \<open>The tree, the root and the mutation mark, from the transaction hashes.\<close>

definition BuildMerkleTree :: "(bytes \<Rightarrow> uint256) \<Rightarrow> uint256 list \<Rightarrow> uint256 list \<times> uint256 \<times> bool" where
  "BuildMerkleTree Hash txids =
     (let (tree, mutated) = tree_loop Hash (length txids) 0 txids False
      in (tree, if tree = [] then 0 else last tree, mutated))"

function branch_loop :: "uint256 list \<Rightarrow> nat \<Rightarrow> nat \<Rightarrow> int \<Rightarrow> uint256 list" where
  "branch_loop tree nSize j nIndex =
     (if nSize > 1 then
        (let i = min (nIndex XOR 1) (int nSize - 1)
         in tree ! nat (int j + i) # branch_loop tree ((nSize + 1) div 2) (j + nSize) (drop_bit 1 nIndex))
      else [])"
  by pat_completeness auto
termination
  by (relation "measure (\<lambda>(tree, nSize, j, nIndex). nSize)") auto

declare branch_loop.simps [simp del]

definition GetMerkleBranch :: "(bytes \<Rightarrow> uint256) \<Rightarrow> uint256 list \<Rightarrow> int \<Rightarrow> uint256 list" where
  "GetMerkleBranch Hash txids nIndex =
     branch_loop (fst (BuildMerkleTree Hash txids)) (length txids) 0 nIndex"

fun check_branch_loop :: "(bytes \<Rightarrow> uint256) \<Rightarrow> uint256 \<Rightarrow> uint256 list \<Rightarrow> int \<Rightarrow> uint256" where
  "check_branch_loop Hash hash [] nIndex = hash"
| "check_branch_loop Hash hash (it # br) nIndex =
     check_branch_loop Hash
       (if nIndex AND 1 \<noteq> 0 then Hash2 Hash it hash else Hash2 Hash hash it)
       br (drop_bit 1 nIndex)"

definition CheckMerkleBranch :: "(bytes \<Rightarrow> uint256) \<Rightarrow> uint256 \<Rightarrow> uint256 list \<Rightarrow> int \<Rightarrow> uint256" where
  "CheckMerkleBranch Hash hash vMerkleBranch nIndex =
     (if nIndex = - 1 then 0 else check_branch_loop Hash hash vMerkleBranch nIndex)"

subsection \<open>The recursive Merkle root\<close>

fun pair_up :: "(uint256 \<Rightarrow> uint256 \<Rightarrow> uint256) \<Rightarrow> uint256 list \<Rightarrow> uint256 list" where
  "pair_up f [] = []"
| "pair_up f [x] = [f x x]"
| "pair_up f (x # y # r) = f x y # pair_up f r"

text \<open>Two equal hashes at the end of a level of even length.\<close>

fun tail_dup :: "'a list \<Rightarrow> bool" where
  "tail_dup [x, y] \<longleftrightarrow> x = y"
| "tail_dup (x # y # r) \<longleftrightarrow> tail_dup r"
| "tail_dup _ \<longleftrightarrow> False"

lemma length_pair_up [simp]: "length (pair_up f xs) = (length xs + 1) div 2"
  by (induction f xs rule: pair_up.induct) auto

function levels :: "(uint256 \<Rightarrow> uint256 \<Rightarrow> uint256) \<Rightarrow> uint256 list \<Rightarrow> uint256 list list" where
  "levels f xs = (if length xs > 1 then xs # levels f (pair_up f xs) else [xs])"
  by pat_completeness auto
termination
  by (relation "measure (\<lambda>(f, xs). length xs)") auto

declare levels.simps [simp del]

definition merkle_root :: "(uint256 \<Rightarrow> uint256 \<Rightarrow> uint256) \<Rightarrow> uint256 list \<Rightarrow> uint256" where
  "merkle_root f xs = (case last (levels f xs) of [] \<Rightarrow> 0 | x # _ \<Rightarrow> x)"

lemma level_loop_eq:
  assumes "length pre = j" "length level = nSize"
  shows "level_loop Hash j nSize i (pre @ level @ acc) m =
    (pre @ level @ acc @ pair_up (Hash2 Hash) (drop i level), m \<or> tail_dup (drop i level))"
proof (induction "nSize - i" arbitrary: i acc m rule: less_induct)
  case less
  show ?case
  proof (cases "i < nSize")
    case False
    then show ?thesis using assms by (subst level_loop.simps) simp
  next
    case True
    let ?t = "pre @ level @ acc"
    have ti: "?t ! (j + k) = level ! k" if "k < nSize" for k
      using that assms by (simp add: nth_append)
    have d: "drop i level = level ! i # drop (Suc i) level"
      using True assms by (simp add: Cons_nth_drop_Suc)
    show ?thesis
    proof (cases "i + 1 < nSize")
      case False
      then have e: "nSize = i + 1" using True by simp
      have 2: "level_loop Hash j nSize (i + 2) (?t @ [h]) m = (?t @ [h], m)" for h
        using e by (subst level_loop.simps) simp
      show ?thesis using True e d 2 ti [of i] assms
        by (subst level_loop.simps) (simp add: Let_def)
    next
      case True
      let ?d = "drop (Suc (Suc i)) level"
      have d2: "drop i level = level ! i # level ! Suc i # ?d"
        using True assms d by (simp add: Cons_nth_drop_Suc)
      have IH: "level_loop Hash j nSize (Suc (Suc i)) (pre @ level @ acc @ [h]) m' =
          (pre @ level @ (acc @ [h]) @ pair_up (Hash2 Hash) ?d, m' \<or> tail_dup ?d)"
        for h m' using less [of "Suc (Suc i)" "acc @ [h]" m'] True by simp
      have td: "tail_dup (drop i level) \<longleftrightarrow>
          (if Suc (Suc i) = nSize then level ! i = level ! Suc i else tail_dup ?d)"
        using True assms(2) unfolding d2 by (cases ?d) auto
      have td2: "Suc (Suc i) = nSize \<Longrightarrow> \<not> tail_dup ?d" using assms(2) by simp
      have min: "min (i + 1) (nSize - 1) = Suc i" using True by simp
      have "level_loop Hash j nSize i (pre @ level @ acc) m =
        level_loop Hash j nSize (Suc (Suc i)) (pre @ level @ acc @ [Hash2 Hash (level ! i) (level ! Suc i)])
          (if Suc (Suc i) = nSize \<and> level ! i = level ! Suc i then True else m)"
        using True ti [of i] ti [of "Suc i"] by (subst level_loop.simps) (simp add: Let_def min)
      also have "\<dots> = (pre @ level @ acc @ pair_up (Hash2 Hash) (drop i level), m \<or> tail_dup (drop i level))"
        using td td2 by (simp only: IH d2) auto
      finally show ?thesis .
    qed
  qed
qed

lemma tree_loop_eq:
  assumes "length pre = j"
  shows "tree_loop Hash (length xs) j (pre @ xs) m =
    (pre @ concat (levels (Hash2 Hash) xs), m \<or> list_ex tail_dup (levels (Hash2 Hash) xs))"
  using assms
proof (induction "length xs" arbitrary: xs pre j m rule: less_induct)
  case less
  show ?case
  proof (cases "length xs > 1")
    case False
    have "\<not> tail_dup xs" using False by (cases xs rule: tail_dup.cases) auto
    then show ?thesis using False by (subst tree_loop.simps, subst (1 2) levels.simps) simp
  next
    case True
    let ?p = "pair_up (Hash2 Hash) xs"
    have l: "level_loop Hash j (length xs) 0 (pre @ xs) m = (pre @ xs @ ?p, m \<or> tail_dup xs)"
      using level_loop_eq [of pre j xs "length xs" Hash 0 "[]" m] less(2) by simp
    have "tree_loop Hash (length ?p) (j + length xs) ((pre @ xs) @ ?p) (m \<or> tail_dup xs) =
      ((pre @ xs) @ concat (levels (Hash2 Hash) ?p), (m \<or> tail_dup xs) \<or> list_ex tail_dup (levels (Hash2 Hash) ?p))"
      using True less(2) by (intro less(1)) auto
    then show ?thesis using True l
      by (subst tree_loop.simps, subst (1 2) levels.simps) simp
  qed
qed

lemma levels_last: "length (last (levels f xs)) \<le> 1 \<and> (xs \<noteq> [] \<longrightarrow> last (levels f xs) \<noteq> [])"
proof (induction "length xs" arbitrary: xs rule: less_induct)
  case less
  show ?case
  proof (cases "length xs > 1")
    case True
    then have "length (pair_up f xs) < length xs" "pair_up f xs \<noteq> []" by (auto simp: less_Suc_eq_le simp flip: length_greater_0_conv)
    then show ?thesis using less [of "pair_up f xs"] True
      by (subst (1 2) levels.simps) (auto simp: levels.simps [of f "pair_up f xs"])
  next
    case False
    then show ?thesis by (subst (1 2) levels.simps) auto
  qed
qed

lemma levels_not_Nil [simp]: "levels f xs \<noteq> []"
  by (subst levels.simps) simp

text \<open>The array, its last element and the mark are the levels, the root and the duplications.\<close>

lemma BuildMerkleTree_eq:
  "BuildMerkleTree Hash txids =
     (concat (levels (Hash2 Hash) txids), merkle_root (Hash2 Hash) txids, list_ex tail_dup (levels (Hash2 Hash) txids))"
proof -
  let ?L = "levels (Hash2 Hash) txids"
  have t: "tree_loop Hash (length txids) 0 txids False = (concat ?L, list_ex tail_dup ?L)"
    using tree_loop_eq [of "[]" 0 Hash txids False] by simp
  have "(if concat ?L = [] then 0 else last (concat ?L)) = merkle_root (Hash2 Hash) txids"
  proof (cases "txids = []")
    case True
    then show ?thesis unfolding merkle_root_def by (subst (1 2 3) levels.simps) simp
  next
    case False
    then obtain x where x: "last ?L = [x]" using levels_last [of "Hash2 Hash" txids]
      by (cases "last ?L") auto
    have "concat ?L = concat (butlast ?L) @ last ?L" by (metis append_butlast_last_id concat_append concat.simps append_Nil2 levels_not_Nil)
    then show ?thesis by (simp add: merkle_root_def x)
  qed
  then show ?thesis by (simp add: BuildMerkleTree_def t)
qed

subsection \<open>Branches\<close>

function abs_branch :: "(uint256 \<Rightarrow> uint256 \<Rightarrow> uint256) \<Rightarrow> uint256 list \<Rightarrow> nat \<Rightarrow> uint256 list" where
  "abs_branch f xs i =
     (if length xs > 1
      then xs ! min (if even i then i + 1 else i - 1) (length xs - 1) # abs_branch f (pair_up f xs) (i div 2)
      else [])"
  by pat_completeness auto
termination
  by (relation "measure (\<lambda>(f, xs, i). length xs)") auto

declare abs_branch.simps [simp del]

lemma xor_1: "(int i) XOR 1 = int (if even i then i + 1 else i - 1)"
  by (auto simp: xor_int_unfold [of _ 1] elim!: evenE oddE split: if_splits)

lemma drop_bit_1_int: "drop_bit 1 (int i) = int (i div 2)"
  by (simp add: drop_bit_Suc zdiv_int)

lemma branch_loop_eq:
  "branch_loop (pre @ concat (levels f xs) @ post) (length xs) (length pre) (int i) = abs_branch f xs i"
proof (induction "length xs" arbitrary: xs pre i rule: less_induct)
  case less
  show ?case
  proof (cases "length xs > 1")
    case False
    then show ?thesis by (subst branch_loop.simps, subst abs_branch.simps) simp
  next
    case True
    let ?k = "if even i then i + 1 else i - 1"
    have k: "min ((int i) XOR 1) (int (length xs) - 1) = int (min ?k (length xs - 1))"
    proof -
      have "int (length xs) - 1 = int (length xs - 1)" using True by (simp add: of_nat_diff)
      then show ?thesis unfolding xor_1 by (simp only: of_nat_min)
    qed
    have lv: "levels f xs = xs # levels f (pair_up f xs)" using True by (subst levels.simps) simp
    have n: "(pre @ xs @ q) ! nat (int (length pre) + int (min ?k (length xs - 1))) = xs ! min ?k (length xs - 1)" for q
    proof -
      have "length xs - 1 < length xs" using True by linarith
      then have "min ?k (length xs - 1) < length xs" by (rule min.strict_coboundedI2)
      moreover have "(pre @ xs @ q) ! nat (int (length pre) + int m) = xs ! m" if "m < length xs" for m
        using that by (simp only: of_nat_add [symmetric] nat_int) (simp add: nth_append)
      ultimately show ?thesis by blast
    qed
    have "branch_loop ((pre @ xs) @ concat (levels f (pair_up f xs)) @ post) (length (pair_up f xs)) (length (pre @ xs)) (int (i div 2))
        = abs_branch f (pair_up f xs) (i div 2)"
      using True by (intro less) auto
    then have IH: "branch_loop (pre @ xs @ concat (levels f (pair_up f xs)) @ post) ((length xs + 1) div 2)
        (length pre + length xs) (int (i div 2)) = abs_branch f (pair_up f xs) (i div 2)" by simp
    have "branch_loop (pre @ xs @ concat (levels f (pair_up f xs)) @ post) (length xs) (length pre) (int i) =
        xs ! min ?k (length xs - 1) # abs_branch f (pair_up f xs) (i div 2)"
      using True by (subst branch_loop.simps) (simp only: Let_def k n drop_bit_1_int IH if_True)
    moreover have "abs_branch f xs i = xs ! min ?k (length xs - 1) # abs_branch f (pair_up f xs) (i div 2)"
      using True by (subst abs_branch.simps) (simp only: if_True)
    ultimately show ?thesis by (simp only: lv concat.simps append_assoc)
  qed
qed

lemma nth_pair_up:
  "i < length xs \<Longrightarrow> pair_up f xs ! (i div 2) =
    (if even i then f (xs ! i) (xs ! min (i + 1) (length xs - 1)) else f (xs ! (i - 1)) (xs ! i))"
proof (induction f xs arbitrary: i rule: pair_up.induct)
  case (3 f x y r)
  show ?case
  proof (cases "i < 2")
    case True
    then have "i = 0 \<or> i = 1" by linarith
    then show ?thesis by auto
  next
    case False
    then obtain k where k: "i = k + 2" by (metis le_add_diff_inverse2 not_less)
    have kl: "k < length r" using 3(2) k by simp
    have m: "min (k + 3) (length r + 1) = min (k + 1) (length r - 1) + 2" using kl by auto
    have "(x # y # r) ! (k + 1) = r ! (k - 1)" if "odd k" using that by (cases k) auto
    then show ?thesis using 3(1) [OF kl] k m by (simp add: numeral_3_eq_3)
  qed
qed simp_all

lemma check_abs_branch:
  "i < length xs \<Longrightarrow> check_branch_loop Hash (xs ! i) (abs_branch (Hash2 Hash) xs i) (int i) = merkle_root (Hash2 Hash) xs"
proof (induction "length xs" arbitrary: xs i rule: less_induct)
  case less
  let ?f = "Hash2 Hash"
  show ?case
  proof (cases "length xs > 1")
    case False
    then obtain x where "xs = [x]" "i = 0" using less(2) by (cases xs) auto
    then show ?thesis by (subst abs_branch.simps) (simp add: merkle_root_def levels.simps)
  next
    case True
    have mr: "merkle_root ?f xs = merkle_root ?f (pair_up ?f xs)"
      using True unfolding merkle_root_def by (subst levels.simps) simp
    have "int i AND 1 = int (i mod 2)" by (simp add: and_one_eq zmod_int)
    then have odd: "int i AND 1 \<noteq> 0 \<longleftrightarrow> odd i" by (simp only:) (simp add: odd_iff_mod_2_eq_one)
    have il: "i div 2 < length (pair_up ?f xs)" using less(2) by auto
    have IH: "check_branch_loop Hash (pair_up ?f xs ! (i div 2)) (abs_branch ?f (pair_up ?f xs) (i div 2)) (int (i div 2))
        = merkle_root ?f (pair_up ?f xs)"
      using True il by (intro less(1)) auto
    have mi: "odd i \<Longrightarrow> min (i - 1) (length xs - 1) = i - 1" using less(2) by auto
    show ?thesis
      using True IH nth_pair_up [OF less(2), of ?f] mi
      by (subst abs_branch.simps) (auto simp: odd drop_bit_1_int [simplified] mr)
  qed
qed

text \<open>
  For every transaction of a block, the branch read off the tree proves it: checking the
  branch from the transaction's hash and index gives the root that was built.
\<close>

theorem merkle_branch_complete:
  assumes "i < length txids"
  shows "CheckMerkleBranch Hash (txids ! i) (GetMerkleBranch Hash txids (int i)) (int i) =
    fst (snd (BuildMerkleTree Hash txids))"
proof -
  have "branch_loop (concat (levels (Hash2 Hash) txids)) (length txids) 0 (int i) = abs_branch (Hash2 Hash) txids i"
    using branch_loop_eq [of "[]" "Hash2 Hash" txids "[]" i] by simp
  then show ?thesis using check_abs_branch [OF assms, of Hash]
    by (simp add: CheckMerkleBranch_def GetMerkleBranch_def BuildMerkleTree_eq)
qed

lemma merkle_branch_complete_witness:
  "CheckMerkleBranch (\<lambda>b. of_nat (length b)) 5 (GetMerkleBranch (\<lambda>b. of_nat (length b)) [3, 4, 5] 2) 2 =
    fst (snd (BuildMerkleTree (\<lambda>b. of_nat (length b)) [3, 4, 5]))"
  using merkle_branch_complete [of 2 "[3, 4, 5]" "\<lambda>b. of_nat (length b)"] by simp

subsection \<open>Binding\<close>

text \<open>The pairs of hashes that building a tree, and checking a branch, feed to the hash.\<close>

fun level_pairs :: "'a list \<Rightarrow> ('a \<times> 'a) list" where
  "level_pairs [] = []"
| "level_pairs [x] = [(x, x)]"
| "level_pairs (x # y # r) = (x, y) # level_pairs r"

lemma pair_up_level_pairs: "pair_up f xs = map (\<lambda>(a, b). f a b) (level_pairs xs)"
  by (induction f xs rule: pair_up.induct) auto

function tree_pairs :: "(uint256 \<Rightarrow> uint256 \<Rightarrow> uint256) \<Rightarrow> uint256 list \<Rightarrow> (uint256 \<times> uint256) list" where
  "tree_pairs f xs = (if length xs > 1 then level_pairs xs @ tree_pairs f (pair_up f xs) else [])"
  by pat_completeness auto
termination
  by (relation "measure (\<lambda>(f, xs). length xs)") auto

declare tree_pairs.simps [simp del]

fun branch_pairs :: "(uint256 \<Rightarrow> uint256 \<Rightarrow> uint256) \<Rightarrow> uint256 \<Rightarrow> uint256 list \<Rightarrow> nat \<Rightarrow> (uint256 \<times> uint256) list" where
  "branch_pairs f h [] i = []"
| "branch_pairs f h (b # br) i =
     (let p = (if odd i then (b, h) else (h, b)) in p # branch_pairs f (f (fst p) (snd p)) br (i div 2))"

lemma merkle_root_step: "length xs > 1 \<Longrightarrow> merkle_root f xs = merkle_root f (pair_up f xs)"
  unfolding merkle_root_def by (subst levels.simps) simp

lemma merkle_root_single [simp]: "merkle_root f [x] = x"
  by (simp add: merkle_root_def levels.simps)

lemma int_and_1: "int i AND 1 \<noteq> 0 \<longleftrightarrow> odd i"
proof -
  have "int i AND 1 = int (i mod 2)" by (simp add: and_one_eq zmod_int)
  then show ?thesis by (simp only:) (simp add: odd_iff_mod_2_eq_one)
qed

lemma level_pairs_nth:
  "i < length xs \<Longrightarrow> i div 2 < length (level_pairs xs) \<and>
    (if even i then fst (level_pairs xs ! (i div 2)) = xs ! i else snd (level_pairs xs ! (i div 2)) = xs ! i)"
proof (induction xs arbitrary: i rule: level_pairs.induct)
  case (3 x y r)
  show ?case
  proof (cases "i < 2")
    case True
    then have "i = 0 \<or> i = 1" by linarith
    then show ?thesis by auto
  next
    case False
    then obtain k where k: "i = k + 2" by (metis le_add_diff_inverse2 not_less)
    then show ?thesis using 3 by simp
  qed
qed auto

lemma branch_binds:
  assumes "inj_on (\<lambda>(a, b). Hash2 Hash a b) (set (tree_pairs (Hash2 Hash) xs) \<union> set (branch_pairs (Hash2 Hash) h br i))"
    and "i < length xs" "length br = length (abs_branch (Hash2 Hash) xs i)"
    and "check_branch_loop Hash h br (int i) = merkle_root (Hash2 Hash) xs"
  shows "h = xs ! i"
  using assms
proof (induction "length xs" arbitrary: xs h br i rule: less_induct)
  case less
  let ?f = "Hash2 Hash"
  show ?case
  proof (cases "length xs > 1")
    case False
    then obtain x where "xs = [x]" "i = 0" using less(3) by (cases xs) auto
    moreover have "br = []" using less(4) False by (subst (asm) abs_branch.simps) simp
    ultimately show ?thesis using less(5) by simp
  next
    case True
    let ?p = "pair_up ?f xs"
    obtain b br' where br: "br = b # br'" and lbr: "length br' = length (abs_branch ?f ?p (i div 2))"
      using less(4) True by (subst (asm) abs_branch.simps) (cases br, auto)
    let ?q = "if odd i then (b, h) else (h, b)"
    let ?h = "?f (fst ?q) (snd ?q)"
    have tp: "tree_pairs ?f xs = level_pairs xs @ tree_pairs ?f ?p" using True by (subst tree_pairs.simps) simp
    have bp: "branch_pairs ?f h br i = ?q # branch_pairs ?f ?h br' (i div 2)" by (simp add: br Let_def)
    have i2: "i div 2 < length ?p" using less(3) by auto
    have "check_branch_loop Hash ?h br' (int (i div 2)) = merkle_root ?f ?p"
      using less(5) True by (auto simp: br int_and_1 drop_bit_1_int [simplified] merkle_root_step)
    moreover have "inj_on (\<lambda>(a, b). ?f a b) (set (tree_pairs ?f ?p) \<union> set (branch_pairs ?f ?h br' (i div 2)))"
      by (rule inj_on_subset [OF less(2)]) (auto simp: tp bp)
    ultimately have eq: "?h = ?p ! (i div 2)"
      using less(1) [of ?p ?h br' "i div 2"] True i2 lbr by auto
    let ?r = "level_pairs xs ! (i div 2)"
    have r: "i div 2 < length (level_pairs xs)" and rn: "if even i then fst ?r = xs ! i else snd ?r = xs ! i"
      using level_pairs_nth [OF less(3)] by auto
    have "(\<lambda>(a, b). ?f a b) ?q = (\<lambda>(a, b). ?f a b) ?r"
      using eq r by (cases ?r) (auto simp: pair_up_level_pairs)
    moreover have "?q \<in> set (tree_pairs ?f xs) \<union> set (branch_pairs ?f h br i)" by (simp add: bp)
    moreover have "?r \<in> set (tree_pairs ?f xs) \<union> set (branch_pairs ?f h br i)" using r by (simp add: tp)
    ultimately have "?q = ?r" using inj_onD [OF less(2)] by blast
    then show ?thesis using rn by (metis fst_conv snd_conv)
  qed
qed

lemma GetMerkleBranch_abs: "GetMerkleBranch Hash txids (int i) = abs_branch (Hash2 Hash) txids i"
  using branch_loop_eq [of "[]" "Hash2 Hash" txids "[]" i]
  by (simp add: GetMerkleBranch_def BuildMerkleTree_eq)

text \<open>
  C25: a branch of the right length that checks to a block's root proves that the hash is the
  transaction at that index, as long as the hash function does not collide on the pairs that
  were hashed for the tree and for the branch.
\<close>

theorem merkle_branch_sound:
  assumes "inj_on (\<lambda>(a, b). Hash2 Hash a b)
      (set (tree_pairs (Hash2 Hash) txids) \<union> set (branch_pairs (Hash2 Hash) h br i))"
    and "i < length txids" "length br = length (GetMerkleBranch Hash txids (int i))"
    and "CheckMerkleBranch Hash h br (int i) = fst (snd (BuildMerkleTree Hash txids))"
  shows "h = txids ! i"
  using branch_binds [OF assms(1,2)] assms(3,4)
  by (simp add: GetMerkleBranch_abs BuildMerkleTree_eq CheckMerkleBranch_def)

lemma two_leaves:
  "tree_pairs f [a, b] = [(a, b)]" "levels f [a, b] = [[a, b], [f a b]]" "merkle_root f [a, b] = f a b"
  "abs_branch f [a, b] 0 = [b]"
  by (simp_all add: tree_pairs.simps levels.simps merkle_root_def abs_branch.simps)

text \<open>A hash that keeps the low bytes of a pair apart, and the tree of three transactions under it.\<close>

definition pair_hash :: "bytes \<Rightarrow> uint256" where
  "pair_hash bs = ucast (bs ! 0) + 256 * ucast (bs ! 32)"

lemma Hash2_pair_hash: "Hash2 pair_hash a b = (ucast (ucast a :: byte) + 256 * ucast (ucast b :: byte))"
proof -
  have 0: "u256_Serialize x ! 0 = ucast x" for x
    using le_enc.simps(2) [of 31 "unat x"] by (simp add: u256_Serialize_def WRITEDATA_def)
  have "length (u256_Serialize a) = 32" by simp
  then have "(u256_Serialize a @ u256_Serialize b) ! 0 = u256_Serialize a ! 0" "(u256_Serialize a @ u256_Serialize b) ! 32 = u256_Serialize b ! 0"
    by (simp_all add: nth_append)
  then show ?thesis by (simp add: Hash2_def pair_hash_def 0)
qed

lemma three_leaves:
  "tree_pairs f [a, b, c] = [(a, b), (c, c), (f a b, f c c)]" "levels f [a, b, c] = [[a, b, c], [f a b, f c c], [f (f a b) (f c c)]]"
  "abs_branch f [a, b, c] 2 = [c, f a b]" "abs_branch f [a, b, c] 0 = [b, f c c]"
  by (simp_all add: tree_pairs.simps levels.simps abs_branch.simps)

lemma three_leaf_tree:
  "BuildMerkleTree pair_hash [1, 2, 3] = ([1, 2, 3, 513, 771, 769], 769, False)"
  "BuildMerkleTree pair_hash [1, 2, 3, 3] = ([1, 2, 3, 3, 513, 771, 769], 769, True)"
  by (simp_all add: BuildMerkleTree_eq three_leaves levels.simps merkle_root_def Hash2_pair_hash)

lemma merkle_branch_sound_witness:
  "GetMerkleBranch pair_hash [1, 2, 3] 2 = [3, 513] \<and>
   CheckMerkleBranch pair_hash 3 [3, 513] 2 = fst (snd (BuildMerkleTree pair_hash [1, 2, 3])) \<and> 3 = [1, 2, 3 :: uint256] ! 2 \<and>
   CheckMerkleBranch pair_hash 4 [3, 513] 2 \<noteq> fst (snd (BuildMerkleTree pair_hash [1, 2, 3]))"
proof -
  have b: "GetMerkleBranch pair_hash [1, 2, 3] 2 = [3, 513]"
    using GetMerkleBranch_abs [of pair_hash "[1, 2, 3]" 2] by (simp add: three_leaves Hash2_pair_hash)
  have c: "CheckMerkleBranch pair_hash 3 [3, 513] 2 = fst (snd (BuildMerkleTree pair_hash [1, 2, 3]))"
    by (simp add: CheckMerkleBranch_def three_leaf_tree Hash2_pair_hash)
  have i: "inj_on (\<lambda>(a, b). Hash2 pair_hash a b) (set (tree_pairs (Hash2 pair_hash) [1, 2, 3]) \<union>
      set (branch_pairs (Hash2 pair_hash) h [3, 513] 2))" if "h = 3 \<or> h = 4" for h
    using that by (auto simp: three_leaves Hash2_pair_hash)
  have "3 = [1, 2, 3 :: uint256] ! 2"
    using merkle_branch_sound [OF i, of 3] b c by simp
  moreover have "CheckMerkleBranch pair_hash 4 [3, 513] 2 \<noteq> fst (snd (BuildMerkleTree pair_hash [1, 2, 3]))"
    using merkle_branch_sound [OF i, of 4] b by auto
  ultimately show ?thesis using b c by blast
qed

lemma level_pairs_inj:
  "level_pairs xs = level_pairs ys \<Longrightarrow> \<not> tail_dup xs \<Longrightarrow> \<not> tail_dup ys \<Longrightarrow> xs = ys"
proof (induction xs arbitrary: ys rule: level_pairs.induct)
  case 1
  then show ?case by (cases ys rule: level_pairs.cases) auto
next
  case (2 x)
  then show ?case
  proof (cases ys rule: level_pairs.cases)
    case (3 a b r)
    then have "r = []" using 2(1) by (cases r rule: level_pairs.cases) auto
    then show ?thesis using 2 3 by auto
  qed auto
next
  case (3 x y r)
  show ?case
  proof (cases ys rule: level_pairs.cases)
    case (2 a)
    then have "r = []" using 3(2) by (cases r rule: level_pairs.cases) auto
    then show ?thesis using 2 3 by auto
  next
    case c: (3 a b r')
    then have e: "x = a" "y = b" "level_pairs r = level_pairs r'" using 3(2) by auto
    have "\<not> tail_dup r" using 3(3) by (cases r rule: level_pairs.cases) auto
    moreover have "\<not> tail_dup r'" using 3(4) c by (cases r' rule: level_pairs.cases) auto
    ultimately show ?thesis using 3(1) [OF e(3)] e c by simp
  qed (use 3 in auto)
qed

lemma length_abs_branch: "length (abs_branch f xs i) = length (levels f xs) - 1"
proof (induction f xs i rule: abs_branch.induct)
  case (1 f xs i)
  show ?case
  proof (cases "length xs > 1")
    case True
    have "levels f xs = xs # levels f (pair_up f xs)" using True by (subst levels.simps) simp
    moreover have "length (levels f (pair_up f xs)) > 0" by simp
    ultimately show ?thesis using True 1 by (subst abs_branch.simps) simp
  next
    case False
    then show ?thesis by (subst abs_branch.simps, subst levels.simps) simp
  qed
qed

lemma root_binds:
  assumes "inj_on (\<lambda>(a, b). f a b) (set (tree_pairs f xs) \<union> set (tree_pairs f ys))"
    and "xs \<noteq> []" "ys \<noteq> []" "length (levels f xs) = length (levels f ys)" "merkle_root f xs = merkle_root f ys"
    and "\<not> list_ex tail_dup (levels f xs)" "\<not> list_ex tail_dup (levels f ys)"
  shows "xs = ys"
  using assms
proof (induction "length xs" arbitrary: xs ys rule: less_induct)
  case less
  show ?case
  proof (cases "length xs > 1 \<and> length ys > 1")
    case True
    let ?p = "pair_up f xs" and ?q = "pair_up f ys"
    have lv: "levels f xs = xs # levels f ?p" "levels f ys = ys # levels f ?q"
      using True by (subst levels.simps; simp)+
    have tp: "tree_pairs f xs = level_pairs xs @ tree_pairs f ?p" "tree_pairs f ys = level_pairs ys @ tree_pairs f ?q"
      using True by (subst tree_pairs.simps; simp)+
    have "?p \<noteq> []" "?q \<noteq> []" using True by (auto simp flip: length_greater_0_conv)
    moreover have "inj_on (\<lambda>(a, b). f a b) (set (tree_pairs f ?p) \<union> set (tree_pairs f ?q))"
      by (rule inj_on_subset [OF less(2)]) (auto simp: tp)
    ultimately have "?p = ?q"
      using less(1) [of ?p ?q] less(5-) True lv by (auto simp: merkle_root_step)
    then have "map (\<lambda>(a, b). f a b) (level_pairs xs) = map (\<lambda>(a, b). f a b) (level_pairs ys)"
      by (simp add: pair_up_level_pairs)
    moreover have "inj_on (\<lambda>(a, b). f a b) (set (level_pairs xs) \<union> set (level_pairs ys))"
      by (rule inj_on_subset [OF less(2)]) (auto simp: tp)
    ultimately have "level_pairs xs = level_pairs ys" by (rule map_inj_on)
    moreover have "\<not> tail_dup xs" "\<not> tail_dup ys" using less(7,8) unfolding lv by simp_all
    ultimately show ?thesis by (rule level_pairs_inj)
  next
    case False
    have one: "length zs = 1" if "zs \<noteq> []" "length (levels f zs) = 1" for zs
    proof (rule ccontr)
      assume "length zs \<noteq> 1"
      then have "length zs > 1" using that(1) by (cases zs) auto
      then have "levels f zs = zs # levels f (pair_up f zs)" by (subst levels.simps) simp
      then show False using that(2) by simp
    qed
    have s: "length zs \<le> 1 \<Longrightarrow> length (levels f zs) = 1" for zs by (subst levels.simps) simp
    have "length (levels f xs) = 1" using False s [of xs] s [of ys] less(5) by auto
    then have "length xs = 1" "length ys = 1" using one less by auto
    then obtain x y where "xs = [x]" "ys = [y]" by (auto simp: length_Suc_conv)
    then show ?thesis using less(6) by simp
  qed
qed

text \<open>
  C24: a Merkle root that was built without the mutation mark determines the transactions: two
  blocks of the same tree depth with the same root, neither marked, have the same transaction
  hashes, as long as the hash does not collide on the pairs of the two trees. (Without the mark
  this fails: repeating the last transactions gives the same root.)
\<close>

theorem merkle_root_unmutated:
  assumes "inj_on (\<lambda>(a, b). Hash2 Hash a b) (set (tree_pairs (Hash2 Hash) xs) \<union> set (tree_pairs (Hash2 Hash) ys))"
    and "xs \<noteq> []" "ys \<noteq> []"
    and "length (GetMerkleBranch Hash xs 0) = length (GetMerkleBranch Hash ys 0)"
    and "BuildMerkleTree Hash xs = (t, root, False)" "BuildMerkleTree Hash ys = (t', root, False)"
  shows "xs = ys"
proof -
  have "length (levels (Hash2 Hash) xs) > 0" "length (levels (Hash2 Hash) ys) > 0" by simp_all
  moreover have l: "length (GetMerkleBranch Hash zs 0) = length (levels (Hash2 Hash) zs) - 1" for zs
    using GetMerkleBranch_abs [of Hash zs 0] length_abs_branch [of "Hash2 Hash" zs 0] by simp
  moreover note l [of xs] l [of ys]
  ultimately have "length (levels (Hash2 Hash) xs) = length (levels (Hash2 Hash) ys)"
    using assms(4) l [of xs] l [of ys] by (metis Suc_pred')
  then show ?thesis using root_binds [OF assms(1-3)] assms(5,6) by (simp add: BuildMerkleTree_eq)
qed

text \<open>The same three transactions; repeating the last one gives the same root, with the mark.\<close>

lemma merkle_root_unmutated_witness:
  "BuildMerkleTree pair_hash [1, 2, 3] = ([1, 2, 3, 513, 771, 769], 769, False) \<and>
   snd (BuildMerkleTree pair_hash [1, 2, 3, 3]) = (769, True) \<and>
   butlast [1, 2, 3, 3] = [1, 2, 3 :: uint256]"
proof -
  have "butlast [1, 2, 3, 3] = [1, 2, 3 :: uint256]"
  proof (rule merkle_root_unmutated [where Hash = pair_hash and root = 769])
    show "BuildMerkleTree pair_hash (butlast [1, 2, 3, 3]) = ([1, 2, 3, 513, 771, 769], 769, False)"
      by (simp add: three_leaf_tree)
    show "BuildMerkleTree pair_hash [1, 2, 3] = ([1, 2, 3, 513, 771, 769], 769, False)" by (rule three_leaf_tree)
  qed (auto simp: three_leaves Hash2_pair_hash)
  then show ?thesis by (simp add: three_leaf_tree)
qed

subsection \<open>Headers and blocks\<close>

record CBlockHeader =
  bh_nVersion :: int
  bh_hashPrevBlock :: uint256
  bh_hashMerkleRoot :: uint256
  bh_nTime :: u32
  bh_nBits :: u32
  bh_nNonce :: u32
  bh_nAccumulatorCheckpoint :: uint256

definition header_SetNull :: CBlockHeader where
  "header_SetNull = \<lparr>bh_nVersion = 4, bh_hashPrevBlock = 0, bh_hashMerkleRoot = 0, bh_nTime = 0,
     bh_nBits = 0, bh_nNonce = 0, bh_nAccumulatorCheckpoint = 0\<rparr>"

definition header_IsNull :: "CBlockHeader \<Rightarrow> bool" where
  "header_IsNull h \<longleftrightarrow> bh_nBits h = 0"

definition header_GetBlockTime :: "CBlockHeader \<Rightarrow> int" where
  "header_GetBlockTime h = uint (bh_nTime h)"

definition header_Serialize :: "CBlockHeader \<Rightarrow> bytes" where
  "header_Serialize h =
     Serialize_int 4 (bh_nVersion h) @ u256_Serialize (bh_hashPrevBlock h) @ u256_Serialize (bh_hashMerkleRoot h) @
     u32_Serialize (bh_nTime h) @ u32_Serialize (bh_nBits h) @ u32_Serialize (bh_nNonce h) @
     (if bh_nVersion h > 3 then u256_Serialize (bh_nAccumulatorCheckpoint h) else [])"

text \<open>Reading into a fresh header, whose checkpoint is zero where the stream has none.\<close>

definition header_Unserialize :: "CBlockHeader reader" where
  "header_Unserialize bs =
     bindE (Unserialize_int 4 bs) (\<lambda>(ver, r1).
     bindE (u256_Unserialize r1) (\<lambda>(prev, r2).
     bindE (u256_Unserialize r2) (\<lambda>(root, r3).
     bindE (u32_Unserialize r3) (\<lambda>(tm, r4).
     bindE (u32_Unserialize r4) (\<lambda>(bits, r5).
     bindE (u32_Unserialize r5) (\<lambda>(nonce, r6).
     bindE (if ver > 3 then u256_Unserialize r6 else Inr (0, r6)) (\<lambda>(acc, r7).
       Inr (\<lparr>bh_nVersion = ver, bh_hashPrevBlock = prev, bh_hashMerkleRoot = root, bh_nTime = tm,
             bh_nBits = bits, bh_nNonce = nonce, bh_nAccumulatorCheckpoint = acc\<rparr>, r7))))))))"

text \<open>The memory of the members from \<open>nVersion\<close> on, which \<open>GetHash\<close> hashes in place.\<close>

definition header_memory :: "CBlockHeader \<Rightarrow> bytes" where
  "header_memory h =
     WRITEDATA 4 (to_u 32 (bh_nVersion h)) @ u256_Serialize (bh_hashPrevBlock h) @
     u256_Serialize (bh_hashMerkleRoot h) @ u32_Serialize (bh_nTime h) @ u32_Serialize (bh_nBits h) @
     u32_Serialize (bh_nNonce h) @ u256_Serialize (bh_nAccumulatorCheckpoint h)"

definition header_GetHash :: "(bytes \<Rightarrow> uint256) \<Rightarrow> (bytes \<Rightarrow> uint256) \<Rightarrow> CBlockHeader \<Rightarrow> uint256" where
  "header_GetHash XEVAN Hash h =
     (if bh_nVersion h < 4 then XEVAN (take 80 (header_memory h)) else Hash (header_memory h))"

record CBlock =
  header :: CBlockHeader
  vtx :: "CTransaction list"
  vchBlockSig :: bytes
  payee :: CScript
  vMerkleTree :: "uint256 list"

definition block_SetNull :: CBlock where
  "block_SetNull = \<lparr>header = header_SetNull, vtx = [], vchBlockSig = [], payee = [], vMerkleTree = []\<rparr>"

definition block_of_header :: "CBlockHeader \<Rightarrow> CBlock" where
  "block_of_header h = block_SetNull\<lparr>header := h\<rparr>"

definition GetBlockHeader :: "CBlock \<Rightarrow> CBlockHeader" where
  "GetBlockHeader b = header b"

definition IsProofOfStake :: "CBlock \<Rightarrow> bool" where
  "IsProofOfStake b \<longleftrightarrow> length (vtx b) > 1 \<and> IsCoinStake (vtx b ! 1)"

definition IsProofOfWork :: "CBlock \<Rightarrow> bool" where
  "IsProofOfWork b \<longleftrightarrow> \<not> IsProofOfStake b"

definition GetProofOfStake :: "CBlock \<Rightarrow> COutPoint \<times> u32" where
  "GetProofOfStake b =
     (if IsProofOfStake b then (prevout (vin (vtx b ! 1) ! 0), bh_nTime (header b)) else (OutPoint_Null, 0))"

definition block_GetHash :: "(bytes \<Rightarrow> uint256) \<Rightarrow> (bytes \<Rightarrow> uint256) \<Rightarrow> CBlock \<Rightarrow> uint256" where
  "block_GetHash XEVAN Hash b = header_GetHash XEVAN Hash (header b)"

definition sizeof_CTransaction :: nat where "sizeof_CTransaction = 96"

definition block_Serialize :: "CBlock \<Rightarrow> bytes" where
  "block_Serialize b =
     header_Serialize (header b) @ Serialize_vec tx_Serialize (vtx b) @
     (if length (vtx b) > 1 \<and> IsCoinStake (vtx b ! 1) then Serialize_blob (vchBlockSig b) else [])"

definition block_Unserialize :: "(bytes \<Rightarrow> uint256) \<Rightarrow> CBlock reader" where
  "block_Unserialize Hash bs =
     bindE (header_Unserialize bs) (\<lambda>(h, r1).
     bindE (Unserialize_vec sizeof_CTransaction (tx_Unserialize Hash) r1) (\<lambda>(txs, r2).
     bindE (if length txs > 1 \<and> IsCoinStake (txs ! 1) then Unserialize_blob r2 else Inr ([], r2)) (\<lambda>(sig, r3).
       Inr (\<lparr>header = h, vtx = txs, vchBlockSig = sig, payee = [], vMerkleTree = []\<rparr>, r3))))"

type_synonym CBlockLocator = "uint256 list"

definition locator_Serialize :: "bool \<Rightarrow> int \<Rightarrow> CBlockLocator \<Rightarrow> bytes" where
  "locator_Serialize gethash nVersion vHave =
     (if \<not> gethash then Serialize_int 4 nVersion else []) @ Serialize_vec u256_Serialize vHave"

definition locator_IsNull :: "CBlockLocator \<Rightarrow> bool" where
  "locator_IsNull vHave \<longleftrightarrow> vHave = []"

subsection \<open>Block signatures\<close>

text \<open>
  \<open>GetKey\<close> is the key store's lookup, \<open>Sign\<close> the key's signing of a hash and \<open>Verify\<close> the
  public key's check. The exceptions are the one of \<open>Solver\<close> and the one of making a \<open>uint160\<close>
  from a vector of another size.
\<close>

datatype sign_error = SolverRange | BadUint160 | NoTransaction

definition uint160_checked :: "bytes \<Rightarrow> sign_error + uint160" where
  "uint160_checked v = (if length v \<noteq> 20 then Inl BadUint160 else Inr (uint160_of_vch v))"

definition sign_with ::
    "(uint160 \<Rightarrow> 'key option) \<Rightarrow> ('key \<Rightarrow> uint256 \<Rightarrow> bytes option) \<Rightarrow> uint160 \<Rightarrow> uint256 \<Rightarrow> bytes option" where
  "sign_with GetKey Sign keyID hash = (case GetKey keyID of None \<Rightarrow> None | Some key \<Rightarrow> Sign key hash)"

fun sign_pow_loop ::
    "(uint160 \<Rightarrow> 'key option) \<Rightarrow> ('key \<Rightarrow> uint256 \<Rightarrow> bytes option) \<Rightarrow> uint256 \<Rightarrow> CTxOut list \<Rightarrow> sign_error + bytes option" where
  "sign_pow_loop GetKey Sign hash [] = Inr None"
| "sign_pow_loop GetKey Sign hash (txout # outs) =
     (case Solver (scriptPubKey txout) of
        None \<Rightarrow> Inl SolverRange
      | Some (ok, whichType, vSolutions) \<Rightarrow>
          if \<not> ok then sign_pow_loop GetKey Sign hash outs
          else if whichType = TX_PUBKEY then
            bindE (uint160_checked (vSolutions ! 0)) (\<lambda>keyID. Inr (sign_with GetKey Sign keyID hash))
          else sign_pow_loop GetKey Sign hash outs)"

text \<open>The block with its signature, or \<open>None\<close> when it could not be signed.\<close>

definition SignBlock ::
    "(bytes \<Rightarrow> uint160) \<Rightarrow> (uint160 \<Rightarrow> 'key option) \<Rightarrow> ('key \<Rightarrow> uint256 \<Rightarrow> bytes option) \<Rightarrow> uint256 \<Rightarrow>
     CBlock \<Rightarrow> sign_error + CBlock option" where
  "SignBlock Hash160 GetKey Sign hash b =
     bindE
       (if \<not> IsProofOfStake b then
          (case vtx b of [] \<Rightarrow> Inl NoTransaction | tx # _ \<Rightarrow> sign_pow_loop GetKey Sign hash (vout tx))
        else
          (case Solver (scriptPubKey (vout (vtx b ! 1) ! 1)) of
             None \<Rightarrow> Inl SolverRange
           | Some (ok, whichType, vSolutions) \<Rightarrow>
               if \<not> ok then Inr None
               else if whichType = TX_PUBKEYHASH then
                 bindE (uint160_checked (vSolutions ! 0)) (\<lambda>keyID. Inr (sign_with GetKey Sign keyID hash))
               else if whichType = TX_PUBKEY then
                 Inr (sign_with GetKey Sign (pk_GetID Hash160 (CPubKey_of (vSolutions ! 0))) hash)
               else Inr None))
       (\<lambda>sig. Inr (map_option (\<lambda>s. b\<lparr>vchBlockSig := s\<rparr>) sig))"

definition CheckBlockSignature ::
    "(CPubKey \<Rightarrow> uint256 \<Rightarrow> bytes \<Rightarrow> bool) \<Rightarrow> uint256 \<Rightarrow> CBlock \<Rightarrow> sign_error + bool" where
  "CheckBlockSignature Verify hash b =
     (if IsProofOfWork b then Inr (vchBlockSig b = [])
      else
        (case Solver (scriptPubKey (vout (vtx b ! 1) ! 1)) of
           None \<Rightarrow> Inl SolverRange
         | Some (ok, whichType, vSolutions) \<Rightarrow>
             if \<not> ok then Inr False
             else if whichType = TX_PUBKEY then
               (let pubkey = CPubKey_of (vSolutions ! 0)
                in if \<not> pk_IsValid pubkey then Inr False
                   else if vchBlockSig b = [] then Inr False
                   else Inr (Verify pubkey hash (vchBlockSig b)))
             else if whichType = TX_PUBKEYHASH then
               bindE (uint160_checked (vSolutions ! 0)) (\<lambda>keyID.
                 let pubkey = CPubKey_of (vSolutions ! 0)
                 in if \<not> pk_IsValid pubkey then Inr False
                    else if vchBlockSig b = [] then Inr False
                    else Inr (Verify pubkey hash (vchBlockSig b)))
             else Inr False))"

subsection \<open>Round trips of headers and blocks\<close>

definition header_wf :: "CBlockHeader \<Rightarrow> bool" where
  "header_wf h \<longleftrightarrow> in_s 32 (bh_nVersion h) \<and> (bh_nVersion h \<le> 3 \<longrightarrow> bh_nAccumulatorCheckpoint h = 0)"

lemma header_roundtrip: "header_wf h \<Longrightarrow> header_Unserialize (header_Serialize h @ r) = Inr (h, r)"
  by (auto simp: header_Unserialize_def header_Serialize_def header_wf_def int32.roundtrip)

interpretation bhc: codec header_Serialize header_Unserialize header_wf
  by unfold_locales (rule header_roundtrip)

lemma header_hash_serialization:
  "header_GetHash XEVAN Hash h =
     (if bh_nVersion h < 4 then XEVAN (header_Serialize h) else Hash (header_Serialize h))"
  by (simp add: header_GetHash_def header_memory_def header_Serialize_def Serialize_int_def WRITEDATA_def)

definition block_wf :: "(bytes \<Rightarrow> uint256) \<Rightarrow> CBlock \<Rightarrow> bool" where
  "block_wf Hash b \<longleftrightarrow> header_wf (header b) \<and>
     list_all (\<lambda>tx. tx_wf tx \<and> tx_hash tx = Hash (tx_Serialize tx)) (vtx b) \<and> length (vtx b) \<le> MAX_SIZE \<and>
     length (vchBlockSig b) \<le> MAX_SIZE \<and> (IsProofOfWork b \<longrightarrow> vchBlockSig b = []) \<and>
     payee b = [] \<and> vMerkleTree b = []"

interpretation txvec: vec_codec tx_Serialize "tx_Unserialize Hash"
  "\<lambda>tx. tx_wf tx \<and> tx_hash tx = Hash (tx_Serialize tx)" sizeof_CTransaction for Hash
  by unfold_locales (simp_all add: tx_Unserialize_Serialize sizeof_CTransaction_def)

text \<open>
  A block survives the wire with its signature, and its hash is the hash of the serialized
  header: the XEVAN chain below version 4, the double hash from there on.
\<close>

theorem block_roundtrip:
  assumes "block_wf Hash b"
  shows "block_Unserialize Hash (block_Serialize b @ r) = Inr (b, r) \<and>
    block_GetHash XEVAN Hash b =
      (if bh_nVersion (header b) < 4 then XEVAN else Hash) (header_Serialize (GetBlockHeader b))"
proof -
  have "block_Unserialize Hash (block_Serialize b @ r) = Inr (b, r)"
    using assms
    by (auto simp: block_Unserialize_def block_Serialize_def block_wf_def header_roundtrip txvec.vec_roundtrip
        blob.roundtrip IsProofOfWork_def IsProofOfStake_def)
  then show ?thesis by (simp add: block_GetHash_def header_hash_serialization GetBlockHeader_def)
qed

lemma block_roundtrip_witness:
  "block_Unserialize (\<lambda>_. 7) (block_Serialize (block_SetNull\<lparr>vtx := [sample_tx]\<rparr>) @ [1]) =
    Inr (block_SetNull\<lparr>vtx := [sample_tx]\<rparr>, [1])"
  using block_roundtrip [of "\<lambda>_. 7" "block_SetNull\<lparr>vtx := [sample_tx]\<rparr>" "[1]"]
  by (simp add: block_wf_def block_SetNull_def header_SetNull_def header_wf_def sample_tx_def tx_wf_def mk_CTxIn_def
      mk_CTxOut_def TxIn_wf_def TxOut_wf_def in_s_def MAX_SIZE_def)

lemma CPubKey_of_20: "length v = 20 \<Longrightarrow> \<not> pk_IsValid (CPubKey_of v)"
  using GetLen_cases [of "hd v"]
  by (auto simp: CPubKey_of_def pk_Set_def Let_def PUBLIC_KEY_SIZE_def intro!: pk_Invalidate_invalid [of "replicate 65 0", simplified])

text \<open>What the key store promises: a signature made with the key of an identifier is not empty,
  and every valid public key with that identifier accepts it.\<close>

definition keystore_ok ::
    "(bytes \<Rightarrow> uint160) \<Rightarrow> (uint160 \<Rightarrow> 'key option) \<Rightarrow> ('key \<Rightarrow> uint256 \<Rightarrow> bytes option) \<Rightarrow>
     (CPubKey \<Rightarrow> uint256 \<Rightarrow> bytes \<Rightarrow> bool) \<Rightarrow> bool" where
  "keystore_ok Hash160 GetKey Sign Verify \<longleftrightarrow>
     (\<forall>keyID key hash s. GetKey keyID = Some key \<longrightarrow> Sign key hash = Some s \<longrightarrow>
        s \<noteq> [] \<and> (\<forall>pk. pk_IsValid pk \<longrightarrow> pk_GetID Hash160 pk = keyID \<longrightarrow> Verify pk hash s))"

lemma sign_withD:
  "keystore_ok Hash160 GetKey Sign Verify \<Longrightarrow> sign_with GetKey Sign keyID hash = Some s \<Longrightarrow>
    s \<noteq> [] \<and> (\<forall>pk. pk_IsValid pk \<longrightarrow> pk_GetID Hash160 pk = keyID \<longrightarrow> Verify pk hash s)"
  by (auto simp: keystore_ok_def sign_with_def split: option.splits)

text \<open>
  C35: a proof-of-stake block that was signed passes the signature check exactly when its second
  output pays to a valid public key. A block whose output pays to a key hash is signed too, but
  the check reads that hash as a public key, so it never passes.
\<close>

theorem signed_block_checks:
  assumes "keystore_ok Hash160 GetKey Sign Verify" "IsProofOfStake b"
    and "SignBlock Hash160 GetKey Sign hash b = Inr (Some b')"
  shows "CheckBlockSignature Verify hash b' = Inr
    (\<exists>sols. Solver (scriptPubKey (vout (vtx b ! 1) ! 1)) = Some (True, TX_PUBKEY, sols) \<and>
      pk_IsValid (CPubKey_of (sols ! 0)))"
proof -
  let ?s = "scriptPubKey (vout (vtx b ! 1) ! 1)"
  obtain t sols where sol: "Solver ?s = Some (True, t, sols)" and
    sg: "(t = TX_PUBKEYHASH \<and> (\<exists>id s. uint160_checked (sols ! 0) = Inr id \<and> sign_with GetKey Sign id hash = Some s \<and>
            b' = b\<lparr>vchBlockSig := s\<rparr>)) \<or>
         (t = TX_PUBKEY \<and> (\<exists>s. sign_with GetKey Sign (pk_GetID Hash160 (CPubKey_of (sols ! 0))) hash = Some s \<and>
            b' = b\<lparr>vchBlockSig := s\<rparr>))"
    using assms(2,3) by (auto simp: SignBlock_def bindE_Inr_conv split: option.splits if_splits)
  from sg have ps: "IsProofOfStake b'" "vtx b' = vtx b" using assms(2) by (auto simp: IsProofOfStake_def)
  from sg show ?thesis
  proof (elim disjE conjE exE)
    fix id s
    assume t: "t = TX_PUBKEYHASH" and u: "uint160_checked (sols ! 0) = Inr id"
    then have "length (sols ! 0) = 20" by (auto simp: uint160_checked_def split: if_splits)
    then show ?thesis using ps sol t u
      by (simp add: CheckBlockSignature_def IsProofOfWork_def CPubKey_of_20)
  next
    fix s
    assume t: "t = TX_PUBKEY" and s: "sign_with GetKey Sign (pk_GetID Hash160 (CPubKey_of (sols ! 0))) hash = Some s"
      and b': "b' = b\<lparr>vchBlockSig := s\<rparr>"
    have "s \<noteq> []" "pk_IsValid (CPubKey_of (sols ! 0)) \<Longrightarrow> Verify (CPubKey_of (sols ! 0)) hash s"
      using sign_withD [OF assms(1) s] by auto
    then show ?thesis using ps sol t b' by (simp add: CheckBlockSignature_def IsProofOfWork_def Let_def)
  qed
qed

text \<open>A coinstake that pays to a key hash; its block is signed, and the check rejects it.\<close>

definition sample_stake :: CBlock where
  "sample_stake = block_SetNull\<lparr>vtx := [sample_tx, sample_tx\<lparr>vin := [mk_CTxIn (COutPoint 1 0) [] 0],
     vout := [mk_CTxOut 0 [], mk_CTxOut 5 (p2pkh (replicate 20 4))]\<rparr>]\<rparr>"

lemma sample_stake_facts:
  "IsProofOfStake sample_stake" "Solver (scriptPubKey (vout (vtx sample_stake ! 1) ! 1)) = Some (True, TX_PUBKEYHASH, [replicate 20 4])"
  by (simp_all add: sample_stake_def IsProofOfStake_def IsCoinStake_def mk_CTxIn_def mk_CTxOut_def TxOut_IsEmpty_def
      OutPoint_IsNull_def Solver_p2pkh)

lemma signed_block_checks_witness:
  "SignBlock (\<lambda>_. 9) (\<lambda>_. Some ()) (\<lambda>_ _. Some [1]) 7 sample_stake = Inr (Some (sample_stake\<lparr>vchBlockSig := [1]\<rparr>)) \<and>
   CheckBlockSignature (\<lambda>_ _ _. True) 7 (sample_stake\<lparr>vchBlockSig := [1]\<rparr>) = Inr False"
proof -
  have s: "SignBlock (\<lambda>_. 9) (\<lambda>_. Some ()) (\<lambda>_ _. Some [1]) 7 sample_stake = Inr (Some (sample_stake\<lparr>vchBlockSig := [1]\<rparr>))"
    by (simp add: SignBlock_def sample_stake_facts sample_stake_facts(2) [simplified] uint160_checked_def sign_with_def)
  have "keystore_ok (\<lambda>_. 9) (\<lambda>_. Some ()) (\<lambda>_ _. Some [1]) (\<lambda>_ _ _. True)" by (simp add: keystore_ok_def)
  from signed_block_checks [OF this sample_stake_facts(1) s] s show ?thesis
    by (simp add: sample_stake_facts(2) [simplified])
qed

text \<open>A proof-of-work block with an output that pays to a public key cannot be signed: making a
  key identifier from the key's bytes raises an exception.\<close>

lemma match_pubkey_length:
  assumes "match_loop s [OP_PUBKEY, OP_CHECKSIG] [] = Some sols"
  shows "length (sols ! 0) \<ge> 33"
proof -
  obtain ok1 o1 v1 r where g: "GetOp2 s = (ok1, o1, v1, r)" by (cases "GetOp2 s") auto
  have m: "match_loop r [OP_CHECKSIG] [v1] = Some sols" "33 \<le> length v1"
    using assms g by (subst (asm) match_loop.simps; auto simp: GetOp2_big Let_def split: if_splits)+
  obtain ok2 o2 v2 r2 where g2: "GetOp2 r = (ok2, o2, v2, r2)" by (cases "GetOp2 r") auto
  have m2: "match_loop r2 [] [v1] = Some sols"
    using m(1) g2 by (subst (asm) match_loop.simps) (auto simp: GetOp2_big Let_def split: if_splits)
  have "sols = [v1]" using m2 by (subst (asm) match_loop.simps) (auto simp: GetOp2_def split: if_splits prod.splits)
  then show ?thesis using m(2) by simp
qed

lemma SignBlock_pow_pubkey:
  assumes "\<not> IsProofOfStake b" "vtx b = tx # txs" "vout tx = txout # outs"
    and "Solver (scriptPubKey txout) = Some (True, TX_PUBKEY, sols)"
  shows "SignBlock Hash160 GetKey Sign hash b = Inl BadUint160"
proof -
  have "match_loop (scriptPubKey txout) [OP_PUBKEY, OP_CHECKSIG] [] = Some sols"
    using assms(4) by (auto simp: Solver_def mTemplates_def Let_def split: if_splits option.splits)
  then have "length (sols ! 0) \<noteq> 20" using match_pubkey_length by fastforce
  then show ?thesis using assms by (simp add: SignBlock_def uint160_checked_def)
qed

end
