(* ===== verification/Connect.thy ===== *)
theory Connect
  imports TxCheck Block
begin

section \<open>Applying blocks to the coins and undoing them (main.cpp)\<close>

text \<open>
  \<open>UpdateCoins\<close> spends a transaction's inputs in a cache and adds its outputs; \<open>DisconnectBlock\<close>
  restores the inputs of a block's transactions from the undo data, in reverse. The lemmas show
  that both act on the map of unspent outputs a view stands for, and that disconnecting a block
  gives the map from before the block was connected, up to the coinstake mark that the undo
  does not restore. \<open>None\<close> is a failed assertion or a read outside of a vector.
\<close>

subsection \<open>UpdateCoins\<close>

definition spend_entry :: "nat \<Rightarrow> CCoins \<Rightarrow> CTxInUndo option \<times> CCoins" where
  "spend_entry n c = (case Spend c n of None \<Rightarrow> (None, c) | Some (c', undo) \<Rightarrow> (Some undo, c'))"

fun spend_inputs :: "CTxIn list \<Rightarrow> CTxInUndo list \<Rightarrow> view \<Rightarrow> (CTxInUndo list \<times> view) option" where
  "spend_inputs [] vprevout v = Some (vprevout, v)"
| "spend_inputs (txin # ins) vprevout v =
     (case with_coins (op_hash (prevout txin)) (spend_entry (unat (op_n (prevout txin)))) v of
        None \<Rightarrow> None
      | Some (None, v') \<Rightarrow> None
      | Some (Some undo, v') \<Rightarrow> spend_inputs ins (vprevout @ [undo]) v')"

definition from_tx_entry :: "CTransaction \<Rightarrow> int \<Rightarrow> CCoins \<Rightarrow> bool \<times> CCoins" where
  "from_tx_entry tx height c = (case FromTx tx height c of None \<Rightarrow> (False, c) | Some c' \<Rightarrow> (True, c'))"

definition UpdateCoins :: "CTransaction \<Rightarrow> int \<Rightarrow> view \<Rightarrow> (CTxInUndo list \<times> view) option" where
  "UpdateCoins tx height v =
     (case IsCoinBase tx of
        None \<Rightarrow> None
      | Some cb \<Rightarrow>
     (case (if cb then Some True else IsZerocoinSpend_tx tx) of
        None \<Rightarrow> None
      | Some no_inputs \<Rightarrow>
     (case (if no_inputs then Some ([], v) else spend_inputs (vin tx) [] v) of
        None \<Rightarrow> None
      | Some (vprevout, v1) \<Rightarrow>
     (case with_coins (tx_hash tx) (from_tx_entry tx height) v1 of
        None \<Rightarrow> None
      | Some (ok, v2) \<Rightarrow> if ok then Some (vprevout, v2) else None))))"

subsection \<open>DisconnectBlock\<close>

text \<open>
  The check of the outputs that the block added, before they are removed. An \<open>fClean\<close> that is
  once false stays false.
\<close>

definition remove_outputs :: "CTransaction \<Rightarrow> int \<Rightarrow> CCoins \<Rightarrow> bool option \<times> CCoins" where
  "remove_outputs tx height outs0 =
     (case FromTx tx height CCoins_default of
        None \<Rightarrow> (None, outs0)
      | Some outsBlock \<Rightarrow>
          let outs = ClearUnspendable outs0;
              outs' = (if cVersion outsBlock < 0 then outs\<lparr>cVersion := cVersion outsBlock\<rparr> else outs)
          in (Some (coins_eq outs' outsBlock), coins_Clear outs'))"

definition restore_entry :: "CTxInUndo \<Rightarrow> nat \<Rightarrow> CCoins \<Rightarrow> bool option \<times> CCoins" where
  "restore_entry undo n c =
     (case restore_input undo n c of None \<Rightarrow> (None, c) | Some (c', clean) \<Rightarrow> (Some clean, c'))"

text \<open>The inputs of one transaction, from the last to the first.\<close>

fun restore_inputs :: "(CTxIn \<times> CTxInUndo) list \<Rightarrow> bool \<Rightarrow> COutPoint set \<Rightarrow> view \<Rightarrow> (bool \<times> COutPoint set \<times> view) option" where
  "restore_inputs [] fClean erased v = Some (fClean, erased, v)"
| "restore_inputs ((txin, undo) # rest) fClean erased v =
     (case with_coins (op_hash (prevout txin)) (restore_entry undo (unat (op_n (prevout txin)))) v of
        None \<Rightarrow> None
      | Some (None, v') \<Rightarrow> None
      | Some (Some clean, v') \<Rightarrow> restore_inputs rest (fClean \<and> clean) (insert (prevout txin) erased) v')"

text \<open>
  The transactions from the last to the first, each with its undo data (the first transaction of a
  block has none: \<open>i - 1\<close> is only used when the transaction has ordinary inputs, and for
  \<open>i = 0\<close> that reads before the vector). \<open>erase\<close> is the removal of a transaction's zerocoin
  records, which may fail. \<open>Inl\<close> is the result false with its message.
\<close>

datatype disconnect_error = NoUndoData | UndoReadFailure | UndoInconsistent | ZerocoinErase | TxUndoInconsistent
  | CheckpointErase

fun disconnect_txs ::
    "(CTransaction \<Rightarrow> bool) \<Rightarrow> int \<Rightarrow> (CTransaction \<times> CTxInUndo list option) list \<Rightarrow> bool \<Rightarrow> COutPoint set \<Rightarrow> view \<Rightarrow>
     (disconnect_error + bool \<times> COutPoint set \<times> view) option" where
  "disconnect_txs erase height [] fClean erased v = Some (Inr (fClean, erased, v))"
| "disconnect_txs erase height ((tx, txundo) # rest) fClean erased v =
     (case ContainsZerocoins tx of
        None \<Rightarrow> None
      | Some zc \<Rightarrow>
      if zc \<and> \<not> erase tx then Some (Inl ZerocoinErase)
      else
     (case with_coins (tx_hash tx) (remove_outputs tx height) v of
        None \<Rightarrow> None
      | Some (None, v1) \<Rightarrow> None
      | Some (Some same, v1) \<Rightarrow>
     (case IsCoinBase tx of
        None \<Rightarrow> None
      | Some cb \<Rightarrow>
     (case (if cb then Some True else IsZerocoinSpend_tx tx) of
        None \<Rightarrow> None
      | Some True \<Rightarrow> disconnect_txs erase height rest (fClean \<and> same) erased v1
      | Some False \<Rightarrow>
     (case txundo of
        None \<Rightarrow> None
      | Some vprevout \<Rightarrow>
          if length vprevout \<noteq> length (vin tx) then Some (Inl TxUndoInconsistent)
          else (case restore_inputs (rev (zip (vin tx) vprevout)) (fClean \<and> same) erased v1 of
             None \<Rightarrow> None
           | Some (fClean', erased', v2) \<Rightarrow> disconnect_txs erase height rest fClean' erased' v2))))))"

text \<open>
  The block index entry and the one before it: the hash and the height, and the accumulator
  checkpoints. The undo data is what was read from disk (\<open>has_undo\<close> is false for a null position,
  \<open>None\<close> a failure to read). \<open>erase_acc\<close> removes the checkpoint's values from the zerocoin
  database and may fail. The outpoints to erase from the map of spent stakes are returned; the
  caller gets \<open>fClean\<close> through \<open>pfClean\<close>, or as the result.
\<close>

record block_pos =
  bp_hash :: uint256
  bp_height :: int
  bp_checkpoint :: uint256

definition DisconnectBlock ::
    "(CTransaction \<Rightarrow> bool) \<Rightarrow> (uint256 \<Rightarrow> uint256 \<Rightarrow> bool) \<Rightarrow> bool \<Rightarrow> block_pos \<Rightarrow> block_pos \<Rightarrow> bool \<Rightarrow>
     CTxInUndo list list option \<Rightarrow> CTransaction list \<Rightarrow> view \<Rightarrow> (disconnect_error + bool \<times> COutPoint set \<times> view) option" where
  "DisconnectBlock erase erase_acc fVerifyingBlocks pindex pprev has_undo undo_read txs v =
     (let (best, v0) = GetBestBlock v
      in if best \<noteq> bp_hash pindex then None
      else if \<not> has_undo then Some (Inl NoUndoData)
      else (case undo_read of
         None \<Rightarrow> Some (Inl UndoReadFailure)
       | Some vtxundo \<Rightarrow>
           if length vtxundo + 1 \<noteq> length txs then Some (Inl UndoInconsistent)
           else (case disconnect_txs erase (bp_height pindex) (rev (zip txs (None # map Some vtxundo))) True {} v0 of
              None \<Rightarrow> None
            | Some (Inl err) \<Rightarrow> Some (Inl err)
            | Some (Inr (fClean, erased, v1)) \<Rightarrow>
                let v2 = SetBestBlock (bp_hash pprev) v1
                in if \<not> fVerifyingBlocks \<and> bp_checkpoint pindex \<noteq> bp_checkpoint pprev \<and>
                      \<not> erase_acc (bp_checkpoint pindex) (bp_checkpoint pprev) then Some (Inl CheckpointErase)
                   else Some (Inr (fClean, erased, v2)))))"

subsection \<open>The same on the map of unspent outputs\<close>

type_synonym umap = "uint256 \<Rightarrow> CCoins option"

definition spend_map :: "COutPoint \<Rightarrow> umap \<Rightarrow> (CTxInUndo \<times> umap) option" where
  "spend_map p U =
     (case U (op_hash p) of
        None \<Rightarrow> None
      | Some c \<Rightarrow> map_option (\<lambda>(c', undo). (undo, U(op_hash p := keep c'))) (Spend c (unat (op_n p))))"

fun spends_map :: "CTxIn list \<Rightarrow> umap \<Rightarrow> (CTxInUndo list \<times> umap) option" where
  "spends_map [] U = Some ([], U)"
| "spends_map (txin # ins) U =
     (case spend_map (prevout txin) U of
        None \<Rightarrow> None
      | Some (undo, U') \<Rightarrow> map_option (\<lambda>(us, U''). (undo # us, U'')) (spends_map ins U'))"

definition has_inputs :: "CTransaction \<Rightarrow> bool" where
  "has_inputs tx \<longleftrightarrow> IsCoinBase tx = Some False \<and> IsZerocoinSpend_tx tx = Some False"

definition classified :: "CTransaction \<Rightarrow> bool" where
  "classified tx \<longleftrightarrow> IsCoinBase tx = Some True \<or> (IsCoinBase tx = Some False \<and> IsZerocoinSpend_tx tx \<noteq> None)"

definition update_map :: "CTransaction \<Rightarrow> int \<Rightarrow> umap \<Rightarrow> (CTxInUndo list \<times> umap) option" where
  "update_map tx height U =
     (if \<not> classified tx then None
      else case (if has_inputs tx then spends_map (vin tx) U else Some ([], U)) of
        None \<Rightarrow> None
      | Some (us, U') \<Rightarrow> map_option (\<lambda>c. (us, U'(tx_hash tx := keep c))) (FromTx tx height CCoins_default))"

definition cache_ok :: "view \<Rightarrow> bool" where
  "cache_ok v \<longleftrightarrow> view_ok v \<and> (\<exists>b hash m. v = ViewCache b False hash m)"

lemma modified_coins_utxo:
  "utxo v t = Some c \<Longrightarrow> modified_coins v t = c"
  "utxo v t = None \<Longrightarrow> IsPruned (modified_coins v t)"
  by (auto simp: utxo_def modified_coins_def keep_def CCoins_default_def IsPruned_def split: option.splits if_splits)

lemma utxo_not_pruned: "utxo v t = Some c \<Longrightarrow> \<not> IsPruned c"
  by (cases "view_coins v t") (auto simp: utxo_def keep_def split: if_splits)

lemma with_coins_cache:
  assumes "cache_ok v"
  shows "\<exists>v'. with_coins t f v = Some (fst (f (modified_coins v t)), v') \<and> cache_ok v' \<and> best_block v' = best_block v \<and>
    utxo v' = (utxo v)(t := keep (Cleanup (snd (f (modified_coins v t)))))"
proof -
  obtain b hash m where v: "v = ViewCache b False hash m" and ok: "view_ok (ViewCache b False hash m)"
    using assms by (auto simp: cache_ok_def)
  from with_coins_run [OF ok, of f t "fst (f (modified_coins v t))" "snd (f (modified_coins v t))"] v
  obtain b' m' where w: "with_coins t f v = Some (fst (f (modified_coins v t)), ViewCache b' False hash m')"
    "view_ok (ViewCache b' False hash m')" "same_view b b'"
    "utxo (ViewCache b' False hash m') = (utxo v)(t := keep (Cleanup (snd (f (modified_coins v t)))))"
    by auto
  then show ?thesis using v
    by (intro exI [of _ "ViewCache b' False hash m'"]) (auto simp: cache_ok_def same_view_def)
qed

lemma Spend_pruned: "IsPruned c \<Longrightarrow> Spend c n = None"
  by (auto simp: IsPruned_def Spend_def list_all_length)

lemma Spend_clean: "Spend c n = Some (c', undo) \<Longrightarrow> Cleanup c' = c'"
  by (auto simp: Spend_def Let_def split: if_splits)

lemma FromTx_any: "FromTx tx height c = FromTx tx height CCoins_default"
  by (cases c) (simp add: FromTx_def CCoins_default_def split: option.splits)

lemma FromTx_clean: "FromTx tx height c = Some c' \<Longrightarrow> Cleanup c' = c'"
  by (auto simp: FromTx_def ClearUnspendable_def split: option.splits)

lemma spend_inputs_map:
  assumes "cache_ok v"
  shows "map_option (\<lambda>(us, v'). (us, utxo v')) (spend_inputs ins us v) =
      map_option (\<lambda>(us', U). (us @ us', U)) (spends_map ins (utxo v)) \<and>
    (\<forall>us' v'. spend_inputs ins us v = Some (us', v') \<longrightarrow> cache_ok v' \<and> best_block v' = best_block v)"
  using assms
proof (induction ins arbitrary: us v)
  case (Cons i ins)
  let ?h = "op_hash (prevout i)" and ?n = "unat (op_n (prevout i))"
  let ?c = "modified_coins v ?h"
  obtain w where w: "with_coins ?h (spend_entry ?n) v = Some (fst (spend_entry ?n ?c), w)" "cache_ok w"
    "best_block w = best_block v" "utxo w = (utxo v)(?h := keep (Cleanup (snd (spend_entry ?n ?c))))"
    using with_coins_cache [OF Cons.prems] by blast
  show ?case
  proof (cases "utxo v ?h")
    case None
    then show ?thesis using w(1) Spend_pruned [OF modified_coins_utxo(2) [OF None]]
      by (simp add: spend_map_def spend_entry_def)
  next
    case (Some c)
    then have c: "?c = c" by (rule modified_coins_utxo)
    show ?thesis
    proof (cases "Spend c ?n")
      case None
      then show ?thesis using w(1) Some by (simp add: spend_map_def spend_entry_def c)
    next
      case s: (Some cu)
      then obtain c' undo where cu: "cu = (c', undo)" "Cleanup c' = c'" using Spend_clean [of c ?n] by (cases cu) auto
      have U: "utxo w = (utxo v)(?h := keep c')" using w(4) by (simp add: spend_entry_def c s cu)
      have sp: "spend_map (prevout i) (utxo v) = Some (undo, utxo w)" using Some s by (simp add: spend_map_def cu U)
      have e: "spend_inputs (i # ins) us v = spend_inputs ins (us @ [undo]) w"
        using w(1) by (simp add: spend_entry_def c s cu)
      have m: "map_option (\<lambda>(us', U). (us @ us', U)) (spends_map (i # ins) (utxo v)) =
          map_option (\<lambda>(us', U). ((us @ [undo]) @ us', U)) (spends_map ins (utxo w))"
        by (cases "spends_map ins (utxo w)") (auto simp: sp)
      show ?thesis unfolding e m using Cons.IH [OF w(2), of "us @ [undo]"] w(3) by simp
    qed
  qed
qed simp

lemma UpdateCoins_map:
  assumes "cache_ok v"
  shows "map_option (\<lambda>(us, v'). (us, utxo v')) (UpdateCoins tx height v) = update_map tx height (utxo v) \<and>
    (\<forall>us v'. UpdateCoins tx height v = Some (us, v') \<longrightarrow> cache_ok v' \<and> best_block v' = best_block v)"
proof (cases "classified tx")
  case False
  then show ?thesis
    by (auto simp: UpdateCoins_def update_map_def classified_def split: option.splits)
next
  case True
  have fin: "map_option (\<lambda>(us, v'). (us, utxo v')) (case with_coins (tx_hash tx) (from_tx_entry tx height) v1 of
        None \<Rightarrow> None | Some (ok, v2) \<Rightarrow> if ok then Some (us, v2) else None) =
      map_option (\<lambda>c. (us, (utxo v1)(tx_hash tx := keep c))) (FromTx tx height CCoins_default) \<and>
    (\<forall>us' v'. (case with_coins (tx_hash tx) (from_tx_entry tx height) v1 of
        None \<Rightarrow> None | Some (ok, v2) \<Rightarrow> if ok then Some (us, v2) else None) = Some (us', v') \<longrightarrow>
      cache_ok v' \<and> best_block v' = best_block v1)"
    if ok: "cache_ok v1" for us v1
    using with_coins_cache [OF ok, of "tx_hash tx" "from_tx_entry tx height"] FromTx_clean [of tx height CCoins_default]
      FromTx_any [of tx height "modified_coins v1 (tx_hash tx)"]
    by (cases "FromTx tx height CCoins_default") (auto simp: from_tx_entry_def)
  show ?thesis
  proof (cases "has_inputs tx")
    case False
    then have "UpdateCoins tx height v = (case with_coins (tx_hash tx) (from_tx_entry tx height) v of
        None \<Rightarrow> None | Some (ok, v2) \<Rightarrow> if ok then Some ([], v2) else None)"
      using True by (auto simp: UpdateCoins_def classified_def has_inputs_def split: option.splits bool.splits)
    then show ?thesis using True False fin [OF assms, of "[]"] by (simp add: update_map_def)
  next
    case inp: True
    then have U: "UpdateCoins tx height v = (case spend_inputs (vin tx) [] v of None \<Rightarrow> None | Some (us, v1) \<Rightarrow>
        (case with_coins (tx_hash tx) (from_tx_entry tx height) v1 of
          None \<Rightarrow> None | Some (ok, v2) \<Rightarrow> if ok then Some (us, v2) else None))"
      by (simp add: UpdateCoins_def has_inputs_def)
    note s = spend_inputs_map [OF assms, of "vin tx" "[]"]
    show ?thesis
    proof (cases "spend_inputs (vin tx) [] v")
      case None
      then show ?thesis using s U True inp by (auto simp: update_map_def)
    next
      case (Some r)
      then obtain us v1 where r: "r = (us, v1)" by (cases r)
      have "cache_ok v1" "best_block v1 = best_block v" "spends_map (vin tx) (utxo v) = Some (us, utxo v1)"
        using s Some r by (auto simp: option.map_id id_def [symmetric])
      then show ?thesis using fin [of v1 us] U Some r True inp by (simp add: update_map_def)
    qed
  qed
qed

subsection \<open>Undoing\<close>

text \<open>Coins up to the coinstake mark, and the coins that the code keeps.\<close>

definition strip :: "CCoins \<Rightarrow> CCoins" where
  "strip c = c\<lparr>fCoinStake := False\<rparr>"

definition ustrip :: "umap \<Rightarrow> umap" where
  "ustrip U = (\<lambda>t. map_option strip (U t))"

definition coins_good :: "CCoins \<Rightarrow> bool" where
  "coins_good c \<longleftrightarrow> Cleanup c = c \<and> nulls_default (cvout c) \<and> length (cvout c) < 2 ^ 32 \<and>
     0 < nHeight c \<and> nHeight c < 2 ^ 31 \<and> \<not> IsPruned c"

definition map_good :: "umap \<Rightarrow> bool" where
  "map_good U \<longleftrightarrow> (\<forall>t c. U t = Some c \<longrightarrow> coins_good c)"

definition no_stake :: "umap \<Rightarrow> bool" where
  "no_stake U \<longleftrightarrow> (\<forall>t c. U t = Some c \<longrightarrow> \<not> fCoinStake c)"

lemma strip_eq_iff: "strip a = strip b \<longleftrightarrow> a = b\<lparr>fCoinStake := fCoinStake a\<rparr>"
  by (cases a; cases b) (auto simp: strip_def)

lemma ustrip_upd: "ustrip (U(t := x)) = (ustrip U)(t := map_option strip x)"
  by (auto simp: ustrip_def)

lemma ustrip_same:
  assumes "ustrip U = ustrip V"
  shows "U t = None \<longleftrightarrow> V t = None" "V t = Some c \<Longrightarrow> \<exists>k. U t = Some k \<and> strip k = strip c"
proof -
  have e: "map_option strip (U t) = map_option strip (V t)" using assms by (simp add: ustrip_def fun_eq_iff)
  then show "U t = None \<longleftrightarrow> V t = None" by (cases "U t"; cases "V t") auto
  show "V t = Some c \<Longrightarrow> \<exists>k. U t = Some k \<and> strip k = strip c" using e by (cases "U t") auto
qed

lemma nulls_default_pop: "nulls_default outs \<Longrightarrow> nulls_default (pop_null outs)"
  using pop_null_decomp [of outs] by (metis list_all_append nulls_default_def)

lemma length_pop_null: "length (pop_null outs) \<le> length outs"
  using pop_null_decomp [of outs] by (metis le_add1 length_append)

lemma nulls_default_update: "nulls_default outs \<Longrightarrow> nulls_default (outs[n := CTxOut_default])"
  unfolding nulls_default_def list_all_length length_list_update
proof (intro allI impI)
  fix i
  assume "\<forall>n<length outs. TxOut_IsNull (outs ! n) \<longrightarrow> outs ! n = CTxOut_default" "i < length outs"
    "TxOut_IsNull (outs[n := CTxOut_default] ! i)"
  then show "outs[n := CTxOut_default] ! i = CTxOut_default" by (cases "i = n") auto
qed

lemma Spend_Some:
  "Spend c n = Some (c', undo) \<Longrightarrow> c' = c\<lparr>cvout := pop_null ((cvout c)[n := CTxOut_default])\<rparr>"
  by (auto simp: Spend_def Let_def Cleanup_def split: if_splits)

lemma Spend_good: "coins_good c \<Longrightarrow> Spend c n = Some (c', undo) \<Longrightarrow> keep c' = Some d \<Longrightarrow> coins_good d"
  using length_pop_null [of "(cvout c)[n := CTxOut_default]"]
  by (auto simp: coins_good_def keep_def Cleanup_def nulls_default_pop nulls_default_update dest!: Spend_Some split: if_splits)

lemma spend_map_good: "map_good U \<Longrightarrow> spend_map p U = Some (u, U') \<Longrightarrow> map_good U'"
  by (auto simp: map_good_def spend_map_def split: option.splits if_splits) (metis Spend_good)

lemma spend_map_None: "spend_map p U = Some (u, U') \<Longrightarrow> U t = None \<Longrightarrow> U' t = None"
  by (auto simp: spend_map_def split: option.splits)

lemma spends_map_None: "spends_map ins U = Some (us, U') \<Longrightarrow> U t = None \<Longrightarrow> U' t = None"
  by (induction ins arbitrary: us U) (auto split: option.splits dest: spend_map_None)

lemma spends_map_good: "spends_map ins U = Some (us, U') \<Longrightarrow> map_good U \<Longrightarrow> map_good U'"
  by (induction ins arbitrary: us U) (auto split: option.splits dest: spend_map_good)

lemma spend_map_stake: "spend_map p U = Some (u, U') \<Longrightarrow> no_stake U \<Longrightarrow> no_stake U'"
  by (auto simp: no_stake_def spend_map_def keep_def split: option.splits if_splits dest!: Spend_Some)

lemma spends_map_stake: "spends_map ins U = Some (us, U') \<Longrightarrow> no_stake U \<Longrightarrow> no_stake U'"
  by (induction ins arbitrary: us U) (auto split: option.splits dest: spend_map_stake)

lemma restore_input_strip:
  "restore_input u n (c\<lparr>fCoinStake := x\<rparr>) =
   map_option (\<lambda>(d, b). (d\<lparr>fCoinStake := (if u_nHeight u \<noteq> 0 then False else x)\<rparr>, b)) (restore_input u n c)"
  by (simp add: restore_input_def Let_def coins_Clear_def IsPruned_def IsAvailable_def split: prod.splits)

lemma restore_input_pruned:
  "u_nHeight u \<noteq> 0 \<Longrightarrow> IsPruned c \<Longrightarrow> IsPruned k \<Longrightarrow> restore_input u n c = restore_input u n k"
  by (simp add: restore_input_def Let_def coins_Clear_def IsAvailable_def)

lemma restore_input_clean: "restore_input u n c = Some (d, True) \<Longrightarrow> IsPruned c \<Longrightarrow> u_nHeight u \<noteq> 0"
  by (auto simp: restore_input_def Let_def split: if_splits)

lemma strip_facts: "IsPruned (strip c) = IsPruned c" "Cleanup (strip c) = strip (Cleanup c)"
  "keep (strip c) = map_option strip (keep c)"
  by (simp_all add: strip_def IsPruned_def Cleanup_def keep_def)

text \<open>Restoring the output of one input in a cache.\<close>

lemma restore_one:
  assumes "map_good U" "spend_map p U = Some (u, U')" "cache_ok v" "ustrip (utxo v) = ustrip U'"
  shows "\<exists>v'. with_coins (op_hash p) (restore_entry u (unat (op_n p))) v = Some (Some True, v') \<and> cache_ok v' \<and>
    best_block v' = best_block v \<and> ustrip (utxo v') = ustrip U \<and> (no_stake (utxo v) \<longrightarrow> no_stake (utxo v'))"
proof -
  let ?h = "op_hash p" and ?n = "unat (op_n p)"
  let ?k = "modified_coins v ?h"
  obtain c c' where c: "U ?h = Some c" "Spend c ?n = Some (c', u)" and U': "U' = U(?h := keep c')"
    using assms(2) by (auto simp: spend_map_def split: option.splits)
  have g: "coins_good c" using assms(1) c by (simp add: map_good_def)
  obtain d where d: "restore_input u ?n c' = Some (d, True)"
    and e: "Cleanup d = c\<lparr>fCoinStake := fCoinStake c \<and> \<not> IsPruned c'\<rparr>"
    using spend_restored [of c ?n c' u] g c by (auto simp: coins_good_def)
  have sd: "strip (Cleanup d) = strip c" by (simp add: e strip_def)
  have "\<exists>d2. restore_input u ?n ?k = Some (d2, True) \<and> strip (Cleanup d2) = strip c \<and>
      (no_stake (utxo v) \<longrightarrow> \<not> fCoinStake d2)"
  proof (cases "IsPruned c'")
    case True
    then have "utxo v ?h = None" using ustrip_same(1) [OF assms(4)] by (simp add: U')
    then have k: "IsPruned ?k" by (rule modified_coins_utxo)
    have "u_nHeight u \<noteq> 0" using restore_input_clean [OF d True] .
    moreover have "fCoinStake (Cleanup d) = fCoinStake d" by (simp add: Cleanup_def)
    then have "\<not> fCoinStake d" using e True by simp
    ultimately show ?thesis using restore_input_pruned [OF _ True k, of u ?n] d sd by (intro exI [of _ d]) simp
  next
    case False
    then have "U' ?h = Some c'" by (simp add: U' keep_def)
    then obtain k where k: "utxo v ?h = Some k" "strip k = strip c'" using ustrip_same(2) [OF assms(4)] by blast
    then have kk: "?k = c'\<lparr>fCoinStake := fCoinStake k\<rparr>" using modified_coins_utxo(1) [OF k(1)] by (simp add: strip_eq_iff)
    define d2 where "d2 = d\<lparr>fCoinStake := (if u_nHeight u \<noteq> 0 then False else fCoinStake k)\<rparr>"
    have "restore_input u ?n ?k = Some (d2, True)" by (simp add: kk restore_input_strip d d2_def)
    moreover have "strip (Cleanup d2) = strip (Cleanup d)" by (simp add: d2_def strip_def Cleanup_def)
    moreover have "no_stake (utxo v) \<longrightarrow> \<not> fCoinStake d2" using k(1) by (auto simp: no_stake_def d2_def)
    ultimately show ?thesis using sd by auto
  qed
  then obtain d2 where d2: "restore_input u ?n ?k = Some (d2, True)" "strip (Cleanup d2) = strip c"
    "no_stake (utxo v) \<longrightarrow> \<not> fCoinStake d2" by blast
  have np: "\<not> IsPruned d2"
    using d2(2) g strip_facts(1) [of "Cleanup d2"] strip_facts(1) [of c] by (simp add: coins_good_def)
  obtain w where w: "with_coins ?h (restore_entry u ?n) v = Some (Some True, w)" "cache_ok w" "best_block w = best_block v"
    "utxo w = (utxo v)(?h := keep (Cleanup d2))"
    using with_coins_cache [OF assms(3), of ?h "restore_entry u ?n"] d2(1) by (auto simp: restore_entry_def)
  have "ustrip (utxo w) = ustrip U"
    unfolding w(4) ustrip_upd assms(4) U' using d2(2) np c(1)
    by (auto simp: ustrip_def keep_def fun_eq_iff)
  moreover have "no_stake (utxo v) \<longrightarrow> no_stake (utxo w)"
    unfolding w(4) using d2(3) np by (auto simp: no_stake_def keep_def Cleanup_def)
  ultimately show ?thesis using w by blast
qed

lemma restore_inputs_append:
  "restore_inputs (xs @ ys) fc er v =
   (case restore_inputs xs fc er v of None \<Rightarrow> None | Some (fc', er', v') \<Rightarrow> restore_inputs ys fc' er' v')"
  by (induction xs fc er v rule: restore_inputs.induct) (auto split: option.splits prod.splits)

lemma spends_map_length: "spends_map ins U = Some (us, U') \<Longrightarrow> length us = length ins"
  by (induction ins arbitrary: us U) (auto split: option.splits)

lemma restore_all:
  assumes "map_good U" "spends_map ins U = Some (us, U')" "cache_ok v" "ustrip (utxo v) = ustrip U'"
  shows "\<exists>er' v'. restore_inputs (rev (zip ins us)) fc er v = Some (fc, er', v') \<and> cache_ok v' \<and>
    best_block v' = best_block v \<and> ustrip (utxo v') = ustrip U \<and> (no_stake (utxo v) \<longrightarrow> no_stake (utxo v'))"
  using assms(1,2)
proof (induction ins arbitrary: us U)
  case Nil
  then show ?case using assms(3,4) by auto
next
  case (Cons i ins)
  obtain u U1 us1 where s: "spend_map (prevout i) U = Some (u, U1)" "spends_map ins U1 = Some (us1, U')" "us = u # us1"
    using Cons.prems(2) by (auto split: option.splits)
  have g1: "map_good U1" using spend_map_good [OF Cons.prems(1) s(1)] .
  obtain er1 v1 where r: "restore_inputs (rev (zip ins us1)) fc er v = Some (fc, er1, v1)" "cache_ok v1"
    "best_block v1 = best_block v" "ustrip (utxo v1) = ustrip U1" "no_stake (utxo v) \<longrightarrow> no_stake (utxo v1)"
    using Cons.IH [OF g1 s(2)] by blast
  obtain v2 where o: "with_coins (op_hash (prevout i)) (restore_entry u (unat (op_n (prevout i)))) v1 = Some (Some True, v2)"
    "cache_ok v2" "best_block v2 = best_block v1" "ustrip (utxo v2) = ustrip U" "no_stake (utxo v1) \<longrightarrow> no_stake (utxo v2)"
    using restore_one [OF Cons.prems(1) s(1) r(2,4)] by blast
  have "restore_inputs (rev (zip (i # ins) us)) fc er v = Some (fc, insert (prevout i) er1, v2)"
    using r(1) o(1) by (simp add: s(3) restore_inputs_append)
  then show ?case using o(2-5) r(3,5) by auto
qed

subsection \<open>A block and back\<close>

fun update_maps :: "CTransaction list \<Rightarrow> int \<Rightarrow> umap \<Rightarrow> (CTxInUndo list list \<times> umap) option" where
  "update_maps [] height U = Some ([], U)"
| "update_maps (tx # txs) height U =
     (case update_map tx height U of
        None \<Rightarrow> None
      | Some (us, U') \<Rightarrow> map_option (\<lambda>(uss, U''). (us # uss, U'')) (update_maps txs height U'))"

text \<open>A transaction whose outputs can be stored: no negative values, and not too many.\<close>

definition outputs_ok :: "CTransaction \<Rightarrow> bool" where
  "outputs_ok tx \<longleftrightarrow> list_all (\<lambda>out. 0 \<le> nValue out) (vout tx) \<and> length (vout tx) < 2 ^ 32"

lemma FromTx_good:
  assumes "outputs_ok tx" "0 < h" "h < 2 ^ 31" "FromTx tx h c0 = Some c" "keep c = Some d"
  shows "coins_good d"
proof -
  let ?o = "map (\<lambda>out. if IsUnspendable (scriptPubKey out) then TxOut_SetNull out else out) (vout tx)"
  have c: "cvout c = pop_null ?o" "nHeight c = h" "d = c" "\<not> IsPruned c"
    using assms(4,5) by (auto simp: FromTx_def ClearUnspendable_def Cleanup_def keep_def split: option.splits if_splits)
  have "nulls_default ?o" using assms(1) by (auto simp: nulls_default_def list_all_iff outputs_ok_def TxOut_IsNull_def)
  then show ?thesis using c FromTx_clean [OF assms(4)] assms(1-3) length_pop_null [of ?o]
    by (simp add: coins_good_def nulls_default_pop outputs_ok_def)
qed

lemma IsUnspendable_Nil [simp]: "\<not> IsUnspendable []"
  by (simp add: IsUnspendable_def)

lemma set_pop_null: "set (pop_null outs) \<subseteq> set outs"
  using pop_null_decomp [of outs] by (metis set_append Un_upper1)

definition clear_out :: "CTxOut \<Rightarrow> CTxOut" where
  "clear_out out = (if IsUnspendable (scriptPubKey out) then TxOut_SetNull out else out)"

lemma cvout_ClearUnspendable: "cvout (ClearUnspendable c) = pop_null (map clear_out (cvout c))"
  by (simp add: ClearUnspendable_def clear_out_def [abs_def])

lemma clear_out_idem [simp]: "clear_out (clear_out out) = clear_out out"
  by (simp add: clear_out_def TxOut_SetNull_def)

lemma map_clear_out: "set xs \<subseteq> clear_out ` A \<Longrightarrow> map clear_out xs = xs"
  by (rule map_idI) auto

lemma ClearUnspendable_eq: "ClearUnspendable c = c\<lparr>cvout := pop_null (map clear_out (cvout c))\<rparr>"
  by (simp add: ClearUnspendable_def clear_out_def [abs_def] Cleanup_def)

lemma ClearUnspendable_idem: "ClearUnspendable (ClearUnspendable c) = ClearUnspendable c"
proof -
  have "set (pop_null (map clear_out (cvout c))) \<subseteq> clear_out ` set (cvout c)"
    using set_pop_null [of "map clear_out (cvout c)"] by simp
  from map_clear_out [OF this] show ?thesis by (simp add: ClearUnspendable_eq)
qed

lemma FromTx_ClearUnspendable: "FromTx tx h c0 = Some c \<Longrightarrow> ClearUnspendable c = c"
  by (auto simp: FromTx_def ClearUnspendable_idem split: option.splits)

lemma IsPruned_ClearUnspendable: "IsPruned c \<Longrightarrow> IsPruned (ClearUnspendable c)"
  using set_pop_null [of "map clear_out (cvout c)"]
  by (auto simp: ClearUnspendable_eq IsPruned_def list_all_iff clear_out_def split: if_splits)

lemma disconnect_txs_Cons:
  "disconnect_txs erase h (x # ys) fc er v =
   (case disconnect_txs erase h [x] fc er v of
      None \<Rightarrow> None
    | Some (Inl e) \<Rightarrow> Some (Inl e)
    | Some (Inr (fc', er', v')) \<Rightarrow> disconnect_txs erase h ys fc' er' v')"
proof -
  obtain tx o1 where x: "x = (tx, o1)" by (cases x)
  let ?w = "with_coins (tx_hash tx) (remove_outputs tx h) v"
  consider "ContainsZerocoins tx = None" | zc where "ContainsZerocoins tx = Some zc" "zc \<and> \<not> erase tx"
    | zc where "ContainsZerocoins tx = Some zc" "\<not> (zc \<and> \<not> erase tx)" by (cases "ContainsZerocoins tx") auto
  then show ?thesis
  proof cases
    case 3
    show ?thesis
    proof (cases ?w)
      case (Some w)
      obtain s v1 where w: "w = (s, v1)" by (cases w)
      show ?thesis
      proof (cases "case IsCoinBase tx of None \<Rightarrow> None | Some cb \<Rightarrow> if cb then Some True else IsZerocoinSpend_tx tx")
        case (Some b)
        then obtain cb where cb: "IsCoinBase tx = Some cb" "(if cb then Some True else IsZerocoinSpend_tx tx) = Some b"
          by (auto split: option.splits)
        show ?thesis
          by (cases s; cases b; cases o1)
            (simp_all only: x 3 if_False disconnect_txs.simps option.case sum.case prod.case bool.case \<open>?w = Some w\<close> w cb,
             simp_all split: option.split prod.split)
      qed (simp_all only: x 3 if_False disconnect_txs.simps option.case prod.case \<open>?w = Some w\<close> w, cases s, auto split: option.splits)
    qed (use 3 x in simp)
  qed (simp_all add: x)
qed

lemma disconnect_txs_append:
  "disconnect_txs erase h (xs @ ys) fc er v =
   (case disconnect_txs erase h xs fc er v of
      None \<Rightarrow> None
    | Some (Inl e) \<Rightarrow> Some (Inl e)
    | Some (Inr (fc', er', v')) \<Rightarrow> disconnect_txs erase h ys fc' er' v')"
proof (induction xs arbitrary: fc er v)
  case (Cons x xs)
  show ?case
    unfolding append_Cons disconnect_txs_Cons [of erase h x "xs @ ys"] disconnect_txs_Cons [of erase h x xs]
    by (auto simp: Cons.IH simp del: disconnect_txs.simps split: option.split sum.split)
qed simp

text \<open>The removal of a transaction's outputs: the map, and whether they are what the block added.\<close>

lemma remove_outputs_spec:
  assumes "cache_ok v" "FromTx tx h CCoins_default = Some c" "ustrip (utxo v) (tx_hash tx) = map_option strip (keep c)"
  shows "\<exists>same v'. with_coins (tx_hash tx) (remove_outputs tx h) v = Some (Some same, v') \<and> cache_ok v' \<and>
    best_block v' = best_block v \<and> utxo v' = (utxo v)(tx_hash tx := None) \<and>
    (no_stake (utxo v) \<and> \<not> fCoinStake c \<longrightarrow> same)"
proof -
  let ?k = "modified_coins v (tx_hash tx)"
  let ?r = "remove_outputs tx h ?k"
  define outs where "outs = (if cVersion c < 0 then (ClearUnspendable ?k)\<lparr>cVersion := cVersion c\<rparr> else ClearUnspendable ?k)"
  have r: "?r = (Some (coins_eq outs c), coins_Clear outs)"
    using assms(2) by (simp add: remove_outputs_def outs_def Let_def)
  have "IsPruned (Cleanup (coins_Clear outs))" by (simp add: coins_Clear_def IsPruned_def)
  then have "keep (Cleanup (snd ?r)) = None" by (simp only: r snd_conv keep_None_iff)
  moreover have "coins_eq outs c" if ns: "no_stake (utxo v)" "\<not> fCoinStake c"
  proof (cases "keep c")
    case None
    then have "utxo v (tx_hash tx) = None" using assms(3) by (simp add: ustrip_def)
    then have "IsPruned ?k" by (rule modified_coins_utxo)
    then have "IsPruned outs" using IsPruned_ClearUnspendable [of ?k] by (simp add: outs_def IsPruned_def)
    then show ?thesis using None by (simp add: coins_eq_def)
  next
    case (Some d)
    then have d: "d = c" by (simp add: keep_def split: if_splits)
    obtain k where k: "utxo v (tx_hash tx) = Some k" "strip k = strip c"
      using assms(3) Some d by (auto simp: ustrip_def)
    have "\<not> fCoinStake k" using ns k by (auto simp: no_stake_def)
    then have "k = c" using k(2) ns(2) by (simp add: strip_eq_iff)
    then have "ClearUnspendable ?k = c"
      using modified_coins_utxo(1) [OF k(1)] FromTx_ClearUnspendable [OF assms(2)] by simp
    then have "outs = c" by (simp add: outs_def)
    then show ?thesis by (simp add: coins_eq_def)
  qed
  ultimately show ?thesis
    using with_coins_cache [OF assms(1), of "tx_hash tx" "remove_outputs tx h"] r by auto
qed

lemma update_map_parts:
  assumes "update_map tx h U = Some (us, U')"
  obtains c U1 where "classified tx" "FromTx tx h CCoins_default = Some c" "U' = U1(tx_hash tx := keep c)"
    "if has_inputs tx then spends_map (vin tx) U = Some (us, U1) else us = [] \<and> U1 = U"
  using assms by (auto simp: update_map_def split: if_splits option.splits)

text \<open>One transaction.\<close>

lemma disconnect_one:
  assumes "map_good U" "update_map tx h U = Some (us, U')" "U (tx_hash tx) = None"
    and "cache_ok v" "ustrip (utxo v) = ustrip U'" "erase tx"
    and "has_inputs tx \<longrightarrow> o1 = Some us"
  shows "\<exists>fc' er' v'. disconnect_txs erase h [(tx, o1)] fc er v = Some (Inr (fc', er', v')) \<and> cache_ok v' \<and>
    best_block v' = best_block v \<and> ustrip (utxo v') = ustrip U \<and>
    (no_stake (utxo v) \<and> \<not> IsCoinStake tx \<longrightarrow> fc' = fc \<and> no_stake (utxo v'))"
proof -
  obtain c U1 where p: "classified tx" "FromTx tx h CCoins_default = Some c" "U' = U1(tx_hash tx := keep c)"
    "if has_inputs tx then spends_map (vin tx) U = Some (us, U1) else us = [] \<and> U1 = U"
    using update_map_parts [OF assms(2)] .
  have U1: "U1 (tx_hash tx) = None" using p(4) assms(3) spends_map_None by (auto split: if_splits)
  have st: "fCoinStake c = IsCoinStake tx"
    using p(2) by (auto simp: FromTx_def ClearUnspendable_eq split: option.splits)
  have "ustrip (utxo v) (tx_hash tx) = map_option strip (keep c)" using assms(5) p(3) by (simp add: ustrip_def)
  then obtain same v1 where r: "with_coins (tx_hash tx) (remove_outputs tx h) v = Some (Some same, v1)" "cache_ok v1"
    "best_block v1 = best_block v" "utxo v1 = (utxo v)(tx_hash tx := None)"
    "no_stake (utxo v) \<and> \<not> fCoinStake c \<longrightarrow> same"
    using remove_outputs_spec [OF assms(4) p(2)] by blast
  have u1: "ustrip (utxo v1) = ustrip U1"
    unfolding r(4) ustrip_upd assms(5) p(3) using U1 by (auto simp: ustrip_def)
  have ns1: "no_stake (utxo v1)" if "no_stake (utxo v)" using that unfolding r(4) by (auto simp: no_stake_def)
  obtain zc where zc: "ContainsZerocoins tx = Some zc"
    using p(1) by (auto simp: classified_def ContainsZerocoins_def IsCoinBase_def split: if_splits option.splits)
  show ?thesis
  proof (cases "has_inputs tx")
    case False
    have "disconnect_txs erase h [(tx, o1)] fc er v = Some (Inr (fc \<and> same, er, v1))"
      using zc assms(6) r(1) p(1) False
      by (auto simp: classified_def has_inputs_def split: option.splits)
    then show ?thesis using r u1 ns1 p(4) False st by auto
  next
    case True
    then have s: "spends_map (vin tx) U = Some (us, U1)" and o: "o1 = Some us" using p(4) assms(7) by simp_all
    obtain er' v' where t: "restore_inputs (rev (zip (vin tx) us)) (fc \<and> same) er v1 = Some (fc \<and> same, er', v')" "cache_ok v'"
      "best_block v' = best_block v1" "ustrip (utxo v') = ustrip U" "no_stake (utxo v1) \<longrightarrow> no_stake (utxo v')"
      using restore_all [OF assms(1) s r(2) u1] by blast
    have "disconnect_txs erase h [(tx, o1)] fc er v = Some (Inr (fc \<and> same, er', v'))"
      using zc assms(6) r(1) True o t(1) spends_map_length [OF s]
      by (simp add: has_inputs_def)
    then show ?thesis using t r ns1 st by auto
  qed
qed

lemma update_map_keeps:
  assumes "map_good U" "update_map tx h U = Some (us, U')" "outputs_ok tx" "0 < h" "h < 2 ^ 31"
  shows "map_good U' \<and> (\<forall>t. t \<noteq> tx_hash tx \<longrightarrow> U t = None \<longrightarrow> U' t = None)"
proof -
  obtain c U1 where p: "FromTx tx h CCoins_default = Some c" "U' = U1(tx_hash tx := keep c)"
    "if has_inputs tx then spends_map (vin tx) U = Some (us, U1) else us = [] \<and> U1 = U"
    using update_map_parts [OF assms(2)] by metis
  have "map_good U1" using p(3) assms(1) spends_map_good by (auto split: if_splits)
  moreover have "U1 t = None" if "U t = None" for t using p(3) that spends_map_None by (auto split: if_splits)
  ultimately show ?thesis using FromTx_good [OF assms(3-5) p(1)] by (auto simp: p(2) map_good_def split: if_splits)
qed

lemma disconnect_all:
  assumes "map_good U" "update_maps txs h U = Some (uss, U')" "distinct (map tx_hash txs)"
    and "\<forall>tx\<in>set txs. U (tx_hash tx) = None \<and> outputs_ok tx \<and> erase tx" "0 < h" "h < 2 ^ 31"
    and "cache_ok v" "ustrip (utxo v) = ustrip U'"
    and "list_all2 (\<lambda>(tx, us) o1. has_inputs tx \<longrightarrow> o1 = Some us) (zip txs uss) os"
  shows "\<exists>fc' er' v'. disconnect_txs erase h (rev (zip txs os)) fc er v = Some (Inr (fc', er', v')) \<and> cache_ok v' \<and>
    best_block v' = best_block v \<and> ustrip (utxo v') = ustrip U \<and>
    (no_stake (utxo v) \<and> list_all (\<lambda>tx. \<not> IsCoinStake tx) txs \<longrightarrow> fc' = fc \<and> no_stake (utxo v'))"
  using assms(1-4,9)
proof (induction txs arbitrary: U uss os)
  case Nil
  then show ?case using assms(7,8) by auto
next
  case (Cons tx txs)
  obtain us U1 uss1 where s: "update_map tx h U = Some (us, U1)" "update_maps txs h U1 = Some (uss1, U')" "uss = us # uss1"
    using Cons.prems(2) by (auto split: option.splits)
  obtain o1 os1 where os: "os = o1 # os1" "has_inputs tx \<longrightarrow> o1 = Some us"
    "list_all2 (\<lambda>(tx, us) o1. has_inputs tx \<longrightarrow> o1 = Some us) (zip txs uss1) os1"
    using Cons.prems(5) by (auto simp: s(3) list_all2_Cons1)
  have k: "map_good U1" "\<forall>t. t \<noteq> tx_hash tx \<longrightarrow> U t = None \<longrightarrow> U1 t = None"
    using update_map_keeps [OF Cons.prems(1) s(1)] Cons.prems(4) assms(5,6) by auto
  have "\<forall>tx\<in>set txs. U1 (tx_hash tx) = None \<and> outputs_ok tx \<and> erase tx"
    using Cons.prems(3,4) k(2) by (metis distinct.simps(2) image_eqI list.set_intros(2) list.simps(9) set_map)
  then obtain fc1 er1 v1 where r: "disconnect_txs erase h (rev (zip txs os1)) fc er v = Some (Inr (fc1, er1, v1))" "cache_ok v1"
    "best_block v1 = best_block v" "ustrip (utxo v1) = ustrip U1"
    "no_stake (utxo v) \<and> list_all (\<lambda>tx. \<not> IsCoinStake tx) txs \<longrightarrow> fc1 = fc \<and> no_stake (utxo v1)"
    using Cons.IH [OF k(1) s(2) _ _ os(3)] Cons.prems(3) by (metis distinct.simps(2) list.simps(9))
  have tx: "U (tx_hash tx) = None" "erase tx" using Cons.prems(4) by simp_all
  obtain fc2 er2 v2 where o: "disconnect_txs erase h [(tx, o1)] fc1 er1 v1 = Some (Inr (fc2, er2, v2))" "cache_ok v2"
    "best_block v2 = best_block v1" "ustrip (utxo v2) = ustrip U"
    "no_stake (utxo v1) \<and> \<not> IsCoinStake tx \<longrightarrow> fc2 = fc1 \<and> no_stake (utxo v2)"
    using disconnect_one [where erase = erase, OF Cons.prems(1) s(1) tx(1) r(2,4) tx(2) os(2), of fc1 er1] by (elim exE conjE) (rule that)
  have "disconnect_txs erase h (rev (zip (tx # txs) os)) fc er v = Some (Inr (fc2, er2, v2))"
    using r(1) o(1) by (simp only: os(1) zip_Cons_Cons rev.simps disconnect_txs_append option.case sum.case prod.case)
  then show ?case using o(2-5) r(3,5) by (intro exI [of _ fc2] exI [of _ er2] exI [of _ v2]) simp
qed

text \<open>The updates of a block's transactions, in order (the calls that \<open>ConnectBlock\<close> makes).\<close>

fun UpdateCoins_all :: "CTransaction list \<Rightarrow> int \<Rightarrow> view \<Rightarrow> (CTxInUndo list list \<times> view) option" where
  "UpdateCoins_all [] height v = Some ([], v)"
| "UpdateCoins_all (tx # txs) height v =
     (case UpdateCoins tx height v of
        None \<Rightarrow> None
      | Some (us, v') \<Rightarrow> map_option (\<lambda>(uss, v''). (us # uss, v'')) (UpdateCoins_all txs height v'))"

lemma UpdateCoins_all_refines:
  assumes "cache_ok v"
  shows "map_option (\<lambda>(uss, v'). (uss, utxo v')) (UpdateCoins_all txs h v) = update_maps txs h (utxo v) \<and>
    (\<forall>uss v'. UpdateCoins_all txs h v = Some (uss, v') \<longrightarrow> cache_ok v' \<and> best_block v' = best_block v)"
  using assms
proof (induction txs arbitrary: v)
  case (Cons tx txs)
  show ?case
  proof (cases "UpdateCoins tx h v")
    case None
    then show ?thesis using UpdateCoins_map [OF Cons.prems, of tx h] by (auto simp: eq_commute [of None])
  next
    case (Some r)
    then obtain us v1 where r: "UpdateCoins tx h v = Some (us, v1)" by (cases r) auto
    then have m: "update_map tx h (utxo v) = Some (us, utxo v1)" "cache_ok v1" "best_block v1 = best_block v"
      using UpdateCoins_map [OF Cons.prems, of tx h] by auto
    show ?thesis
    proof (cases "UpdateCoins_all txs h v1")
      case None
      then have "update_maps txs h (utxo v1) = None" using Cons.IH [OF m(2)] by simp
      then show ?thesis by (simp add: r m None)
    next
      case (Some q)
      then obtain uss v2 where q: "UpdateCoins_all txs h v1 = Some (uss, v2)" by (cases q) auto
      then have "update_maps txs h (utxo v1) = Some (uss, utxo v2)" "cache_ok v2" "best_block v2 = best_block v1"
        using Cons.IH [OF m(2)] by auto
      then show ?thesis by (simp add: r m q)
    qed
  qed
qed simp

lemma UpdateCoins_all_map:
  assumes "cache_ok v" "UpdateCoins_all txs h v = Some (uss, v')"
  shows "update_maps txs h (utxo v) = Some (uss, utxo v') \<and> cache_ok v' \<and> best_block v' = best_block v"
  using UpdateCoins_all_refines [OF assms(1), of txs h] assms(2) by auto

lemma update_maps_length: "update_maps txs h U = Some (uss, U') \<Longrightarrow> length uss = length txs"
  by (induction txs arbitrary: U uss) (auto split: option.splits)

lemma SetBestBlock_cache_ok:
  "cache_ok v \<Longrightarrow> cache_ok (SetBestBlock h v) \<and> utxo (SetBestBlock h v) = utxo v \<and> (h \<noteq> 0 \<longrightarrow> best_block (SetBestBlock h v) = h)"
  by (auto simp: cache_ok_def utxo_cache fun_eq_iff)

lemma GetBestBlock_cache_ok:
  assumes "cache_ok v" "GetBestBlock v = (h, v')"
  shows "h = best_block v \<and> cache_ok v' \<and> utxo v' = utxo v \<and> best_block v' = best_block v"
proof -
  have s: "h = best_block v" "same_view v v'" using GetBestBlock_spec [OF assms(2)] by auto
  obtain b hash m where v: "v = ViewCache b False hash m" "view_ok v" using assms(1) by (auto simp: cache_ok_def)
  have "\<exists>b hash m. v' = ViewCache b False hash m" using assms(2) by (auto simp: v(1) split: if_splits prod.splits)
  then show ?thesis using s v(2) same_view_utxo [OF s(2)] same_view_ok [OF s(2)] by (auto simp: cache_ok_def same_view_def)
qed

text \<open>
  C2: Connecting a block and disconnecting it gives back the unspent outputs. Let a block's
  transactions be applied to a coins cache (its first transaction has no ordinary inputs, the
  transaction ids are new and distinct, which BIP30 checks, and no output has a negative value) and
  the block be made the best block. Then \<open>DisconnectBlock\<close>, with the undo data that was collected,
  succeeds; the previous block is the best block again, and every transaction has the unspent
  outputs it had, up to the coinstake mark, which the undo data does not carry. Where no coins
  are marked as coinstake the data is also reported as clean.
\<close>

theorem connect_disconnect:
  assumes "cache_ok v" "map_good (utxo v)"
    and "UpdateCoins_all txs (bp_height pindex) v = Some (us0 # uss, v1)" "\<not> has_inputs (hd txs)"
    and "distinct (map tx_hash txs)" "\<forall>tx\<in>set txs. utxo v (tx_hash tx) = None \<and> outputs_ok tx \<and> erase tx"
    and "0 < bp_height pindex" "bp_height pindex < 2 ^ 31" "bp_hash pindex \<noteq> 0" "bp_hash pprev \<noteq> 0"
    and "verifying \<or> bp_checkpoint pindex = bp_checkpoint pprev \<or> erase_acc (bp_checkpoint pindex) (bp_checkpoint pprev)"
  shows "\<exists>fClean erased v2.
    DisconnectBlock erase erase_acc verifying pindex pprev True (Some uss) txs (SetBestBlock (bp_hash pindex) v1) =
      Some (Inr (fClean, erased, v2)) \<and>
    cache_ok v2 \<and> best_block v2 = bp_hash pprev \<and>
    (\<forall>t. map_option strip (utxo v2 t) = map_option strip (utxo v t)) \<and>
    (no_stake (utxo v1) \<and> list_all (\<lambda>tx. \<not> IsCoinStake tx) txs \<longrightarrow> fClean)"
proof -
  let ?h = "bp_height pindex" and ?w = "SetBestBlock (bp_hash pindex) v1"
  have u: "update_maps txs ?h (utxo v) = Some (us0 # uss, utxo v1)" "cache_ok v1"
    using UpdateCoins_all_map [OF assms(1,3)] by auto
  obtain tx0 txs1 where txs: "txs = tx0 # txs1" "length uss = length txs1"
    using update_maps_length [OF u(1)] by (cases txs) auto
  obtain best w where g: "GetBestBlock ?w = (best, w)" by fastforce
  have w: "best = bp_hash pindex" "cache_ok w" "utxo w = utxo v1"
    using GetBestBlock_cache_ok [OF _ g] SetBestBlock_cache_ok [OF u(2), of "bp_hash pindex"] assms(9) by auto
  have l: "list_all2 (\<lambda>(tx, us) o1. has_inputs tx \<longrightarrow> o1 = Some us) (zip txs (us0 # uss)) (None # map Some uss)"
    using assms(4) txs(2) by (auto simp: txs(1) list_all2_conv_all_nth nth_Cons split: nat.splits)
  obtain fc er v2 where d: "disconnect_txs erase ?h (rev (zip txs (None # map Some uss))) True {} w = Some (Inr (fc, er, v2))"
    "cache_ok v2" "ustrip (utxo v2) = ustrip (utxo v)"
    "no_stake (utxo w) \<and> list_all (\<lambda>tx. \<not> IsCoinStake tx) txs \<longrightarrow> fc = True"
    using disconnect_all [OF assms(2) u(1) assms(5-8) w(2) _ l, where fc = True and er = "{}"] w(3) that by auto
  have "DisconnectBlock erase erase_acc verifying pindex pprev True (Some uss) txs ?w =
      Some (Inr (fc, er, SetBestBlock (bp_hash pprev) v2))"
    using assms(11) txs d(1) by (auto simp: DisconnectBlock_def g w(1) Let_def simp del: disconnect_txs.simps)
  then show ?thesis using d(3,4) w(3) SetBestBlock_cache_ok [OF d(2), of "bp_hash pprev"] assms(10)
    by (auto simp: ustrip_def fun_eq_iff)
qed

text \<open>A coinbase, and a transaction that spends the only output of an earlier one.\<close>

definition block_cb :: CTransaction where
  "block_cb = \<lparr>tx_hash = 3, tx_nVersion = 1, vin = [mk_CTxIn (COutPoint 0 (- 1)) [1, 1] 0], vout = [mk_CTxOut 9 [OP_1]], nLockTime = 0\<rparr>"

definition block_spend :: CTransaction where
  "block_spend = \<lparr>tx_hash = 4, tx_nVersion = 1, vin = [mk_CTxIn (COutPoint 5 0) [OP_1] 0], vout = [mk_CTxOut 6 [OP_1]], nLockTime = 0\<rparr>"

definition spent_coins :: CCoins where
  "spent_coins = \<lparr>fCoinBase = True, fCoinStake = False, cvout = [mk_CTxOut 7 [OP_1]], nHeight = 2, cVersion = 1\<rparr>"

definition block_view :: view where
  "block_view = ViewCache (ViewDB (sample_db [5 \<mapsto> spent_coins] 9)) False 9 []"

definition spent_undo :: CTxInUndo where
  "spent_undo = (CTxInUndo_of (mk_CTxOut 7 [OP_1]))\<lparr>u_nHeight := 2, u_nVersion := 1, u_fCoinBase := True\<rparr>"

lemmas block_sample_defs = block_cb_def block_spend_def spent_coins_def mk_CTxIn_def mk_CTxOut_def

lemma block_sample_kinds:
  "IsCoinBase block_cb = Some True" "IsCoinBase block_spend = Some False" "IsZerocoinSpend_tx block_spend = Some False"
  "\<not> IsCoinStake block_cb" "\<not> IsCoinStake block_spend" "\<not> has_inputs block_cb"
  by (simp_all add: block_sample_defs IsCoinBase_def ContainsZerocoins_def IsZerocoinSpend_tx_def OutPoint_IsNull_def
    IsZerocoinMint_tx_def IsZerocoinMint_def has_inputs_def IsCoinStake_def)

lemma block_sample_ids:
  "tx_hash block_cb = 3" "tx_hash block_spend = 4" "outputs_ok block_cb" "outputs_ok block_spend"
  by (simp_all add: block_sample_defs outputs_ok_def)

lemma block_view_ok: "cache_ok block_view" "utxo block_view = [5 \<mapsto> spent_coins]"
proof -
  have "db_GetCoins (sample_db [5 \<mapsto> spent_coins] 9) t = map_option stored ([5 \<mapsto> spent_coins] t)" for t
    by (rule sample_db_GetCoins) (auto simp: coins_wf_def Cleanup_def IsPruned_def block_sample_defs TxOut_IsNull_def
      TxOut_storable_def split: if_splits)
  moreover have "stored spent_coins = spent_coins" by (rule stored_nonneg) (simp add: spent_coins_def)
  ultimately have "utxo block_view t = [5 \<mapsto> spent_coins] t" for t
    by (simp add: block_view_def utxo_def keep_def IsPruned_def block_sample_defs TxOut_IsNull_def)
  then show "utxo block_view = [5 \<mapsto> spent_coins]" by (simp add: fun_eq_iff)
qed (simp add: block_view_def cache_ok_def map_ok_def)

definition new_coins :: "bool \<Rightarrow> CAmount \<Rightarrow> CCoins" where
  "new_coins cb a = \<lparr>fCoinBase = cb, fCoinStake = False, cvout = [mk_CTxOut a [OP_1]], nHeight = 8, cVersion = 1\<rparr>"

lemma block_sample_coins:
  "FromTx block_cb 8 CCoins_default = Some (new_coins True 9)" "FromTx block_spend 8 CCoins_default = Some (new_coins False 6)"
  by (simp_all add: FromTx_def block_sample_kinds)
    (simp_all add: block_sample_defs new_coins_def ClearUnspendable_def IsUnspendable_def Cleanup_def TxOut_IsNull_def CCoins_default_def)

lemma block_sample_spend:
  "U 5 = Some spent_coins \<Longrightarrow> spends_map (vin block_spend) U = Some ([spent_undo], U(5 := None))"
  by (simp add: block_sample_defs spend_map_def Spend_def TxOut_IsNull_def Let_def Cleanup_def spent_undo_def CTxInUndo_of_def
    CTxInUndo_default_def keep_def IsPruned_def to_u_def CTxOut_default_def fun_eq_iff)

lemma block_sample_update:
  "\<exists>v1. UpdateCoins_all [block_cb, block_spend] 8 block_view = Some ([[], [spent_undo]], v1) \<and> no_stake (utxo v1)"
proof -
  have "update_maps [block_cb, block_spend] 8 [5 \<mapsto> spent_coins] =
      Some ([[], [spent_undo]], [3 \<mapsto> new_coins True 9, 4 \<mapsto> new_coins False 6])"
    by (simp add: update_map_def classified_def block_sample_kinds has_inputs_def block_sample_spend block_sample_coins block_sample_ids)
      (simp add: new_coins_def mk_CTxOut_def TxOut_IsNull_def IsPruned_def keep_def fun_eq_iff)
  then show ?thesis using UpdateCoins_all_refines [OF block_view_ok(1), of "[block_cb, block_spend]" 8] by (auto simp: block_view_ok no_stake_def new_coins_def)
qed

lemma connect_disconnect_witness:
  "\<exists>v1 erased v2. UpdateCoins_all [block_cb, block_spend] 8 block_view = Some ([[], [spent_undo]], v1) \<and>
    DisconnectBlock (\<lambda>_. True) (\<lambda>_ _. True) False \<lparr>bp_hash = 10, bp_height = 8, bp_checkpoint = 0\<rparr>
      \<lparr>bp_hash = 9, bp_height = 7, bp_checkpoint = 0\<rparr> True (Some [[spent_undo]]) [block_cb, block_spend] (SetBestBlock 10 v1) =
      Some (Inr (True, erased, v2)) \<and> best_block v2 = 9 \<and> map_option strip (utxo v2 5) = Some (strip spent_coins)"
proof -
  obtain v1 where v1: "UpdateCoins_all [block_cb, block_spend] 8 block_view = Some ([[], [spent_undo]], v1)" "no_stake (utxo v1)"
    using block_sample_update by blast
  have "map_good (utxo block_view)"
    by (auto simp: block_view_ok map_good_def coins_good_def spent_coins_def mk_CTxOut_def Cleanup_def TxOut_IsNull_def nulls_default_def
      IsPruned_def)
  from connect_disconnect [OF block_view_ok(1) this, of "[block_cb, block_spend]"
      "\<lparr>bp_hash = 10, bp_height = 8, bp_checkpoint = 0\<rparr>" "[]" "[[spent_undo]]" v1 "\<lambda>_. True"
      "\<lparr>bp_hash = 9, bp_height = 7, bp_checkpoint = 0\<rparr>" False "\<lambda>_ _. True"] v1
  obtain erased v2 where "DisconnectBlock (\<lambda>_. True) (\<lambda>_ _. True) False \<lparr>bp_hash = 10, bp_height = 8, bp_checkpoint = 0\<rparr>
      \<lparr>bp_hash = 9, bp_height = 7, bp_checkpoint = 0\<rparr> True (Some [[spent_undo]]) [block_cb, block_spend] (SetBestBlock 10 v1) =
      Some (Inr (True, erased, v2)) \<and> best_block v2 = 9" "\<forall>t. map_option strip (utxo v2 t) = map_option strip (utxo block_view t)"
    by (auto simp: block_sample_kinds block_sample_ids block_view_ok)
  moreover from this(2) have "map_option strip (utxo v2 5) = Some (strip spent_coins)"
    by (simp only: block_view_ok fun_upd_same option.map)
  ultimately show ?thesis using v1 by blast
qed

end
