(* ===== verification/Chain.thy ===== *)
theory Chain
  imports Block Params
begin

section \<open>The block index and the chain (chain.h, chain.cpp, main.cpp, pow.cpp)\<close>

text \<open>
  The entries of the block index with their skip pointers, the proof of work and the trust of a
  block, and the adding of blocks. The index is a store from addresses to entries, so that
  pointers are compared as the code compares them; \<open>None\<close> is the dereference of a null or dangling
  pointer. The lemmas show that the skip list finds the ancestor that walking back finds and
  that adding blocks keeps the index a tree.
\<close>

subsection \<open>Denominations (libzerocoin/Denominations)\<close>

type_synonym CoinDenomination = int

definition ZQ_ERROR :: CoinDenomination where "ZQ_ERROR = 0"

definition zerocoinDenomList :: "CoinDenomination list" where
  "zerocoinDenomList = [1, 5, 10, 50, 100, 500, 1000, 5000]"

definition IntToZerocoinDenomination :: "int \<Rightarrow> CoinDenomination" where
  "IntToZerocoinDenomination amount =
     (if amount = 1 then 1 else if amount = 5 then 5 else if amount = 10 then 10 else if amount = 50 then 50
      else if amount = 100 then 100 else if amount = 500 then 500 else if amount = 1000 then 1000
      else if amount = 5000 then 5000 else ZQ_ERROR)"

definition ZerocoinDenominationToInt :: "CoinDenomination \<Rightarrow> int" where
  "ZerocoinDenominationToInt d =
     (if d = 1 then 1 else if d = 5 then 5 else if d = 10 then 10 else if d = 50 then 50
      else if d = 100 then 100 else if d = 500 then 500 else if d = 1000 then 1000
      else if d = 5000 then 5000 else 0)"

definition ZerocoinDenominationToAmount :: "CoinDenomination \<Rightarrow> CAmount" where
  "ZerocoinDenominationToAmount d = COIN * ZerocoinDenominationToInt d"

definition AmountToZerocoinDenomination :: "CAmount \<Rightarrow> CoinDenomination" where
  "AmountToZerocoinDenomination amount =
     (if amount - COIN * (amount sdiv COIN) = 0 then IntToZerocoinDenomination (amount sdiv COIN) else ZQ_ERROR)"

text \<open>The loop over the denominations, with the one before; \<open>nRemaining\<close> is in coins.\<close>

fun closest_loop :: "CAmount \<Rightarrow> CoinDenomination \<Rightarrow> CoinDenomination list \<Rightarrow> CoinDenomination \<times> CAmount" where
  "closest_loop nConvert prev [] = (prev, nConvert - prev)"
| "closest_loop nConvert prev (d # ds) =
     (if nConvert = d then (d, 0)
      else if d > nConvert \<and> prev \<noteq> ZQ_ERROR then (prev, nConvert - prev)
      else closest_loop nConvert d ds)"

text \<open>\<open>nRemaining\<close> keeps its value when the amount is below one coin.\<close>

definition AmountToClosestDenomination :: "CAmount \<Rightarrow> CAmount \<Rightarrow> CoinDenomination \<times> CAmount" where
  "AmountToClosestDenomination nAmount nRemaining =
     (if nAmount < 1 * COIN then (ZQ_ERROR, nRemaining)
      else closest_loop (nAmount sdiv COIN) ZQ_ERROR zerocoinDenomList)"

subsection \<open>Entries\<close>

record CDiskBlockPos =
  dp_nFile :: int
  dp_nPos :: u32

definition DiskBlockPos_Null :: CDiskBlockPos where
  "DiskBlockPos_Null = \<lparr>dp_nFile = - 1, dp_nPos = 0\<rparr>"

definition DiskBlockPos_IsNull :: "CDiskBlockPos \<Rightarrow> bool" where
  "DiskBlockPos_IsNull p \<longleftrightarrow> dp_nFile p = - 1"

definition DiskBlockPos_Serialize :: "CDiskBlockPos \<Rightarrow> bytes" where
  "DiskBlockPos_Serialize p = WriteVarInt (dp_nFile p) @ WriteVarInt (uint (dp_nPos p))"

definition DiskBlockPos_Unserialize :: "CDiskBlockPos reader" where
  "DiskBlockPos_Unserialize bs =
     bindE (ReadVarInt (wrap_s 32) bs) (\<lambda>(f, r1).
     bindE (ReadVarInt (u_conv 32) r1) (\<lambda>(p, r2). Inr (\<lparr>dp_nFile = f, dp_nPos = word_of_int p\<rparr>, r2)))"

definition BLOCK_VALID_HEADER :: u32 where "BLOCK_VALID_HEADER = 1"
definition BLOCK_VALID_TREE :: u32 where "BLOCK_VALID_TREE = 2"
definition BLOCK_VALID_TRANSACTIONS :: u32 where "BLOCK_VALID_TRANSACTIONS = 3"
definition BLOCK_VALID_CHAIN :: u32 where "BLOCK_VALID_CHAIN = 4"
definition BLOCK_VALID_SCRIPTS :: u32 where "BLOCK_VALID_SCRIPTS = 5"
definition BLOCK_VALID_MASK :: u32 where
  "BLOCK_VALID_MASK = BLOCK_VALID_HEADER OR BLOCK_VALID_TREE OR BLOCK_VALID_TRANSACTIONS OR BLOCK_VALID_CHAIN OR BLOCK_VALID_SCRIPTS"
definition BLOCK_HAVE_DATA :: u32 where "BLOCK_HAVE_DATA = 8"
definition BLOCK_HAVE_UNDO :: u32 where "BLOCK_HAVE_UNDO = 16"
definition BLOCK_FAILED_VALID :: u32 where "BLOCK_FAILED_VALID = 32"
definition BLOCK_FAILED_CHILD :: u32 where "BLOCK_FAILED_CHILD = 64"
definition BLOCK_FAILED_MASK :: u32 where "BLOCK_FAILED_MASK = BLOCK_FAILED_VALID OR BLOCK_FAILED_CHILD"

definition BLOCK_PROOF_OF_STAKE :: u32 where "BLOCK_PROOF_OF_STAKE = push_bit 0 1"
definition BLOCK_STAKE_ENTROPY :: u32 where "BLOCK_STAKE_ENTROPY = push_bit 1 1"
definition BLOCK_STAKE_MODIFIER :: u32 where "BLOCK_STAKE_MODIFIER = push_bit 2 1"

record CBlockIndex =
  phashBlock :: "uint256 option"
  pprev :: "nat option"
  pnext :: "nat option"
  pskip :: "nat option"
  bnChainTrust :: uint256
  bi_nHeight :: int
  bi_nFile :: int
  nDataPos :: u32
  nUndoPos :: u32
  nChainWork :: uint256
  bi_nTx :: u32
  nChainTx :: u32
  nStatus :: u32
  bi_nFlags :: u32
  nStakeModifier :: u64
  nStakeModifierChecksum :: u32
  prevoutStake :: COutPoint
  nStakeTime :: u32
  hashProofOfStake :: uint256
  bi_nMint :: int
  nMoneySupply :: int
  bi_nVersion :: int
  bi_hashMerkleRoot :: uint256
  bi_nTime :: u32
  bi_nBits :: u32
  bi_nNonce :: u32
  bi_nAccumulatorCheckpoint :: uint256
  nSequenceId :: u32
  mapZerocoinSupply :: "(CoinDenomination \<times> int) list"
  vMintDenominationsInBlock :: "CoinDenomination list"

text \<open>
  \<open>SetNull\<close> leaves \<open>pnext\<close> alone, which no constructor initialises: it is the parameter \<open>junk\<close> here.
\<close>

definition CBlockIndex_SetNull :: "nat option \<Rightarrow> CBlockIndex" where
  "CBlockIndex_SetNull junk = \<lparr>phashBlock = None, pprev = None, pnext = junk, pskip = None, bnChainTrust = 0,
     bi_nHeight = 0, bi_nFile = 0, nDataPos = 0, nUndoPos = 0, nChainWork = 0, bi_nTx = 0, nChainTx = 0, nStatus = 0,
     bi_nFlags = 0, nStakeModifier = 0, nStakeModifierChecksum = 0, prevoutStake = OutPoint_Null, nStakeTime = 0,
     hashProofOfStake = 0, bi_nMint = 0, nMoneySupply = 0, bi_nVersion = 0, bi_hashMerkleRoot = 0, bi_nTime = 0,
     bi_nBits = 0, bi_nNonce = 0, bi_nAccumulatorCheckpoint = 0, nSequenceId = 0,
     mapZerocoinSupply = map (\<lambda>d. (d, 0)) zerocoinDenomList, vMintDenominationsInBlock = []\<rparr>"

definition SetProofOfStake :: "CBlockIndex \<Rightarrow> CBlockIndex" where
  "SetProofOfStake e = e\<lparr>bi_nFlags := bi_nFlags e OR BLOCK_PROOF_OF_STAKE\<rparr>"

definition CBlockIndex_of :: "nat option \<Rightarrow> CBlock \<Rightarrow> CBlockIndex" where
  "CBlockIndex_of junk block =
     (let e = (CBlockIndex_SetNull junk)\<lparr>bi_nVersion := bh_nVersion (header block),
            bi_hashMerkleRoot := bh_hashMerkleRoot (header block), bi_nTime := bh_nTime (header block),
            bi_nBits := bh_nBits (header block), bi_nNonce := bh_nNonce (header block),
            bi_nAccumulatorCheckpoint :=
              (if bh_nVersion (header block) > 3 then bh_nAccumulatorCheckpoint (header block) else 0)\<rparr>
      in if IsProofOfStake block
         then (SetProofOfStake e)\<lparr>prevoutStake := prevout (vin (vtx block ! 1) ! 0), nStakeTime := bh_nTime (header block)\<rparr>
         else e\<lparr>prevoutStake := OutPoint_Null, nStakeTime := 0\<rparr>)"

definition GetBlockPos :: "CBlockIndex \<Rightarrow> CDiskBlockPos" where
  "GetBlockPos e =
     (if nStatus e AND BLOCK_HAVE_DATA \<noteq> 0 then \<lparr>dp_nFile = bi_nFile e, dp_nPos = nDataPos e\<rparr> else DiskBlockPos_Null)"

definition GetUndoPos :: "CBlockIndex \<Rightarrow> CDiskBlockPos" where
  "GetUndoPos e =
     (if nStatus e AND BLOCK_HAVE_UNDO \<noteq> 0 then \<lparr>dp_nFile = bi_nFile e, dp_nPos = nUndoPos e\<rparr> else DiskBlockPos_Null)"

definition index_GetBlockTime :: "CBlockIndex \<Rightarrow> int" where
  "index_GetBlockTime e = uint (bi_nTime e)"

text \<open>\<open>at\<close> throws where a denomination is missing.\<close>

definition GetZerocoinSupply :: "CBlockIndex \<Rightarrow> int option" where
  "GetZerocoinSupply e =
     foldl (\<lambda>acc denom. case (acc, map_of (mapZerocoinSupply e) denom) of
         (Some nTotal, Some n) \<Rightarrow> Some (wrap_s 64 (nTotal + wrap_s 64 (ZerocoinDenominationToAmount denom * n)))
       | _ \<Rightarrow> None) (Some 0) zerocoinDenomList"

definition MintedDenomination :: "CBlockIndex \<Rightarrow> CoinDenomination \<Rightarrow> bool" where
  "MintedDenomination e denom \<longleftrightarrow> denom \<in> set (vMintDenominationsInBlock e)"

definition index_IsProofOfStake :: "CBlockIndex \<Rightarrow> bool" where
  "index_IsProofOfStake e \<longleftrightarrow> bi_nFlags e AND BLOCK_PROOF_OF_STAKE \<noteq> 0"

definition index_IsProofOfWork :: "CBlockIndex \<Rightarrow> bool" where
  "index_IsProofOfWork e \<longleftrightarrow> \<not> (bi_nFlags e AND BLOCK_PROOF_OF_STAKE \<noteq> 0)"

text \<open>The entropy bit reads the hash, \<open>None\<close> where there is none.\<close>

definition GetStakeEntropyBit :: "CBlockIndex \<Rightarrow> u32 option" where
  "GetStakeEntropyBit e = map_option (\<lambda>h. ucast (h AND 1)) (phashBlock e)"

definition SetStakeEntropyBit :: "u32 \<Rightarrow> CBlockIndex \<Rightarrow> bool \<times> CBlockIndex" where
  "SetStakeEntropyBit nEntropyBit e =
     (if nEntropyBit > 1 then (False, e)
      else (True, e\<lparr>bi_nFlags := bi_nFlags e OR (if nEntropyBit \<noteq> 0 then BLOCK_STAKE_ENTROPY else 0)\<rparr>))"

definition GeneratedStakeModifier :: "CBlockIndex \<Rightarrow> bool" where
  "GeneratedStakeModifier e \<longleftrightarrow> bi_nFlags e AND BLOCK_STAKE_MODIFIER \<noteq> 0"

definition SetStakeModifier :: "u64 \<Rightarrow> bool \<Rightarrow> CBlockIndex \<Rightarrow> CBlockIndex" where
  "SetStakeModifier nModifier fGeneratedStakeModifier e =
     (let e' = e\<lparr>nStakeModifier := nModifier\<rparr>
      in if fGeneratedStakeModifier then e'\<lparr>bi_nFlags := bi_nFlags e' OR BLOCK_STAKE_MODIFIER\<rparr> else e')"

text \<open>Both assert that the level holds validity flags only.\<close>

definition IsValid :: "u32 \<Rightarrow> CBlockIndex \<Rightarrow> bool option" where
  "IsValid nUpTo e =
     (if nUpTo AND NOT BLOCK_VALID_MASK \<noteq> 0 then None
      else Some (nStatus e AND BLOCK_FAILED_MASK = 0 \<and> nStatus e AND BLOCK_VALID_MASK \<ge> nUpTo))"

definition RaiseValidity :: "u32 \<Rightarrow> CBlockIndex \<Rightarrow> (bool \<times> CBlockIndex) option" where
  "RaiseValidity nUpTo e =
     (if nUpTo AND NOT BLOCK_VALID_MASK \<noteq> 0 then None
      else if nStatus e AND BLOCK_FAILED_MASK \<noteq> 0 then Some (False, e)
      else if nStatus e AND BLOCK_VALID_MASK < nUpTo
        then Some (True, e\<lparr>nStatus := (nStatus e AND NOT BLOCK_VALID_MASK) OR nUpTo\<rparr>)
      else Some (False, e))"

subsection \<open>The store of entries\<close>

type_synonym index_store = "nat \<Rightarrow> CBlockIndex option"

definition index_GetBlockHash :: "index_store \<Rightarrow> nat \<Rightarrow> uint256 option" where
  "index_GetBlockHash st p = Option.bind (st p) phashBlock"

definition index_GetBlockHeader :: "index_store \<Rightarrow> CBlockIndex \<Rightarrow> CBlockHeader option" where
  "index_GetBlockHeader st e =
     map_option (\<lambda>hashPrev. \<lparr>bh_nVersion = bi_nVersion e, bh_hashPrevBlock = hashPrev,
         bh_hashMerkleRoot = bi_hashMerkleRoot e, bh_nTime = bi_nTime e, bh_nBits = bi_nBits e, bh_nNonce = bi_nNonce e,
         bh_nAccumulatorCheckpoint = bi_nAccumulatorCheckpoint e\<rparr>)
       (case pprev e of None \<Rightarrow> Some 0 | Some q \<Rightarrow> index_GetBlockHash st q)"

text \<open>The times of the last \<open>n\<close> blocks, the last first.\<close>

fun last_times :: "index_store \<Rightarrow> nat \<Rightarrow> nat option \<Rightarrow> int list option" where
  "last_times st 0 pindex = Some []"
| "last_times st (Suc n) None = Some []"
| "last_times st (Suc n) (Some p) =
     (case st p of
        None \<Rightarrow> None
      | Some e \<Rightarrow> map_option (Cons (index_GetBlockTime e)) (last_times st n (pprev e)))"

definition nMedianTimeSpan :: nat where "nMedianTimeSpan = 11"

definition GetMedianTimePast :: "index_store \<Rightarrow> nat \<Rightarrow> int option" where
  "GetMedianTimePast st p =
     map_option (\<lambda>times. sort times ! (length times div 2)) (last_times st nMedianTimeSpan (Some p))"

text \<open>The blocks of at least the version among the last \<open>n\<close>, until there are enough.\<close>

fun super_loop :: "index_store \<Rightarrow> int \<Rightarrow> nat \<Rightarrow> nat \<Rightarrow> nat \<Rightarrow> nat option \<Rightarrow> nat option" where
  "super_loop st minVersion nRequired 0 nFound pstart = Some nFound"
| "super_loop st minVersion nRequired (Suc n) nFound pstart =
     (if nFound < nRequired then
        (case pstart of
           None \<Rightarrow> Some nFound
         | Some p \<Rightarrow>
             (case st p of
                None \<Rightarrow> None
              | Some e \<Rightarrow>
                  super_loop st minVersion nRequired n (if bi_nVersion e \<ge> minVersion then nFound + 1 else nFound) (pprev e)))
      else Some nFound)"

definition IsSuperMajority :: "CChainParams \<Rightarrow> index_store \<Rightarrow> int \<Rightarrow> nat option \<Rightarrow> nat \<Rightarrow> bool option" where
  "IsSuperMajority P st minVersion pstart nRequired =
     map_option (\<lambda>nFound. nFound \<ge> nRequired)
       (super_loop st minVersion nRequired (to_u 32 (nToCheckBlockUpgradeMajority P)) 0 pstart)"

subsection \<open>The skip list\<close>

definition InvertLowestOne :: "int \<Rightarrow> int" where
  "InvertLowestOne n = n AND (n - 1)"

definition GetSkipHeight :: "int \<Rightarrow> int" where
  "GetSkipHeight height =
     (if height < 2 then 0
      else if height AND 1 \<noteq> 0 then InvertLowestOne (InvertLowestOne (height - 1)) + 1
      else InvertLowestOne height)"

lemma InvertLowestOne_bounds:
  "1 \<le> n \<Longrightarrow> 0 \<le> InvertLowestOne n \<and> InvertLowestOne n < n" "InvertLowestOne 0 = 0"
  by (auto simp: InvertLowestOne_def)

lemma GetSkipHeight_bounds: "1 \<le> h \<Longrightarrow> 0 \<le> GetSkipHeight h \<and> GetSkipHeight h < h"
proof (cases "h < 2")
  case False
  let ?i = "InvertLowestOne (h - 1)"
  have i: "0 \<le> ?i" "?i < h - 1" using False InvertLowestOne_bounds(1) [of "h - 1"] by auto
  have "0 \<le> InvertLowestOne ?i" "InvertLowestOne ?i \<le> ?i"
    using i InvertLowestOne_bounds(1) [of ?i] InvertLowestOne_bounds(2) by (cases "?i = 0"; simp)+
  then show ?thesis using i False InvertLowestOne_bounds(1) [of h] by (auto simp: GetSkipHeight_def)
qed (simp add: GetSkipHeight_def)

text \<open>\<open>None\<close> is a null or dangling pointer that is dereferenced, \<open>Some None\<close> a null result.\<close>

function ancestor_loop :: "index_store \<Rightarrow> nat \<Rightarrow> nat option \<Rightarrow> int \<Rightarrow> nat option option" where
  "ancestor_loop st height pindexWalk heightWalk =
     (if heightWalk > int height then
        (case pindexWalk of
           None \<Rightarrow> None
         | Some p \<Rightarrow>
        (case st p of
           None \<Rightarrow> None
         | Some e \<Rightarrow>
             let heightSkip = GetSkipHeight heightWalk;
                 heightSkipPrev = GetSkipHeight (heightWalk - 1)
             in if heightSkip = int height \<or>
                   (heightSkip > int height \<and> \<not> (heightSkipPrev < heightSkip - 2 \<and> heightSkipPrev \<ge> int height))
                then ancestor_loop st height (pskip e) heightSkip
                else ancestor_loop st height (pprev e) (heightWalk - 1)))
      else Some pindexWalk)"
  by pat_completeness auto
termination
proof (relation "measure (\<lambda>(st, height, pindexWalk, heightWalk). nat heightWalk)", goal_cases)
  case (2 st height pindexWalk heightWalk p e)
  then show ?case using GetSkipHeight_bounds [of heightWalk] by auto
qed auto

declare ancestor_loop.simps [simp del]

definition GetAncestor :: "index_store \<Rightarrow> nat \<Rightarrow> int \<Rightarrow> nat option option" where
  "GetAncestor st p height =
     (case st p of
        None \<Rightarrow> None
      | Some e \<Rightarrow>
          if height > bi_nHeight e \<or> height < 0 then Some None
          else ancestor_loop st (nat height) (Some p) (bi_nHeight e))"

definition BuildSkip :: "index_store \<Rightarrow> CBlockIndex \<Rightarrow> CBlockIndex option" where
  "BuildSkip st e =
     (case pprev e of
        None \<Rightarrow> Some e
      | Some q \<Rightarrow> map_option (\<lambda>s. e\<lparr>pskip := s\<rparr>) (GetAncestor st q (GetSkipHeight (bi_nHeight e))))"

subsection \<open>Work and trust\<close>

definition GetBlockProof :: "CBlockIndex \<Rightarrow> uint256" where
  "GetBlockProof e =
     (let (n, fNegative, fOverflow) = SetCompact (bi_nBits e); bnTarget = w256 n
      in if fNegative \<or> fOverflow \<or> bnTarget = 0 then 0 else NOT bnTarget div (bnTarget + 1) + 1)"

text \<open>A shift of 256 clears the word.\<close>

definition GetBlockTrust :: "CBlockIndex \<Rightarrow> uint256" where
  "GetBlockTrust e =
     (let bnTarget = w256 (fst (SetCompact (bi_nBits e)))
      in if bnTarget \<le> 0 then 0
         else if index_IsProofOfStake e then push_bit 256 1 div (bnTarget + 1)
         else (let bnPoWTrust = drop_bit 20 (NOT 0) div (bnTarget + 1)
               in if bnPoWTrust > 1 then bnPoWTrust else 1))"

subsection \<open>The index is a tree, and the skip list finds ancestors\<close>

fun walk_back :: "index_store \<Rightarrow> nat \<Rightarrow> nat \<Rightarrow> nat option" where
  "walk_back st 0 p = Some p"
| "walk_back st (Suc k) p = Option.bind (Option.bind (st p) pprev) (walk_back st k)"

definition entry_tree :: "index_store \<Rightarrow> nat \<Rightarrow> CBlockIndex \<Rightarrow> bool" where
  "entry_tree st p e \<longleftrightarrow> 0 \<le> bi_nHeight e \<and>
     (case pprev e of
        None \<Rightarrow> bi_nHeight e = 0
      | Some q \<Rightarrow> (\<exists>f. st q = Some f \<and> bi_nHeight e = bi_nHeight f + 1) \<and>
          pskip e = walk_back st (nat (bi_nHeight e - GetSkipHeight (bi_nHeight e))) p)"

definition index_tree :: "index_store \<Rightarrow> bool" where
  "index_tree st \<longleftrightarrow> (\<forall>p e. st p = Some e \<longrightarrow> entry_tree st p e)"

lemma walk_back_add: "walk_back st (a + b) p = Option.bind (walk_back st a p) (walk_back st b)"
  by (induction a arbitrary: p) (auto split: bind_split)

lemma walk_back_exists:
  assumes "index_tree st" "st p = Some e" "int k \<le> bi_nHeight e"
  shows "\<exists>q f. walk_back st k p = Some q \<and> st q = Some f \<and> bi_nHeight f = bi_nHeight e - int k"
  using assms(2,3)
proof (induction k arbitrary: p e)
  case (Suc k)
  have t: "entry_tree st p e" using assms(1) Suc.prems by (simp add: index_tree_def)
  then obtain q f where q: "pprev e = Some q" "st q = Some f" "bi_nHeight e = bi_nHeight f + 1"
    using Suc.prems(2) by (auto simp: entry_tree_def split: option.splits)
  then have "int k \<le> bi_nHeight f" using Suc.prems by simp
  from Suc.IH [OF q(2) this] show ?case using q Suc.prems by auto
qed simp

lemma ancestor_loop_back:
  assumes "index_tree st" "st p = Some e" "int height \<le> bi_nHeight e"
  shows "ancestor_loop st height (Some p) (bi_nHeight e) = Some (walk_back st (nat (bi_nHeight e) - height) p)"
  using assms(2,3)
proof (induction "nat (bi_nHeight e)" arbitrary: p e rule: less_induct)
  case less
  let ?h = "bi_nHeight e"
  show ?case
  proof (cases "?h > int height")
    case False
    then show ?thesis using less.prems by (subst ancestor_loop.simps) simp
  next
    case True
    have t: "entry_tree st p e" using assms(1) less.prems by (simp add: index_tree_def)
    then obtain q f where q: "pprev e = Some q" "st q = Some f" "?h = bi_nHeight f + 1"
      and sk: "pskip e = walk_back st (nat (?h - GetSkipHeight ?h)) p"
      using True by (auto simp: entry_tree_def split: option.splits)
    let ?s = "GetSkipHeight ?h" and ?t = "GetSkipHeight (?h - 1)"
    have sb: "0 \<le> ?s" "?s < ?h" using GetSkipHeight_bounds [of ?h] True by auto
    define C where "C \<longleftrightarrow> ?s = int height \<or> (?s > int height \<and> \<not> (?t < ?s - 2 \<and> ?t \<ge> int height))"
    have step: "ancestor_loop st height (Some p) ?h =
        (if C then ancestor_loop st height (pskip e) ?s else ancestor_loop st height (pprev e) (?h - 1))"
      using True less.prems(1) by (subst ancestor_loop.simps) (simp add: Let_def C_def)
    show ?thesis
    proof (cases C)
      case skip: True
      obtain r g where r: "walk_back st (nat (?h - ?s)) p = Some r" "st r = Some g" "bi_nHeight g = ?s"
        using walk_back_exists [OF assms(1) less.prems(1), of "nat (?h - ?s)"] sb by auto
      have "ancestor_loop st height (Some p) ?h = ancestor_loop st height (Some r) (bi_nHeight g)"
        using skip sk r by (simp add: step)
      also have "\<dots> = Some (walk_back st (nat (bi_nHeight g) - height) r)"
        using less.hyps [OF _ r(2)] r(3) sb skip by (auto simp: C_def)
      also have "walk_back st (nat (bi_nHeight g) - height) r = walk_back st (nat (?h - ?s) + (nat ?s - height)) p"
        using r by (simp only: walk_back_add bind.bind_lunit)
      also have "nat (?h - ?s) + (nat ?s - height) = nat ?h - height" using sb skip by (auto simp: C_def)
      finally show ?thesis .
    next
      case False
      have "ancestor_loop st height (Some p) ?h = ancestor_loop st height (Some q) (bi_nHeight f)"
        unfolding step using False q by simp
      also have "\<dots> = Some (walk_back st (nat (bi_nHeight f) - height) q)"
        using less.hyps [OF _ q(2)] q(3) True by auto
      also have "walk_back st (nat (bi_nHeight f) - height) q = walk_back st (Suc (nat (bi_nHeight f) - height)) p"
        using q less.prems(1) by simp
      also have "Suc (nat (bi_nHeight f) - height) = nat ?h - height" using q(3) True by auto
      finally show ?thesis .
    qed
  qed
qed

lemma GetAncestor_back:
  assumes "index_tree st" "st p = Some e"
  shows "GetAncestor st p height =
    Some (if 0 \<le> height \<and> height \<le> bi_nHeight e then walk_back st (nat (bi_nHeight e - height)) p else None)"
  using ancestor_loop_back [OF assms, of "nat height"] assms(2) by (auto simp: GetAncestor_def nat_diff_distrib)

subsection \<open>Adding a block to the index\<close>

record index_state =
  entries :: index_store
  next_ptr :: nat
  mapBlockIndex :: "uint256 \<Rightarrow> nat option"
  setStakeSeen :: "(COutPoint \<times> u32) set"
  mapProofOfStake :: "uint256 \<Rightarrow> uint256 option"
  pindexBestHeader :: "nat option"
  setDirtyBlockIndex :: "nat set"

definition index_empty :: index_state where
  "index_empty = \<lparr>entries = (\<lambda>_. None), next_ptr = 0, mapBlockIndex = (\<lambda>_. None), setStakeSeen = {},
     mapProofOfStake = (\<lambda>_. None), pindexBestHeader = None, setDirtyBlockIndex = {}\<rparr>"

definition set_next :: "nat \<Rightarrow> nat \<Rightarrow> index_store \<Rightarrow> index_store" where
  "set_next q p st = st(q := map_option (\<lambda>f. f\<lparr>pnext := Some p\<rparr>) (st q))"

text \<open>
  The next stake modifier (kernel.cpp) and the checksum of an entry are the parameters
  \<open>modifier\<close> and \<open>checksum\<close>.
\<close>

definition stake_fields ::
    "(index_store \<Rightarrow> nat \<Rightarrow> u64 \<times> bool) \<Rightarrow> (index_store \<Rightarrow> nat \<Rightarrow> u32) \<Rightarrow> uint256 \<Rightarrow> nat \<Rightarrow> nat \<Rightarrow> index_store \<Rightarrow>
     (uint256 \<Rightarrow> uint256 option) \<Rightarrow> CBlockIndex \<times> (uint256 \<Rightarrow> uint256 option)" where
  "stake_fields modifier checksum hash p q st posmap =
     (let e = the (st p);
          e1 = e\<lparr>bnChainTrust := bnChainTrust (the (st q)) + GetBlockTrust e\<rparr>;
          e2 = snd (SetStakeEntropyBit (the (GetStakeEntropyBit e1)) e1);
          posHash = (case posmap hash of None \<Rightarrow> 0 | Some h \<Rightarrow> h);
          e3 = (if index_IsProofOfStake e2 then e2\<lparr>hashProofOfStake := posHash\<rparr> else e2);
          (m, gen) = modifier (st(p \<mapsto> e3)) q;
          e4 = SetStakeModifier m gen e3
      in (e4\<lparr>nStakeModifierChecksum := checksum (st(p \<mapsto> e4)) p\<rparr>,
          if index_IsProofOfStake e2 then posmap(hash \<mapsto> posHash) else posmap))"

text \<open>
  The height is an \<open>int\<close>; the increment that overflows it is undefined behaviour, and \<open>None\<close> here.
\<close>

definition link_prev ::
    "(index_store \<Rightarrow> nat \<Rightarrow> u64 \<times> bool) \<Rightarrow> (index_store \<Rightarrow> nat \<Rightarrow> u32) \<Rightarrow> uint256 \<Rightarrow> nat \<Rightarrow> nat \<Rightarrow> index_state \<Rightarrow> index_state option" where
  "link_prev modifier checksum hash p q s =
     (case (entries s p, entries s q) of
        (Some e, Some f) \<Rightarrow>
          if bi_nHeight f + 1 \<ge> 2 ^ 31 then None else
          let e1 = e\<lparr>pprev := Some q, bi_nHeight := bi_nHeight f + 1\<rparr>
          in (case BuildSkip ((entries s)(p \<mapsto> e1)) e1 of
             None \<Rightarrow> None
           | Some e2 \<Rightarrow>
               let st = set_next q p ((entries s)(p \<mapsto> e2));
                   (e3, posmap) = stake_fields modifier checksum hash p q st (mapProofOfStake s)
               in Some (s\<lparr>entries := st(p \<mapsto> e3), mapProofOfStake := posmap\<rparr>))
      | _ \<Rightarrow> None)"

definition finish_index :: "nat \<Rightarrow> index_state \<Rightarrow> index_state option" where
  "finish_index p s =
     (case entries s p of
        None \<Rightarrow> None
      | Some e \<Rightarrow>
     (case (case pprev e of None \<Rightarrow> Some 0 | Some q \<Rightarrow> map_option nChainWork (entries s q)) of
        None \<Rightarrow> None
      | Some w \<Rightarrow>
     (case RaiseValidity BLOCK_VALID_TREE (e\<lparr>nChainWork := w + GetBlockProof e\<rparr>) of
        None \<Rightarrow> None
      | Some (_, e') \<Rightarrow>
          let st = (entries s)(p \<mapsto> e');
              better = (case pindexBestHeader s of None \<Rightarrow> Some True | Some b \<Rightarrow> map_option (\<lambda>f. nChainWork f < nChainWork e') (st b))
          in (case better of
             None \<Rightarrow> None
           | Some bt \<Rightarrow>
               if bi_nHeight e' \<noteq> 0 \<and> pprev e' = None then None
               else Some (s\<lparr>entries := (if bi_nHeight e' \<noteq> 0 then set_next (the (pprev e')) p st else st),
                 pindexBestHeader := (if bt then Some p else pindexBestHeader s),
                 setDirtyBlockIndex := insert p (setDirtyBlockIndex s)\<rparr>)))))"

definition AddToBlockIndex ::
    "(bytes \<Rightarrow> uint256) \<Rightarrow> (bytes \<Rightarrow> uint256) \<Rightarrow> (index_store \<Rightarrow> nat \<Rightarrow> u64 \<times> bool) \<Rightarrow> (index_store \<Rightarrow> nat \<Rightarrow> u32) \<Rightarrow>
     nat option \<Rightarrow> CBlock \<Rightarrow> index_state \<Rightarrow> (nat \<times> index_state) option" where
  "AddToBlockIndex XEVAN Hash modifier checksum junk block s =
     (let hash = block_GetHash XEVAN Hash block
      in case mapBlockIndex s hash of
        Some p \<Rightarrow> Some (p, s)
      | None \<Rightarrow>
          let p = next_ptr s;
              e = (CBlockIndex_of junk block)\<lparr>nSequenceId := 0, phashBlock := Some hash\<rparr>;
              s1 = s\<lparr>entries := (entries s)(p \<mapsto> e), next_ptr := p + 1, mapBlockIndex := (mapBlockIndex s)(hash \<mapsto> p),
                     setStakeSeen := (if index_IsProofOfStake e then insert (prevoutStake e, nStakeTime e) (setStakeSeen s)
                                      else setStakeSeen s)\<rparr>
          in (case (case mapBlockIndex s1 (bh_hashPrevBlock (header block)) of
                None \<Rightarrow> Some s1
              | Some q \<Rightarrow> link_prev modifier checksum hash p q s1) of
             None \<Rightarrow> None
           | Some s2 \<Rightarrow> map_option (\<lambda>s3. (p, s3)) (finish_index p s2)))"

text \<open>
  The invariant: entries are allocated below the next address, form a tree and are found under
  their hash; the work of an entry is its parent's plus its own proof; no entry has more work than
  the best header.
\<close>

definition work_ok :: "index_store \<Rightarrow> CBlockIndex \<Rightarrow> bool" where
  "work_ok st e \<longleftrightarrow>
     nChainWork e = (case pprev e of None \<Rightarrow> 0 | Some q \<Rightarrow> nChainWork (the (st q))) + GetBlockProof e"

definition best_ok :: "index_store \<Rightarrow> nat option \<Rightarrow> bool" where
  "best_ok st best \<longleftrightarrow>
     (case best of
        None \<Rightarrow> \<forall>p. st p = None
      | Some b \<Rightarrow> \<exists>f. st b = Some f \<and> (\<forall>p e. st p = Some e \<longrightarrow> nChainWork e \<le> nChainWork f))"

definition all_hashed :: "index_store \<Rightarrow> bool" where
  "all_hashed st \<longleftrightarrow> (\<forall>p e. st p = Some e \<longrightarrow> phashBlock e \<noteq> None)"

definition all_int :: "index_store \<Rightarrow> bool" where
  "all_int st \<longleftrightarrow> (\<forall>p e. st p = Some e \<longrightarrow> bi_nHeight e < 2 ^ 31)"

definition index_ok :: "index_state \<Rightarrow> bool" where
  "index_ok s \<longleftrightarrow> index_tree (entries s) \<and> (\<forall>p. next_ptr s \<le> p \<longrightarrow> entries s p = None) \<and>
     (\<forall>h p. mapBlockIndex s h = Some p \<longrightarrow> (\<exists>e. entries s p = Some e \<and> phashBlock e = Some h)) \<and>
     (\<forall>p e. entries s p = Some e \<longrightarrow> work_ok (entries s) e) \<and> best_ok (entries s) (pindexBestHeader s) \<and>
     all_hashed (entries s) \<and> all_int (entries s)"

text \<open>The fields that the invariant is about.\<close>

definition core :: "CBlockIndex \<Rightarrow> nat option \<times> int \<times> nat option \<times> uint256 \<times> u32 \<times> u32 \<times> uint256 option" where
  "core e = (pprev e, bi_nHeight e, pskip e, nChainWork e, bi_nBits e, bi_nTime e, phashBlock e)"

definition cores :: "index_store \<Rightarrow> nat \<Rightarrow> (nat option \<times> int \<times> nat option \<times> uint256 \<times> u32 \<times> u32 \<times> uint256 option) option" where
  "cores st p = map_option core (st p)"

lemma cores_None: "cores st p = None \<longleftrightarrow> st p = None"
  by (simp add: cores_def)

lemma cores_SomeD:
  assumes "cores st = cores st'" "st p = Some e"
  shows "\<exists>e'. st' p = Some e' \<and> core e' = core e"
proof -
  have "map_option core (st' p) = Some (core e)" using fun_cong [OF assms(1), of p] assms(2) by (simp add: cores_def)
  then show ?thesis by auto
qed

lemma cores_set_next [simp]: "cores (set_next q p st) = cores st"
  by (cases "st q") (auto simp: cores_def set_next_def core_def fun_eq_iff)

lemma cores_upd: "cores (st(p \<mapsto> e)) = (cores st)(p \<mapsto> core e)"
  by (simp add: cores_def fun_eq_iff)

lemma walk_back_cores: "cores st = cores st' \<Longrightarrow> walk_back st k p = walk_back st' k p"
proof (induction k arbitrary: p)
  case (Suc k)
  have "map_option core (st p) = map_option core (st' p)" using Suc.prems by (simp add: cores_def fun_eq_iff)
  then have "Option.bind (st p) pprev = Option.bind (st' p) pprev"
    by (cases "st p"; cases "st' p") (simp_all add: core_def)
  then show ?case using Suc by (auto split: bind_split)
qed simp

lemma index_tree_cores: "cores st = cores st' \<Longrightarrow> index_tree st \<Longrightarrow> index_tree st'"
  unfolding index_tree_def
proof (intro allI impI)
  fix p e' assume c: "cores st = cores st'" and t: "\<forall>p e. st p = Some e \<longrightarrow> entry_tree st p e" and e': "st' p = Some e'"
  obtain e where e: "st p = Some e" "core e = core e'" using cores_SomeD [OF c [symmetric] e'] by auto
  have "entry_tree st p e" using t e by simp
  moreover have "st q = Some f \<Longrightarrow> \<exists>f'. st' q = Some f' \<and> bi_nHeight f' = bi_nHeight f" for q f
    using cores_SomeD [OF c] by (fastforce simp: core_def)
  ultimately show "entry_tree st' p e'" using e(2) walk_back_cores [OF c]
    by (auto simp: entry_tree_def core_def split: option.splits) (metis add_right_cancel)+
qed

lemma walk_back_mono: "walk_back st k p = Some q \<Longrightarrow> st \<subseteq>\<^sub>m st' \<Longrightarrow> walk_back st' k p = Some q"
proof (induction k arbitrary: p)
  case (Suc k)
  then obtain e r where "st p = Some e" "pprev e = Some r" "walk_back st k r = Some q" by (auto split: bind_splits)
  moreover from this have "st' p = Some e" using Suc.prems(2) by (auto simp: map_le_def dom_def)
  ultimately show ?case using Suc by simp
qed simp

lemma ancestor_loop_mono:
  "ancestor_loop st height p h = Some r \<Longrightarrow> st \<subseteq>\<^sub>m st' \<Longrightarrow> ancestor_loop st' height p h = Some r"
proof (induction st height p h rule: ancestor_loop.induct)
  case (1 st height pindexWalk heightWalk)
  show ?case
  proof (cases "heightWalk > int height")
    case False
    then show ?thesis using 1(3) by (subst (asm) ancestor_loop.simps, subst ancestor_loop.simps) simp
  next
    case True
    obtain p e where p: "pindexWalk = Some p" "st p = Some e"
      using 1(3) True by (subst (asm) ancestor_loop.simps) (auto split: option.splits)
    then have e: "st' p = Some e" using 1(4) by (auto simp: map_le_def dom_def)
    define C where "C \<longleftrightarrow> GetSkipHeight heightWalk = int height \<or> (GetSkipHeight heightWalk > int height \<and>
      \<not> (GetSkipHeight (heightWalk - 1) < GetSkipHeight heightWalk - 2 \<and> GetSkipHeight (heightWalk - 1) \<ge> int height))"
    have step: "s p = Some e \<Longrightarrow> ancestor_loop s height pindexWalk heightWalk =
        (if C then ancestor_loop s height (pskip e) (GetSkipHeight heightWalk)
         else ancestor_loop s height (pprev e) (heightWalk - 1))" for s
      using True p(1) by (subst ancestor_loop.simps) (simp add: Let_def C_def)
    show ?thesis using 1(3,4) 1(1) [OF True p refl refl] 1(2) [OF True p refl refl]
      unfolding step [of st, OF p(2)] step [of st', OF e] C_def [symmetric] by (auto split: if_splits)
  qed
qed

lemma GetAncestor_mono: "GetAncestor st p height = Some r \<Longrightarrow> st \<subseteq>\<^sub>m st' \<Longrightarrow> GetAncestor st' p height = Some r"
  by (auto simp: GetAncestor_def map_le_def dom_def split: option.splits if_splits intro: ancestor_loop_mono [unfolded map_le_def dom_def])

text \<open>Adding an entry whose parent is in the tree.\<close>

lemma index_tree_insert:
  assumes "index_tree st" "st p = None"
    and "pprev e = None \<Longrightarrow> bi_nHeight e = 0"
    and "\<And>q. pprev e = Some q \<Longrightarrow> \<exists>f. st q = Some f \<and> bi_nHeight e = bi_nHeight f + 1 \<and>
      Some (pskip e) = GetAncestor st q (GetSkipHeight (bi_nHeight e))"
  shows "index_tree (st(p \<mapsto> e))"
proof -
  let ?st = "st(p \<mapsto> e)"
  have le: "st \<subseteq>\<^sub>m ?st" using assms(2) by (auto simp: map_le_def)
  have old: "entry_tree ?st x g" if g: "st x = Some g" for x g
  proof -
    have t: "entry_tree st x g" using assms(1) g by (simp add: index_tree_def)
    show ?thesis
    proof (cases "pprev g")
      case (Some q)
      then have h: "1 \<le> bi_nHeight g" "q \<noteq> p" using t assms(1,2)
        by (auto simp: entry_tree_def index_tree_def split: option.splits)
      have sb: "0 \<le> GetSkipHeight (bi_nHeight g)" using GetSkipHeight_bounds [OF h(1)] by simp
      obtain r where "walk_back st (nat (bi_nHeight g - GetSkipHeight (bi_nHeight g))) x = Some r"
        using walk_back_exists [OF assms(1) g, of "nat (bi_nHeight g - GetSkipHeight (bi_nHeight g))"] GetSkipHeight_bounds [OF h(1)]
        by auto
      from walk_back_mono [OF this le] this show ?thesis using t Some h
        by (auto simp: entry_tree_def)
    qed (use t in \<open>auto simp: entry_tree_def\<close>)
  qed
  have new: "entry_tree ?st p e"
  proof (cases "pprev e")
    case None
    then show ?thesis using assms(3) by (simp add: entry_tree_def)
  next
    case (Some q)
    then obtain f where f: "st q = Some f" "bi_nHeight e = bi_nHeight f + 1"
      "Some (pskip e) = GetAncestor st q (GetSkipHeight (bi_nHeight e))" using assms(4) by blast
    have qp: "q \<noteq> p" using f assms(2) by auto
    have h0: "0 \<le> bi_nHeight f" using assms(1) f by (auto simp: index_tree_def entry_tree_def)
    let ?h = "bi_nHeight e"
    have sb: "0 \<le> GetSkipHeight ?h" "GetSkipHeight ?h < ?h" using GetSkipHeight_bounds [of ?h] f h0 by auto
    have sk: "pskip e = walk_back st (nat (bi_nHeight f - GetSkipHeight ?h)) q"
      using f(3) GetAncestor_back [OF assms(1) f(1)] sb f(2) by simp
    obtain r where r: "walk_back st (nat (bi_nHeight f - GetSkipHeight ?h)) q = Some r"
      using walk_back_exists [OF assms(1) f(1), of "nat (bi_nHeight f - GetSkipHeight ?h)"] sb f(2) by auto
    have "nat (?h - GetSkipHeight ?h) = Suc (nat (bi_nHeight f - GetSkipHeight ?h))" using sb f(2) by auto
    then have "walk_back ?st (nat (?h - GetSkipHeight ?h)) p = Some r" using walk_back_mono [OF r le] Some by simp
    then show ?thesis using Some f qp sk r h0 by (simp add: entry_tree_def)
  qed
  show ?thesis using old new by (simp add: index_tree_def)
qed

lemma core_updates [simp]:
  "core (e\<lparr>bnChainTrust := t\<rparr>) = core e" "core (e\<lparr>hashProofOfStake := t\<rparr>) = core e"
  "core (SetStakeModifier m gen e) = core e" "core (e\<lparr>nStakeModifierChecksum := c\<rparr>) = core e"
  "core (snd (SetStakeEntropyBit b e)) = core e" "core (e\<lparr>nStatus := n\<rparr>) = core e"
  by (simp_all add: core_def SetStakeModifier_def SetStakeEntropyBit_def Let_def)

lemma cores_fun_upd2: "cores (st(p := x, q := y)) = (cores st)(p := map_option core x, q := map_option core y)"
  by (simp add: cores_def fun_eq_iff)

lemma BuildSkip_insert:
  assumes "index_tree st0" "st0 p = None" "st0 q = Some f" "pprev e = Some q" "bi_nHeight e = bi_nHeight f + 1"
  shows "\<exists>r. BuildSkip (st0(p \<mapsto> e)) e = Some (e\<lparr>pskip := r\<rparr>) \<and> GetAncestor st0 q (GetSkipHeight (bi_nHeight e)) = Some r"
proof -
  obtain r where r: "GetAncestor st0 q (GetSkipHeight (bi_nHeight e)) = Some r"
    using GetAncestor_back [OF assms(1,3)] by blast
  have "st0 \<subseteq>\<^sub>m st0(p \<mapsto> e)" using assms(2) by (auto simp: map_le_def)
  from GetAncestor_mono [OF r this] show ?thesis using r assms(4) by (simp add: BuildSkip_def)
qed

lemma core_stake_fields: "core (fst (stake_fields modifier checksum hash p q st pm)) = core (the (st p))"
  by (simp add: stake_fields_def Let_def split: prod.split)

lemma link_prev_spec:
  assumes "index_tree st0" "st0 p = None" "entries s = st0(p \<mapsto> e)" "st0 q = Some f" "bi_nHeight f + 1 < 2 ^ 31"
  shows "\<exists>e' st' pm. link_prev modifier checksum hash p q s = Some (s\<lparr>entries := st', mapProofOfStake := pm\<rparr>) \<and>
    cores st' = (cores st0)(p \<mapsto> core e') \<and> st' p = Some e' \<and> pprev e' = Some q \<and>
    bi_nHeight e' = bi_nHeight f + 1 \<and> Some (pskip e') = GetAncestor st0 q (GetSkipHeight (bi_nHeight f + 1)) \<and>
    bi_nBits e' = bi_nBits e \<and> bi_nTime e' = bi_nTime e \<and> phashBlock e' = phashBlock e"
proof -
  have qp: "q \<noteq> p" using assms(2,4) by auto
  let ?e1 = "e\<lparr>pprev := Some q, bi_nHeight := bi_nHeight f + 1\<rparr>"
  obtain r where r: "BuildSkip (st0(p \<mapsto> ?e1)) ?e1 = Some (?e1\<lparr>pskip := r\<rparr>)"
      "GetAncestor st0 q (GetSkipHeight (bi_nHeight f + 1)) = Some r"
    using BuildSkip_insert [OF assms(1,2,4), of ?e1] by auto
  let ?e2 = "?e1\<lparr>pskip := r\<rparr>"
  let ?st = "set_next q p (st0(p \<mapsto> ?e2))"
  have b: "BuildSkip ((entries s)(p \<mapsto> ?e1)) ?e1 = Some ?e2" using r(1) assms(3) by simp
  have stp: "?st p = Some ?e2" using qp by (simp add: set_next_def)
  have cs: "cores (?st(p \<mapsto> e7)) = (cores st0)(p \<mapsto> core e7)" for e7
    by (simp add: cores_upd)
  obtain e' pm where sf: "stake_fields modifier checksum hash p q ?st (mapProofOfStake s) = (e', pm)" by fastforce
  then have "core e' = core ?e2" using core_stake_fields [of modifier checksum hash p q ?st "mapProofOfStake s"] stp by simp
  moreover have "link_prev modifier checksum hash p q s = Some (s\<lparr>entries := ?st(p \<mapsto> e'), mapProofOfStake := pm\<rparr>)"
    using b assms(5) by (simp only: link_prev_def Let_def sf option.case prod.case assms(3,4) fun_upd_same fun_upd_upd fun_upd_other [OF qp]
        not_le [symmetric] if_False)
  ultimately obtain e' st' pm where k: "link_prev modifier checksum hash p q s = Some (s\<lparr>entries := st', mapProofOfStake := pm\<rparr>)"
      "st' = ?st(p \<mapsto> e')" "core e' = core ?e2" by blast
  have "cores st' = (cores st0)(p \<mapsto> core e')" using cs k(2) by simp
  moreover have "st' p = Some e'" using k(2) by simp
  ultimately show ?thesis using k(1,3) r(2) by (intro exI [of _ e'] exI [of _ st'] exI [of _ pm]) (simp add: core_def)
qed

lemma GetBlockProof_core: "core e = core e' \<Longrightarrow> GetBlockProof e = GetBlockProof e'"
  by (simp add: core_def GetBlockProof_def)

lemma work_ok_cores:
  assumes "cores st = cores st'" "core e = core e'" "\<And>q. pprev e = Some q \<Longrightarrow> st q \<noteq> None"
  shows "work_ok st e = work_ok st' e'"
proof (cases "pprev e")
  case None
  then show ?thesis using assms(2) GetBlockProof_core [OF assms(2)] by (simp add: work_ok_def core_def)
next
  case (Some q)
  obtain f where f: "st q = Some f" using assms(3) Some by blast
  then obtain f' where f': "st' q = Some f'" "core f' = core f" using cores_SomeD [OF assms(1)] by blast
  have "pprev e' = Some q" "nChainWork e' = nChainWork e" "nChainWork f' = nChainWork f"
    using Some assms(2) f'(2) by (auto simp: core_def)
  then show ?thesis using Some f f'(1) GetBlockProof_core [OF assms(2)] by (simp add: work_ok_def)
qed

lemma best_ok_cores:
  assumes "cores st = cores st'" "best_ok st b"
  shows "best_ok st' b"
proof (cases b)
  case None
  then have "st x = None" for x using assms(2) by (simp add: best_ok_def)
  then have "st' x = None" for x using fun_cong [OF assms(1), of x] by (simp add: cores_def)
  then show ?thesis using None by (simp add: best_ok_def)
next
  case (Some x)
  obtain f where f: "st x = Some f" "\<And>p e. st p = Some e \<Longrightarrow> nChainWork e \<le> nChainWork f"
    using assms(2) Some by (auto simp: best_ok_def)
  obtain f' where f': "st' x = Some f'" "core f' = core f" using cores_SomeD [OF assms(1) f(1)] by blast
  have "nChainWork e' \<le> nChainWork f'" if e': "st' p = Some e'" for p e'
  proof -
    obtain e where e: "st p = Some e" "core e = core e'" using cores_SomeD [OF assms(1) [symmetric] e'] by blast
    then show ?thesis using f(2) [OF e(1)] f'(2) by (simp add: core_def)
  qed
  then show ?thesis using Some f' by (auto simp: best_ok_def)
qed

lemma RaiseValidity_TREE: "\<exists>b n. RaiseValidity BLOCK_VALID_TREE e = Some (b, e\<lparr>nStatus := n\<rparr>)"
proof -
  have "BLOCK_VALID_TREE AND NOT BLOCK_VALID_MASK = 0"
    by (simp add: BLOCK_VALID_TREE_def BLOCK_VALID_MASK_def BLOCK_VALID_HEADER_def BLOCK_VALID_TRANSACTIONS_def
      BLOCK_VALID_CHAIN_def BLOCK_VALID_SCRIPTS_def)
  then show ?thesis
    by (cases e) (auto simp: RaiseValidity_def intro: exI [of _ "nStatus e"])
qed

lemma finish_index_spec:
  assumes "entries s p = Some e" "pprev e = None \<Longrightarrow> bi_nHeight e = 0"
    and "\<And>q. pprev e = Some q \<Longrightarrow> entries s q \<noteq> None \<and> q \<noteq> p"
    and "best_ok st0 (pindexBestHeader s)" "cores (entries s) = (cores st0)(p \<mapsto> core e)" "st0 p = None"
  shows "\<exists>e' st' best dirty. finish_index p s =
      Some (s\<lparr>entries := st', pindexBestHeader := best, setDirtyBlockIndex := dirty\<rparr>) \<and>
    cores st' = (cores st0)(p \<mapsto> core e') \<and> core e' = core (e\<lparr>nChainWork := nChainWork e'\<rparr>) \<and>
    work_ok (entries s) e' \<and> best_ok st' best"
proof -
  define w where "w = (case pprev e of None \<Rightarrow> 0 | Some q \<Rightarrow> nChainWork (the (entries s q)))"
  have W: "(case pprev e of None \<Rightarrow> Some 0 | Some q \<Rightarrow> map_option nChainWork (entries s q)) = Some w"
    using assms(3) by (auto simp: w_def split: option.splits)
  let ?e = "e\<lparr>nChainWork := w + GetBlockProof e\<rparr>"
  obtain b n where R: "RaiseValidity BLOCK_VALID_TREE ?e = Some (b, ?e\<lparr>nStatus := n\<rparr>)" using RaiseValidity_TREE by blast
  define e' where "e' = ?e\<lparr>nStatus := n\<rparr>"
  define st where "st = (entries s)(p \<mapsto> e')"
  have cst: "cores st = (cores st0)(p \<mapsto> core e')" by (simp add: st_def cores_upd assms(5))
  have ce: "core e' = core (e\<lparr>nChainWork := nChainWork e'\<rparr>)" by (simp add: e'_def core_def)
  have wo: "work_ok (entries s) e'" by (simp add: e'_def work_ok_def w_def GetBlockProof_def)
  have stp: "st p = Some e'" by (simp add: st_def)
  have old: "x \<noteq> p \<Longrightarrow> st x = Some g \<Longrightarrow> \<exists>g0. st0 x = Some g0 \<and> core g0 = core g" for x g
    using fun_cong [OF cst, of x] by (auto simp: cores_def dest: sym)
  have old2: "st0 x = Some g \<Longrightarrow> \<exists>g0. st x = Some g0 \<and> core g0 = core g" for x g
    using fun_cong [OF cst, of x] assms(6) by (cases "x = p") (auto simp: cores_def)
  obtain bt where bt: "(case pindexBestHeader s of None \<Rightarrow> Some True | Some b \<Rightarrow> map_option (\<lambda>f. nChainWork f < nChainWork e') (st b)) = Some bt"
    using assms(4) old2 by (fastforce simp: best_ok_def split: option.splits)
  let ?best = "if bt then Some p else pindexBestHeader s"
  have "best_ok st ?best"
  proof (cases "pindexBestHeader s")
    case None
    then have "st0 x = None" for x using assms(4) by (simp add: best_ok_def)
    then have X: "x = p" if "st x = Some g" for x g using old [OF _ that] by auto
    have "nChainWork g \<le> nChainWork e'" if "st x = Some g" for x g using X [OF that] that stp by simp
    then show ?thesis using None bt stp by (auto simp: best_ok_def)
  next
    case (Some y)
    then obtain f where f: "st0 y = Some f" "\<And>x g. st0 x = Some g \<Longrightarrow> nChainWork g \<le> nChainWork f"
      using assms(4) by (auto simp: best_ok_def)
    then obtain f' where f': "st y = Some f'" "core f' = core f" using old2 by blast
    have yp: "y \<noteq> p" using f assms(6) by auto
    have le: "x \<noteq> p \<Longrightarrow> st x = Some g \<Longrightarrow> nChainWork g \<le> nChainWork f'" for x g
      using old [of x g] f(2) f'(2) by (force simp: core_def)
    have B: "bt \<longleftrightarrow> nChainWork f' < nChainWork e'" using bt Some f' by simp
    have L: "nChainWork g \<le> (if bt then nChainWork e' else nChainWork f')" if "st x = Some g" for x g
    proof (cases "x = p")
      case True
      then show ?thesis using that stp B by (simp add: not_less)
    next
      case False
      from le [OF this that] show ?thesis using B by auto
    qed
    define z where "z = (if bt then p else y)"
    define g where "g = (if bt then e' else f')"
    have "st z = Some g" "\<forall>x h. st x = Some h \<longrightarrow> nChainWork h \<le> nChainWork g" "?best = Some z"
      using stp f'(1) Some L by (auto simp: z_def g_def)
    then show ?thesis unfolding best_ok_def by simp
  qed
  moreover have "finish_index p s = Some (s\<lparr>entries := (if bi_nHeight e' \<noteq> 0 then set_next (the (pprev e')) p st else st),
      pindexBestHeader := ?best, setDirtyBlockIndex := insert p (setDirtyBlockIndex s)\<rparr>)"
  proof -
    have "\<not> (bi_nHeight e' \<noteq> 0 \<and> pprev e' = None)" using assms(2) by (auto simp: e'_def)
    then show ?thesis
      by (simp only: finish_index_def assms(1) W R option.case prod.case Let_def e'_def [symmetric] st_def [symmetric] bt if_False)
  qed
  moreover have "best_ok (if bi_nHeight e' \<noteq> 0 then set_next (the (pprev e')) p st else st) ?best"
    using calculation(1) by (auto intro: best_ok_cores [of st, rotated])
  ultimately show ?thesis using ce wo cst
    by (intro exI [of _ e'] exI [of _ "if bi_nHeight e' \<noteq> 0 then set_next (the (pprev e')) p st else st"] exI [of _ ?best]
      exI [of _ "insert p (setDirtyBlockIndex s)"]) auto
qed

definition by_hash :: "index_state \<Rightarrow> bool" where
  "by_hash s \<longleftrightarrow> (\<forall>h p. mapBlockIndex s h = Some p \<longrightarrow> (\<exists>e. entries s p = Some e \<and> phashBlock e = Some h))"

lemma CBlockIndex_of_core:
  "pprev (CBlockIndex_of junk block) = None" "bi_nHeight (CBlockIndex_of junk block) = 0"
  "bi_nTime (CBlockIndex_of junk block) = bh_nTime (header block)"
  by (simp_all add: CBlockIndex_of_def Let_def CBlockIndex_SetNull_def SetProofOfStake_def)

lemma cores_insert_le:
  assumes "cores st = (cores st0)(p \<mapsto> core e)" "st0 p = None" "st0 q = Some f"
  shows "\<exists>f'. st q = Some f' \<and> core f' = core f \<and> q \<noteq> p"
proof -
  have "q \<noteq> p" using assms(2,3) by auto
  then show ?thesis using fun_cong [OF assms(1), of q] assms(3) by (auto simp: cores_def)
qed

text \<open>The entry that \<open>finish_index\<close> starts from.\<close>

definition new_entry_ok :: "index_store \<Rightarrow> nat \<Rightarrow> uint256 \<Rightarrow> CBlockIndex \<Rightarrow> bool" where
  "new_entry_ok st0 p hash e \<longleftrightarrow> phashBlock e = Some hash \<and> bi_nHeight e < 2 ^ 31 \<and> (pprev e = None \<longrightarrow> bi_nHeight e = 0) \<and>
     (\<forall>q. pprev e = Some q \<longrightarrow> (\<exists>f. st0 q = Some f \<and> bi_nHeight e = bi_nHeight f + 1 \<and>
        Some (pskip e) = GetAncestor st0 q (GetSkipHeight (bi_nHeight e))))"

lemma finish_index_ok:
  assumes ok: "index_tree st0" "\<forall>x. p \<le> x \<longrightarrow> st0 x = None" "\<forall>x e. st0 x = Some e \<longrightarrow> work_ok st0 e"
      "\<forall>h x. old h = Some x \<longrightarrow> (\<exists>e. st0 x = Some e \<and> phashBlock e = Some h)" "best_ok st0 (pindexBestHeader s)"
    and ah: "all_hashed st0" and ai: "all_int st0"
    and e: "entries s p = Some e" "cores (entries s) = (cores st0)(p \<mapsto> core e)" "new_entry_ok st0 p hash e"
    and s: "next_ptr s = p + 1" "mapBlockIndex s = old(hash \<mapsto> p)"
  shows "\<exists>s'. finish_index p s = Some s' \<and> index_ok s' \<and> mapBlockIndex s' = mapBlockIndex s \<and>
    (\<exists>g. entries s' p = Some g \<and> pprev g = pprev e \<and> bi_nTime g = bi_nTime e)"
proof -
  have p0: "st0 p = None" using ok(2) by simp
  have q: "entries s q \<noteq> None \<and> q \<noteq> p" if "pprev e = Some q" for q
    using e(3) that cores_insert_le [OF e(2) p0] by (fastforce simp: new_entry_ok_def)
  have h0: "pprev e = None \<Longrightarrow> bi_nHeight e = 0" using e(3) by (simp add: new_entry_ok_def)
  obtain e' st' best dirty where f: "finish_index p s =
      Some (s\<lparr>entries := st', pindexBestHeader := best, setDirtyBlockIndex := dirty\<rparr>)"
    "cores st' = (cores st0)(p \<mapsto> core e')" "core e' = core (e\<lparr>nChainWork := nChainWork e'\<rparr>)"
    "work_ok (entries s) e'" "best_ok st' best"
    using finish_index_spec [OF e(1) h0 q ok(5) e(2) p0] by blast
  have c: "pprev e' = pprev e" "bi_nHeight e' = bi_nHeight e" "pskip e' = pskip e" "phashBlock e' = Some hash"
    using f(3) e(3) by (auto simp: core_def new_entry_ok_def)
  let ?T = "st0(p \<mapsto> e')"
  have T: "cores ?T = cores st'" by (simp add: cores_upd f(2))
  have "index_tree ?T"
    using e(3) c by (intro index_tree_insert [OF ok(1) p0]) (auto simp: new_entry_ok_def)
  then have tree: "index_tree st'" by (rule index_tree_cores [OF T])
  have fresh: "st' x = None" if "p + 1 \<le> x" for x
    using fun_cong [OF f(2), of x] that ok(2) by (simp add: cores_def)
  have byh: "\<exists>g. st' x = Some g \<and> phashBlock g = Some h" if h: "(old(hash \<mapsto> p)) h = Some x" for h x
  proof (cases "h = hash")
    case True
    then have "x = p" using h by simp
    then have "map_option core (st' x) = Some (core e')" using fun_cong [OF f(2), of p] by (simp add: cores_def)
    then show ?thesis using c(4) True by (auto simp: core_def)
  next
    case False
    then obtain g where "st0 x = Some g" "phashBlock g = Some h" using h ok(4) by auto
    then show ?thesis using cores_insert_le [OF f(2) p0] by (fastforce simp: core_def)
  qed
  have work: "work_ok st' g" if g: "st' x = Some g" for x g
  proof (cases "x = p")
    case True
    have "core g = core e'" using fun_cong [OF f(2), of p] g True by (simp add: cores_def)
    moreover have "work_ok st' e' = work_ok (entries s) e'"
    proof (cases "pprev e'")
      case (Some q)
      then obtain f0 where "st0 q = Some f0" using c(1) e(3) by (auto simp: new_entry_ok_def)
      then have "nChainWork (the (st' q)) = nChainWork (the (entries s q))"
        using cores_insert_le [OF f(2) p0] cores_insert_le [OF e(2) p0] by (fastforce simp: core_def)
      then show ?thesis using Some by (simp add: work_ok_def)
    qed (simp add: work_ok_def)
    ultimately show ?thesis using f(4) GetBlockProof_core [of g e'] by (simp add: work_ok_def core_def)
  next
    case False
    then obtain g0 where g0: "st0 x = Some g0" "core g = core g0"
      using fun_cong [OF f(2), of x] g by (cases "st0 x") (auto simp: cores_def)
    then have w: "work_ok st0 g0" using ok(3) by blast
    show ?thesis
    proof (cases "pprev g0")
      case (Some q)
      then obtain f0 where "st0 q = Some f0" using ok(1) g0(1) by (auto simp: index_tree_def entry_tree_def split: option.splits)
      then have "nChainWork (the (st' q)) = nChainWork (the (st0 q))"
        using cores_insert_le [OF f(2) p0] by (fastforce simp: core_def)
      then show ?thesis using w g0(2) Some GetBlockProof_core [OF g0(2)] by (simp add: work_ok_def core_def)
    qed (use w g0(2) GetBlockProof_core [OF g0(2)] in \<open>simp add: work_ok_def core_def\<close>)
  qed
  have hashed: "all_hashed st'" unfolding all_hashed_def
  proof (intro allI impI)
    fix x g assume g: "st' x = Some g"
    show "phashBlock g \<noteq> None"
    proof (cases "x = p")
      case True
      then have "core g = core e'" using fun_cong [OF f(2), of p] g by (simp add: cores_def)
      then show ?thesis using c(4) by (simp add: core_def)
    next
      case False
      then obtain g0 where "st0 x = Some g0" "core g = core g0"
        using fun_cong [OF f(2), of x] g by (cases "st0 x") (auto simp: cores_def)
      then show ?thesis using ah by (auto simp: all_hashed_def core_def)
    qed
  qed
  have int: "all_int st'" unfolding all_int_def
  proof (intro allI impI)
    fix x g assume g: "st' x = Some g"
    show "bi_nHeight g < 2 ^ 31"
    proof (cases "x = p")
      case True
      then have "core g = core e'" using fun_cong [OF f(2), of p] g by (simp add: cores_def)
      then have "bi_nHeight g = bi_nHeight e" using c(2) by (simp add: core_def)
      then show ?thesis using e(3) by (simp add: new_entry_ok_def)
    next
      case False
      then obtain g0 where g0: "st0 x = Some g0" "core g = core g0"
        using fun_cong [OF f(2), of x] g by (cases "st0 x") (auto simp: cores_def)
      then have "bi_nHeight g = bi_nHeight g0" by (simp add: core_def)
      then show ?thesis using ai g0(1) by (auto simp: all_int_def)
    qed
  qed
  have "map_option core (st' p) = Some (core e')" using fun_cong [OF f(2), of p] by (simp add: cores_def)
  then obtain g where "st' p = Some g" "core g = core e'" by auto
  then have "\<exists>g. st' p = Some g \<and> pprev g = pprev e \<and> bi_nTime g = bi_nTime e" using f(3) by (simp add: core_def)
  then show ?thesis using f(1,5) tree fresh byh work s hashed int by (simp add: index_ok_def)
qed

text \<open>The block would follow an entry of the greatest height.\<close>

definition too_high :: "index_state \<Rightarrow> CBlock \<Rightarrow> bool" where
  "too_high s block \<longleftrightarrow>
     (\<exists>q f. mapBlockIndex s (bh_hashPrevBlock (header block)) = Some q \<and> entries s q = Some f \<and> bi_nHeight f = 2 ^ 31 - 1)"

lemma AddToBlockIndex_ok:
  assumes "index_ok s" "bh_hashPrevBlock (header block) \<noteq> block_GetHash XEVAN Hash block"
    and "mapBlockIndex s (block_GetHash XEVAN Hash block) \<noteq> None \<or> \<not> too_high s block"
  shows "\<exists>p s'. AddToBlockIndex XEVAN Hash modifier checksum junk block s = Some (p, s') \<and> index_ok s' \<and>
    mapBlockIndex s' (block_GetHash XEVAN Hash block) = Some p \<and>
    (mapBlockIndex s (block_GetHash XEVAN Hash block) = None \<longrightarrow>
      mapBlockIndex s' = (mapBlockIndex s)(block_GetHash XEVAN Hash block \<mapsto> p) \<and>
      (\<exists>e. entries s' p = Some e \<and> pprev e = mapBlockIndex s (bh_hashPrevBlock (header block)) \<and>
        bi_nTime e = bh_nTime (header block)))"
proof (cases "mapBlockIndex s (block_GetHash XEVAN Hash block)")
  case (Some p)
  then show ?thesis using assms(1) by (simp add: AddToBlockIndex_def)
next
  case None
  define hash where "hash = block_GetHash XEVAN Hash block"
  define p where "p = next_ptr s"
  define e where "e = (CBlockIndex_of junk block)\<lparr>nSequenceId := 0, phashBlock := Some hash\<rparr>"
  define s1 where "s1 = s\<lparr>entries := (entries s)(p \<mapsto> e), next_ptr := p + 1, mapBlockIndex := (mapBlockIndex s)(hash \<mapsto> p),
      setStakeSeen := (if index_IsProofOfStake e then insert (prevoutStake e, nStakeTime e) (setStakeSeen s) else setStakeSeen s)\<rparr>"
  have ok: "index_tree (entries s)" "\<forall>x. p \<le> x \<longrightarrow> entries s x = None" "\<forall>x e. entries s x = Some e \<longrightarrow> work_ok (entries s) e"
      "\<forall>h x. mapBlockIndex s h = Some x \<longrightarrow> (\<exists>e. entries s x = Some e \<and> phashBlock e = Some h)"
      "best_ok (entries s) (pindexBestHeader s)" "all_hashed (entries s)" "all_int (entries s)"
    using assms(1) by (simp_all add: index_ok_def p_def)
  have p0: "entries s p = None" using ok(2) by simp
  have ep: "pprev e = None" "bi_nHeight e = 0" "phashBlock e = Some hash" "bi_nTime e = bh_nTime (header block)" by (simp_all add: e_def CBlockIndex_of_core)
  have A: "AddToBlockIndex XEVAN Hash modifier checksum junk block s =
      (case (case mapBlockIndex s1 (bh_hashPrevBlock (header block)) of
                None \<Rightarrow> Some s1
              | Some q \<Rightarrow> link_prev modifier checksum hash p q s1) of
             None \<Rightarrow> None
           | Some s2 \<Rightarrow> map_option (\<lambda>s3. (p, s3)) (finish_index p s2))"
    using None
    by (simp only: AddToBlockIndex_def Let_def hash_def [symmetric] p_def [symmetric] e_def [symmetric] s1_def [symmetric] option.case)
  have "\<exists>s2 e2. (case mapBlockIndex s1 (bh_hashPrevBlock (header block)) of
        None \<Rightarrow> Some s1 | Some q \<Rightarrow> link_prev modifier checksum hash p q s1) = Some s2 \<and>
      entries s2 p = Some e2 \<and> cores (entries s2) = (cores (entries s))(p \<mapsto> core e2) \<and> new_entry_ok (entries s) p hash e2 \<and>
      next_ptr s2 = p + 1 \<and> mapBlockIndex s2 = (mapBlockIndex s)(hash \<mapsto> p) \<and> pindexBestHeader s2 = pindexBestHeader s \<and>
      pprev e2 = mapBlockIndex s (bh_hashPrevBlock (header block)) \<and> bi_nTime e2 = bh_nTime (header block)"
  proof (cases "mapBlockIndex s1 (bh_hashPrevBlock (header block))")
    case None
    then have "mapBlockIndex s (bh_hashPrevBlock (header block)) = None" by (simp add: s1_def split: if_splits)
    then show ?thesis using ep None
      by (intro exI [of _ s1] exI [of _ e]) (simp add: s1_def cores_upd new_entry_ok_def)
  next
    case (Some q)
    then have "mapBlockIndex s (bh_hashPrevBlock (header block)) = Some q" using assms(2) by (simp add: s1_def hash_def)
    then obtain f where f: "entries s q = Some f" using ok(4) by blast
    have "entries s1 = (entries s)(p \<mapsto> e)" by (simp add: s1_def)
    have "bi_nHeight f \<noteq> 2 ^ 31 - 1" using assms(3) None f \<open>mapBlockIndex s _ = Some q\<close> by (auto simp: too_high_def)
    then have fh: "bi_nHeight f + 1 < 2 ^ 31" using ok(7) f by (force simp: all_int_def)
    from link_prev_spec [OF ok(1) p0 \<open>entries s1 = _\<close> f fh, of modifier checksum hash] obtain e2 st2 pm where
      l: "link_prev modifier checksum hash p q s1 = Some (s1\<lparr>entries := st2, mapProofOfStake := pm\<rparr>)"
        "cores st2 = (cores (entries s))(p \<mapsto> core e2)" "st2 p = Some e2" "pprev e2 = Some q"
        "bi_nHeight e2 = bi_nHeight f + 1" "Some (pskip e2) = GetAncestor (entries s) q (GetSkipHeight (bi_nHeight f + 1))"
        "phashBlock e2 = phashBlock e" "bi_nTime e2 = bi_nTime e" by blast
    show ?thesis using Some l ep f fh \<open>mapBlockIndex s (bh_hashPrevBlock (header block)) = Some q\<close>
      by (intro exI [of _ "s1\<lparr>entries := st2, mapProofOfStake := pm\<rparr>"] exI [of _ e2]) (simp add: new_entry_ok_def, simp add: s1_def)
  qed
  then obtain s2 e2 where s2: "(case mapBlockIndex s1 (bh_hashPrevBlock (header block)) of
        None \<Rightarrow> Some s1 | Some q \<Rightarrow> link_prev modifier checksum hash p q s1) = Some s2"
      "entries s2 p = Some e2" "cores (entries s2) = (cores (entries s))(p \<mapsto> core e2)" "new_entry_ok (entries s) p hash e2"
      "next_ptr s2 = p + 1" "mapBlockIndex s2 = (mapBlockIndex s)(hash \<mapsto> p)" "pindexBestHeader s2 = pindexBestHeader s"
      "pprev e2 = mapBlockIndex s (bh_hashPrevBlock (header block))" "bi_nTime e2 = bh_nTime (header block)" by blast
  have "best_ok (entries s) (pindexBestHeader s2)" using ok(5) s2(7) by simp
  from finish_index_ok [OF ok(1-4) this ok(6,7) s2(2-6)] obtain s' where
    "finish_index p s2 = Some s'" "index_ok s'" "mapBlockIndex s' = mapBlockIndex s2"
    "\<exists>g. entries s' p = Some g \<and> pprev g = pprev e2 \<and> bi_nTime g = bi_nTime e2" by blast
  then show ?thesis using A s2(1,6,8,9) by (auto simp: hash_def)
qed

text \<open>Otherwise the height overflows.\<close>

lemma AddToBlockIndex_overflow:
  assumes "bh_hashPrevBlock (header block) \<noteq> block_GetHash XEVAN Hash block" "mapBlockIndex s (block_GetHash XEVAN Hash block) = None"
    and "too_high s block" "index_ok s"
  shows "AddToBlockIndex XEVAN Hash modifier checksum junk block s = None"
proof -
  obtain q f where q: "mapBlockIndex s (bh_hashPrevBlock (header block)) = Some q" "entries s q = Some f" "bi_nHeight f = 2 ^ 31 - 1"
    using assms(3) by (auto simp: too_high_def)
  have "entries s (next_ptr s) = None" using assms(4) by (simp add: index_ok_def)
  then have "q \<noteq> next_ptr s" using q(2) by auto
  then show ?thesis using assms(1,2) q by (simp add: AddToBlockIndex_def Let_def link_prev_def)
qed

text \<open>The states of the index that adding blocks reaches.\<close>

inductive index_reachable ::
    "(bytes \<Rightarrow> uint256) \<Rightarrow> (bytes \<Rightarrow> uint256) \<Rightarrow> (index_store \<Rightarrow> nat \<Rightarrow> u64 \<times> bool) \<Rightarrow> (index_store \<Rightarrow> nat \<Rightarrow> u32) \<Rightarrow> index_state \<Rightarrow> bool"
  for XEVAN Hash modifier checksum where
  index_start: "index_reachable XEVAN Hash modifier checksum index_empty"
| index_add: "index_reachable XEVAN Hash modifier checksum s \<Longrightarrow>
    bh_hashPrevBlock (header block) \<noteq> block_GetHash XEVAN Hash block \<Longrightarrow>
    AddToBlockIndex XEVAN Hash modifier checksum junk block s = Some (p, s') \<Longrightarrow>
    index_reachable XEVAN Hash modifier checksum s'"

lemma index_reachable_ok: "index_reachable XEVAN Hash modifier checksum s \<Longrightarrow> index_ok s"
proof (induction rule: index_reachable.induct)
  case index_start
  show ?case by (simp add: index_ok_def index_empty_def index_tree_def best_ok_def all_hashed_def all_int_def)
next
  case (index_add s block junk p s')
  then have "mapBlockIndex s (block_GetHash XEVAN Hash block) \<noteq> None \<or> \<not> too_high s block"
    using AddToBlockIndex_overflow [of block XEVAN Hash s modifier checksum junk] by auto
  then show ?case using index_add AddToBlockIndex_ok [of s block XEVAN Hash modifier checksum junk] by auto
qed

end
