(* ===== verification/ActiveChain.thy ===== *)
theory ActiveChain
  imports Chain
begin

section \<open>The active chain, its locator and its fork (chain.h, chain.cpp)\<close>

text \<open>
  The vector of the active chain with \<open>SetTip\<close>, \<open>Contains\<close>, \<open>GetLocator\<close> and \<open>FindFork\<close>, and the
  median of the past times. The loops are partial functions, so that their termination is part of
  what is shown about them. The properties of the index and of the chain stand at the end.
\<close>

subsection \<open>The active chain\<close>

text \<open>The vector of pointers; \<open>None\<close> in it is a null pointer, a result \<open>None\<close> a read outside of it.\<close>

type_synonym CChain = "nat option list"

definition chain_Genesis :: "CChain \<Rightarrow> nat option" where
  "chain_Genesis c = (if length c > 0 then c ! 0 else None)"

definition chain_at :: "CChain \<Rightarrow> int \<Rightarrow> nat option" where
  "chain_at c nHeight = (if nHeight < 0 \<or> nHeight \<ge> int (length c) then None else c ! nat nHeight)"

definition chain_Height :: "CChain \<Rightarrow> int" where
  "chain_Height c = int (length c) - 1"

partial_function (option) tip_loop :: "index_store \<Rightarrow> nat option \<Rightarrow> nat option option" where
  "tip_loop st pindex =
     (case pindex of
        None \<Rightarrow> Some None
      | Some p \<Rightarrow>
     (case st p of
        None \<Rightarrow> None
      | Some e \<Rightarrow>
          if pprev e \<noteq> None \<and> \<not> index_IsProofOfStake e then tip_loop st (pprev e) else Some pindex))"

definition chain_Tip :: "index_store \<Rightarrow> bool \<Rightarrow> CChain \<Rightarrow> nat option option" where
  "chain_Tip st fProofOfStake c =
     (if length c < 1 then Some None
      else if fProofOfStake then tip_loop st (c ! (length c - 1)) else Some (c ! (length c - 1)))"

definition chain_eq :: "CChain \<Rightarrow> CChain \<Rightarrow> bool option" where
  "chain_eq a b =
     (if length a \<noteq> length b then Some False
      else if a = [] then None else Some (a ! (length a - 1) = b ! (length b - 1)))"

definition chain_Contains :: "index_store \<Rightarrow> CChain \<Rightarrow> nat \<Rightarrow> bool option" where
  "chain_Contains st c p = map_option (\<lambda>e. chain_at c (bi_nHeight e) = Some p) (st p)"

definition chain_Next :: "index_store \<Rightarrow> CChain \<Rightarrow> nat \<Rightarrow> nat option option" where
  "chain_Next st c p =
     (case chain_Contains st c p of
        None \<Rightarrow> None
      | Some True \<Rightarrow> map_option (\<lambda>e. chain_at c (bi_nHeight e + 1)) (st p)
      | Some False \<Rightarrow> Some None)"

partial_function (option) set_tip_loop :: "index_store \<Rightarrow> nat option \<Rightarrow> CChain \<Rightarrow> CChain option" where
  "set_tip_loop st pindex c =
     (case pindex of
        None \<Rightarrow> Some c
      | Some p \<Rightarrow>
     (case st p of
        None \<Rightarrow> None
      | Some e \<Rightarrow>
          if bi_nHeight e < 0 \<or> bi_nHeight e \<ge> int (length c) then None
          else if c ! nat (bi_nHeight e) \<noteq> Some p
            then set_tip_loop st (pprev e) (c[nat (bi_nHeight e) := Some p])
          else Some c))"

definition SetTip :: "index_store \<Rightarrow> nat option \<Rightarrow> CChain \<Rightarrow> CChain option" where
  "SetTip st pindex c =
     (case pindex of
        None \<Rightarrow> Some []
      | Some p \<Rightarrow>
     (case st p of
        None \<Rightarrow> None
      | Some e \<Rightarrow> set_tip_loop st (Some p) (resize c (nat (bi_nHeight e + 1)) None)))"

text \<open>
  The locator: the hashes of the entry and of ancestors at exponentially growing steps. The step is an \<open>int\<close>;
  the doubling that overflows it is undefined behaviour, and \<open>None\<close> here.
\<close>

partial_function (option) locator_loop ::
    "index_store \<Rightarrow> CChain \<Rightarrow> nat option \<Rightarrow> int \<Rightarrow> uint256 list \<Rightarrow> uint256 list option" where
  "locator_loop st c pindex nStep vHave =
     (case pindex of
        None \<Rightarrow> Some vHave
      | Some p \<Rightarrow>
     (case st p of
        None \<Rightarrow> None
      | Some e \<Rightarrow>
     (case phashBlock e of
        None \<Rightarrow> None
      | Some h \<Rightarrow>
          if bi_nHeight e = 0 then Some (vHave @ [h])
          else
            let nHeight = max (bi_nHeight e - nStep) 0;
                nStep' = (if length (vHave @ [h]) > 10 then nStep * 2 else nStep)
            in (case chain_Contains st c p of
               None \<Rightarrow> None
             | Some in_chain \<Rightarrow>
                 if nStep' \<ge> 2 ^ 31 then None
                 else if in_chain then locator_loop st c (chain_at c nHeight) nStep' (vHave @ [h])
                 else (case GetAncestor st p nHeight of
                    None \<Rightarrow> None
                  | Some r \<Rightarrow> locator_loop st c r nStep' (vHave @ [h]))))))"

definition GetLocator :: "index_store \<Rightarrow> CChain \<Rightarrow> nat option \<Rightarrow> uint256 list option" where
  "GetLocator st c pindex =
     (case (case pindex of None \<Rightarrow> chain_Tip st False c | Some p \<Rightarrow> Some (Some p)) of
        None \<Rightarrow> None
      | Some r \<Rightarrow> locator_loop st c r 1 [])"

partial_function (option) fork_loop :: "index_store \<Rightarrow> CChain \<Rightarrow> nat option \<Rightarrow> nat option option" where
  "fork_loop st c pindex =
     (case pindex of
        None \<Rightarrow> Some None
      | Some p \<Rightarrow>
     (case st p of
        None \<Rightarrow> None
      | Some e \<Rightarrow> if chain_at c (bi_nHeight e) \<noteq> Some p then fork_loop st c (pprev e) else Some pindex))"

definition FindFork :: "index_store \<Rightarrow> CChain \<Rightarrow> nat \<Rightarrow> nat option option" where
  "FindFork st c p =
     (case st p of
        None \<Rightarrow> None
      | Some e \<Rightarrow>
     (case (if bi_nHeight e > chain_Height c then GetAncestor st p (chain_Height c) else Some (Some p)) of
        None \<Rightarrow> None
      | Some r \<Rightarrow> fork_loop st c r))"

text \<open>A vector that holds the ancestors of its last entry.\<close>

definition link_ok :: "index_store \<Rightarrow> CChain \<Rightarrow> nat \<Rightarrow> bool" where
  "link_ok st c i \<longleftrightarrow> (\<exists>q f. c ! i = Some q \<and> st q = Some f \<and> bi_nHeight f = int i \<and> (0 < i \<longrightarrow> pprev f = c ! (i - 1)))"

definition chain_ok :: "index_store \<Rightarrow> CChain \<Rightarrow> bool" where
  "chain_ok st c \<longleftrightarrow> (\<forall>i<length c. link_ok st c i)"

lemma index_tree_height:
  assumes "index_tree st" "st p = Some e"
  shows "0 \<le> bi_nHeight e" "pprev e = None \<longleftrightarrow> bi_nHeight e = 0"
    and "pprev e = Some q \<Longrightarrow> \<exists>f. st q = Some f \<and> bi_nHeight e = bi_nHeight f + 1"
proof -
  have t: "entry_tree st x g" if "st x = Some g" for x g using assms(1) that by (simp add: index_tree_def)
  show "0 \<le> bi_nHeight e" "pprev e = Some q \<Longrightarrow> \<exists>f. st q = Some f \<and> bi_nHeight e = bi_nHeight f + 1"
    using t [OF assms(2)] by (auto simp: entry_tree_def)
  show "pprev e = None \<longleftrightarrow> bi_nHeight e = 0"
  proof (cases "pprev e")
    case (Some r)
    then obtain f where f: "st r = Some f" "bi_nHeight e = bi_nHeight f + 1" using t [OF assms(2)] by (auto simp: entry_tree_def)
    have "0 \<le> bi_nHeight f" using t [OF f(1)] by (simp add: entry_tree_def)
    then show ?thesis using Some f by simp
  qed (use t [OF assms(2)] in \<open>simp add: entry_tree_def\<close>)
qed

lemma link_ok_walk:
  assumes "index_tree st" "\<And>j. j \<le> n \<Longrightarrow> c ! j = None \<or> link_ok st c j" "c ! n = Some p" "i \<le> n"
  shows "c ! i = walk_back st (n - i) p"
  using assms(2-)
proof (induction n arbitrary: p i)
  case (Suc n)
  obtain f where f: "st p = Some f" "bi_nHeight f = int (Suc n)" "pprev f = c ! n"
    using Suc.prems(1) [of "Suc n"] Suc.prems(2) by (auto simp: link_ok_def)
  then obtain r where r: "pprev f = Some r"
    using index_tree_height(2) [OF assms(1) f(1)] by auto
  show ?case
  proof (cases "i = Suc n")
    case False
    then have "c ! i = walk_back st (n - i) r" using Suc.IH [of r i] Suc.prems f(3) r by auto
    moreover have "Suc n - i = Suc (n - i)" using False Suc.prems(3) by simp
    ultimately show ?thesis using f(1) r by (simp add: f(3) [symmetric])
  qed (use Suc.prems in simp)
qed (simp add: link_ok_def)

lemma set_tip_loop_spec:
  assumes "index_tree st" "st p = Some e" "bi_nHeight e = int h" "h < length c"
    and "\<And>i. i \<le> h \<Longrightarrow> c ! i = None \<or> link_ok st c i"
  shows "\<exists>c'. set_tip_loop st (Some p) c = Some c' \<and> length c' = length c \<and>
    (\<forall>i\<le>h. c' ! i = walk_back st (h - i) p) \<and> (\<forall>i>h. c' ! i = c ! i)"
  using assms(2-)
proof (induction h arbitrary: p e c)
  case 0
  have n: "pprev e = None" using index_tree_height(2) [OF assms(1) 0(1)] 0(2) by simp
  show ?case
  proof (cases "c ! 0 = Some p")
    case True
    then show ?thesis using 0 by (subst set_tip_loop.simps) auto
  next
    case False
    then have "set_tip_loop st (Some p) c = set_tip_loop st None (c[0 := Some p])"
      using 0 n by (subst set_tip_loop.simps) auto
    also have "\<dots> = Some (c[0 := Some p])" by (subst set_tip_loop.simps) simp
    finally show ?thesis using 0 by auto
  qed
next
  case (Suc h)
  show ?case
  proof (cases "c ! Suc h = Some p")
    case True
    have "nat (bi_nHeight e) = Suc h" using Suc.prems(2) by simp
    then have "set_tip_loop st (Some p) c = Some c" using Suc.prems True by (subst set_tip_loop.simps) simp
    moreover have "c ! i = walk_back st (Suc h - i) p" if "i \<le> Suc h" for i
      using link_ok_walk [OF assms(1) Suc.prems(4) True that] .
    ultimately show ?thesis by auto
  next
    case False
    obtain q f where q: "pprev e = Some q" "st q = Some f" "bi_nHeight f = int h"
      using index_tree_height [OF assms(1) Suc.prems(1)] Suc.prems(2) by fastforce
    let ?c = "c[Suc h := Some p]"
    have s: "set_tip_loop st (Some p) c = set_tip_loop st (Some q) ?c"
    proof -
      have "nat (bi_nHeight e) = Suc h" using Suc.prems(2) by simp
      then show ?thesis using False Suc.prems q by (subst set_tip_loop.simps) simp
    qed
    have "?c ! i = None \<or> link_ok st ?c i" if "i \<le> h" for i
      using Suc.prems(4) [of i] that by (auto simp: link_ok_def nth_list_update)
    from Suc.IH [OF q(2,3) _ this] Suc.prems(3) obtain c' where c': "set_tip_loop st (Some q) ?c = Some c'" "length c' = length c"
      "\<forall>i\<le>h. c' ! i = walk_back st (h - i) q" "\<forall>i>h. c' ! i = ?c ! i" by auto
    have "c' ! i = walk_back st (Suc h - i) p" if "i \<le> Suc h" for i
    proof (cases "i = Suc h")
      case True
      then show ?thesis using c'(4) Suc.prems(3) by simp
    next
      case False
      then have "Suc h - i = Suc (h - i)" "i \<le> h" using that by auto
      then show ?thesis using c'(3) Suc.prems(1) q(1) by simp
    qed
    then show ?thesis using s c' by auto
  qed
qed

lemma walk_back_all:
  assumes "index_tree st" "st p = Some e" "int k \<le> bi_nHeight e"
  shows "\<exists>q f. walk_back st k p = Some q \<and> st q = Some f \<and> bi_nHeight f = bi_nHeight e - int k \<and>
    walk_back st (Suc k) p = pprev f"
proof -
  obtain q f where q: "walk_back st k p = Some q" "st q = Some f" "bi_nHeight f = bi_nHeight e - int k"
    using walk_back_exists [OF assms] by blast
  have "walk_back st (k + 1) p = pprev f" using q by (simp only: walk_back_add) (cases "pprev f"; simp)
  then show ?thesis using q by simp
qed

lemma SetTip_run:
  assumes "index_tree st" "st p = Some e" "chain_ok st c"
  shows "\<exists>c'. SetTip st (Some p) c = Some c' \<and> int (length c') = bi_nHeight e + 1 \<and>
    (\<forall>i<length c'. c' ! i = walk_back st (length c' - 1 - i) p) \<and> chain_ok st c'"
proof -
  define h where "h = nat (bi_nHeight e)"
  have h: "bi_nHeight e = int h" using index_tree_height(1) [OF assms(1,2)] by (simp add: h_def)
  let ?r = "resize c (Suc h) None"
  have "?r ! i = None \<or> link_ok st ?r i" if "i \<le> h" for i
    using assms(3) that by (cases "i < length c") (auto simp: chain_ok_def link_ok_def nth_resize)
  from set_tip_loop_spec [OF assms(1,2) h _ this] obtain c' where c': "set_tip_loop st (Some p) ?r = Some c'"
    "length c' = Suc h" "\<forall>i\<le>h. c' ! i = walk_back st (h - i) p" by auto
  have "link_ok st c' i" if "i < length c'" for i
  proof -
    have i: "i \<le> h" using that c'(2) by simp
    obtain q f where q: "walk_back st (h - i) p = Some q" "st q = Some f" "bi_nHeight f = int i"
      "walk_back st (Suc (h - i)) p = pprev f"
      using walk_back_all [OF assms(1,2), of "h - i"] i h by auto
    have "0 < i \<longrightarrow> c' ! (i - 1) = pprev f"
      using q(4) c'(3) i by (auto simp: Suc_diff_le [symmetric])
    then show ?thesis using q c'(3) i by (auto simp: link_ok_def)
  qed
  moreover have "nat (bi_nHeight e + 1) = Suc h" using h by simp
  ultimately show ?thesis using c' assms(2) h by (auto simp: SetTip_def chain_ok_def)
qed

lemma chain_at_iff:
  assumes "chain_ok st c" "st p = Some e" "0 \<le> bi_nHeight e"
  shows "chain_at c (bi_nHeight e) = Some p \<longleftrightarrow> Some p \<in> set c"
proof
  assume "chain_at c (bi_nHeight e) = Some p"
  then show "Some p \<in> set c" by (auto simp: chain_at_def split: if_splits) (metis nth_mem not_le nat_less_iff assms(3))
next
  assume "Some p \<in> set c"
  then obtain i where "i < length c" "c ! i = Some p" by (auto simp: in_set_conv_nth)
  then show "chain_at c (bi_nHeight e) = Some p" using assms by (auto simp: chain_ok_def link_ok_def chain_at_def)
qed

lemma fork_loop_spec:
  assumes "index_tree st" "chain_ok st c" "st p = Some e"
  shows "\<exists>k. fork_loop st c (Some p) = Some (walk_back st k p) \<and> (walk_back st k p = None \<or> walk_back st k p \<in> set c) \<and>
    (\<forall>j<k. walk_back st j p \<notin> set c)"
  using assms(3)
proof (induction "nat (bi_nHeight e)" arbitrary: p e rule: less_induct)
  case less
  have h: "0 \<le> bi_nHeight e" using index_tree_height(1) [OF assms(1) less.prems] .
  note at = chain_at_iff [OF assms(2) less.prems h]
  show ?case
  proof (cases "Some p \<in> set c")
    case True
    then have "fork_loop st c (Some p) = Some (Some p)" using at less.prems by (subst fork_loop.simps) simp
    then show ?thesis using True by (intro exI [of _ 0]) simp
  next
    case False
    then have s: "fork_loop st c (Some p) = fork_loop st c (pprev e)" using at less.prems by (subst fork_loop.simps) simp
    show ?thesis
    proof (cases "pprev e")
      case None
      then have "fork_loop st c (Some p) = Some None" using s by (simp add: fork_loop.simps)
      then show ?thesis using None less.prems False by (intro exI [of _ "Suc 0"]) simp
    next
      case (Some q)
      then obtain f where f: "st q = Some f" "bi_nHeight e = bi_nHeight f + 1"
        using index_tree_height(3) [OF assms(1) less.prems Some] by blast
      have "nat (bi_nHeight f) < nat (bi_nHeight e)" using f(2) index_tree_height(1) [OF assms(1) f(1)] by simp
      from less.hyps [OF this f(1)] obtain k where k: "fork_loop st c (Some q) = Some (walk_back st k q)"
        "walk_back st k q = None \<or> walk_back st k q \<in> set c" "\<forall>j<k. walk_back st j q \<notin> set c" by blast
      have "\<forall>j<Suc k. walk_back st j p \<notin> set c"
      proof (intro allI impI)
        fix j assume "j < Suc k"
        then show "walk_back st j p \<notin> set c" using k(3) False less.prems Some by (cases j) auto
      qed
      then show ?thesis using k(1,2) s Some less.prems by (intro exI [of _ "Suc k"]) simp
    qed
  qed
qed

lemma FindFork_run:
  assumes "index_tree st" "chain_ok st c" "st p = Some e"
  shows "\<exists>k. FindFork st c p = Some (walk_back st k p) \<and> (walk_back st k p = None \<or> walk_back st k p \<in> set c) \<and>
    (\<forall>j<k. walk_back st j p \<notin> set c)"
proof (cases "bi_nHeight e > chain_Height c")
  case False
  then show ?thesis using fork_loop_spec [OF assms] assms(3) by (simp add: FindFork_def)
next
  case True
  define m where "m = nat (bi_nHeight e - chain_Height c)"
  have high: "walk_back st j p \<notin> set c" if "j < m" for j
  proof
    assume a: "walk_back st j p \<in> set c"
    then obtain i where i: "i < length c" "c ! i = walk_back st j p" by (auto simp: in_set_conv_nth)
    then obtain q f where q: "walk_back st j p = Some q" "st q = Some f" "bi_nHeight f = int i"
      using assms(2) unfolding chain_ok_def link_ok_def by metis
    have "int j \<le> bi_nHeight e \<Longrightarrow> bi_nHeight f = bi_nHeight e - int j"
      using walk_back_exists [OF assms(1,3), of j] q by auto
    moreover have "int j < bi_nHeight e - chain_Height c" using that by (simp add: m_def zless_nat_eq_int_zless)
    ultimately show False using i(1) q(3) by (cases "int j \<le> bi_nHeight e") (simp_all add: chain_Height_def)
  qed
  have G: "GetAncestor st p (chain_Height c) = Some (if 0 \<le> chain_Height c then walk_back st m p else None)"
    using GetAncestor_back [OF assms(1,3)] True by (simp add: m_def)
  show ?thesis
  proof (cases "0 \<le> chain_Height c")
    case False
    then have "c = []" by (simp add: chain_Height_def split: if_splits)
    obtain q f where q: "walk_back st (nat (bi_nHeight e)) p = Some q" "st q = Some f" "bi_nHeight f = 0"
      "walk_back st (Suc (nat (bi_nHeight e))) p = pprev f"
      using walk_back_all [OF assms(1,3), of "nat (bi_nHeight e)"] index_tree_height(1) [OF assms(1,3)] by auto
    have "walk_back st (Suc (nat (bi_nHeight e))) p = None"
      using q index_tree_height(2) [OF assms(1) q(2)] by simp
    then show ?thesis using G False True assms(3) \<open>c = []\<close>
      by (intro exI [of _ "Suc (nat (bi_nHeight e))"]) (simp add: FindFork_def fork_loop.simps del: walk_back.simps)
  next
    case nn: True
    obtain q f where q: "walk_back st m p = Some q" "st q = Some f"
      using walk_back_exists [OF assms(1,3), of m] True nn by (auto simp: m_def)
    obtain k where k: "fork_loop st c (Some q) = Some (walk_back st k q)"
        "walk_back st k q = None \<or> walk_back st k q \<in> set c" "\<forall>j<k. walk_back st j q \<notin> set c"
      using fork_loop_spec [OF assms(1,2) q(2)] by blast
    have w: "walk_back st (m + j) p = walk_back st j q" for j using q(1) by (simp add: walk_back_add)
    have "\<forall>j<m + k. walk_back st j p \<notin> set c"
    proof (intro allI impI)
      fix j assume j: "j < m + k"
      show "walk_back st j p \<notin> set c"
      proof (cases "j < m")
        case False
        then have "walk_back st j p = walk_back st (j - m) q" using w [of "j - m"] by simp
        then show ?thesis using k(3) j False by auto
      qed (rule high)
    qed
    then show ?thesis using k(1,2) G nn True q(1) assms(3) w
      by (intro exI [of _ "m + k"]) (simp add: FindFork_def)
  qed
qed

lemma chain_at_walk:
  assumes "index_tree st" "chain_ok st c" "st p = Some e" "Some p \<in> set c" "0 \<le> n" "n \<le> bi_nHeight e"
  shows "chain_at c n = walk_back st (nat (bi_nHeight e - n)) p"
proof -
  obtain i where i: "i < length c" "c ! i = Some p" using assms(4) by (auto simp: in_set_conv_nth)
  then have h: "bi_nHeight e = int i" using assms(2,3) by (auto simp: chain_ok_def link_ok_def)
  have "c ! nat n = walk_back st (i - nat n) p"
    using link_ok_walk [OF assms(1) _ i(2), of "nat n"] assms(2,5,6) i(1) h by (auto simp: chain_ok_def)
  then show ?thesis using assms(5,6) h i(1) by (auto simp: chain_at_def nat_diff_distrib)
qed

text \<open>The hashes of entries that are found walking back from \<open>p\<close>.\<close>

definition ancestor_hash :: "index_store \<Rightarrow> nat \<Rightarrow> uint256 \<Rightarrow> bool" where
  "ancestor_hash st p h \<longleftrightarrow> (\<exists>k q f. walk_back st k p = Some q \<and> st q = Some f \<and> phashBlock f = Some h)"

lemma ancestor_hash_back:
  "walk_back st k p = Some q \<Longrightarrow> ancestor_hash st q h \<Longrightarrow> ancestor_hash st p h"
  by (auto simp: ancestor_hash_def) (metis walk_back_add bind.bind_lunit)

definition genesis_hash :: "index_store \<Rightarrow> nat \<Rightarrow> uint256 \<Rightarrow> bool" where
  "genesis_hash st p h \<longleftrightarrow> (\<exists>k q f. walk_back st k p = Some q \<and> st q = Some f \<and> bi_nHeight f = 0 \<and> phashBlock f = Some h)"

text \<open>
  The step doubles once ten hashes are there: after \<open>n\<close> hashes it is \<open>2 ^ (n - 10)\<close>, and the steps that are left before
  it would overflow reach down by \<open>locator_reach n\<close>.
\<close>

definition locator_reach :: "nat \<Rightarrow> int" where
  "locator_reach n = 2 ^ 30 - 2 ^ (n - 10) + int (10 - n)"

lemma locator_reach_0: "locator_reach 0 = 2 ^ 30 + 9"
  by (simp add: locator_reach_def)

lemma locator_reach_40: "locator_reach 40 = 0"
  by (simp add: locator_reach_def)

lemma locator_reach_step: "locator_reach (Suc n) = locator_reach n - 2 ^ (n - 10)"
proof (cases "n < 10")
  case True
  then show ?thesis by (simp add: locator_reach_def of_nat_diff)
next
  case False
  then have "Suc n - 10 = Suc (n - 10)" by simp
  then have "(2 :: int) ^ (Suc n - 10) = 2 * 2 ^ (n - 10)" by (simp only: power_Suc)
  then show ?thesis using False by (simp add: locator_reach_def)
qed

lemma locator_doubling: "(if Suc n > 10 then 2 ^ (n - 10) * 2 else 2 ^ (n - 10)) = (2 :: int) ^ (Suc n - 10)"
proof (cases "Suc n > 10")
  case True
  then have "Suc n - 10 = Suc (n - 10)" by simp
  then have "(2 :: int) ^ (Suc n - 10) = 2 ^ (n - 10) * 2" by (simp only: power_Suc mult.commute)
  then show ?thesis using True by (simp only: if_True)
qed simp

lemma locator_reach_nonneg: "n \<le> 40 \<Longrightarrow> 0 \<le> locator_reach n"
proof -
  assume "n \<le> 40"
  then have "(2 :: int) ^ (n - 10) \<le> 2 ^ 30" by (intro power_increasing) simp_all
  then show ?thesis by (simp add: locator_reach_def)
qed

text \<open>One turn of the loop.\<close>

lemma locator_turn:
  assumes "index_tree st" "chain_ok st c" "all_hashed st" "st p = Some e" "0 < bi_nHeight e"
  obtains h k q f where "phashBlock e = Some h" "walk_back st k p = Some q" "st q = Some f"
    "bi_nHeight f = max (bi_nHeight e - 2 ^ (length vHave - 10)) 0"
    "locator_loop st c (Some p) (2 ^ (length vHave - 10)) vHave =
      (if (2 :: int) ^ (Suc (length vHave) - 10) \<ge> 2 ^ 31 then None
       else locator_loop st c (Some q) (2 ^ (Suc (length vHave) - 10)) (vHave @ [h]))"
proof -
  obtain h where h: "phashBlock e = Some h" using assms(3,4) by (auto simp: all_hashed_def)
  define s where "s = (2 :: int) ^ (length vHave - 10)"
  define m where "m = max (bi_nHeight e - s) 0"
  have h0: "0 \<le> bi_nHeight e" and m: "0 \<le> m" "m \<le> bi_nHeight e" using assms(5) by (auto simp: m_def s_def)
  define k where "k = nat (bi_nHeight e - m)"
  obtain q f where q: "walk_back st k p = Some q" "st q = Some f" "bi_nHeight f = m"
    using walk_back_exists [OF assms(1,4), of k] m by (auto simp: k_def)
  have C: "chain_at c m = Some q" if "chain_at c (bi_nHeight e) = Some p"
    using chain_at_walk [OF assms(1,2,4) _ m] chain_at_iff [OF assms(2,4) h0] that q(1)
    by (simp add: k_def)
  have G: "GetAncestor st p m = Some (Some q)"
    using GetAncestor_back [OF assms(1,4)] m q(1) by (simp add: k_def)
  have d: "(if length (vHave @ [h]) > 10 then s * 2 else s) = 2 ^ (Suc (length vHave) - 10)"
    unfolding s_def length_append list.size One_nat_def add_Suc_right add_0_right by (rule locator_doubling)
  have "locator_loop st c (Some p) s vHave = (if (2 :: int) ^ (Suc (length vHave) - 10) \<ge> 2 ^ 31 then None
       else locator_loop st c (Some q) (2 ^ (Suc (length vHave) - 10)) (vHave @ [h]))"
    using assms(5) C G
    by (subst locator_loop.simps) (simp only: option.case assms(4) h Let_def m_def [symmetric] d, simp add: chain_Contains_def assms(4))
  then show thesis using that h q by (simp add: m_def s_def)
qed

lemma locator_loop_spec:
  assumes "index_tree st" "chain_ok st c" "all_hashed st" "st p = Some e" "length vHave \<le> 40"
  shows "if bi_nHeight e \<le> locator_reach (length vHave)
    then \<exists>l. locator_loop st c (Some p) (2 ^ (length vHave - 10)) vHave = Some (vHave @ l) \<and> length vHave + length l \<le> 41 \<and>
      l \<noteq> [] \<and> phashBlock e = Some (hd l) \<and> genesis_hash st p (last l) \<and> list_all (ancestor_hash st p) l
    else locator_loop st c (Some p) (2 ^ (length vHave - 10)) vHave = None"
  using assms(4-)
proof (induction "nat (bi_nHeight e)" arbitrary: p e vHave rule: less_induct)
  case less
  have h0: "0 \<le> bi_nHeight e" using index_tree_height(1) [OF assms(1) less.prems(1)] .
  have r0: "0 \<le> locator_reach (length vHave)" using less.prems(2) by (rule locator_reach_nonneg)
  show ?case
  proof (cases "bi_nHeight e = 0")
    case True
    obtain h where h: "phashBlock e = Some h" using assms(3) less.prems(1) by (auto simp: all_hashed_def)
    have "ancestor_hash st p h" using less.prems(1) h unfolding ancestor_hash_def by (intro exI [of _ "0 :: nat"] exI [of _ p] exI [of _ e]) simp
    moreover have "locator_loop st c (Some p) (2 ^ (length vHave - 10)) vHave = Some (vHave @ [h])"
      using less.prems(1) h True by (subst locator_loop.simps) simp
    moreover have "genesis_hash st p h" using True less.prems(1) h unfolding genesis_hash_def by (intro exI [of _ "0 :: nat"] exI [of _ p] exI [of _ e]) simp
    ultimately show ?thesis using True r0 less.prems(2) h by simp
  next
    case False
    then have pos: "0 < bi_nHeight e" using h0 by simp
    obtain h k q f where t: "phashBlock e = Some h" "walk_back st k p = Some q" "st q = Some f"
      "bi_nHeight f = max (bi_nHeight e - 2 ^ (length vHave - 10)) 0"
      "locator_loop st c (Some p) (2 ^ (length vHave - 10)) vHave =
        (if (2 :: int) ^ (Suc (length vHave) - 10) \<ge> 2 ^ 31 then None
         else locator_loop st c (Some q) (2 ^ (Suc (length vHave) - 10)) (vHave @ [h]))"
      using locator_turn [OF assms(1-3) less.prems(1) pos] by blast
    show ?thesis
    proof (cases "length vHave = 40")
      case True
      then show ?thesis using t(5) pos locator_reach_40 by simp
    next
      case n: False
      then have n40: "length (vHave @ [h]) \<le> 40" using less.prems(2) by simp
      have "(2 :: int) ^ (Suc (length vHave) - 10) \<le> 2 ^ 30" using n40 by (intro power_increasing) simp_all
      then have run: "locator_loop st c (Some p) (2 ^ (length vHave - 10)) vHave = locator_loop st c (Some q) (2 ^ (length (vHave @ [h]) - 10)) (vHave @ [h])"
        using t(5) by simp
      have "(1 :: int) \<le> 2 ^ (length vHave - 10)" by simp
      then have "nat (bi_nHeight f) < nat (bi_nHeight e)" using t(4) pos by linarith
      note ih = less.hyps [OF this t(3) n40]
      have le: "bi_nHeight f \<le> locator_reach (length (vHave @ [h])) \<longleftrightarrow> bi_nHeight e \<le> locator_reach (length vHave)"
        using locator_reach_step [of "length vHave"] locator_reach_nonneg [OF n40] t(4) by auto
      show ?thesis
      proof (cases "bi_nHeight e \<le> locator_reach (length vHave)")
        case True
        then obtain l where l: "locator_loop st c (Some q) (2 ^ (length (vHave @ [h]) - 10)) (vHave @ [h]) = Some ((vHave @ [h]) @ l)"
          "length (vHave @ [h]) + length l \<le> 41" "l \<noteq> []" "genesis_hash st q (last l)" "list_all (ancestor_hash st q) l"
          using ih le by auto
        have "ancestor_hash st p h" using less.prems(1) t(1) unfolding ancestor_hash_def by (intro exI [of _ "0 :: nat"] exI [of _ p] exI [of _ e]) simp
        moreover have "genesis_hash st p (last l)" using l(4) t(2) by (auto simp: genesis_hash_def) (metis walk_back_add bind.bind_lunit)
        moreover have "list_all (ancestor_hash st p) l"
          using l(5) ancestor_hash_back [OF t(2)] by (auto simp: list_all_iff)
        ultimately show ?thesis using l(1-3) run t(1) True by (intro if_P [THEN iffD2] exI [of _ "h # l"]) simp_all
      next
        case False
        then show ?thesis using ih le run by simp
      qed
    qed
  qed
qed

subsection \<open>The median of the past times\<close>

lemma sorted_nth_ge:
  fixes s :: "int list"
  assumes "sorted s" "k < length s"
  shows "m \<le> s ! k \<longleftrightarrow> length (filter (\<lambda>x. x < m) s) \<le> k"
proof
  assume m: "m \<le> s ! k"
  have "m \<le> x" if "x \<in> set (drop k s)" for x
    using that assms m by (auto simp: in_set_conv_nth) (metis le_add1 less_diff_conv2 add.commute less_or_eq_imp_le order_trans sorted_nth_mono less_diff_conv)
  then have "filter (\<lambda>x. x < m) (drop k s) = []" by (force simp: filter_empty_conv)
  then have "filter (\<lambda>x. x < m) s = filter (\<lambda>x. x < m) (take k s)"
    by (metis append_Nil2 append_take_drop_id filter_append)
  then have "length (filter (\<lambda>x. x < m) s) \<le> length (take k s)" by (metis length_filter_le)
  then show "length (filter (\<lambda>x. x < m) s) \<le> k" by simp
next
  assume l: "length (filter (\<lambda>x. x < m) s) \<le> k"
  show "m \<le> s ! k"
  proof (rule ccontr)
    assume n: "\<not> m \<le> s ! k"
    have "x < m" if "x \<in> set (take (Suc k) s)" for x
      using that assms n by (auto simp: in_set_conv_nth) (metis less_Suc_eq_le not_le order_le_less_trans sorted_nth_mono)
    then have "filter (\<lambda>x. x < m) (take (Suc k) s) = take (Suc k) s" by (simp add: filter_id_conv)
    then have "Suc k \<le> length (filter (\<lambda>x. x < m) s)"
      using assms(2) by (metis append_take_drop_id filter_append length_append length_take min_absorb2 le_add1 Suc_leI)
    then show False using l by simp
  qed
qed

lemma sort_nth_ge:
  fixes xs :: "int list"
  assumes "k < length xs"
  shows "m \<le> sort xs ! k \<longleftrightarrow> length (filter (\<lambda>x. x < m) xs) \<le> k"
proof -
  have "length (filter (\<lambda>x. x < m) (sort xs)) = length (filter (\<lambda>x. x < m) xs)"
    by (simp add: filter_sort)
  then show ?thesis using sorted_nth_ge [of "sort xs" k m] assms by simp
qed

lemma median_insert:
  fixes xs :: "int list"
  assumes "xs \<noteq> []" "sort xs ! (length xs div 2) < t" "length xs \<le> 11" "length xs = 11 \<or> n = length xs" "n \<le> length xs" "10 \<le> n \<or> n = length xs"
  shows "sort xs ! (length xs div 2) \<le> sort (t # take n xs) ! (length (t # take n xs) div 2)"
proof -
  let ?m = "sort xs ! (length xs div 2)"
  have "length (filter (\<lambda>x. x < ?m) xs) \<le> length xs div 2"
    using sort_nth_ge [of "length xs div 2" xs ?m] assms(1) by simp
  moreover have "length (filter (\<lambda>x. x < ?m) (take n xs)) \<le> length (filter (\<lambda>x. x < ?m) xs)"
    by (metis append_take_drop_id filter_append length_append le_add1)
  moreover have "length xs div 2 \<le> Suc (min (length xs) n) div 2" using assms(3-6) by auto
  ultimately have "length (filter (\<lambda>x. x < ?m) (t # take n xs)) \<le> length (t # take n xs) div 2"
    using assms(2) by simp
  then show ?thesis by (subst sort_nth_ge) auto
qed

lemma last_times_length: "last_times st n p = Some l \<Longrightarrow> length l \<le> n \<and> (n > 0 \<and> p \<noteq> None \<longrightarrow> l \<noteq> [])"
  by (induction st n p arbitrary: l rule: last_times.induct) (auto split: option.splits)

lemma last_times_take: "last_times st (Suc n) p = Some l \<Longrightarrow> last_times st n p = Some (take n l)"
proof (induction n arbitrary: p l)
  case (Suc n)
  then show ?case by (cases p) (auto split: option.splits)
qed (auto split: option.splits)

lemma last_times_total: "index_tree st \<Longrightarrow> p = None \<or> st (the p) \<noteq> None \<Longrightarrow> \<exists>l. last_times st n p = Some l"
proof (induction n arbitrary: p)
  case (Suc n)
  show ?case
  proof (cases p)
    case (Some x)
    then obtain e where e: "st x = Some e" using Suc.prems by auto
    have "pprev e = None \<or> st (the (pprev e)) \<noteq> None"
      using index_tree_height(3) [OF Suc.prems(1) e] by (cases "pprev e") auto
    then obtain l where "last_times st n (pprev e) = Some l" using Suc.IH [OF Suc.prems(1)] by blast
    then show ?thesis using Some e by simp
  qed simp
qed simp

lemma median_monotone:
  assumes "index_tree st" "st q = Some e" "pprev e = Some p" "GetMedianTimePast st p = Some m" "m < index_GetBlockTime e"
  shows "\<exists>m'. GetMedianTimePast st q = Some m' \<and> m \<le> m'"
proof -
  obtain l where l: "last_times st 11 (Some p) = Some l" "m = sort l ! (length l div 2)"
    using assms(4) by (auto simp: GetMedianTimePast_def nMedianTimeSpan_def)
  have n: "l \<noteq> []" "length l \<le> 11" using last_times_length [OF l(1)] by auto
  have "last_times st (Suc 10) (Some p) = Some l" using l(1) by (simp add: eval_nat_numeral)
  then have "last_times st 10 (Some p) = Some (take 10 l)" by (rule last_times_take)
  then have t: "last_times st (Suc 10) (Some q) = Some (index_GetBlockTime e # take 10 l)"
    using assms(2,3) by (simp only: last_times.simps option.case option.map)
  let ?n = "min 10 (length l)"
  have "sort l ! (length l div 2) \<le> sort (index_GetBlockTime e # take ?n l) ! (length (index_GetBlockTime e # take ?n l) div 2)"
    using n assms(5) l(2) by (intro median_insert) auto
  moreover have "take ?n l = take 10 l" by (metis min.commute take_all_iff min_def nat_le_linear take_all)
  moreover have "last_times st 11 (Some q) = Some (index_GetBlockTime e # take 10 l)" using t by (simp add: eval_nat_numeral)
  then have "GetMedianTimePast st q =
      Some (sort (index_GetBlockTime e # take 10 l) ! (length (index_GetBlockTime e # take 10 l) div 2))"
    by (simp only: GetMedianTimePast_def nMedianTimeSpan_def option.map)
  ultimately show ?thesis using l(2) by simp
qed

subsection \<open>Properties of the index and of the chain\<close>

lemma reachable_tree: "index_reachable XEVAN Hash modifier checksum s \<Longrightarrow> index_tree (entries s)"
  using index_reachable_ok by (auto simp: index_ok_def)

text \<open>
  C13: Adding blocks never follows a null pointer. In every state that adding blocks to the empty
  index reaches, adding another block succeeds and finds it under its hash afterwards, unless the block is new and follows
  an entry of height \<open>2 ^ 31 - 1\<close>, so that its height overflows; the entries
  are a tree with heights counted from its roots, every entry's work is its parent's plus its own
  proof, and no entry has more work than the best header.
\<close>

theorem index_invariant:
  assumes "index_reachable XEVAN Hash modifier checksum s"
    and "bh_hashPrevBlock (header block) \<noteq> block_GetHash XEVAN Hash block"
  shows "(if mapBlockIndex s (block_GetHash XEVAN Hash block) = None \<and> too_high s block
      then AddToBlockIndex XEVAN Hash modifier checksum junk block s = None
      else \<exists>p s'. AddToBlockIndex XEVAN Hash modifier checksum junk block s = Some (p, s') \<and>
        mapBlockIndex s' (block_GetHash XEVAN Hash block) = Some p) \<and>
    (\<forall>p e. entries s p = Some e \<longrightarrow> bi_nHeight e < 2 ^ 31 \<and>
      (case pprev e of
         None \<Rightarrow> bi_nHeight e = 0 \<and> nChainWork e = GetBlockProof e
       | Some q \<Rightarrow> \<exists>f. entries s q = Some f \<and> bi_nHeight e = bi_nHeight f + 1 \<and> nChainWork e = nChainWork f + GetBlockProof e) \<and>
      (\<exists>b f. pindexBestHeader s = Some b \<and> entries s b = Some f \<and> nChainWork e \<le> nChainWork f))"
proof -
  have ok: "index_ok s" using index_reachable_ok [OF assms(1)] .
  have "case pprev e of
         None \<Rightarrow> bi_nHeight e = 0 \<and> nChainWork e = GetBlockProof e
       | Some q \<Rightarrow> \<exists>f. entries s q = Some f \<and> bi_nHeight e = bi_nHeight f + 1 \<and> nChainWork e = nChainWork f + GetBlockProof e"
    if e: "entries s p = Some e" for p e
  proof -
    have t: "entry_tree (entries s) p e" "work_ok (entries s) e" using ok e by (simp_all add: index_ok_def index_tree_def)
    then show ?thesis by (auto simp: entry_tree_def work_ok_def split: option.splits)
  qed
  moreover have "\<exists>b f. pindexBestHeader s = Some b \<and> entries s b = Some f \<and> nChainWork e \<le> nChainWork f"
    if e: "entries s p = Some e" for p e
    using ok e by (cases "pindexBestHeader s") (auto simp: index_ok_def best_ok_def)
  moreover have "bi_nHeight e < 2 ^ 31" if "entries s p = Some e" for p e
    using ok that by (auto simp: index_ok_def all_int_def)
  moreover have "if mapBlockIndex s (block_GetHash XEVAN Hash block) = None \<and> too_high s block
      then AddToBlockIndex XEVAN Hash modifier checksum junk block s = None
      else \<exists>p s'. AddToBlockIndex XEVAN Hash modifier checksum junk block s = Some (p, s') \<and>
        mapBlockIndex s' (block_GetHash XEVAN Hash block) = Some p"
  proof (cases "mapBlockIndex s (block_GetHash XEVAN Hash block) = None \<and> too_high s block")
    case True
    then show ?thesis using AddToBlockIndex_overflow [OF assms(2) _ _ ok] by simp
  next
    case False
    then have "mapBlockIndex s (block_GetHash XEVAN Hash block) \<noteq> None \<or> \<not> too_high s block" by (simp only: de_Morgan_conj)
    from AddToBlockIndex_ok [OF ok assms(2) this, of modifier checksum junk] False show ?thesis by auto
  qed
  ultimately show ?thesis by blast
qed

text \<open>
  C11: The skip list finds what walking back finds. In every reachable index \<open>GetAncestor\<close> terminates
  without following a null pointer and gives the entry that following \<open>pprev\<close> gives, which has
  the height asked for; for a height outside of the entry's it gives the null pointer.
\<close>

theorem GetAncestor_walks:
  assumes "index_reachable XEVAN Hash modifier checksum s" "entries s p = Some e"
  shows "GetAncestor (entries s) p height =
      Some (if 0 \<le> height \<and> height \<le> bi_nHeight e then walk_back (entries s) (nat (bi_nHeight e - height)) p else None) \<and>
    (0 \<le> height \<and> height \<le> bi_nHeight e \<longrightarrow>
      (\<exists>q f. walk_back (entries s) (nat (bi_nHeight e - height)) p = Some q \<and> entries s q = Some f \<and> bi_nHeight f = height))"
proof -
  have t: "index_tree (entries s)" using index_reachable_ok [OF assms(1)] by (simp add: index_ok_def)
  show ?thesis using GetAncestor_back [OF t assms(2)] walk_back_exists [OF t assms(2), of "nat (bi_nHeight e - height)"] by auto
qed

text \<open>
  C12: Setting the tip rebuilds the whole chain. If the vector holds the ancestors of some entry of
  a reachable index, or is empty, then after \<open>SetTip\<close> it holds exactly the ancestors of the new
  tip by height: the early stop at the first entry that is there already loses nothing. Then
  \<open>Contains\<close> is true of the ancestors of the tip and of nothing else.
\<close>

theorem SetTip_spec:
  assumes "index_reachable XEVAN Hash modifier checksum s" "entries s p = Some e" "chain_ok (entries s) c"
  shows "\<exists>c'. SetTip (entries s) (Some p) c = Some c' \<and> chain_ok (entries s) c' \<and> chain_Height c' = bi_nHeight e \<and>
    (\<forall>h. 0 \<le> h \<and> h \<le> bi_nHeight e \<longrightarrow> chain_at c' h = walk_back (entries s) (nat (bi_nHeight e - h)) p) \<and>
    (\<forall>q f. entries s q = Some f \<longrightarrow>
      chain_Contains (entries s) c' q = Some (\<exists>k\<le>nat (bi_nHeight e). walk_back (entries s) k p = Some q))"
proof -
  have t: "index_tree (entries s)" using index_reachable_ok [OF assms(1)] by (simp add: index_ok_def)
  obtain c' where c': "SetTip (entries s) (Some p) c = Some c'" "int (length c') = bi_nHeight e + 1"
    "\<forall>i<length c'. c' ! i = walk_back (entries s) (length c' - 1 - i) p" "chain_ok (entries s) c'"
    using SetTip_run [OF t assms(2,3)] by blast
  have at: "chain_at c' h = walk_back (entries s) (nat (bi_nHeight e - h)) p" if "0 \<le> h" "h \<le> bi_nHeight e" for h
  proof -
    have "nat h < length c'" "length c' - 1 - nat h = nat (bi_nHeight e - h)" using that c'(2) by auto
    then show ?thesis using c'(2,3) that by (simp add: chain_at_def)
  qed
  have "chain_Contains (entries s) c' q = Some (\<exists>k\<le>nat (bi_nHeight e). walk_back (entries s) k p = Some q)"
    if q: "entries s q = Some f" for q f
  proof -
    have "Some q \<in> set c' \<longleftrightarrow> (\<exists>k\<le>nat (bi_nHeight e). walk_back (entries s) k p = Some q)"
    proof
      assume "Some q \<in> set c'"
      then obtain i where "i < length c'" "c' ! i = Some q" by (auto simp: in_set_conv_nth)
      then show "\<exists>k\<le>nat (bi_nHeight e). walk_back (entries s) k p = Some q"
        using c'(2,3) by (intro exI [of _ "length c' - 1 - i"]) auto
    next
      assume "\<exists>k\<le>nat (bi_nHeight e). walk_back (entries s) k p = Some q"
      then obtain k where k: "k \<le> nat (bi_nHeight e)" "walk_back (entries s) k p = Some q" by blast
      then have "length c' - 1 - k < length c'" "length c' - 1 - (length c' - 1 - k) = k"
        using c'(2) index_tree_height(1) [OF t assms(2)] by auto
      then show "Some q \<in> set c'" using c'(3) k(2) by (metis nth_mem)
    qed
    then show ?thesis using chain_at_iff [OF c'(4) q index_tree_height(1) [OF t q]] q by (simp add: chain_Contains_def)
  qed
  then show ?thesis using c'(1,2,4) at by (auto simp: chain_Height_def)
qed

text \<open>
  C39: \<open>FindFork\<close> gives the last common block. For a chain of a reachable index it returns the first
  entry on the way back from the given one that the chain holds, and the null pointer when no
  ancestor is in the chain.
\<close>

theorem FindFork_spec:
  assumes "index_reachable XEVAN Hash modifier checksum s" "entries s p = Some e" "chain_ok (entries s) c"
  shows "\<exists>k. FindFork (entries s) c p = Some (walk_back (entries s) k p) \<and>
    (walk_back (entries s) k p = None \<or> walk_back (entries s) k p \<in> set c) \<and>
    (\<forall>j<k. walk_back (entries s) j p \<notin> set c)"
proof -
  have "index_tree (entries s)" using index_reachable_ok [OF assms(1)] by (simp add: index_ok_def)
  from FindFork_run [OF this assms(3,2)] show ?thesis .
qed

text \<open>
  C28: The block locator, for an entry of a reachable index. Up to height \<open>2 ^ 30 + 9\<close> \<open>GetLocator\<close>
  terminates without an overflow of its step; its hashes are those of ancestors of the entry, the first one its own and the last
  one the genesis block's, and there are at most 41 of them. Above that height the doubling of the step overflows its \<open>int\<close>.
\<close>

theorem GetLocator_spec:
  assumes "index_reachable XEVAN Hash modifier checksum s" "entries s p = Some e" "chain_ok (entries s) c"
  shows "if bi_nHeight e \<le> 2 ^ 30 + 9
    then \<exists>l. GetLocator (entries s) c (Some p) = Some l \<and> length l \<le> 41 \<and> l \<noteq> [] \<and> phashBlock e = Some (hd l) \<and>
      genesis_hash (entries s) p (last l) \<and> list_all (ancestor_hash (entries s) p) l
    else GetLocator (entries s) c (Some p) = None"
proof -
  have t: "index_tree (entries s)" "all_hashed (entries s)"
    using index_reachable_ok [OF assms(1)] by (simp_all add: index_ok_def)
  show ?thesis using locator_loop_spec [OF t(1) assms(3) t(2) assms(2), of "[]"] locator_reach_0
    by (auto simp: GetLocator_def)
qed

text \<open>
  C40: The median time never decreases along a chain whose block times are above the median of
  their past: in an index that is a tree, as every reachable one is, if the time of a block is above
  its parent's median time past, then its own median time past is at least its parent's.
\<close>

theorem GetMedianTimePast_monotone:
  assumes "index_tree st" "st q = Some e" "pprev e = Some p"
    and "GetMedianTimePast st p = Some m" "m < index_GetBlockTime e"
  shows "\<exists>m'. GetMedianTimePast st q = Some m' \<and> m \<le> m'"
  using median_monotone [OF assms] .

subsection \<open>An index of two blocks\<close>

definition nonce_hash :: "bytes \<Rightarrow> uint256" where
  "nonce_hash bs = ucast (bs ! 76) + 1"

definition root_block :: CBlock where
  "root_block = block_SetNull\<lparr>header := header_SetNull\<lparr>bh_nTime := 100\<rparr>\<rparr>"

definition child_block :: CBlock where
  "child_block = block_SetNull\<lparr>header := header_SetNull\<lparr>bh_nTime := 200, bh_nNonce := 1, bh_hashPrevBlock := 1\<rparr>\<rparr>"

abbreviation add_sample :: "CBlock \<Rightarrow> index_state \<Rightarrow> (nat \<times> index_state) option" where
  "add_sample \<equiv> AddToBlockIndex nonce_hash nonce_hash (\<lambda>_ _. (5, True)) (\<lambda>_ _. 7) None"

definition index1 :: index_state where "index1 = snd (the (add_sample root_block index_empty))"
definition index2 :: index_state where "index2 = snd (the (add_sample child_block index1))"

lemma le_enc_4: "le_enc 4 n ! 0 = word_of_nat n"
  using le_enc.simps(2) [of 3 n] by simp

lemma sample_hashes:
  "block_GetHash nonce_hash nonce_hash root_block = 1" "block_GetHash nonce_hash nonce_hash child_block = 2"
  by (simp_all add: block_GetHash_def header_GetHash_def root_block_def child_block_def block_SetNull_def header_SetNull_def
    header_memory_def nonce_hash_def WRITEDATA_def u256_Serialize_def u32_Serialize_def nth_append to_u_def)
    (simp_all add: le_enc_4)

lemma sample_add:
  assumes "index_reachable nonce_hash nonce_hash (\<lambda>_ _. (5, True)) (\<lambda>_ _. 7) s" "bh_hashPrevBlock (header b) \<noteq> h"
    and "block_GetHash nonce_hash nonce_hash b = h" "mapBlockIndex s h = None" "s' = snd (the (add_sample b s))" "\<not> too_high s b"
  shows "index_reachable nonce_hash nonce_hash (\<lambda>_ _. (5, True)) (\<lambda>_ _. 7) s' \<and>
    (\<exists>p e. mapBlockIndex s' = (mapBlockIndex s)(h \<mapsto> p) \<and> entries s' p = Some e \<and> pprev e = mapBlockIndex s (bh_hashPrevBlock (header b)) \<and>
      bi_nTime e = bh_nTime (header b))"
proof -
  obtain p where p: "add_sample b s = Some (p, s')" "mapBlockIndex s' = (mapBlockIndex s)(h \<mapsto> p)"
    "\<exists>e. entries s' p = Some e \<and> pprev e = mapBlockIndex s (bh_hashPrevBlock (header b)) \<and> bi_nTime e = bh_nTime (header b)"
    using AddToBlockIndex_ok [where block = b and XEVAN = nonce_hash and Hash = nonce_hash and modifier = "\<lambda>_ _. (5, True)"
        and checksum = "\<lambda>_ _. 7" and junk = None, OF index_reachable_ok [OF assms(1)]] assms(2-6) by auto
  then show ?thesis using index_add [OF assms(1) _ p(1)] assms(2,3) by auto
qed

lemma index1:
  "index_reachable nonce_hash nonce_hash (\<lambda>_ _. (5, True)) (\<lambda>_ _. 7) index1"
  "\<exists>p e. mapBlockIndex index1 = [1 \<mapsto> p] \<and> entries index1 p = Some e \<and> pprev e = None \<and> bi_nTime e = 100"
  using sample_add [OF index_start _ sample_hashes(1) _ index1_def]
  by (auto simp: index_empty_def root_block_def header_SetNull_def too_high_def)

lemma index1_hashes: "mapBlockIndex index1 2 = None"
  using index1(2) by auto

lemma index1_height: "\<not> too_high index1 child_block"
proof -
  obtain p e where e: "mapBlockIndex index1 = [1 \<mapsto> p]" "entries index1 p = Some e" "pprev e = None" using index1(2) by blast
  have "bi_nHeight e = 0" using index_tree_height(2) [OF reachable_tree [OF index1(1)] e(2)] e(3) by simp
  then show ?thesis using e(1,2) by (auto simp: too_high_def split: if_splits)
qed

lemma index2:
  "index_reachable nonce_hash nonce_hash (\<lambda>_ _. (5, True)) (\<lambda>_ _. 7) index2"
  "\<exists>p e. mapBlockIndex index2 2 = Some p \<and> entries index2 p = Some e \<and> pprev e = mapBlockIndex index1 1 \<and> bi_nTime e = 200"
  using sample_add [OF index1(1) _ sample_hashes(2) index1_hashes index2_def index1_height]
  by (auto simp: child_block_def)

lemma index_invariant_witness:
  "\<exists>p s'. add_sample child_block index1 = Some (p, s') \<and> mapBlockIndex s' 2 = Some p"
proof -
  have "bh_hashPrevBlock (header child_block) \<noteq> block_GetHash nonce_hash nonce_hash child_block"
    by (simp only: sample_hashes) (simp add: child_block_def)
  then show ?thesis using index_invariant [where junk = None, OF index1(1), of child_block] index1_height by (simp add: sample_hashes)
qed

lemma GetAncestor_walks_witness:
  "\<exists>p e. entries index2 p = Some e \<and> bi_nTime e = 200 \<and> pprev e \<noteq> None \<and>
    GetAncestor (entries index2) p (bi_nHeight e - 1) = Some (pprev e)"
proof -
  obtain p e where e: "entries index2 p = Some e" "bi_nTime e = 200" "pprev e = mapBlockIndex index1 1" using index2(2) by blast
  obtain q where q: "pprev e = Some q" using e(3) index1(2) by auto
  have t: "index_tree (entries index2)" by (rule reachable_tree [OF index2(1)])
  obtain f where f: "entries index2 q = Some f" "bi_nHeight e = bi_nHeight f + 1" using index_tree_height(3) [OF t e(1) q] by blast
  have "0 \<le> bi_nHeight e - 1" using index_tree_height(1) [OF t f(1)] f(2) by simp
  then show ?thesis using GetAncestor_walks [OF index2(1) e(1), of "bi_nHeight e - 1"] f(2)
    by (intro exI [of _ p] exI [of _ e]) (auto simp: e(1,2) q)
qed

lemma SetTip_spec_witness:
  "\<exists>p e c'. entries index2 p = Some e \<and> bi_nTime e = 200 \<and> SetTip (entries index2) (Some p) [] = Some c' \<and> chain_at c' (bi_nHeight e) = Some p"
proof -
  obtain p e where e: "entries index2 p = Some e" "bi_nTime e = 200" using index2(2) by blast
  have h: "0 \<le> bi_nHeight e" using index_tree_height(1) [OF reachable_tree [OF index2(1)] e(1)] .
  have "chain_ok (entries index2) []" by (simp add: chain_ok_def)
  from SetTip_spec [OF index2(1) e(1) this] show ?thesis using e h by fastforce
qed

text \<open>A fork point of an entry with the chain of which it is the tip.\<close>

lemma FindFork_spec_witness:
  "\<exists>p e c. entries index2 p = Some e \<and> SetTip (entries index2) (Some p) [] = Some c \<and> FindFork (entries index2) c p = Some (Some p)"
proof -
  obtain p e where e: "entries index2 p = Some e" using index2(2) by blast
  have t: "index_tree (entries index2)" by (rule reachable_tree [OF index2(1)])
  have "chain_ok (entries index2) []" by (simp add: chain_ok_def)
  then obtain c where c: "SetTip (entries index2) (Some p) [] = Some c" "int (length c) = bi_nHeight e + 1"
    "\<forall>i<length c. c ! i = walk_back (entries index2) (length c - 1 - i) p" "chain_ok (entries index2) c"
    using SetTip_run [OF t e] by blast
  have "0 \<le> bi_nHeight e" using index_tree_height(1) [OF t e] .
  then have "length c - 1 < length c" using c(2) by linarith
  then have "Some p \<in> set c" using c(3) nth_mem [of "length c - 1" c] by simp
  moreover obtain k where k: "FindFork (entries index2) c p = Some (walk_back (entries index2) k p)"
    "\<forall>j<k. walk_back (entries index2) j p \<notin> set c" using FindFork_spec [OF index2(1) e c(4)] by blast
  ultimately have "k = 0" by (cases k) auto
  then show ?thesis using e c(1) k(1) by (intro exI [of _ p] exI [of _ e] exI [of _ c]) simp
qed

lemma GetLocator_spec_witness:
  "\<exists>p e l. entries index1 p = Some e \<and> GetLocator (entries index1) [] (Some p) = Some l \<and> phashBlock e = Some (hd l)"
proof -
  obtain p e where e: "entries index1 p = Some e" "pprev e = None" using index1(2) by blast
  have "bi_nHeight e = 0" using index_tree_height(2) [OF reachable_tree [OF index1(1)] e(1)] e(2) by simp
  moreover have "chain_ok (entries index1) []" by (simp add: chain_ok_def)
  ultimately show ?thesis using GetLocator_spec [OF index1(1) e(1), of "[]"] e by auto
qed

lemma last_times_None: "last_times st n None = Some []"
  by (cases n) simp_all

lemma last_times_11: "last_times st 11 (Some p) =
    (case st p of None \<Rightarrow> None | Some e \<Rightarrow> map_option (Cons (index_GetBlockTime e)) (last_times st 10 (pprev e)))"
  using last_times.simps(3) [of st 10 p] by simp

lemma GetMedianTimePast_monotone_witness:
  "\<exists>m'. GetMedianTimePast [0 \<mapsto> (CBlockIndex_SetNull None)\<lparr>bi_nTime := 100\<rparr>,
      1 \<mapsto> (CBlockIndex_SetNull None)\<lparr>bi_nTime := 200, bi_nHeight := 1, pprev := Some 0, pskip := Some 0\<rparr>] 1 = Some m' \<and> 100 \<le> m'"
  by (rule GetMedianTimePast_monotone [where p = 0])
    (auto simp: index_tree_def entry_tree_def CBlockIndex_SetNull_def GetSkipHeight_def GetMedianTimePast_def nMedianTimeSpan_def
      index_GetBlockTime_def last_times_11 last_times_None)

end
