(* ===== verification/Inputs.thy ===== *)
theory Inputs
  imports Connect ActiveChain
begin

section \<open>The checks of a transaction's inputs (main.h, main.cpp)\<close>

text \<open>
  \<open>CheckInputs\<close> with the script checks it runs or leaves to its caller. The coins come from a cache,
  the spending height from the block index entry of the cache's best block. A script
  check asks the signature cache, which the whole process shares, before it verifies a signature; what the cache holds at
  each call is a parameter, and its reachable contents are those that the calls build. The main lemma shows that acceptance is exactly
  the availability, maturity and value conditions on the map of unspent outputs, with every script verified, whatever
  the cache holds.
\<close>

subsection \<open>The signature cache (script/sigcache.cpp)\<close>

text \<open>
  The set of triples that were verified, as a list without duplicates; triples are the same when their hashes
  and signatures are and the keys compare equal. The random hash by which an entry is evicted gives a position, the parameter
  \<open>rnd\<close> of the size.
\<close>

type_synonym sigdata = "uint256 \<times> bytes \<times> CPubKey"

fun same_sigdata :: "sigdata \<Rightarrow> sigdata \<Rightarrow> bool" where
  "same_sigdata (hash, sig, key) (hash', sig', key') \<longleftrightarrow> hash = hash' \<and> sig = sig' \<and> pk_eq key key'"

definition sigcache_Get :: "sigdata list \<Rightarrow> sigdata \<Rightarrow> bool" where
  "sigcache_Get setValid k \<longleftrightarrow> list_ex (same_sigdata k) setValid"

function evict_loop :: "(nat \<Rightarrow> nat) \<Rightarrow> int \<Rightarrow> sigdata list \<Rightarrow> sigdata list" where
  "evict_loop rnd nMaxCacheSize setValid =
     (if int (length setValid) > nMaxCacheSize \<and> setValid \<noteq> []
      then let k = rnd (length setValid) mod length setValid
           in evict_loop rnd nMaxCacheSize (take k setValid @ drop (k + 1) setValid)
      else setValid)"
  by pat_completeness auto
termination
proof (relation "measure (\<lambda>(rnd, m, s). length s)")
  fix rnd :: "nat \<Rightarrow> nat" and nMaxCacheSize :: int and setValid :: "sigdata list" and k
  assume "int (length setValid) > nMaxCacheSize \<and> setValid \<noteq> []" "k = rnd (length setValid) mod length setValid"
  then have "k < length setValid" by simp
  then show "((rnd, nMaxCacheSize, take k setValid @ drop (k + 1) setValid), rnd, nMaxCacheSize, setValid)
      \<in> measure (\<lambda>(rnd, m, s). length s)" by simp
qed simp

declare evict_loop.simps [simp del]

definition sigcache_Set :: "(nat \<Rightarrow> nat) \<Rightarrow> int \<Rightarrow> sigdata \<Rightarrow> sigdata list \<Rightarrow> sigdata list" where
  "sigcache_Set rnd nMaxCacheSize k setValid =
     (if nMaxCacheSize \<le> 0 then setValid
      else let s = evict_loop rnd nMaxCacheSize setValid in if sigcache_Get s k then s else k # s)"

definition caching_VerifySignature ::
    "(CPubKey \<Rightarrow> uint256 \<Rightarrow> bytes \<Rightarrow> bool) \<Rightarrow> (nat \<Rightarrow> nat) \<Rightarrow> int \<Rightarrow> bool \<Rightarrow>
     bytes \<Rightarrow> CPubKey \<Rightarrow> uint256 \<Rightarrow> sigdata list \<Rightarrow> bool \<times> sigdata list" where
  "caching_VerifySignature Verify rnd nMaxCacheSize store vchSig pubkey sighash setValid =
     (if sigcache_Get setValid (sighash, vchSig, pubkey) then (True, setValid)
      else if \<not> Verify pubkey sighash vchSig then (False, setValid)
      else (True, if store then sigcache_Set rnd nMaxCacheSize (sighash, vchSig, pubkey) setValid else setValid))"

text \<open>
  The contents of the cache that the calls of \<open>CheckSig\<close> build, in any order and from any thread: each call passes
  the key it has made of the script's bytes, if that is valid.
\<close>

definition script_key :: "CPubKey \<Rightarrow> bool" where
  "script_key key \<longleftrightarrow> (\<exists>d. key = pk_Set (replicate PUBLIC_KEY_SIZE 0) d \<and> pk_IsValid key)"

inductive sigcache_reach :: "(CPubKey \<Rightarrow> uint256 \<Rightarrow> bytes \<Rightarrow> bool) \<Rightarrow> sigdata list \<Rightarrow> bool" for Verify where
  sigcache_empty: "sigcache_reach Verify []"
| sigcache_call: "sigcache_reach Verify s \<Longrightarrow> script_key key \<Longrightarrow>
    caching_VerifySignature Verify rnd m store sig key hash s = (r, s') \<Longrightarrow> sigcache_reach Verify s'"

definition sigcache_ok :: "(CPubKey \<Rightarrow> uint256 \<Rightarrow> bytes \<Rightarrow> bool) \<Rightarrow> sigdata list \<Rightarrow> bool" where
  "sigcache_ok Verify s \<longleftrightarrow> list_all (\<lambda>(hash, sig, key). script_key key \<and> Verify key hash sig) s"

lemma evict_loop_subset: "set (evict_loop rnd m s) \<subseteq> set s"
proof (induction rnd m s rule: evict_loop.induct)
  case (1 rnd m s)
  let ?k = "rnd (length s) mod length s"
  have "set (take ?k s @ drop (?k + 1) s) \<subseteq> set s" by (auto dest: in_set_takeD in_set_dropD)
  then show ?case using 1 by (subst evict_loop.simps) (auto simp: Let_def)
qed

lemma evict_loop_length: "0 \<le> m \<Longrightarrow> int (length (evict_loop rnd m s)) \<le> m"
  by (induction rnd m s rule: evict_loop.induct) (subst evict_loop.simps, auto simp: Let_def)

text \<open>Keys that scripts give are equal when they compare equal: the rest of their buffer is the same.\<close>

lemma script_key_eq: "script_key a \<Longrightarrow> script_key b \<Longrightarrow> pk_eq a b \<Longrightarrow> a = b"
proof -
  assume a: "script_key a" and b: "script_key b" and e: "pk_eq a b"
  have shape: "\<exists>d. k = d @ drop (length d) (replicate PUBLIC_KEY_SIZE 0) \<and> length d = pk_size k" if k: "script_key k" for k
  proof -
    obtain d where d: "k = pk_Set (replicate PUBLIC_KEY_SIZE 0) d" "pk_IsValid k" using k by (auto simp: script_key_def)
    have "pk_IsValid k \<longleftrightarrow> d \<noteq> [] \<and> GetLen (hd d) = length d" "pk_Raw k = d"
      using pk_Set_spec [of "replicate PUBLIC_KEY_SIZE 0" d] d by (simp_all add: PUBLIC_KEY_SIZE_def)
    moreover from this have "k = d @ drop (length d) (replicate PUBLIC_KEY_SIZE 0)" using d by (simp add: pk_Set_def)
    moreover have "pk_size k = length d"
      using calculation d(2) by (cases d) (auto simp: pk_size_def)
    ultimately show ?thesis by auto
  qed
  obtain c where c: "a = c @ drop (length c) (replicate PUBLIC_KEY_SIZE 0)" "length c = pk_size a" using shape [OF a] by blast
  obtain d where d: "b = d @ drop (length d) (replicate PUBLIC_KEY_SIZE 0)" "length d = pk_size b" using shape [OF b] by blast
  have h: "pk_size a = pk_size b" "take (pk_size a) a = take (pk_size a) b" using e by (auto simp: pk_eq_def pk_size_def)
  have "c = take (pk_size a) a" "d = take (pk_size a) b"
    using c d h(1) by (metis append_eq_conv_conj)+
  then have "c = d" using h(2) by simp
  then show "a = b" using c(1) d(1) by simp
qed

lemma sigcache_Get_ok:
  "sigcache_ok Verify s \<Longrightarrow> script_key key \<Longrightarrow> sigcache_Get s (hash, sig, key) \<Longrightarrow> Verify key hash sig"
  using script_key_eq [of key] by (fastforce simp: sigcache_Get_def sigcache_ok_def list_ex_iff list_all_iff)

text \<open>The cached verification is the verification, and the cache keeps only verified triples, within its bound.\<close>

lemma cached_verify_ok:
  assumes "sigcache_ok Verify s" "script_key key"
    and "caching_VerifySignature Verify rnd m store sig key hash s = (r, s')"
  shows "r = Verify key hash sig \<and> sigcache_ok Verify s' \<and> (int (length s) \<le> m + 1 \<longrightarrow> int (length s') \<le> m + 1)"
proof -
  have e: "sigcache_ok Verify (evict_loop rnd m s)"
    using assms(1) evict_loop_subset [of rnd m s] by (auto simp: sigcache_ok_def list_all_iff)
  have "sigcache_Get s (hash, sig, key) \<Longrightarrow> Verify key hash sig" using sigcache_Get_ok [OF assms(1,2)] .
  then show ?thesis using assms e evict_loop_length [of m rnd s]
    by (auto simp: caching_VerifySignature_def sigcache_Set_def Let_def sigcache_ok_def split: if_splits)
qed

lemma sigcache_reach_ok: "sigcache_reach Verify s \<Longrightarrow> sigcache_ok Verify s"
proof (induction rule: sigcache_reach.induct)
  case (sigcache_call s key rnd m store sig hash r s')
  then show ?case using cached_verify_ok by blast
qed (simp add: sigcache_ok_def)

subsection \<open>Script checks\<close>

record CScriptCheck =
  sc_scriptPubKey :: CScript
  ptxTo :: CTransaction
  sc_nIn :: nat
  sc_nFlags :: flags
  sc_cacheStore :: bool

text \<open>
  The cache as the checks see it: what the shared set holds when input \<open>nIn\<close> asks for a triple, the random positions and
  the maximal size (\<open>-maxsigcachesize\<close>). The verdict of one call is the first component of the result; what the call stores is in the
  set's later contents.
\<close>

record sigcache_env =
  sg_state :: "nat \<Rightarrow> sigdata \<Rightarrow> sigdata list"
  sg_rnd :: "nat \<Rightarrow> nat"
  sg_max :: int

definition caching_Verify ::
    "sigcache_env \<Rightarrow> (CPubKey \<Rightarrow> uint256 \<Rightarrow> bytes \<Rightarrow> bool) \<Rightarrow> nat \<Rightarrow> bool \<Rightarrow> CPubKey \<Rightarrow> uint256 \<Rightarrow> bytes \<Rightarrow> bool" where
  "caching_Verify G Verify nIn store pubkey sighash vchSig =
     fst (caching_VerifySignature Verify (sg_rnd G) (sg_max G) store vchSig pubkey sighash (sg_state G nIn (sighash, vchSig, pubkey)))"

text \<open>The environment of the interpreter for input \<open>nIn\<close> of \<open>tx\<close>; \<open>e\<close> gives the hash functions.\<close>

definition input_env ::
    "env \<Rightarrow> sigcache_env \<Rightarrow> (CPubKey \<Rightarrow> uint256 \<Rightarrow> bytes \<Rightarrow> bool) \<Rightarrow> (bytes \<Rightarrow> uint256) \<Rightarrow> CTransaction \<Rightarrow> nat \<Rightarrow> bool \<Rightarrow> env" where
  "input_env e G Verify Hash tx nIn cacheStore = e\<lparr>CheckSig := tx_CheckSig (caching_Verify G Verify nIn cacheStore) Hash tx nIn\<rparr>"

definition CScriptCheck_of :: "CCoins \<Rightarrow> CTransaction \<Rightarrow> nat \<Rightarrow> flags \<Rightarrow> bool \<Rightarrow> CScriptCheck option" where
  "CScriptCheck_of txFromIn txToIn nInIn nFlagsIn cacheIn =
     (let n = unat (op_n (prevout (vin txToIn ! nInIn)))
      in if nInIn < length (vin txToIn) \<and> n < length (cvout txFromIn)
         then Some \<lparr>sc_scriptPubKey = scriptPubKey (cvout txFromIn ! n), ptxTo = txToIn, sc_nIn = nInIn, sc_nFlags = nFlagsIn,
                sc_cacheStore = cacheIn\<rparr>
         else None)"

text \<open>The call of a check: the error it leaves, or nothing.\<close>

definition script_check_run ::
    "env \<Rightarrow> sigcache_env \<Rightarrow> (CPubKey \<Rightarrow> uint256 \<Rightarrow> bytes \<Rightarrow> bool) \<Rightarrow> (bytes \<Rightarrow> uint256) \<Rightarrow> CScriptCheck \<Rightarrow> stop + unit" where
  "script_check_run e G Verify Hash c =
     VerifyScript (input_env e G Verify Hash (ptxTo c) (sc_nIn c) (sc_cacheStore c)) (sc_nFlags c)
       (scriptSig (vin (ptxTo c) ! sc_nIn c)) (sc_scriptPubKey c)"

subsection \<open>CheckInputs\<close>

text \<open>The maturity and the values of the inputs: the sum so far, the inputs left.\<close>

fun input_values :: "CChainParams \<Rightarrow> int \<Rightarrow> CTxIn list \<Rightarrow> CAmount \<Rightarrow> view \<Rightarrow> failure + CAmount \<times> view" where
  "input_values P nSpendHeight [] nValueIn v = Inr (nValueIn, v)"
| "input_values P nSpendHeight (i # ins) nValueIn v =
     (case AccessCoins v (op_hash (prevout i)) of
        (None, v') \<Rightarrow> Inl Assertion
      | (Some coins, v') \<Rightarrow>
          if (fCoinBase coins \<or> fCoinStake coins) \<and> nSpendHeight - nHeight coins < nMaturity P
            then Inl (Invalid REJECT_INVALID ''bad-txns-premature-spend-of-coinbase'')
          else if unat (op_n (prevout i)) \<ge> length (cvout coins) then Inl OutOfRange
          else
            let value = nValue (cvout coins ! unat (op_n (prevout i)));
                nValueIn' = wrap_s 64 (nValueIn + value)
            in if \<not> MoneyRange P value \<or> \<not> MoneyRange P nValueIn'
                 then Inl (DoS 100 REJECT_INVALID ''bad-txns-inputvalues-outofrange'')
               else input_values P nSpendHeight ins nValueIn' v')"

text \<open>
  The fee of a transaction that is no coinstake; \<open>nFees\<close> starts at zero in each call. The exception is that
  of \<open>GetValueOut\<close>.
\<close>

definition check_fee :: "CChainParams \<Rightarrow> CTransaction \<Rightarrow> CAmount \<Rightarrow> failure + unit" where
  "check_fee P tx nValueIn =
     (if IsCoinStake tx then Inr ()
      else (case GetValueOut tx of
         Inl _ \<Rightarrow> Inl Exception
       | Inr nValueOut \<Rightarrow>
           if nValueIn < nValueOut then Inl (DoS 100 REJECT_INVALID ''bad-txns-in-belowout'')
           else
             let nTxFee = wrap_s 64 (nValueIn - nValueOut)
             in if nTxFee < 0 then Inl (DoS 100 REJECT_INVALID ''bad-txns-fee-negative'')
                else if \<not> MoneyRange P (wrap_s 64 (0 + nTxFee)) then Inl (DoS 100 REJECT_INVALID ''bad-txns-fee-outofrange'')
                else Inr ()))"

text \<open>
  The result of a failed check: a second check without the optional rules decides about the ban. The
  second check hides the first one, so that its own error, which is none, is reported.
\<close>

definition check_failure ::
    "env \<Rightarrow> sigcache_env \<Rightarrow> (CPubKey \<Rightarrow> uint256 \<Rightarrow> bytes \<Rightarrow> bool) \<Rightarrow> (bytes \<Rightarrow> uint256) \<Rightarrow> CScriptCheck \<Rightarrow> stop \<Rightarrow> failure" where
  "check_failure e G Verify Hash check err =
     (case err of
        Abort \<Rightarrow> Assertion
      | Err code \<Rightarrow>
          let second = check\<lparr>sc_nFlags := sc_nFlags check AND NOT STANDARD_NOT_MANDATORY_VERIFY_FLAGS\<rparr>;
              mandatory = (\<lambda>c. DoS 100 REJECT_INVALID (''mandatory-script-verify-flag-failed ('' @ ScriptErrorString c @ '')''))
          in if sc_nFlags check AND STANDARD_NOT_MANDATORY_VERIFY_FLAGS \<noteq> 0 then
               (case script_check_run e G Verify Hash second of
                  Inr _ \<Rightarrow> Invalid REJECT_NONSTANDARD (''non-mandatory-script-verify-flag ('' @ ScriptErrorString SCRIPT_ERR_OK @ '')'')
                | Inl Abort \<Rightarrow> Assertion
                | Inl (Err _) \<Rightarrow> mandatory code)
             else mandatory code)"

text \<open>
  The scripts of the inputs: input \<open>nIn\<close> and those after it. With \<open>fDefer\<close> the checks are returned,
  otherwise each is run when it is reached.
\<close>

fun input_scripts ::
    "env \<Rightarrow> sigcache_env \<Rightarrow> (CPubKey \<Rightarrow> uint256 \<Rightarrow> bytes \<Rightarrow> bool) \<Rightarrow> (bytes \<Rightarrow> uint256) \<Rightarrow> bool \<Rightarrow> flags \<Rightarrow> bool \<Rightarrow> CTransaction \<Rightarrow>
     nat \<Rightarrow> CTxIn list \<Rightarrow> CScriptCheck list \<Rightarrow> view \<Rightarrow> failure + CScriptCheck list \<times> view" where
  "input_scripts e G Verify Hash fDefer flags cacheStore tx nIn [] pvChecks v = Inr (pvChecks, v)"
| "input_scripts e G Verify Hash fDefer flags cacheStore tx nIn (i # ins) pvChecks v =
     (case AccessCoins v (op_hash (prevout i)) of
        (None, v') \<Rightarrow> Inl Assertion
      | (Some coins, v') \<Rightarrow>
     (case CScriptCheck_of coins tx nIn flags cacheStore of
        None \<Rightarrow> Inl OutOfRange
      | Some check \<Rightarrow>
          if fDefer then input_scripts e G Verify Hash fDefer flags cacheStore tx (nIn + 1) ins (pvChecks @ [check]) v'
          else (case script_check_run e G Verify Hash check of
             Inl err \<Rightarrow> Inl (check_failure e G Verify Hash check err)
           | Inr _ \<Rightarrow> input_scripts e G Verify Hash fDefer flags cacheStore tx (nIn + 1) ins pvChecks v')))"

text \<open>The height at which the inputs are spent: that of the entry after the cache's best block.\<close>

definition spend_height :: "index_state \<Rightarrow> uint256 \<Rightarrow> int option" where
  "spend_height ix best = map_option (\<lambda>e. bi_nHeight e + 1) (Option.bind (mapBlockIndex ix best) (entries ix))"

definition CheckInputs ::
    "CChainParams \<Rightarrow> env \<Rightarrow> sigcache_env \<Rightarrow> (CPubKey \<Rightarrow> uint256 \<Rightarrow> bytes \<Rightarrow> bool) \<Rightarrow> (bytes \<Rightarrow> uint256) \<Rightarrow> index_state \<Rightarrow> CTransaction \<Rightarrow>
     bool \<Rightarrow> flags \<Rightarrow> bool \<Rightarrow> bool \<Rightarrow> view \<Rightarrow> failure + CScriptCheck list \<times> view" where
  "CheckInputs P e G Verify Hash ix tx fScriptChecks flags cacheStore fDefer v =
     bindE (coinbase tx) (\<lambda>cb. if cb then Inr ([], v) else
     bindE (zerospend tx) (\<lambda>zs. if zs then Inr ([], v) else
     (case HaveInputs tx v of
        None \<Rightarrow> Inl OutOfRange
      | Some (have, v1) \<Rightarrow>
     if \<not> have then Inl (Invalid 0 [])
     else (case GetBestBlock v1 of (best, v2) \<Rightarrow>
     (case spend_height ix best of
        None \<Rightarrow> Inl OutOfRange
      | Some nSpendHeight \<Rightarrow>
          bindE (input_values P nSpendHeight (vin tx) 0 v2) (\<lambda>(nValueIn, v3).
          bindE (check_fee P tx nValueIn) (\<lambda>_.
          if fScriptChecks then input_scripts e G Verify Hash fDefer flags cacheStore tx 0 (vin tx) [] v3
          else Inr ([], v3))))))))"

subsection \<open>Acceptance\<close>

text \<open>The coins that an outpoint names, and what the rules ask of an input and of a transaction.\<close>

definition coins_of :: "umap \<Rightarrow> CTxIn \<Rightarrow> CCoins" where
  "coins_of U i = the (U (op_hash (prevout i)))"

definition input_out :: "umap \<Rightarrow> CTxIn \<Rightarrow> CTxOut" where
  "input_out U i = cvout (coins_of U i) ! unat (op_n (prevout i))"

definition input_available :: "umap \<Rightarrow> CTxIn \<Rightarrow> bool" where
  "input_available U i \<longleftrightarrow> (\<exists>c. U (op_hash (prevout i)) = Some c \<and> IsAvailable c (unat (op_n (prevout i))))"

definition input_mature :: "CChainParams \<Rightarrow> int \<Rightarrow> umap \<Rightarrow> CTxIn \<Rightarrow> bool" where
  "input_mature P h U i \<longleftrightarrow> (fCoinBase (coins_of U i) \<or> fCoinStake (coins_of U i) \<longrightarrow> nMaturity P \<le> h - nHeight (coins_of U i))"

definition input_value :: "umap \<Rightarrow> CTxIn \<Rightarrow> CAmount" where
  "input_value U i = nValue (input_out U i)"

definition total_in :: "umap \<Rightarrow> CTransaction \<Rightarrow> CAmount" where
  "total_in U tx = (\<Sum>i\<leftarrow>vin tx. input_value U i)"

definition input_verifies ::
    "env \<Rightarrow> (CPubKey \<Rightarrow> uint256 \<Rightarrow> bytes \<Rightarrow> bool) \<Rightarrow> (bytes \<Rightarrow> uint256) \<Rightarrow> flags \<Rightarrow> CTransaction \<Rightarrow> umap \<Rightarrow> nat \<Rightarrow> bool" where
  "input_verifies e Verify Hash flags tx U n \<longleftrightarrow>
     VerifyScript (e\<lparr>CheckSig := tx_CheckSig Verify Hash tx n\<rparr>) flags (scriptSig (vin tx ! n))
       (scriptPubKey (input_out U (vin tx ! n))) = Inr ()"

definition inputs_valid :: "CChainParams \<Rightarrow> int \<Rightarrow> umap \<Rightarrow> CTransaction \<Rightarrow> bool" where
  "inputs_valid P h U tx \<longleftrightarrow>
     list_all (input_available U) (vin tx) \<and> list_all (input_mature P h U) (vin tx) \<and>
     list_all (\<lambda>i. 0 \<le> input_value U i) (vin tx) \<and> total_in U tx \<le> nMaxMoneyOut P \<and>
     (\<not> IsCoinStake tx \<longrightarrow> (\<exists>out. GetValueOut tx = Inr out \<and> out \<le> total_in U tx))"

definition view_same :: "view \<Rightarrow> view \<Rightarrow> bool" where
  "view_same v v' \<longleftrightarrow> cache_ok v' \<and> utxo v' = utxo v \<and> best_block v' = best_block v"

lemma view_same_refl: "cache_ok v \<Longrightarrow> view_same v v"
  by (simp add: view_same_def)

lemma view_same_trans: "view_same u v \<Longrightarrow> view_same v w \<Longrightarrow> view_same u w"
  by (simp add: view_same_def)

lemma same_view_view_same: "same_view v v' \<Longrightarrow> cache_ok v \<Longrightarrow> v' = ViewCache b False hash m \<Longrightarrow> view_same v v'"
  using same_view_utxo [of v v'] same_view_ok [of v v'] by (auto simp: view_same_def cache_ok_def same_view_def)

lemma AccessCoins_ok:
  assumes "cache_ok v" "AccessCoins v t = (r, v')"
  shows "view_same v v' \<and> (case r of None \<Rightarrow> utxo v t = None | Some c \<Rightarrow> utxo v t = keep c)"
proof -
  obtain b hash m where v: "v = ViewCache b False hash m" using assms(1) by (auto simp: cache_ok_def)
  obtain b' m' where w: "v' = ViewCache b' False hash m'" "r = view_coins v t" "same_view v v'"
    using AccessCoins_cache assms(2) unfolding v by blast
  then show ?thesis using same_view_view_same [OF w(3) assms(1) w(1)] by (auto simp: utxo_def split: option.split)
qed

lemma AccessCoins_available:
  assumes "cache_ok v" "input_available (utxo v) i"
  shows "\<exists>v'. AccessCoins v (op_hash (prevout i)) = (Some (coins_of (utxo v) i), v') \<and> view_same v v'"
proof -
  obtain r v' where a: "AccessCoins v (op_hash (prevout i)) = (r, v')" by fastforce
  then show ?thesis using AccessCoins_ok [OF assms(1) a] assms(2)
    by (auto simp: input_available_def coins_of_def keep_def split: option.splits if_splits)
qed

lemma input_available_length:
  "input_available U i \<Longrightarrow> unat (op_n (prevout i)) < length (cvout (coins_of U i))"
  by (auto simp: input_available_def coins_of_def IsAvailable_def)

lemma have_inputs_ok:
  assumes "cache_ok v" "have_inputs_loop ins v = (r, v')"
  shows "r = list_all (input_available (utxo v)) ins \<and> view_same v v'"
  using assms
proof (induction ins arbitrary: v)
  case Nil
  then show ?case by (simp add: view_same_refl)
next
  case (Cons i ins)
  obtain c w where a: "AccessCoins v (op_hash (prevout i)) = (c, w)" by fastforce
  note ok = AccessCoins_ok [OF Cons.prems(1) a]
  have pr: "IsPruned k \<Longrightarrow> \<not> IsAvailable k n" for k n by (auto simp: IsPruned_unspent unspent_def IsAvailable_def)
  have av: "input_available (utxo v) i \<longleftrightarrow> (case c of None \<Rightarrow> False | Some k \<Rightarrow> IsAvailable k (unat (op_n (prevout i))))"
    using ok pr by (auto simp: input_available_def keep_def split: option.splits if_splits)
  show ?case
  proof (cases "input_available (utxo v) i")
    case True
    then have "have_inputs_loop ins w = (r, v')" using Cons.prems(2) a av by (auto split: option.splits)
    then show ?thesis using Cons.IH [of w] ok True view_same_trans by (auto simp: view_same_def)
  next
    case False
    then have "r = False \<and> v' = w" using Cons.prems(2) a av by (auto split: option.splits)
    then show ?thesis using ok False by simp
  qed
qed

lemma input_values_ok:
  assumes "cache_ok v" "list_all (input_available (utxo v)) ins" "0 \<le> s" "s \<le> nMaxMoneyOut P" "nMaxMoneyOut P < 2 ^ 62"
  shows "if list_all (input_mature P h (utxo v)) ins \<and> list_all (\<lambda>i. 0 \<le> input_value (utxo v) i) ins \<and>
            s + (\<Sum>i\<leftarrow>ins. input_value (utxo v) i) \<le> nMaxMoneyOut P
         then \<exists>v'. input_values P h ins s v = Inr (s + (\<Sum>i\<leftarrow>ins. input_value (utxo v) i), v') \<and> view_same v v'
         else \<exists>f. input_values P h ins s v = Inl f"
  using assms(1-4)
proof (induction ins arbitrary: v s)
  case Nil
  then show ?case by (simp add: view_same_refl)
next
  case (Cons i ins)
  let ?U = "utxo v" and ?M = "nMaxMoneyOut P"
  obtain w where a: "AccessCoins v (op_hash (prevout i)) = (Some (coins_of ?U i), w)" and w: "view_same v w"
    using AccessCoins_available [OF Cons.prems(1)] Cons.prems(2) by auto
  have len: "\<not> unat (op_n (prevout i)) \<ge> length (cvout (coins_of ?U i))"
    using input_available_length [of ?U i] Cons.prems(2) by simp
  have step: "input_values P h (i # ins) s v =
      (if \<not> input_mature P h ?U i then Inl (Invalid REJECT_INVALID ''bad-txns-premature-spend-of-coinbase'')
       else if \<not> MoneyRange P (input_value ?U i) \<or> \<not> MoneyRange P (wrap_s 64 (s + input_value ?U i))
         then Inl (DoS 100 REJECT_INVALID ''bad-txns-inputvalues-outofrange'')
       else input_values P h ins (wrap_s 64 (s + input_value ?U i)) w)"
    using a len by (auto simp: input_mature_def input_value_def input_out_def Let_def)
  show ?case
  proof (cases "input_mature P h ?U i \<and> 0 \<le> input_value ?U i \<and> input_value ?U i \<le> ?M \<and> s + input_value ?U i \<le> ?M")
    case True
    then have wr: "wrap_s 64 (s + input_value ?U i) = s + input_value ?U i"
      using wrap_add_range [of s ?M "input_value ?U i"] Cons.prems(3,4) assms(5) by simp
    have "input_values P h (i # ins) s v = input_values P h ins (s + input_value ?U i) w"
      unfolding step wr using True Cons.prems(3) by (simp add: MoneyRange_def)
    moreover have "utxo w = ?U" "cache_ok w" "best_block w = best_block v" using w by (simp_all add: view_same_def)
    ultimately show ?thesis using Cons.IH [of w "s + input_value ?U i"] Cons.prems(2,3) True
      by (auto simp: view_same_def add.assoc simp del: input_values.simps split: if_splits)
  next
    case False
    have "\<exists>f. input_values P h (i # ins) s v = Inl f"
    proof (cases "input_mature P h ?U i \<and> 0 \<le> input_value ?U i \<and> input_value ?U i \<le> ?M")
      case True
      then have "wrap_s 64 (s + input_value ?U i) = s + input_value ?U i"
        using wrap_add_range [of s ?M "input_value ?U i"] Cons.prems(3,4) assms(5) by simp
      then show ?thesis using True False step by (simp add: MoneyRange_def)
    next
      case False
      then show ?thesis using step by (auto simp: MoneyRange_def)
    qed
    moreover have "\<not> (list_all (input_mature P h ?U) (i # ins) \<and> list_all (\<lambda>i. 0 \<le> input_value ?U i) (i # ins) \<and>
        s + (\<Sum>i\<leftarrow>i # ins. input_value ?U i) \<le> ?M)"
    proof
      assume all: "list_all (input_mature P h ?U) (i # ins) \<and> list_all (\<lambda>i. 0 \<le> input_value ?U i) (i # ins) \<and>
        s + (\<Sum>i\<leftarrow>i # ins. input_value ?U i) \<le> ?M"
      then have "0 \<le> (\<Sum>i\<leftarrow>ins. input_value ?U i)" by (intro sum_list_nonneg) (auto simp: list_all_iff)
      then show False using all False Cons.prems(3) by auto
    qed
    ultimately show ?thesis by (simp only: if_False simp_thms)
  qed
qed

definition input_check :: "flags \<Rightarrow> bool \<Rightarrow> CTransaction \<Rightarrow> umap \<Rightarrow> nat \<Rightarrow> CScriptCheck" where
  "input_check flags cacheStore tx U n =
     \<lparr>sc_scriptPubKey = scriptPubKey (input_out U (vin tx ! n)), ptxTo = tx, sc_nIn = n, sc_nFlags = flags,
       sc_cacheStore = cacheStore\<rparr>"

definition input_passes ::
    "env \<Rightarrow> sigcache_env \<Rightarrow> (CPubKey \<Rightarrow> uint256 \<Rightarrow> bytes \<Rightarrow> bool) \<Rightarrow> (bytes \<Rightarrow> uint256) \<Rightarrow> flags \<Rightarrow> bool \<Rightarrow> CTransaction \<Rightarrow> umap \<Rightarrow> nat \<Rightarrow> bool" where
  "input_passes e G Verify Hash flags cs tx U n \<longleftrightarrow> script_check_run e G Verify Hash (input_check flags cs tx U n) = Inr ()"

text \<open>With a reachable cache, asking it first is verifying.\<close>

lemma caching_CheckSig:
  assumes "\<forall>n k. sigcache_reach Verify (sg_state G n k)"
  shows "tx_CheckSig (caching_Verify G Verify nIn store) Hash tx n = tx_CheckSig Verify Hash tx n"
proof -
  have "caching_Verify G Verify nIn store key hash sig = Verify key hash sig" if "script_key key" for key hash sig
  proof -
    have ok: "sigcache_ok Verify (sg_state G nIn (hash, sig, key))" using assms sigcache_reach_ok by blast
    obtain r s' where c: "caching_VerifySignature Verify (sg_rnd G) (sg_max G) store sig key hash (sg_state G nIn (hash, sig, key)) = (r, s')"
      by fastforce
    from cached_verify_ok [OF ok that c] c show ?thesis by (simp add: caching_Verify_def)
  qed
  then show ?thesis by (auto simp: fun_eq_iff tx_CheckSig_def Let_def script_key_def)
qed

lemma input_passes_verifies:
  "\<forall>n k. sigcache_reach Verify (sg_state G n k) \<Longrightarrow>
   input_passes e G Verify Hash flags cs tx U n \<longleftrightarrow> input_verifies e Verify Hash flags tx U n"
  by (simp add: input_passes_def script_check_run_def input_check_def input_verifies_def input_env_def caching_CheckSig)

lemma input_check_run:
  "script_check_run e G Verify Hash (input_check flags cs tx U n) = Inr () \<longleftrightarrow> input_passes e G Verify Hash flags cs tx U n"
  by (simp add: input_passes_def)

lemma input_scripts_ok:
  assumes "cache_ok v" "list_all (input_available (utxo v)) ins" "ins = drop k (vin tx)" "k \<le> length (vin tx)"
  shows "if fDefer \<or> (\<forall>n. k \<le> n \<and> n < length (vin tx) \<longrightarrow> input_passes e G Verify Hash flags cs tx (utxo v) n)
         then \<exists>v'. input_scripts e G Verify Hash fDefer flags cs tx k ins pv v =
           Inr (pv @ (if fDefer then map (input_check flags cs tx (utxo v)) [k..<length (vin tx)] else []), v') \<and> view_same v v'
         else \<exists>f. input_scripts e G Verify Hash fDefer flags cs tx k ins pv v = Inl f"
  using assms
proof (induction ins arbitrary: k v pv)
  case Nil
  then show ?case by (auto simp: view_same_refl)
next
  case (Cons i ins)
  let ?U = "utxo v"
  have k: "k < length (vin tx)" "vin tx ! k = i" "ins = drop (Suc k) (vin tx)"
  proof -
    show l: "k < length (vin tx)" using Cons.prems(3,4) by (cases "k = length (vin tx)") auto
    from Cons_nth_drop_Suc [OF l] Cons.prems(3) show "vin tx ! k = i" "ins = drop (Suc k) (vin tx)" by (metis list.inject)+
  qed
  obtain w where a: "AccessCoins v (op_hash (prevout i)) = (Some (coins_of ?U i), w)" and w: "view_same v w"
    using AccessCoins_available [OF Cons.prems(1)] Cons.prems(2) by auto
  have w': "utxo w = ?U" "cache_ok w" using w by (simp_all add: view_same_def)
  have c: "CScriptCheck_of (coins_of ?U i) tx k flags cs = Some (input_check flags cs tx ?U k)"
    using input_available_length [of ?U i] Cons.prems(2) k by (simp add: CScriptCheck_of_def input_check_def input_out_def)
  have step: "input_scripts e G Verify Hash fDefer flags cs tx k (i # ins) pv v =
      (if fDefer then input_scripts e G Verify Hash fDefer flags cs tx (Suc k) ins (pv @ [input_check flags cs tx ?U k]) w
       else (case script_check_run e G Verify Hash (input_check flags cs tx ?U k) of
         Inl err \<Rightarrow> Inl (check_failure e G Verify Hash (input_check flags cs tx ?U k) err)
       | Inr _ \<Rightarrow> input_scripts e G Verify Hash fDefer flags cs tx (Suc k) ins pv w))"
    by (simp add: a c split: sum.split)
  note IH = Cons.IH [OF w'(2) _ k(3), unfolded w'(1)]
  have up: "[k..<length (vin tx)] = k # [Suc k..<length (vin tx)]" using k(1) by (simp add: upt_conv_Cons)
  show ?case
  proof (cases fDefer)
    case True
    then show ?thesis using IH [of "pv @ [input_check flags cs tx ?U k]"] Cons.prems(2) k(1) w view_same_trans [of v w]
      unfolding step up by (auto simp: w'(1))
  next
    case False
    show ?thesis
    proof (cases "input_passes e G Verify Hash flags cs tx ?U k")
      case True
      then have r: "script_check_run e G Verify Hash (input_check flags cs tx ?U k) = Inr ()" by (simp add: input_check_run)
      define Q where "Q j \<longleftrightarrow> (\<forall>n. j \<le> n \<and> n < length (vin tx) \<longrightarrow> input_passes e G Verify Hash flags cs tx ?U n)" for j
      have eq: "Q k \<longleftrightarrow> Q (Suc k)" unfolding Q_def using True by (metis Suc_leD le_antisym not_less_eq_eq)
      show ?thesis using IH [of pv] Cons.prems(2) k(1) w view_same_trans [of v w] False r
        unfolding step Q_def [symmetric] eq by (cases "Q (Suc k)") (auto simp: w'(1))
    next
      case nv: False
      then obtain err where "script_check_run e G Verify Hash (input_check flags cs tx ?U k) = Inl err"
        using input_check_run [of e G Verify Hash flags cs tx ?U k] by (cases "script_check_run e G Verify Hash (input_check flags cs tx ?U k)") auto
      then show ?thesis unfolding step using False nv k(1) by auto
    qed
  qed
qed

lemma check_fee_ok:
  assumes "0 \<le> s" "s \<le> nMaxMoneyOut P" "nMaxMoneyOut P < 2 ^ 62" "\<forall>out\<in>set (vout tx). in_s 64 (nValue out)"
  shows "check_fee P tx s = Inr () \<longleftrightarrow> IsCoinStake tx \<or> (\<exists>out. GetValueOut tx = Inr out \<and> out \<le> s)"
proof (cases "GetValueOut tx")
  case (Inr out)
  then have "list_all (\<lambda>out. 0 \<le> nValue out) (vout tx)" "out = sum_list (map nValue (vout tx))"
    using GetValueOut_loop_spec [of 0 "vout tx" out] assms(4) by (auto simp: GetValueOut_def list_all_iff in_s_def)
  then have "0 \<le> out" by (auto simp: list_all_iff intro!: sum_list_nonneg)
  then have "wrap_s 64 (s - out) = s - out" if "out \<le> s" using that assms(1-3) by (intro wrap_s_id) (auto simp: in_s_def)
  then show ?thesis using Inr assms(1,2) \<open>0 \<le> out\<close> by (auto simp: check_fee_def MoneyRange_def)
qed (auto simp: check_fee_def)

lemma CheckInputs_run:
  assumes "cache_ok v" "has_inputs tx" "spend_height ix (best_block v) = Some h"
    and "0 \<le> nMaxMoneyOut P" "nMaxMoneyOut P < 2 ^ 62" "\<forall>out\<in>set (vout tx). in_s 64 (nValue out)"
  shows "if inputs_valid P h (utxo v) tx \<and>
            (fScriptChecks \<and> \<not> fDefer \<longrightarrow> (\<forall>n<length (vin tx). input_passes e G Verify Hash flags cs tx (utxo v) n))
         then \<exists>v'. CheckInputs P e G Verify Hash ix tx fScriptChecks flags cs fDefer v =
             Inr (if fScriptChecks \<and> fDefer then map (input_check flags cs tx (utxo v)) [0..<length (vin tx)] else [], v') \<and>
           cache_ok v' \<and> utxo v' = utxo v \<and> best_block v' = best_block v
         else \<exists>f. CheckInputs P e G Verify Hash ix tx fScriptChecks flags cs fDefer v = Inl f"
proof -
  have t: "IsCoinBase tx = Some False" "IsZerocoinSpend_tx tx = Some False" using assms(2) by (simp_all add: has_inputs_def)
  obtain av0 v1 where hv: "have_inputs_loop (vin tx) v = (av0, v1)" by fastforce
  note h1 = have_inputs_ok [OF assms(1) hv]
  obtain best v2 where gb: "GetBestBlock v1 = (best, v2)" by fastforce
  have v1: "cache_ok v1" "utxo v1 = utxo v" "best_block v1 = best_block v" using h1 by (simp_all add: view_same_def)
  have v2: "best = best_block v" "cache_ok v2" "utxo v2 = utxo v" "best_block v2 = best_block v"
    using GetBestBlock_cache_ok [OF v1(1) gb] v1 by simp_all
  have run: "CheckInputs P e G Verify Hash ix tx fScriptChecks flags cs fDefer v =
      (if \<not> av0 then Inl (Invalid 0 [])
       else bindE (input_values P h (vin tx) 0 v2) (\<lambda>(nValueIn, v3).
         bindE (check_fee P tx nValueIn) (\<lambda>_.
         if fScriptChecks then input_scripts e G Verify Hash fDefer flags cs tx 0 (vin tx) [] v3 else Inr ([], v3))))"
    using gb v2(1) assms(3) by (simp add: CheckInputs_def coinbase_def zerospend_def HaveInputs_def t hv)
  show ?thesis
  proof (cases "list_all (input_available (utxo v)) (vin tx)")
    case False
    then show ?thesis using h1 run by (simp add: inputs_valid_def)
  next
    case av: True
    then have av0 using h1 by simp
    note vals = input_values_ok [where P = P and h = h and s = 0 and ins = "vin tx", OF v2(2), unfolded v2(3)]
    show ?thesis
    proof (cases "list_all (input_mature P h (utxo v)) (vin tx) \<and> list_all (\<lambda>i. 0 \<le> input_value (utxo v) i) (vin tx) \<and>
        total_in (utxo v) tx \<le> nMaxMoneyOut P")
      case False
      then obtain f where "input_values P h (vin tx) 0 v2 = Inl f" using vals av assms(4,5) by (auto simp: total_in_def)
      then show ?thesis using run False \<open>av0\<close> by (auto simp: inputs_valid_def)
    next
      case True
      then obtain v3 where v3: "input_values P h (vin tx) 0 v2 = Inr (total_in (utxo v) tx, v3)" "view_same v2 v3"
        using vals av assms(4,5) by (auto simp: total_in_def)
      then have w: "cache_ok v3" "utxo v3 = utxo v" "best_block v3 = best_block v" using v2 by (simp_all add: view_same_def)
      have "0 \<le> total_in (utxo v) tx" using True by (auto simp: total_in_def list_all_iff intro!: sum_list_nonneg)
      then have fee: "check_fee P tx (total_in (utxo v) tx) = Inr () \<longleftrightarrow> inputs_valid P h (utxo v) tx"
        using check_fee_ok [OF _ _ assms(5,6)] True av by (auto simp: inputs_valid_def)
      show ?thesis
      proof (cases "check_fee P tx (total_in (utxo v) tx)")
        case (Inl f)
        then show ?thesis using run \<open>av0\<close> v3 fee by auto
      next
        case (Inr u)
        then have "inputs_valid P h (utxo v) tx" using fee by simp
        moreover have "CheckInputs P e G Verify Hash ix tx fScriptChecks flags cs fDefer v =
            (if fScriptChecks then input_scripts e G Verify Hash fDefer flags cs tx 0 (vin tx) [] v3 else Inr ([], v3))"
          using run \<open>av0\<close> v3 Inr by simp
        ultimately show ?thesis using w av
          input_scripts_ok [where fDefer = fDefer and e = e and G = G and Verify = Verify and Hash = Hash and flags = flags and cs = cs
            and pv = "[]" and ins = "vin tx" and k = 0 and tx = tx, OF w(1)]
          by (cases fDefer; cases fScriptChecks) (auto simp: view_same_def split: if_splits)
      qed
    qed
  qed
qed


text \<open>A transaction that spends a coinbase of height 2 after block 100.\<close>

definition tip_index :: index_state where
  "tip_index = index_empty\<lparr>mapBlockIndex := [9 \<mapsto> 0], entries := [0 \<mapsto> (CBlockIndex_SetNull None)\<lparr>bi_nHeight := 100\<rparr>]\<rparr>"

lemma serialize_1: "CScriptNum_serialize 1 = [1]"
  by code_simp

lemma OP_1_loop: "nOpCount s = 0 \<Longrightarrow> vfExec s = [] \<Longrightarrow> length (stack s) + length (altstack s) < 1000 \<Longrightarrow>
    eval_loop e 0 [OP_1] s = Inr (s\<lparr>stack := [1] # stack s\<rparr>)"
  using GetOp2_big [of OP_1 "[]"] serialize_1
  by (subst eval_loop.simps)
    (simp add: exec_instr_def Let_def disabled_ops_def exec_switch_def exec_OP_N_def MAX_SCRIPT_ELEMENT_SIZE_def)

lemma OP_1_verifies: "VerifyScript e 0 [OP_1] [OP_1] = Inr ()"
  by (simp add: VerifyScript_def EvalScript_def initial_state_def OP_1_loop)

text \<open>A signature cache that has remembered one verified triple.\<close>

definition cached_key :: CPubKey where
  "cached_key = pk_Set (replicate PUBLIC_KEY_SIZE 0) (2 # replicate 32 7)"

definition one_Verify :: "CPubKey \<Rightarrow> uint256 \<Rightarrow> bytes \<Rightarrow> bool" where
  "one_Verify key hash sig \<longleftrightarrow> hash = 1 \<and> sig = [48]"

definition sample_sigcache :: sigcache_env where
  "sample_sigcache = \<lparr>sg_state = \<lambda>_ _. [(1, [48], cached_key)], sg_rnd = \<lambda>_. 0, sg_max = 50000\<rparr>"

lemma sample_sigcache_reach: "\<forall>n k. sigcache_reach one_Verify (sg_state sample_sigcache n k)"
proof -
  have "pk_IsValid cached_key"
    using pk_Set_spec [of "replicate PUBLIC_KEY_SIZE 0" "2 # replicate 32 7"]
    by (simp add: cached_key_def PUBLIC_KEY_SIZE_def GetLen_def COMPRESSED_PUBLIC_KEY_SIZE_def)
  then have "script_key cached_key" by (auto simp: script_key_def cached_key_def)
  moreover have "caching_VerifySignature one_Verify (\<lambda>_. 0) 50000 True [48] cached_key 1 [] = (True, [(1, [48], cached_key)])"
    by (subst caching_VerifySignature_def, subst sigcache_Set_def, subst evict_loop.simps) (simp add: sigcache_Get_def one_Verify_def)
  ultimately show ?thesis using sigcache_call [OF sigcache_empty] by (auto simp: sample_sigcache_def)
qed


end
