(* ===== verification/Pow.thy ===== *)
theory Pow
  imports ActiveChain
begin

section \<open>Difficulty (pow.cpp)\<close>

text \<open>
  The next difficulty and the check of a block's claim. The arithmetic is that of \<open>uint256\<close> words;
  a signed factor is converted to 32 bits, because that overload of \<open>*=\<close> is the better match, and
  a signed divisor to 64 bits. \<open>None\<close> is a null pointer that is dereferenced or the exception of a
  division by zero. The lemmas show that the result is always within the limit, and that for
  the proof-of-stake blocks it is the exact rational rule whenever blocks are not months apart.
\<close>

definition target_of :: "u32 \<Rightarrow> uint256" where
  "target_of nBits = w256 (fst (SetCompact nBits))"

definition mul_int :: "uint256 \<Rightarrow> int \<Rightarrow> uint256" where
  "mul_int a b = a * ucast (word_of_int b :: u32)"

definition div_int :: "uint256 \<Rightarrow> int \<Rightarrow> uint256 option" where
  "div_int a b = (let d = ucast (word_of_int b :: u64) in if d = 0 then None else Some (a div d))"

definition compact_of :: "uint256 \<Rightarrow> u32 option" where
  "compact_of w = GetCompact (l256 w) False"

text \<open>Blocks after the last proof-of-work block: the target moves towards the spacing.\<close>

definition stake_target :: "CBlockIndex \<Rightarrow> CBlockIndex \<Rightarrow> uint256 option" where
  "stake_target tip prev =
     (let bnTargetLimit = drop_bit 24 (NOT 0);
          nTargetSpacing = 60;
          nTargetTimespan = 60 * 40;
          nActualSpacing0 = (if bi_nHeight tip \<noteq> 0 then index_GetBlockTime tip - index_GetBlockTime prev else 0);
          nActualSpacing = (if nActualSpacing0 < 0 then 1 else nActualSpacing0);
          nInterval = nTargetTimespan sdiv nTargetSpacing;
          bnNew = mul_int (target_of (bi_nBits tip)) ((nInterval - 1) * nTargetSpacing + nActualSpacing + nActualSpacing)
      in map_option (\<lambda>q. if q \<le> 0 \<or> q > bnTargetLimit then bnTargetLimit else q)
           (div_int bnNew ((nInterval + 1) * nTargetSpacing)))"

text \<open>
  The loop over the last blocks: how many more may be read, \<open>BlockReading\<close>, the count, the average, the
  timespan and the time of the block read last. \<open>PastDifficultyAveragePrev\<close> is the average of the
  previous round; the count never passes \<open>PastBlocksMin\<close>, which is \<open>PastBlocksMax\<close>.
\<close>

fun gravity_loop ::
    "index_store \<Rightarrow> nat \<Rightarrow> nat option \<Rightarrow> int \<Rightarrow> uint256 \<Rightarrow> int \<Rightarrow> int \<Rightarrow> (int \<times> uint256 \<times> int) option" where
  "gravity_loop st 0 BlockReading CountBlocks average nActualTimespan LastBlockTime =
     Some (CountBlocks, average, nActualTimespan)"
| "gravity_loop st (Suc n) BlockReading CountBlocks average nActualTimespan LastBlockTime =
     (case BlockReading of
        None \<Rightarrow> Some (CountBlocks, average, nActualTimespan)
      | Some p \<Rightarrow>
     (case st p of
        None \<Rightarrow> None
      | Some e \<Rightarrow>
          if \<not> bi_nHeight e > 0 then Some (CountBlocks, average, nActualTimespan)
          else
          let CountBlocks' = CountBlocks + 1;
              t = index_GetBlockTime e;
              nActualTimespan' = (if LastBlockTime > 0 then nActualTimespan + (LastBlockTime - t) else nActualTimespan)
          in (case (if CountBlocks' = 1 then Some (target_of (bi_nBits e))
                    else div_int (mul_int average CountBlocks' + target_of (bi_nBits e)) (CountBlocks' + 1)) of
             None \<Rightarrow> None
           | Some average' \<Rightarrow>
               (case pprev e of
                  None \<Rightarrow> Some (CountBlocks', average', nActualTimespan')
                | Some q \<Rightarrow> gravity_loop st n (Some q) CountBlocks' average' nActualTimespan' t))))"

definition work_target :: "CChainParams \<Rightarrow> index_store \<Rightarrow> nat \<Rightarrow> CBlockIndex \<Rightarrow> uint256 option" where
  "work_target P st p tip =
     (case gravity_loop st 24 (Some p) 0 0 0 0 of
        None \<Rightarrow> None
      | Some (CountBlocks, average, span0) \<Rightarrow>
          let T = CountBlocks * (if bi_nHeight tip > nLastPOWBlock P then nTargetSpacing P else nTargetSpacingSlowLaunch P);
              span1 = (if span0 < T sdiv 3 then T sdiv 3 else span0);
              span = (if span1 > T * 3 then T * 3 else span1)
          in map_option (\<lambda>q. if q > bnProofOfWorkLimit P then bnProofOfWorkLimit P else q)
               (div_int (mul_int average span) T))"

definition DarkGravityWave :: "CChainParams \<Rightarrow> index_store \<Rightarrow> nat option \<Rightarrow> u32 option" where
  "DarkGravityWave P st pindexLast =
     (case pindexLast of
        None \<Rightarrow> compact_of (bnProofOfWorkLimit P)
      | Some p \<Rightarrow>
     (case st p of
        None \<Rightarrow> None
      | Some tip \<Rightarrow>
          if bi_nHeight tip = 0 \<or> bi_nHeight tip < 24 then compact_of (bnProofOfWorkLimit P)
          else if bi_nHeight tip > nLastPOWBlock P then
            (case Option.bind (pprev tip) st of
               None \<Rightarrow> None
             | Some prev \<Rightarrow> Option.bind (stake_target tip prev) compact_of)
          else Option.bind (work_target P st p tip) compact_of))"

definition GetNextWorkRequired :: "CChainParams \<Rightarrow> index_store \<Rightarrow> nat option \<Rightarrow> u32 option" where
  "GetNextWorkRequired P st pindexLast = DarkGravityWave P st pindexLast"

text \<open>The comparison of the hash with the target is commented out in the code.\<close>

definition CheckProofOfWork :: "CChainParams \<Rightarrow> uint256 \<Rightarrow> u32 \<Rightarrow> bool" where
  "CheckProofOfWork P hash nBits =
     (if fSkipProofOfWorkCheck P then True
      else let (n, fNegative, fOverflow) = SetCompact nBits; bnTarget = w256 n
           in \<not> (fNegative \<or> bnTarget = 0 \<or> fOverflow \<or> bnTarget > bnProofOfWorkLimit P))"

subsection \<open>The next target is within the limit\<close>

lemma compact_of_le: "\<exists>c r. compact_of w = Some c \<and> SetCompact c = (r, False, False) \<and> target_of c = w256 r \<and> w256 r \<le> w"
proof -
  obtain c r where c: "GetCompact (l256 w) False = Some c" "SetCompact c = (r, False, False)" "uval r \<le> uval (l256 w)"
    using SetCompact_reread [of "l256 w"] by auto
  have "length r = 8" using length_SetCompact [of c] c(2) by simp
  then have "w256 r \<le> w" using c(3) by (simp add: word_le_nat_alt unat_w256 uval_l256)
  then show ?thesis using c by (simp add: compact_of_def target_of_def)
qed

lemma unat_ucast_64_256 [simp]: "unat (ucast (w :: u64) :: uint256) = unat w"
  using unsigned_less [of w, where ?'a = nat] by (simp add: unsigned_ucast_eq take_bit_nat_eq_self)

lemma unat_ucast_32_256 [simp]: "unat (ucast (w :: u32) :: uint256) = unat w"
  using unsigned_less [of w, where ?'a = nat] by (simp add: unsigned_ucast_eq take_bit_nat_eq_self)

lemma unat_of_int: "0 \<le> b \<Longrightarrow> b < 2 ^ LENGTH('a) \<Longrightarrow> unat (word_of_int b :: 'a :: len word) = nat b"
  by (simp add: unat_eq_nat_uint uint_word_of_int)

lemma div_int_pos:
  assumes "0 < b" "b < 2 ^ 64"
  shows "\<exists>q. div_int a b = Some q \<and> unat q = unat a div nat b"
proof -
  have u: "unat (ucast (word_of_int b :: u64) :: uint256) = nat b" using assms by (simp add: unat_of_int)
  then have "ucast (word_of_int b :: u64) \<noteq> (0 :: uint256)" using assms(1) by (auto simp: unat_eq_zero [symmetric])
  then show ?thesis using u by (simp add: div_int_def Let_def unat_div)
qed

lemma gravity_loop_spec:
  assumes "index_tree st" "st p = Some e" "int n \<le> bi_nHeight e" "0 \<le> c" "c + int n < 2 ^ 32"
  shows "\<exists>a' s'. gravity_loop st n (Some p) c a s l = Some (c + int n, a', s')"
  using assms(2-)
proof (induction n arbitrary: p e c a s l)
  case (Suc n)
  have h: "0 < bi_nHeight e" using Suc.prems(2) by simp
  obtain q f where q: "pprev e = Some q" "st q = Some f" "bi_nHeight e = bi_nHeight f + 1"
    using index_tree_height [OF assms(1) Suc.prems(1)] h by fastforce
  obtain a' where a': "(if c + 1 = 1 then Some (target_of (bi_nBits e))
      else div_int (mul_int a (c + 1) + target_of (bi_nBits e)) (c + 1 + 1)) = Some a'"
    using div_int_pos [of "c + 1 + 1" "mul_int a (c + 1) + target_of (bi_nBits e)"] Suc.prems(3,4)
    by (cases "c + 1 = 1") (auto simp: add.commute)
  have "\<exists>a'' s''. gravity_loop st n (Some q) (c + 1) a' s1 l1 = Some (c + 1 + int n, a'', s'')" for s1 l1
    using Suc.prems(2-4) q(3) by (intro Suc.IH [OF q(2)]) auto
  moreover have "gravity_loop st (Suc n) (Some p) c a s l =
      gravity_loop st n (Some q) (c + 1) a' (if l > 0 then s + (l - index_GetBlockTime e) else s) (index_GetBlockTime e)"
    by (simp only: gravity_loop.simps option.case Suc.prems(1) Let_def h not_True_eq_False if_False a' q(1))
  ultimately show ?case by (simp add: ac_simps)
qed simp

lemma work_target_spec:
  assumes "index_tree st" "st p = Some tip" "24 \<le> bi_nHeight tip"
    and "0 < nTargetSpacing P" "nTargetSpacing P < 2 ^ 32" "0 < nTargetSpacingSlowLaunch P" "nTargetSpacingSlowLaunch P < 2 ^ 32"
  shows "\<exists>w. work_target P st p tip = Some w \<and> w \<le> bnProofOfWorkLimit P"
proof -
  obtain a s where g: "gravity_loop st 24 (Some p) 0 0 0 0 = Some (24, a, s)"
    using gravity_loop_spec [OF assms(1,2), of 24 0 0 0 0] assms(3) by auto
  let ?T = "24 * (if bi_nHeight tip > nLastPOWBlock P then nTargetSpacing P else nTargetSpacingSlowLaunch P)"
  have "0 < ?T" "?T < 2 ^ 64" using assms(4-7) by auto
  then have d: "\<exists>q. div_int x ?T = Some q" for x using div_int_pos by blast
  have "\<exists>x. work_target P st p tip = map_option (\<lambda>q. if q > bnProofOfWorkLimit P then bnProofOfWorkLimit P else q) (div_int x ?T)"
    unfolding work_target_def g option.case prod.case Let_def by blast
  then obtain x where x: "work_target P st p tip = map_option (\<lambda>q. if q > bnProofOfWorkLimit P then bnProofOfWorkLimit P else q) (div_int x ?T)" ..
  obtain q where "div_int x ?T = Some q" using d by blast
  then show ?thesis by (simp only: x) (simp add: not_less)
qed

lemma stake_target_eq:
  "\<exists>q. stake_target tip prev = Some (if q \<le> 0 \<or> q > drop_bit 24 (NOT 0) then drop_bit 24 (NOT 0) else q) \<and>
    div_int (mul_int (target_of (bi_nBits tip))
      (2340 + 2 * (if bi_nHeight tip = 0 then 0 else if index_GetBlockTime tip < index_GetBlockTime prev then 1
                   else index_GetBlockTime tip - index_GetBlockTime prev))) 2460 = Some q"
proof -
  let ?m = "2340 + 2 * (if bi_nHeight tip = 0 then 0 else if index_GetBlockTime tip < index_GetBlockTime prev then 1
                   else index_GetBlockTime tip - index_GetBlockTime prev) :: int"
  obtain q where q: "div_int (mul_int (target_of (bi_nBits tip)) ?m) 2460 = Some q" using div_int_pos [of 2460] by fastforce
  have "stake_target tip prev = map_option (\<lambda>q. if q \<le> 0 \<or> q > drop_bit 24 (NOT 0) then drop_bit 24 (NOT 0) else q)
      (div_int (mul_int (target_of (bi_nBits tip)) ?m) 2460)"
    unfolding stake_target_def Let_def
    by (rule arg_cong [where f = "map_option _"], rule arg_cong2 [where f = div_int], rule arg_cong2 [where f = mul_int])
      (auto simp: signed_divide_int_def)
  then show ?thesis using q by auto
qed

lemma stake_target_le: "\<exists>w. stake_target tip prev = Some w \<and> w \<le> drop_bit 24 (NOT 0)"
proof -
  obtain q where "stake_target tip prev = Some (if q \<le> 0 \<or> q > drop_bit 24 (NOT 0) then drop_bit 24 (NOT 0) else q)"
    using stake_target_eq by blast
  then show ?thesis by (auto simp: not_less)
qed

text \<open>
  C17: The next difficulty always exists and is within the limit: for every entry of an index that is
  a tree (as every reachable one is), and spacings between one and \<open>2 ^ 32\<close> seconds,
  \<open>GetNextWorkRequired\<close> follows no null pointer and divides by no zero, and the number it returns
  stands for a target that is not negative, does not overflow, and is at most the proof-of-work
  limit, or \<open>2 ^ 232 - 1\<close> after the last proof-of-work block.
\<close>

theorem next_target_bounded:
  assumes "index_tree st" "st p = Some tip"
    and "0 < nTargetSpacing P" "nTargetSpacing P < 2 ^ 32" "0 < nTargetSpacingSlowLaunch P" "nTargetSpacingSlowLaunch P < 2 ^ 32"
  shows "\<exists>c r. GetNextWorkRequired P st (Some p) = Some c \<and> SetCompact c = (r, False, False) \<and>
    target_of c \<le> (if 24 \<le> bi_nHeight tip \<and> nLastPOWBlock P < bi_nHeight tip then drop_bit 24 (NOT 0) else bnProofOfWorkLimit P)"
proof -
  let ?B = "if 24 \<le> bi_nHeight tip \<and> nLastPOWBlock P < bi_nHeight tip then drop_bit 24 (NOT 0) else bnProofOfWorkLimit P"
  have c: "\<exists>c r. compact_of w = Some c \<and> SetCompact c = (r, False, False) \<and> target_of c \<le> ?B" if "w \<le> ?B" for w
  proof -
    obtain c r where "compact_of w = Some c" "SetCompact c = (r, False, False)" "target_of c = w256 r" "w256 r \<le> w"
      using compact_of_le [of w] by blast
    then show ?thesis using that by (intro exI [of _ c] exI [of _ r]) (simp only: order_trans [of "w256 r" w] simp_thms)
  qed
  have h: "0 \<le> bi_nHeight tip" using index_tree_height(1) [OF assms(1,2)] .
  consider "bi_nHeight tip < 24" | "24 \<le> bi_nHeight tip" "bi_nHeight tip > nLastPOWBlock P"
    | "24 \<le> bi_nHeight tip" "\<not> bi_nHeight tip > nLastPOWBlock P" by linarith
  then show ?thesis
  proof cases
    case 1
    then show ?thesis using c [of "bnProofOfWorkLimit P"] assms(2) by (simp add: GetNextWorkRequired_def DarkGravityWave_def)
  next
    case 2
    obtain q f where q: "pprev tip = Some q" "st q = Some f"
      using index_tree_height [OF assms(1,2)] 2(1) by fastforce
    obtain w where w: "stake_target tip f = Some w" "w \<le> drop_bit 24 (NOT 0)" using stake_target_le by blast
    have "GetNextWorkRequired P st (Some p) = compact_of w"
      using 2 q w(1) assms(2) by (simp add: GetNextWorkRequired_def DarkGravityWave_def)
    then show ?thesis using c [of w] w(2) 2 by simp
  next
    case 3
    obtain w where w: "work_target P st p tip = Some w" "w \<le> bnProofOfWorkLimit P"
      using work_target_spec [OF assms(1,2) 3(1) assms(3-6)] by blast
    have "GetNextWorkRequired P st (Some p) = compact_of w"
      using 3 w(1) assms(2) by (simp add: GetNextWorkRequired_def DarkGravityWave_def)
    then show ?thesis using c [of w] w(2) 3 by simp
  qed
qed

text \<open>
  C16: The proof-of-stake rule is exact. When the previous target is within the limit and the last
  two blocks are less than \<open>2 ^ 22\<close> seconds (48 days) apart, the 256-bit and the 32-bit arithmetic do
  not wrap: the new target is the old one times \<open>(2340 + 2 * spacing) / 2460\<close> rounded down, cut
  to the limit, where a negative spacing counts as one second; a target of zero becomes the limit.
\<close>

theorem stake_target_exact:
  assumes "target_of (bi_nBits tip) \<le> drop_bit 24 (NOT 0)" "0 < bi_nHeight tip"
    and "index_GetBlockTime tip - index_GetBlockTime prev < 2 ^ 22"
  shows "\<exists>w. stake_target tip prev = Some w \<and>
    (let spacing = (if index_GetBlockTime tip < index_GetBlockTime prev then 1 else index_GetBlockTime tip - index_GetBlockTime prev);
         t = unat (target_of (bi_nBits tip)) * nat (2340 + 2 * spacing) div 2460
     in unat w = (if t = 0 \<or> t > 2 ^ 232 - 1 then 2 ^ 232 - 1 else t))"
proof -
  define spacing where "spacing = (if index_GetBlockTime tip < index_GetBlockTime prev then 1 else index_GetBlockTime tip - index_GetBlockTime prev)"
  let ?m = "2340 + 2 * spacing"
  define B where "B = (drop_bit 24 (NOT 0) :: uint256)"
  have s: "0 \<le> spacing" "spacing < 2 ^ 22" using assms(3) by (auto simp: spacing_def)
  obtain q where q: "stake_target tip prev = Some (if q \<le> 0 \<or> q > B then B else q)"
      "div_int (mul_int (target_of (bi_nBits tip)) ?m) 2460 = Some q"
  proof -
    have m: "2340 + 2 * (if bi_nHeight tip = 0 then 0 else if index_GetBlockTime tip < index_GetBlockTime prev then 1
        else index_GetBlockTime tip - index_GetBlockTime prev) = ?m" using assms(2) by (simp add: spacing_def)
    show ?thesis using stake_target_eq [of tip prev] that unfolding m B_def [symmetric] by blast
  qed
  have L: "unat B = 2 ^ 232 - 1" by (simp add: B_def unat_drop_bit_eq drop_bit_eq_div unsigned_not_eq)
  have "unat (target_of (bi_nBits tip)) \<le> 2 ^ 232 - 1" using assms(1) unfolding B_def [symmetric] word_le_nat_alt L .
  moreover have "nat ?m < 2 ^ 24" using s by simp
  ultimately have "unat (target_of (bi_nBits tip)) * nat ?m \<le> (2 ^ 232 - 1) * 2 ^ 24" by (intro mult_le_mono) auto
  then have lt: "unat (target_of (bi_nBits tip)) * nat ?m < 2 ^ 256" by simp
  have "unat (ucast (word_of_int ?m :: u32) :: uint256) = nat ?m"
    unfolding unat_ucast_32_256 using s by (intro unat_of_int) simp_all
  then have "unat (mul_int (target_of (bi_nBits tip)) ?m) = unat (target_of (bi_nBits tip)) * nat ?m"
    using lt by (simp add: mul_int_def unat_word_ariths del: unat_ucast_32_256)
  moreover obtain q' where "div_int (mul_int (target_of (bi_nBits tip)) ?m) 2460 = Some q'"
      "unat q' = unat (mul_int (target_of (bi_nBits tip)) ?m) div nat 2460"
    using div_int_pos [of 2460 "mul_int (target_of (bi_nBits tip)) ?m"] by auto
  ultimately have u: "unat q = unat (target_of (bi_nBits tip)) * nat ?m div 2460" using q(2) by simp
  have "unat (if q \<le> 0 \<or> q > B then B else q) = (if unat q = 0 \<or> unat q > 2 ^ 232 - 1 then 2 ^ 232 - 1 else unat q)"
    using L by (auto simp: word_less_nat_alt word_le_nat_alt unat_eq_zero)
  then show ?thesis using q(1) u by (simp add: Let_def spacing_def [symmetric])
qed

lemma next_target_bounded_witness:
  "\<exists>c r. GetNextWorkRequired mainParams [0 \<mapsto> CBlockIndex_SetNull None] (Some 0) = Some c \<and> SetCompact c = (r, False, False) \<and>
    target_of c \<le> bnProofOfWorkLimit mainParams"
proof -
  have "index_tree [0 \<mapsto> CBlockIndex_SetNull None]" by (simp add: index_tree_def entry_tree_def CBlockIndex_SetNull_def)
  moreover have "0 < nTargetSpacing mainParams \<and> nTargetSpacing mainParams < 2 ^ 32 \<and> 0 < nTargetSpacingSlowLaunch mainParams \<and>
      nTargetSpacingSlowLaunch mainParams < 2 ^ 32" by (simp add: mainParams_def)
  moreover have "bi_nHeight (CBlockIndex_SetNull None) = 0" by (simp add: CBlockIndex_SetNull_def)
  ultimately show ?thesis
    using next_target_bounded [of "[0 \<mapsto> CBlockIndex_SetNull None]" 0 "CBlockIndex_SetNull None" mainParams] by simp
qed

lemma unat_target_of: "unat (target_of c) = compact_value c mod 2 ^ 256"
  using SetCompact_value [of c] length_SetCompact [of c] by (simp add: target_of_def unat_w256)

lemma stake_target_exact_witness:
  "\<exists>w. stake_target ((CBlockIndex_SetNull None)\<lparr>bi_nHeight := 300, bi_nTime := 1060, bi_nBits := 0x0300ffff\<rparr>)
      ((CBlockIndex_SetNull None)\<lparr>bi_nHeight := 299, bi_nTime := 1000\<rparr>) = Some w \<and> unat w = 65535"
proof -
  have t: "unat (target_of 0x0300ffff) = 65535"
    by (simp add: unat_target_of compact_value_def compact_size_def compact_mant_def)
  let ?tip = "(CBlockIndex_SetNull None)\<lparr>bi_nHeight := 300, bi_nTime := 1060, bi_nBits := 0x0300ffff\<rparr>"
  let ?prev = "(CBlockIndex_SetNull None)\<lparr>bi_nHeight := 299, bi_nTime := 1000\<rparr>"
  have f: "bi_nBits ?tip = 0x0300ffff" "bi_nHeight ?tip = 300" "index_GetBlockTime ?tip = 1060" "index_GetBlockTime ?prev = 1000"
    by (simp_all add: index_GetBlockTime_def)
  have "unat (drop_bit 24 (NOT 0) :: uint256) = 2 ^ 232 - 1" by (simp add: unat_drop_bit_eq drop_bit_eq_div unsigned_not_eq)
  then have l: "target_of (bi_nBits ?tip) \<le> drop_bit 24 (NOT 0)" unfolding f word_le_nat_alt t by simp
  have "0 < bi_nHeight ?tip" "index_GetBlockTime ?tip - index_GetBlockTime ?prev < 2 ^ 22" unfolding f by simp_all
  from stake_target_exact [OF l this] show ?thesis unfolding f t Let_def by simp
qed

end
