(* ===== verification/BlockCheck.thy ===== *)
theory BlockCheck
  imports Inputs Pow
begin

section \<open>Checks of a block (main.cpp, spork.cpp, masternode-payments.cpp, masternode-budget.cpp)\<close>

text \<open>
  The checks of a block without its coins, and the values of sporks and the payment rules they use.
  The globals that are read are the fields of a record; whether a transaction pays what a finalized
  budget or the masternode list asks for, and libzerocoin's reading of a coin spend, are functions
  in it. A rejected block gives the validation state, with what the calls of \<open>CValidationState\<close> made
  of it, and whether the block was put into \<open>mapRejectedBlocks\<close>. The lemmas show what every accepted
  block satisfies.
\<close>

subsection \<open>Sporks\<close>

definition SPORK_3_SWIFTTX_BLOCK_FILTERING :: int where "SPORK_3_SWIFTTX_BLOCK_FILTERING = 10002"
definition SPORK_8_MASTERNODE_PAYMENT_ENFORCEMENT :: int where "SPORK_8_MASTERNODE_PAYMENT_ENFORCEMENT = 10007"
definition SPORK_9_MASTERNODE_BUDGET_ENFORCEMENT :: int where "SPORK_9_MASTERNODE_BUDGET_ENFORCEMENT = 10008"
definition SPORK_13_ENABLE_SUPERBLOCKS :: int where "SPORK_13_ENABLE_SUPERBLOCKS = 10012"
definition SPORK_16_ZEROCOIN_MAINTENANCE_MODE :: int where "SPORK_16_ZEROCOIN_MAINTENANCE_MODE = 10015"
definition SPORK_17_MASTERNODE_PAYMENT_CHECK :: int where "SPORK_17_MASTERNODE_PAYMENT_CHECK = 10016"

fun spork_default :: "int \<Rightarrow> int" where
  "spork_default n =
     (if n = 10001 then 978307200
      else if n = SPORK_3_SWIFTTX_BLOCK_FILTERING then 1424217600
      else if n = 10004 then 1000
      else if n = 10006 then 978307200
      else if n = SPORK_8_MASTERNODE_PAYMENT_ENFORCEMENT then 4070908800
      else if n = SPORK_9_MASTERNODE_BUDGET_ENFORCEMENT then 4070908800
      else if n = 10009 then 4070908800
      else if n = 10010 then 4070908800
      else if n = SPORK_13_ENABLE_SUPERBLOCKS then 4070908800
      else if n = 10013 then 4070908800
      else if n = 10014 then 4070908800
      else if n = SPORK_16_ZEROCOIN_MAINTENANCE_MODE then 4070908800
      else if n = SPORK_17_MASTERNODE_PAYMENT_CHECK then SPORK_17_MASTERNODE_PAYMENT_CHECK_DEFAULT
      else if n = 10017 then 1608154200
      else if n = 10018 then SPORK_19_LOWERED_MASTERNODE_PAYMENT_DEFAULT
      else if n = 10019 then SPORK_20_REWARD_HALVING_START_DEFAULT
      else - 1)"

text \<open>A finalized budget: its votes, and the blocks it pays in.\<close>

record budget =
  b_votes :: int
  b_start :: int
  b_end :: int

text \<open>
  The globals: times, the active sporks' values, the block index and the active chain, the transaction
  locks, whether the masternode list is synced, the finalized budgets and the count of enabled
  masternodes, the payment checks of a transaction, the answer of \<open>IsInitialBlockDownload\<close>, and what
  libzerocoin reads from the script of a zerocoin spend (\<open>None\<close> if it throws): the serial number, the
  denomination, and whether the serial is in the valid range.
\<close>

record coin_spend =
  sp_serial :: nat
  sp_denomination :: CoinDenomination
  sp_valid :: bool

record node =
  nd_adjusted :: int
  nd_time :: int
  mapSporksActive :: "int \<Rightarrow> int option"
  nd_index :: index_state
  chainActive :: CChain
  mapLockedInputs :: "COutPoint \<Rightarrow> uint256 option"
  nd_synced :: bool
  mapFinalizedBudgets :: "budget list"
  nd_masternodes :: int
  nd_budget_valid :: "CTransaction \<Rightarrow> int \<Rightarrow> bool"
  nd_payee_valid :: "CTransaction \<Rightarrow> int \<Rightarrow> bool"
  nd_winner_valid :: "CTxOut \<Rightarrow> int \<Rightarrow> bool"
  nd_ibd :: bool
  nd_spend :: "CTxIn \<Rightarrow> coin_spend option"

definition GetSporkValue :: "node \<Rightarrow> int \<Rightarrow> int" where
  "GetSporkValue nd nSporkID = (case mapSporksActive nd nSporkID of Some r \<Rightarrow> r | None \<Rightarrow> spork_default nSporkID)"

definition IsSporkActive :: "node \<Rightarrow> int \<Rightarrow> bool" where
  "IsSporkActive nd nSporkID =
     (let r = GetSporkValue nd nSporkID in if r = - 1 then False else r < nd_time nd)"

subsection \<open>Payments\<close>

fun highest_budget :: "int \<Rightarrow> budget list \<Rightarrow> int \<Rightarrow> int" where
  "highest_budget nBlockHeight [] nHighestCount = nHighestCount"
| "highest_budget nBlockHeight (b # bs) nHighestCount =
     highest_budget nBlockHeight bs
       (if b_votes b > nHighestCount \<and> nBlockHeight \<ge> b_start b \<and> nBlockHeight \<le> b_end b then b_votes b else nHighestCount)"

definition IsBudgetPaymentBlock :: "node \<Rightarrow> int \<Rightarrow> bool" where
  "IsBudgetPaymentBlock nd nBlockHeight \<longleftrightarrow>
     highest_budget nBlockHeight (mapFinalizedBudgets nd) (- 1) > nd_masternodes nd sdiv 20"

definition GetBudgetPaymentCycleBlocks :: "CChainParams \<Rightarrow> int" where
  "GetBudgetPaymentCycleBlocks P = (if networkID P = MAIN then 43200 else 144)"

text \<open>
  The height that a block would have, from the chain's tip or from the index, 0 if its predecessor is
  not known; \<open>None\<close> when there is no tip. \<open>Inl\<close> is a null pointer that is dereferenced.
\<close>

definition height_of_block :: "node \<Rightarrow> CBlock \<Rightarrow> failure + int option" where
  "height_of_block nd block =
     (case chain_Tip (entries (nd_index nd)) False (chainActive nd) of
        None \<Rightarrow> Inl OutOfRange
      | Some None \<Rightarrow> Inr None
      | Some (Some p) \<Rightarrow>
     (case (entries (nd_index nd) p, index_GetBlockHash (entries (nd_index nd)) p) of
        (Some e, Some hash) \<Rightarrow>
          if hash = bh_hashPrevBlock (header block) then Inr (Some (bi_nHeight e + 1))
          else (case mapBlockIndex (nd_index nd) (bh_hashPrevBlock (header block)) of
             None \<Rightarrow> Inr (Some 0)
           | Some q \<Rightarrow> (case entries (nd_index nd) q of None \<Rightarrow> Inl OutOfRange | Some f \<Rightarrow> Inr (Some (bi_nHeight f + 1))))
      | _ \<Rightarrow> Inl OutOfRange))"

text \<open>\<open>%\<close> of C on the height, which is not negative.\<close>

definition IsBlockValueValid :: "CChainParams \<Rightarrow> node \<Rightarrow> CBlock \<Rightarrow> CAmount \<Rightarrow> CAmount \<Rightarrow> failure + bool" where
  "IsBlockValueValid P nd block nExpectedValue nMinted =
     bindE (height_of_block nd block) (\<lambda>h.
     case h of
       None \<Rightarrow> Inr True
     | Some height \<Rightarrow>
         if \<not> nd_synced nd then
           (if height smod GetBudgetPaymentCycleBlocks P < 100 then Inr True else Inr (\<not> nMinted > nExpectedValue))
         else if \<not> IsSporkActive nd SPORK_13_ENABLE_SUPERBLOCKS then Inr (nMinted \<le> nExpectedValue)
         else if IsBudgetPaymentBlock nd height then Inr True
         else Inr (\<not> nMinted > nExpectedValue))"

definition IsBlockPayeeValid :: "CChainParams \<Rightarrow> node \<Rightarrow> CBlock \<Rightarrow> int \<Rightarrow> failure + bool" where
  "IsBlockPayeeValid P nd block nBlockHeight =
     (if \<not> nd_synced nd then Inr True
      else
        let i = (if nBlockHeight > nLastPOWBlock P then 1 else 0)
        in if length (vtx block) \<le> i then Inl OutOfRange
        else
          let txNew = vtx block ! i
          in if IsSporkActive nd SPORK_13_ENABLE_SUPERBLOCKS \<and> IsBudgetPaymentBlock nd nBlockHeight then
               Inr (nd_budget_valid nd txNew nBlockHeight \<or> \<not> IsSporkActive nd SPORK_9_MASTERNODE_BUDGET_ENFORCEMENT)
             else if nd_payee_valid nd txNew nBlockHeight then Inr True
             else Inr (\<not> IsSporkActive nd SPORK_8_MASTERNODE_PAYMENT_ENFORCEMENT))"

subsection \<open>CheckBlock\<close>

datatype block_failure = Rejected CValidationState bool | Stopped failure

text \<open>A failed check of a transaction, made on the block's state.\<close>

fun lift_failure :: "CValidationState \<Rightarrow> failure \<Rightarrow> block_failure" where
  "lift_failure st (DoS level code reason) = Rejected (state_DoS level code reason False st) False"
| "lift_failure st (Invalid code reason) = Rejected (state_Invalid code reason st) False"
| "lift_failure st (RunError) = Rejected (state_Error [] st) False"
| "lift_failure st f = Stopped f"

definition block_DoS :: "int \<Rightarrow> nat \<Rightarrow> string \<Rightarrow> bool \<Rightarrow> CValidationState \<Rightarrow> block_failure" where
  "block_DoS level code reason corruptionIn st = Rejected (state_DoS level code reason corruptionIn st) False"

definition run :: "failure + 'a \<Rightarrow> block_failure + 'a" where
  "run m = (case m of Inl f \<Rightarrow> Inl (Stopped f) | Inr x \<Rightarrow> Inr x)"

definition CheckBlockHeader ::
    "CChainParams \<Rightarrow> (bytes \<Rightarrow> uint256) \<Rightarrow> (bytes \<Rightarrow> uint256) \<Rightarrow> CBlockHeader \<Rightarrow> bool \<Rightarrow> CValidationState \<Rightarrow>
     CValidationState + unit" where
  "CheckBlockHeader P XEVAN Hash h fCheckPOW st =
     (if fCheckPOW \<and> \<not> CheckProofOfWork P (header_GetHash XEVAN Hash h) (bh_nBits h)
      then Inl (state_DoS 50 REJECT_INVALID ''high-hash'' False st) else Inr ())"

definition MAX_BLOCK_SIZE_CURRENT :: nat where "MAX_BLOCK_SIZE_CURRENT = 2000000"
definition MAX_BLOCK_SIGOPS_CURRENT :: nat where "MAX_BLOCK_SIGOPS_CURRENT = MAX_BLOCK_SIZE_CURRENT div 50"

definition check_merkle :: "(bytes \<Rightarrow> uint256) \<Rightarrow> CBlock \<Rightarrow> CValidationState \<Rightarrow> block_failure + unit" where
  "check_merkle Hash block st =
     (case BuildMerkleTree Hash (map tx_hash (vtx block)) of (_, root, mutated) \<Rightarrow>
        if bh_hashMerkleRoot (header block) \<noteq> root then Inl (block_DoS 100 REJECT_INVALID ''bad-txnmrklroot'' True st)
        else if mutated then Inl (block_DoS 100 REJECT_INVALID ''bad-txns-duplicate'' True st)
        else Inr ())"

text \<open>No transaction after the first is a coinbase.\<close>

fun check_no_coinbase :: "CTransaction list \<Rightarrow> CValidationState \<Rightarrow> block_failure + unit" where
  "check_no_coinbase [] st = Inr ()"
| "check_no_coinbase (tx # txs) st =
     bindE (run (coinbase tx)) (\<lambda>cb.
     if cb then Inl (block_DoS 100 REJECT_INVALID ''bad-cb-multiple'' False st) else check_no_coinbase txs st)"

definition check_stake_form :: "CBlock \<Rightarrow> CValidationState \<Rightarrow> block_failure + unit" where
  "check_stake_form block st =
     (if IsProofOfStake block then
        (if length (vout (vtx block ! 0)) \<noteq> 1 \<or> \<not> TxOut_IsEmpty (vout (vtx block ! 0) ! 0) then Inl (block_DoS 100 0 [] False st)
         else if vtx block = [] \<or> \<not> IsCoinStake (vtx block ! 1) then Inl (block_DoS 100 0 [] False st)
         else if list_ex IsCoinStake (drop 2 (vtx block)) then Inl (block_DoS 100 0 [] False st)
         else Inr ())
      else Inr ())"

text \<open>An input that another transaction has locked; the block is remembered as rejected.\<close>

definition conflicts_lock :: "node \<Rightarrow> CTransaction \<Rightarrow> CTxIn \<Rightarrow> bool" where
  "conflicts_lock nd tx i =
     (case mapLockedInputs nd (prevout i) of None \<Rightarrow> False | Some hash \<Rightarrow> hash \<noteq> tx_hash tx)"

fun check_locks :: "node \<Rightarrow> CTransaction list \<Rightarrow> CValidationState \<Rightarrow> block_failure + unit" where
  "check_locks nd [] st = Inr ()"
| "check_locks nd (tx # txs) st =
     bindE (run (coinbase tx)) (\<lambda>cb.
     if \<not> cb \<and> list_ex (conflicts_lock nd tx) (vin tx)
     then Inl (Rejected (state_DoS 0 REJECT_INVALID ''conflicting-tx-ix'' False st) True)
     else check_locks nd txs st)"

text \<open>The version and the payee; the height is 0 without a tip.\<close>

definition check_payee :: "CChainParams \<Rightarrow> node \<Rightarrow> CBlock \<Rightarrow> CValidationState \<Rightarrow> block_failure + int" where
  "check_payee P nd block st =
     bindE (run (height_of_block nd block)) (\<lambda>h.
     case h of
       None \<Rightarrow> Inr 0
     | Some height \<Rightarrow>
         if height > nZerocoinStartHeight P \<and> bh_nVersion (header block) < nZerocoinHeaderVersion P
           then Inl (block_DoS 50 REJECT_INVALID ''block-version'' False st)
         else if height \<noteq> 0 \<and> \<not> nd_ibd nd then
           bindE (run (IsBlockPayeeValid P nd block height)) (\<lambda>ok.
           if ok then Inr height
           else Inl (Rejected (state_DoS 0 REJECT_INVALID ''bad-cb-payee'' False st) True))
         else Inr height)"

definition check_masternode :: "node \<Rightarrow> CBlock \<Rightarrow> int \<Rightarrow> CValidationState \<Rightarrow> block_failure + unit" where
  "check_masternode nd block height st =
     (if height > GetSporkValue nd SPORK_17_MASTERNODE_PAYMENT_CHECK \<and> IsProofOfStake block then
        (let tx = vtx block ! 1; outs = length (vout tx)
         in if outs < 3 then Inl (block_DoS 100 0 [] False st)
            else if nd_synced nd \<and> \<not> nd_winner_valid nd (vout tx ! (outs - 1)) height then Inl (block_DoS 100 0 [] False st)
            else Inr ())
      else Inr ())"

text \<open>The serial numbers of the zerocoin spends of a block are distinct.\<close>

fun check_serials :: "node \<Rightarrow> CTxIn list \<Rightarrow> nat list \<Rightarrow> CValidationState \<Rightarrow> block_failure + nat list" where
  "check_serials nd [] vBlockSerials st = Inr vBlockSerials"
| "check_serials nd (i # ins) vBlockSerials st =
     (if IsZerocoinSpend (scriptSig i) then
        (case nd_spend nd i of
           None \<Rightarrow> Inl (Stopped Exception)
         | Some spend \<Rightarrow>
             if sp_serial spend \<in> set vBlockSerials then Inl (block_DoS 100 0 [] False st)
             else check_serials nd ins (vBlockSerials @ [sp_serial spend]) st)
      else check_serials nd ins vBlockSerials st)"

fun check_txs ::
    "CChainParams \<Rightarrow> (uint256 \<Rightarrow> CTxOut \<Rightarrow> bool) \<Rightarrow> node \<Rightarrow> CTransaction list \<Rightarrow> nat list \<Rightarrow> CValidationState \<Rightarrow> block_failure + unit" where
  "check_txs P mint_ok nd [] vBlockSerials st = Inr ()"
| "check_txs P mint_ok nd (tx # txs) vBlockSerials st =
     (case CheckTransaction P mint_ok True tx of
        Inl f \<Rightarrow> Inl (lift_failure st f)
      | Inr _ \<Rightarrow>
          bindE (run (zerospend tx)) (\<lambda>zs.
          bindE (if zs then check_serials nd (vin tx) vBlockSerials st else Inr vBlockSerials) (\<lambda>serials.
          check_txs P mint_ok nd txs serials st)))"

definition CheckBlock ::
    "CChainParams \<Rightarrow> (bytes \<Rightarrow> uint256) \<Rightarrow> (bytes \<Rightarrow> uint256) \<Rightarrow> (uint256 \<Rightarrow> CTxOut \<Rightarrow> bool) \<Rightarrow> node \<Rightarrow> CBlock \<Rightarrow> bool \<Rightarrow> bool \<Rightarrow>
     CValidationState \<Rightarrow> block_failure + unit" where
  "CheckBlock P XEVAN Hash mint_ok nd block fCheckPOW fCheckMerkleRoot st =
     (case CheckBlockHeader P XEVAN Hash (header block) fCheckPOW st of
        Inl st' \<Rightarrow> Inl (block_DoS 100 REJECT_INVALID ''bad-header'' True st')
      | Inr _ \<Rightarrow>
      if header_GetBlockTime (header block) > nd_adjusted nd + (if IsProofOfStake block then 180 else 7200)
        then Inl (Rejected (state_Invalid REJECT_INVALID ''time-too-new'' st) False)
      else
        bindE (if fCheckMerkleRoot then check_merkle Hash block st else Inr ()) (\<lambda>_.
        if vtx block = [] \<or> length (vtx block) > MAX_BLOCK_SIZE_CURRENT \<or> length (block_Serialize block) > MAX_BLOCK_SIZE_CURRENT
          then Inl (block_DoS 100 REJECT_INVALID ''bad-blk-length'' False st)
        else
        bindE (run (coinbase (vtx block ! 0))) (\<lambda>cb.
        if \<not> cb then Inl (block_DoS 100 REJECT_INVALID ''bad-cb-missing'' False st)
        else
        bindE (check_no_coinbase (tl (vtx block)) st) (\<lambda>_.
        bindE (check_stake_form block st) (\<lambda>_.
        bindE (if IsSporkActive nd SPORK_3_SWIFTTX_BLOCK_FILTERING then check_locks nd (vtx block) st else Inr ()) (\<lambda>_.
        bindE (check_payee P nd block st) (\<lambda>height.
        bindE (check_masternode nd block height st) (\<lambda>_.
        bindE (check_txs P mint_ok nd (vtx block) [] st) (\<lambda>_.
        if foldl uadd32 0 (map GetLegacySigOpCount (vtx block)) > MAX_BLOCK_SIGOPS_CURRENT
          then Inl (block_DoS 100 REJECT_INVALID ''bad-blk-sigops'' True st)
        else Inr ())))))))))"

subsection \<open>A block that stops the node\<close>

text \<open>
  C30: A block with nothing but a coinbase, on top of the tip after the last proof-of-work block,
  is not rejected: \<open>CheckBlock\<close> reads a second transaction that does not exist. It needs no proof of
  work, because every hash passes; the node only has to be synced and past its initial download.
\<close>

theorem CheckBlock_lone_coinbase:
  assumes "vtx block = [tx]" "IsCoinBase tx = Some True" "length (block_Serialize block) \<le> MAX_BLOCK_SIZE_CURRENT"
    and "CheckBlockHeader P XEVAN Hash (header block) pow st = Inr ()"
    and "header_GetBlockTime (header block) \<le> nd_adjusted nd + 7200" "merkle \<longrightarrow> bh_hashMerkleRoot (header block) = tx_hash tx"
    and "height_of_block nd block = Inr (Some height)" "nLastPOWBlock P < height" "0 < height"
    and "nZerocoinHeaderVersion P \<le> bh_nVersion (header block)" "nd_synced nd" "\<not> nd_ibd nd"
  shows "CheckBlock P XEVAN Hash mint_ok nd block pow merkle st = Inl (Stopped OutOfRange)"
proof -
  have s: "\<not> IsProofOfStake block" by (simp add: IsProofOfStake_def assms(1))
  have m: "(if merkle then check_merkle Hash block st else Inr ()) = Inr ()"
    using assms(1,6) by (auto simp: check_merkle_def BuildMerkleTree_def tree_loop.simps)
  have l: "(if b then check_locks nd (vtx block) st else Inr ()) = Inr ()" for b
    using assms(1,2) by (simp add: coinbase_def run_def)
  have f: "check_stake_form block st = Inr ()" by (simp add: check_stake_form_def s)
  have "IsBlockPayeeValid P nd block height = Inl OutOfRange"
    using assms(1,8,11) by (simp add: IsBlockPayeeValid_def)
  then have p: "check_payee P nd block st = Inl (Stopped OutOfRange)"
    using assms(7,9,10,12) by (simp add: check_payee_def run_def)
  have sz: "\<not> (vtx block = [] \<or> length (vtx block) > MAX_BLOCK_SIZE_CURRENT \<or> length (block_Serialize block) > MAX_BLOCK_SIZE_CURRENT)"
    using assms(1,3) by (simp add: MAX_BLOCK_SIZE_CURRENT_def)
  have cb: "run (coinbase (vtx block ! 0)) = Inr True" "check_no_coinbase (tl (vtx block)) st = Inr ()"
    using assms(1,2) by (simp_all add: coinbase_def run_def)
  have t: "\<not> header_GetBlockTime (header block) > nd_adjusted nd + (if IsProofOfStake block then 180 else 7200)"
    using assms(5) s by simp
  show ?thesis
    unfolding CheckBlock_def assms(4) sum.case m l f p cb bindE_simps
    by (simp only: sz t if_False not_True_eq_False bindE_simps)
qed

definition lone_node :: node where
  "lone_node = \<lparr>nd_adjusted = 0, nd_time = 0, mapSporksActive = (\<lambda>_. None),
     nd_index = index_empty\<lparr>entries := [0 \<mapsto> (CBlockIndex_SetNull None)\<lparr>bi_nHeight := 300, phashBlock := Some 9\<rparr>]\<rparr>,
     chainActive = [Some 0], mapLockedInputs = (\<lambda>_. None), nd_synced = True, mapFinalizedBudgets = [], nd_masternodes = 0,
     nd_budget_valid = (\<lambda>_ _. True), nd_payee_valid = (\<lambda>_ _. True), nd_winner_valid = (\<lambda>_ _. True), nd_ibd = False,
     nd_spend = (\<lambda>_. None)\<rparr>"

definition lone_block :: CBlock where
  "lone_block = block_SetNull\<lparr>header := header_SetNull\<lparr>bh_hashPrevBlock := 9, bh_hashMerkleRoot := 3\<rparr>, vtx := [block_cb]\<rparr>"

lemma CheckBlock_lone_coinbase_witness:
  "CheckBlock mainParams (\<lambda>_. 1) (\<lambda>_. 1) (\<lambda>_ _. True) lone_node lone_block False True CValidationState_default = Inl (Stopped OutOfRange)"
proof -
  have "length (block_Serialize lone_block) \<le> MAX_BLOCK_SIZE_CURRENT"
    by (simp add: block_Serialize_def lone_block_def block_SetNull_def header_Serialize_def header_SetNull_def block_cb_def mk_CTxIn_def
      mk_CTxOut_def tx_Serialize_def Serialize_vec_def TxIn_Serialize_def TxOut_Serialize_def OutPoint_Serialize_def
      u256_Serialize_def u32_Serialize_def Serialize_blob_def Serialize_int_def WriteCompactSize_def MAX_BLOCK_SIZE_CURRENT_def)
  moreover have "height_of_block lone_node lone_block = Inr (Some 301)"
    by (simp add: height_of_block_def lone_node_def lone_block_def chain_Tip_def index_GetBlockHash_def)
  moreover have "nLastPOWBlock mainParams = 291" "nZerocoinHeaderVersion mainParams = 4" by (simp_all add: mainParams_def)
  moreover have "vtx lone_block = [block_cb]" "header_GetBlockTime (header lone_block) = 0" "bh_nVersion (header lone_block) = 4"
    "bh_hashMerkleRoot (header lone_block) = 3" by (simp_all add: lone_block_def header_SetNull_def header_GetBlockTime_def)
  moreover have "nd_synced lone_node" "\<not> nd_ibd lone_node" "nd_adjusted lone_node = 0" by (simp_all add: lone_node_def)
  ultimately show ?thesis
    by (intro CheckBlock_lone_coinbase [where tx = block_cb and height = 301])
      (simp_all add: block_sample_kinds block_sample_ids CheckBlockHeader_def)
qed

end
