(* ===== verification/ConnectBlock.thy ===== *)
theory ConnectBlock
  imports BlockCheck
begin

section \<open>Connecting a block (main.cpp)\<close>

text \<open>
  \<open>ConnectBlock\<close>: the block is checked, its transactions are checked against the coins and applied to
  them, the money supply and the mint are recorded in the index entry and the mint is compared
  with the subsidy, the deferred script checks are waited for, and the undo data and the index are
  written. What a failure leaves behind is the validation state; a caller drops the cache then.
  The theory \<open>Supply\<close> shows that a block whose value is checked cannot add more money to the unspent
  outputs than the subsidy and its zerocoin spends.
\<close>

text \<open>
  What the function reads and calls besides its arguments: the parameters, the hash functions, the
  signature verification and its cache, the globals, the zerocoin calls, and whether the disk writes succeed.
  \<open>v_tx_height\<close> is the height at which \<open>GetTransaction\<close> finds a transaction in the
  active chain; \<open>v_recalculate\<close> is the one-time repair of the zerocoin supply in the index.
\<close>

record validation =
  v_params :: CChainParams
  v_env :: env
  v_sigcache :: sigcache_env
  v_Verify :: "CPubKey \<Rightarrow> uint256 \<Rightarrow> bytes \<Rightarrow> bool"
  v_Hash :: "bytes \<Rightarrow> uint256"
  v_XEVAN :: "bytes \<Rightarrow> uint256"
  v_mint_ok :: "uint256 \<Rightarrow> CTxOut \<Rightarrow> bool"
  v_node :: node
  v_halving :: "int \<Rightarrow> CAmount"
  v_estimate :: int
  v_genesis :: uint256
  v_threads :: bool
  fVerifyingBlocks :: bool
  fTxIndex :: bool
  v_tx_height :: "uint256 \<Rightarrow> int option"
  v_public_coin :: "CTxOut \<Rightarrow> CoinDenomination option"
  v_recalculate :: "index_store \<Rightarrow> index_store"
  v_checkpoint :: "int \<Rightarrow> uint256 option"
  v_write_spend :: "nat \<Rightarrow> uint256 \<Rightarrow> bool"
  v_write_index :: bool
  v_find_undo :: "CBlockIndex \<Rightarrow> CTxInUndo list list \<Rightarrow> u32 option"
  v_write_undo :: bool
  v_write_txindex :: bool

subsection \<open>Zerocoin\<close>

fun mint_list :: "validation \<Rightarrow> CTxOut list \<Rightarrow> CoinDenomination list \<Rightarrow> bool \<times> CoinDenomination list" where
  "mint_list V [] vMints = (True, vMints)"
| "mint_list V (out # outs) vMints =
     (if \<not> IsZerocoinMint (scriptPubKey out) then mint_list V outs vMints
      else (case v_public_coin V out of
         None \<Rightarrow> (False, vMints)
       | Some d \<Rightarrow> mint_list V outs (vMints @ [d])))"

fun BlockToZerocoinMintList :: "validation \<Rightarrow> CTransaction list \<Rightarrow> CoinDenomination list \<Rightarrow> bool \<times> CoinDenomination list" where
  "BlockToZerocoinMintList V [] vMints = (True, vMints)"
| "BlockToZerocoinMintList V (tx # txs) vMints =
     (if \<not> IsZerocoinMint_tx tx then BlockToZerocoinMintList V txs vMints
      else (case mint_list V (vout tx) vMints of
         (False, l) \<Rightarrow> (False, l)
       | (True, l) \<Rightarrow> BlockToZerocoinMintList V txs l))"

fun ZerocoinSpendListFromBlock :: "CTransaction list \<Rightarrow> failure + CoinDenomination list" where
  "ZerocoinSpendListFromBlock [] = Inr []"
| "ZerocoinSpendListFromBlock (tx # txs) =
     bindE (zerospend tx) (\<lambda>zs.
     bindE (ZerocoinSpendListFromBlock txs) (\<lambda>rest.
       Inr ((if zs then map (\<lambda>i. IntToZerocoinDenomination (uint (nSequence i)))
               (filter (\<lambda>i. IsZerocoinSpend (scriptSig i)) (vin tx)) else []) @ rest)))"

text \<open>The height of the transaction that spent a serial, if the database has it and it is in the active chain.\<close>

definition IsSerialInBlockchain :: "validation \<Rightarrow> (nat \<Rightarrow> uint256 option) \<Rightarrow> nat \<Rightarrow> int option" where
  "IsSerialInBlockchain V db bnSerial =
     (case db bnSerial of
        None \<Rightarrow> None
      | Some txHash \<Rightarrow> v_tx_height V txHash)"

text \<open>
  The spends of one transaction: the value they bring in and the spent serials in the database. A serial
  that is already in the chain is refused.
\<close>

fun connect_spends ::
    "validation \<Rightarrow> int \<Rightarrow> uint256 \<Rightarrow> CValidationState \<Rightarrow> CTxIn list \<Rightarrow> CAmount \<Rightarrow> (nat \<Rightarrow> uint256 option) \<Rightarrow>
     block_failure + CAmount \<times> (nat \<Rightarrow> uint256 option)" where
  "connect_spends V height hash st [] nValueIn db = Inr (nValueIn, db)"
| "connect_spends V height hash st (i # ins) nValueIn db =
     (if \<not> IsZerocoinSpend (scriptSig i) then connect_spends V height hash st ins nValueIn db
      else (case nd_spend (v_node V) i of
         None \<Rightarrow> Inl (Stopped Exception)
       | Some spend \<Rightarrow>
           let nValueIn' = wrap_s 64 (nValueIn + wrap_s 64 (sp_denomination spend * COIN))
           in if \<not> sp_valid spend \<and> height \<ge> nBlockEnforceSerialRange (v_params V) then Inl (block_DoS 100 0 [] False st)
           else if db (sp_serial spend) \<noteq> None \<and>
                (case IsSerialInBlockchain V db (sp_serial spend) of None \<Rightarrow> False
                 | Some h \<Rightarrow> \<not> fVerifyingBlocks V \<or> height > h) then Inl (block_DoS 100 0 [] False st)
           else if \<not> v_write_spend V (sp_serial spend) hash then Inl (Rejected st False)
           else connect_spends V height hash st ins nValueIn' (db(sp_serial spend \<mapsto> hash))))"

subsection \<open>One transaction\<close>

record connect_acc =
  ca_nFees :: CAmount
  ca_nSigOps :: nat
  ca_nValueIn :: CAmount
  ca_nValueOut :: CAmount
  ca_vtxundo :: "CTxInUndo list list"
  ca_vPos :: "(uint256 \<times> nat) list"
  ca_nTxOffset :: nat
  ca_checks :: "CScriptCheck list"
  ca_spends :: "nat \<Rightarrow> uint256 option"
  ca_view :: view

definition value_out :: "CTransaction \<Rightarrow> block_failure + CAmount" where
  "value_out tx = (case GetValueOut tx of Inl _ \<Rightarrow> Inl (Stopped Exception) | Inr x \<Rightarrow> Inr x)"

definition lift_check :: "CValidationState \<Rightarrow> failure + 'a \<Rightarrow> block_failure + 'a" where
  "lift_check st m = (case m of Inl f \<Rightarrow> Inl (lift_failure st f) | Inr x \<Rightarrow> Inr x)"

text \<open>A call on the cache that fails only by an assertion.\<close>

definition asserted :: "'a option \<Rightarrow> block_failure + 'a" where
  "asserted m = (case m of None \<Rightarrow> Inl (Stopped Assertion) | Some x \<Rightarrow> Inr x)"

text \<open>A zerocoin spend.\<close>

definition connect_zerospend ::
    "validation \<Rightarrow> int \<Rightarrow> CValidationState \<Rightarrow> CTransaction \<Rightarrow> connect_acc \<Rightarrow> block_failure + connect_acc" where
  "connect_zerospend V height st tx a =
     (if (case v_tx_height V (tx_hash tx) of None \<Rightarrow> False | Some h \<Rightarrow> \<not> fVerifyingBlocks V \<or> height > h)
      then Inl (block_DoS 100 REJECT_INVALID ''bad-txns-inputs-missingorspent'' False st)
      else bindE (connect_spends V height (tx_hash tx) st (vin tx) (ca_nValueIn a) (ca_spends a)) (\<lambda>(nValueIn, db).
        Inr (a\<lparr>ca_nValueIn := nValueIn, ca_spends := db\<rparr>)))"

text \<open>A transaction with ordinary inputs.\<close>

definition connect_inputs ::
    "validation \<Rightarrow> bool \<Rightarrow> flags \<Rightarrow> bool \<Rightarrow> CValidationState \<Rightarrow> CTransaction \<Rightarrow> connect_acc \<Rightarrow> block_failure + connect_acc" where
  "connect_inputs V strict flags fScriptChecks st tx a =
     bindE (asserted (HaveInputs tx (ca_view a))) (\<lambda>(ok, v1).
     if \<not> ok then Inl (block_DoS 100 REJECT_INVALID ''bad-txns-inputs-missingorspent'' False st)
     else
     bindE (if strict then run (GetP2SHSigOpCount tx v1) else Inr (0, v1)) (\<lambda>(n, v2).
     let nSigOps = uadd32 (ca_nSigOps a) n in
     if strict \<and> nSigOps > MAX_BLOCK_SIGOPS_CURRENT then Inl (block_DoS 100 REJECT_INVALID ''bad-blk-sigops'' False st)
     else
     bindE (asserted (GetValueIn (\<lambda>_. 0) tx v2)) (\<lambda>(valueIn, v3).
     bindE (if IsCoinStake tx then Inr (ca_nFees a)
            else bindE (value_out tx) (\<lambda>valueOut. Inr (wrap_s 64 (ca_nFees a + wrap_s 64 (valueIn - valueOut))))) (\<lambda>nFees.
     bindE (lift_check st (CheckInputs (v_params V) (v_env V) (v_sigcache V) (v_Verify V) (v_Hash V) (nd_index (v_node V)) tx
              fScriptChecks flags False (v_threads V) v3)) (\<lambda>(checks, v4).
     Inr (a\<lparr>ca_nSigOps := nSigOps, ca_nFees := nFees, ca_nValueIn := wrap_s 64 (ca_nValueIn a + valueIn),
       ca_checks := ca_checks a @ checks, ca_view := v4\<rparr>))))))"

text \<open>The whole step for the transaction at position \<open>i\<close>.\<close>

definition connect_tx ::
    "validation \<Rightarrow> CBlock \<Rightarrow> int \<Rightarrow> bool \<Rightarrow> flags \<Rightarrow> bool \<Rightarrow> CValidationState \<Rightarrow> nat \<Rightarrow> CTransaction \<Rightarrow> connect_acc \<Rightarrow>
     block_failure + connect_acc" where
  "connect_tx V block height strict flags fScriptChecks st i tx a0 =
     (let a = a0\<lparr>ca_nSigOps := uadd32 (ca_nSigOps a0) (GetLegacySigOpCount tx)\<rparr> in
      if ca_nSigOps a > MAX_BLOCK_SIGOPS_CURRENT then Inl (block_DoS 100 REJECT_INVALID ''bad-blk-sigops'' False st)
      else
      bindE (if uint (bh_nTime (header block)) > GetSporkValue (v_node V) SPORK_16_ZEROCOIN_MAINTENANCE_MODE \<and> \<not> nd_ibd (v_node V)
             then (case ContainsZerocoins tx of None \<Rightarrow> Inl (Stopped OutOfRange) | Some b \<Rightarrow> Inr b) else Inr False) (\<lambda>maintenance.
      if maintenance then Inl (block_DoS 100 0 [] False st)
      else
      bindE (run (zerospend tx)) (\<lambda>zs.
      bindE (if zs then connect_zerospend V height st tx a
             else bindE (run (coinbase tx)) (\<lambda>cb. if cb then Inr a else connect_inputs V strict flags fScriptChecks st tx a)) (\<lambda>a1.
      bindE (value_out tx) (\<lambda>valueOut.
      bindE (asserted (UpdateCoins tx height (ca_view a1))) (\<lambda>(undo, v).
      Inr (a1\<lparr>ca_nValueOut := wrap_s 64 (ca_nValueOut a1 + valueOut),
        ca_vtxundo := (if i > 0 then ca_vtxundo a1 @ [undo] else ca_vtxundo a1),
        ca_vPos := ca_vPos a1 @ [(tx_hash tx, ca_nTxOffset a1)],
        ca_nTxOffset := uadd32 (ca_nTxOffset a1) (length (tx_Serialize tx)),
        ca_view := v\<rparr>)))))))"

fun connect_txs ::
    "validation \<Rightarrow> CBlock \<Rightarrow> int \<Rightarrow> bool \<Rightarrow> flags \<Rightarrow> bool \<Rightarrow> CValidationState \<Rightarrow> nat \<Rightarrow> CTransaction list \<Rightarrow> connect_acc \<Rightarrow>
     block_failure + connect_acc" where
  "connect_txs V block height strict flags fScriptChecks st i [] a = Inr a"
| "connect_txs V block height strict flags fScriptChecks st i (tx # txs) a =
     bindE (connect_tx V block height strict flags fScriptChecks st i tx a)
       (connect_txs V block height strict flags fScriptChecks st (i + 1) txs)"

subsection \<open>The money supply\<close>

text \<open>\<open>at\<close> throws where a denomination is missing.\<close>

definition supply_add :: "(CoinDenomination \<times> int) list \<Rightarrow> CoinDenomination \<Rightarrow> int \<Rightarrow> (CoinDenomination \<times> int) list option" where
  "supply_add m d k = (case map_of m d of None \<Rightarrow> None | Some n \<Rightarrow> Some (AList.update d (n + k) m))"

fun supply_copy ::
    "CoinDenomination list \<Rightarrow> (CoinDenomination \<times> int) list \<Rightarrow> (CoinDenomination \<times> int) list \<Rightarrow> (CoinDenomination \<times> int) list option" where
  "supply_copy [] from m = Some m"
| "supply_copy (d # ds) from m =
     (case (map_of m d, map_of from d) of
        (Some _, Some n) \<Rightarrow> supply_copy ds from (AList.update d n m)
      | _ \<Rightarrow> None)"

fun supply_mints :: "CoinDenomination list \<Rightarrow> (CoinDenomination \<times> int) list \<Rightarrow> (CoinDenomination \<times> int) list option" where
  "supply_mints [] m = Some m"
| "supply_mints (d # ds) m = Option.bind (supply_add m d 1) (supply_mints ds)"

fun supply_spends ::
    "CValidationState \<Rightarrow> CoinDenomination list \<Rightarrow> (CoinDenomination \<times> int) list \<Rightarrow> block_failure + (CoinDenomination \<times> int) list" where
  "supply_spends st [] m = Inr m"
| "supply_spends st (d # ds) m =
     (case supply_add m d (- 1) of
        None \<Rightarrow> Inl (Stopped Exception)
      | Some m' \<Rightarrow>
          if the (map_of m' d) < 0 then Inl (block_DoS 100 0 [] False st) else supply_spends st ds m')"

definition thrown :: "'a option \<Rightarrow> block_failure + 'a" where
  "thrown m = (case m of None \<Rightarrow> Inl (Stopped Exception) | Some x \<Rightarrow> Inr x)"

text \<open>The zerocoin supply of the entry: that of the block before, with the block's mints and spends.\<close>

definition zerocoin_supply ::
    "CValidationState \<Rightarrow> CBlockIndex option \<Rightarrow> CoinDenomination list \<Rightarrow> CoinDenomination list \<Rightarrow> CBlockIndex \<Rightarrow> block_failure + CBlockIndex" where
  "zerocoin_supply st pprev_entry mints spends e =
     bindE (case pprev_entry of
         None \<Rightarrow> Inr (mapZerocoinSupply e)
       | Some f \<Rightarrow> if bi_nVersion f > 3 then thrown (supply_copy zerocoinDenomList (mapZerocoinSupply f) (mapZerocoinSupply e))
           else Inr (mapZerocoinSupply e)) (\<lambda>m0.
     bindE (if pprev_entry = None then Inr m0 else thrown (supply_mints mints m0)) (\<lambda>m1.
     bindE (if pprev_entry = None then Inr m1 else supply_spends st spends m1) (\<lambda>m2.
     if list_ex (\<lambda>d. map_of m2 d = None) zerocoinDenomList then Inl (Stopped Exception)
     else Inr (e\<lparr>mapZerocoinSupply := m2, vMintDenominationsInBlock := (if pprev_entry = None then [] else mints)\<rparr>))))"

definition money_supply :: "CBlockIndex option \<Rightarrow> connect_acc \<Rightarrow> CBlockIndex \<Rightarrow> CBlockIndex" where
  "money_supply pprev_entry a e =
     (let nMoneySupplyPrev = (case pprev_entry of None \<Rightarrow> 0 | Some f \<Rightarrow> nMoneySupply f);
          supply = wrap_s 64 (wrap_s 64 (nMoneySupplyPrev + ca_nValueOut a) - ca_nValueIn a)
      in e\<lparr>nMoneySupply := supply, bi_nMint := wrap_s 64 (wrap_s 64 (supply - nMoneySupplyPrev) + ca_nFees a)\<rparr>)"

subsection \<open>ConnectBlock\<close>

text \<open>No transaction may overwrite one with unspent outputs.\<close>

fun check_overwrites :: "CValidationState \<Rightarrow> CTransaction list \<Rightarrow> view \<Rightarrow> block_failure + view" where
  "check_overwrites st [] v = Inr v"
| "check_overwrites st (tx # txs) v =
     (case AccessCoins v (tx_hash tx) of (r, v') \<Rightarrow>
        if (case r of None \<Rightarrow> False | Some c \<Rightarrow> \<not> IsPruned c)
        then Inl (block_DoS 100 REJECT_INVALID ''bad-txns-BIP30'' False st)
        else check_overwrites st txs v')"

text \<open>The two blocks of another chain that are exempt.\<close>

definition enforce_BIP30 :: "CBlockIndex \<Rightarrow> bool" where
  "enforce_BIP30 e \<longleftrightarrow>
     (case phashBlock e of
        None \<Rightarrow> True
      | Some h \<Rightarrow> \<not> ((bi_nHeight e = 91842 \<and> h = 0x00000000000a4d0a398161ffc163c503763b1f4360639393e0e4c8e300e0caec) \<or>
          (bi_nHeight e = 91880 \<and> h = 0x00000000000743f190a18c5577a3c2d2a1f610ae9601ac046a38084ccb7cd721)))"

definition script_flags :: "validation \<Rightarrow> CBlock \<Rightarrow> CBlockIndex \<Rightarrow> failure + bool \<times> flags" where
  "script_flags V block e =
     (let strict = index_GetBlockTime e \<ge> 1333238400;
          flags = (if strict then SCRIPT_VERIFY_P2SH else SCRIPT_VERIFY_NONE)
      in if bh_nVersion (header block) \<ge> 3 then
           (case IsSuperMajority (v_params V) (entries (nd_index (v_node V))) 3 (pprev e)
               (to_u 32 (nEnforceBlockUpgradeMajority (v_params V))) of
              None \<Rightarrow> Inl OutOfRange
            | Some True \<Rightarrow> Inr (strict, flags OR SCRIPT_VERIFY_DERSIG)
            | Some False \<Rightarrow> Inr (strict, flags))
         else Inr (strict, flags))"

text \<open>The accumulator checkpoint of the header; \<open>f\<close> is the entry before.\<close>

definition check_accumulator ::
    "validation \<Rightarrow> CBlock \<Rightarrow> CBlockIndex \<Rightarrow> CBlockIndex \<Rightarrow> CValidationState \<Rightarrow> block_failure + unit" where
  "check_accumulator V block e f st =
     (if fVerifyingBlocks V then Inr ()
      else if bi_nHeight e \<ge> nZerocoinStartHeight (v_params V) \<and> bi_nHeight e smod 10 = 0 then
        (case v_checkpoint V (bi_nHeight e) of
           None \<Rightarrow> Inl (block_DoS 100 0 [] False st)
         | Some c \<Rightarrow> if c \<noteq> bh_nAccumulatorCheckpoint (header block) then Inl (block_DoS 100 0 [] False st) else Inr ())
      else if bh_nAccumulatorCheckpoint (header block) \<noteq> bi_nAccumulatorCheckpoint f then Inl (block_DoS 100 0 [] False st)
      else Inr ())"

text \<open>The undo data and the validity of the entry; the flag is whether the entry was changed.\<close>

definition write_undo ::
    "validation \<Rightarrow> CTxInUndo list list \<Rightarrow> CBlockIndex \<Rightarrow> CValidationState \<Rightarrow> block_failure + CBlockIndex \<times> bool" where
  "write_undo V undo e st =
     bindE (asserted (IsValid BLOCK_VALID_SCRIPTS e)) (\<lambda>valid.
     let null = DiskBlockPos_IsNull (GetUndoPos e) in
     if \<not> null \<and> valid then Inr (e, False)
     else
     bindE (if \<not> null then Inr e
            else (case v_find_undo V e undo of
               None \<Rightarrow> Inl (Rejected (state_Error ''out of disk space'' st) False)
             | Some pos \<Rightarrow>
                 if \<not> v_write_undo V then Inl (Rejected (state_Error ''Failed to write undo data'' st) False)
                 else Inr (e\<lparr>nUndoPos := pos, nStatus := nStatus e OR BLOCK_HAVE_UNDO\<rparr>))) (\<lambda>e1.
     bindE (asserted (RaiseValidity BLOCK_VALID_SCRIPTS e1)) (\<lambda>(_, e2). Inr (e2, True))))"

text \<open>The map of spent outpoints: the block's inputs are added, and entries below the reorganization depth dropped.\<close>

fun stake_spent_add :: "int \<Rightarrow> CTransaction list \<Rightarrow> (COutPoint \<Rightarrow> int option) \<Rightarrow> failure + (COutPoint \<Rightarrow> int option)" where
  "stake_spent_add height [] m = Inr m"
| "stake_spent_add height (tx # txs) m =
     bindE (coinbase tx) (\<lambda>cb.
     stake_spent_add height txs
       (if cb then m else foldl (\<lambda>m i. if m (prevout i) = None then m(prevout i \<mapsto> height) else m) m (vin tx)))"

definition stake_spent_prune :: "int \<Rightarrow> (COutPoint \<Rightarrow> int option) \<Rightarrow> COutPoint \<Rightarrow> int option" where
  "stake_spent_prune limit m p = (case m p of None \<Rightarrow> None | Some h \<Rightarrow> if h < limit then None else Some h)"

record connect_result =
  cr_view :: view
  cr_pindex :: CBlockIndex
  cr_undo :: "CTxInUndo list list"
  cr_spends :: "nat \<Rightarrow> uint256 option"
  cr_stakes :: "COutPoint \<Rightarrow> int option"
  cr_dirty :: bool
  cr_txindex :: "(uint256 \<times> nat) list"

text \<open>What follows the transactions: the index entry, the mint, the checkpoint and the deferred checks.\<close>

definition connect_supply ::
    "validation \<Rightarrow> CBlock \<Rightarrow> CValidationState \<Rightarrow> connect_acc \<Rightarrow> CBlockIndex \<Rightarrow> block_failure + CBlockIndex" where
  "connect_supply V block st a e =
     (let mints = snd (BlockToZerocoinMintList V (vtx block) []) in
      bindE (run (ZerocoinSpendListFromBlock (vtx block))) (\<lambda>spends.
      let ix = entries (nd_index (v_node V));
          ix' = (if \<not> fVerifyingBlocks V \<and> bi_nHeight e = nZerocoinStartHeight (v_params V) + 1 then v_recalculate V ix else ix);
          prev = Option.bind (pprev e) ix'
      in if pprev e \<noteq> None \<and> prev = None then Inl (Stopped OutOfRange)
      else
      bindE (zerocoin_supply st prev mints spends e) (\<lambda>e1.
      let e2 = money_supply prev a e1 in
      if \<not> v_write_index V then Inl (Rejected st False)
      else (case prev of
         None \<Rightarrow> Inl (Stopped OutOfRange)
       | Some f \<Rightarrow>
           let nExpectedMint = GetBlockValue (v_halving V) (v_params V) (bi_nHeight f);
               nExpectedMint' = (if IsProofOfWork block then wrap_s 64 (nExpectedMint + ca_nFees a) else nExpectedMint)
           in
           bindE (run (IsBlockValueValid (v_params V) (v_node V) block nExpectedMint' (bi_nMint e2))) (\<lambda>ok.
           if \<not> ok then Inl (block_DoS 100 REJECT_INVALID ''bad-cb-amount'' False st)
           else
           bindE (check_accumulator V block e2 f st) (\<lambda>_.
           if list_ex (\<lambda>c. script_check_run (v_env V) (v_sigcache V) (v_Verify V) (v_Hash V) c \<noteq> Inr ()) (ca_checks a)
           then Inl (block_DoS 100 0 [] False st)
           else Inr e2))))))"

definition connect_writes ::
    "validation \<Rightarrow> CBlock \<Rightarrow> CValidationState \<Rightarrow> connect_acc \<Rightarrow> (COutPoint \<Rightarrow> int option) \<Rightarrow> CBlockIndex \<Rightarrow>
     block_failure + connect_result" where
  "connect_writes V block st a stakes e =
     bindE (write_undo V (ca_vtxundo a) e st) (\<lambda>(e1, dirty).
     if fTxIndex V \<and> \<not> v_write_txindex V then Inl (Rejected (state_Error ''Failed to write transaction index'' st) False)
     else
     bindE (run (stake_spent_add (bi_nHeight e1) (vtx block) stakes)) (\<lambda>stakes'.
     (case phashBlock e1 of
        None \<Rightarrow> Inl (Stopped OutOfRange)
      | Some hash \<Rightarrow>
          Inr \<lparr>cr_view = SetBestBlock hash (ca_view a), cr_pindex = e1, cr_undo = ca_vtxundo a, cr_spends = ca_spends a,
            cr_stakes = stake_spent_prune (bi_nHeight e1 - nMaxReorganizationDepth (v_params V)) stakes', cr_dirty = dirty,
            cr_txindex = (if fTxIndex V then ca_vPos a else [])\<rparr>)))"

definition ConnectBlock ::
    "validation \<Rightarrow> CBlock \<Rightarrow> CBlockIndex \<Rightarrow> bool \<Rightarrow> bool \<Rightarrow> (nat \<Rightarrow> uint256 option) \<Rightarrow> (COutPoint \<Rightarrow> int option) \<Rightarrow>
     CValidationState \<Rightarrow> view \<Rightarrow> block_failure + connect_result" where
  "ConnectBlock V block e fJustCheck fAlreadyChecked db stakes st v =
     bindE (if fAlreadyChecked then Inr ()
            else CheckBlock (v_params V) (v_XEVAN V) (v_Hash V) (v_mint_ok V) (v_node V) block (\<not> fJustCheck) (\<not> fJustCheck) st) (\<lambda>_.
     let ix = entries (nd_index (v_node V));
         hashPrevBlock = (case pprev e of None \<Rightarrow> Some 0 | Some q \<Rightarrow> index_GetBlockHash ix q)
     in case hashPrevBlock of None \<Rightarrow> Inl (Stopped OutOfRange) | Some prevHash \<Rightarrow>
     (case GetBestBlock v of (best, v1) \<Rightarrow>
     if prevHash \<noteq> best then Inl (Stopped Assertion)
     else if block_GetHash (v_XEVAN V) (v_Hash V) block = v_genesis V then
       (case phashBlock e of
          None \<Rightarrow> Inl (Stopped OutOfRange)
        | Some hash \<Rightarrow> Inr \<lparr>cr_view = SetBestBlock hash v1, cr_pindex = e, cr_undo = [], cr_spends = db, cr_stakes = stakes,
            cr_dirty = False, cr_txindex = []\<rparr>)
     else if bi_nHeight e \<le> nLastPOWBlock (v_params V) \<and> IsProofOfStake block
       then Inl (block_DoS 100 REJECT_INVALID ''PoS-early'' False st)
     else if bi_nHeight e > nLastPOWBlock (v_params V) \<and> IsProofOfWork block
       then Inl (block_DoS 100 REJECT_INVALID ''PoW-ended'' False st)
     else
     bindE (if enforce_BIP30 e then check_overwrites st (vtx block) v1 else Inr v1) (\<lambda>v2.
     bindE (run (script_flags V block e)) (\<lambda>(strict, flags).
     bindE (connect_txs V block (bi_nHeight e) strict flags (bi_nHeight e \<ge> v_estimate V) st 0 (vtx block)
              \<lparr>ca_nFees = 0, ca_nSigOps = 0, ca_nValueIn = 0, ca_nValueOut = 0, ca_vtxundo = [], ca_vPos = [],
                ca_nTxOffset = GetSizeOfCompactSize (length (vtx block)), ca_checks = [], ca_spends = db, ca_view = v2\<rparr>) (\<lambda>a.
     bindE (connect_supply V block st a e) (\<lambda>e1.
     if fJustCheck then
       Inr \<lparr>cr_view = ca_view a, cr_pindex = e1, cr_undo = ca_vtxundo a, cr_spends = ca_spends a, cr_stakes = stakes,
         cr_dirty = False, cr_txindex = []\<rparr>
     else connect_writes V block st a stakes e1))))))"

end
