(* ===== verification/Supply.thy ===== *)
theory Supply
  imports ConnectBlock
begin

section \<open>A block cannot create money\<close>

text \<open>
  The total of the unspent outputs and what applying a transaction does to it; from this, that a block
  that \<open>ConnectBlock\<close> accepts, and whose value it checks, adds at most the subsidy and the denominations of its zerocoin
  spends to the total, although the code only computes with sums that wrap around at 64 bits. The money that a zerocoin spend brings
  back was taken from the unspent outputs by a mint in an earlier block.
\<close>

definition coins_value :: "CCoins \<Rightarrow> CAmount" where
  "coins_value c = (\<Sum>out\<leftarrow>cvout c. if TxOut_IsNull out then 0 else nValue out)"

definition total :: "umap \<Rightarrow> CAmount" where
  "total U = (\<Sum>t\<in>dom U. coins_value (the (U t)))"

definition map_nonneg :: "umap \<Rightarrow> bool" where
  "map_nonneg U \<longleftrightarrow> (\<forall>t c. U t = Some c \<longrightarrow> list_all (\<lambda>out. TxOut_IsNull out \<or> 0 \<le> nValue out) (cvout c))"

lemma null_values: "list_all TxOut_IsNull l \<Longrightarrow> (\<Sum>out\<leftarrow>l. if TxOut_IsNull out then 0 else nValue out) = 0"
  by (induction l) auto

lemma TxOut_IsNull_default [simp]: "TxOut_IsNull CTxOut_default"
  by (simp add: TxOut_IsNull_def CTxOut_default_def)

lemma coins_value_pruned: "IsPruned c \<Longrightarrow> coins_value c = 0"
  by (simp add: IsPruned_def coins_value_def null_values)

lemma coins_value_Cleanup: "coins_value (Cleanup c) = coins_value c"
proof -
  obtain k where k: "cvout c = pop_null (cvout c) @ k" "list_all TxOut_IsNull k" using pop_null_decomp by blast
  have "coins_value c = (\<Sum>out\<leftarrow>pop_null (cvout c) @ k. if TxOut_IsNull out then 0 else nValue out)"
    using k(1) by (simp only: coins_value_def)
  then show ?thesis using null_values [OF k(2)] by (simp add: coins_value_def)
qed

lemma coins_value_nonneg: "list_all (\<lambda>out. TxOut_IsNull out \<or> 0 \<le> nValue out) (cvout c) \<Longrightarrow> 0 \<le> coins_value c"
  by (auto simp: coins_value_def list_all_iff intro!: sum_list_nonneg)

lemma total_nonneg: "map_nonneg U \<Longrightarrow> 0 \<le> total U"
  by (auto simp: total_def map_nonneg_def intro!: sum_nonneg coins_value_nonneg)

lemma total_upd:
  assumes "finite (dom U)"
  shows "total (U(t := keep c)) = total U - (case U t of None \<Rightarrow> 0 | Some k \<Rightarrow> coins_value k) + coins_value c"
proof -
  have rest: "(\<Sum>x\<in>dom U - {t}. coins_value (the ((U(t := z)) x))) = (\<Sum>x\<in>dom U - {t}. coins_value (the (U x)))" for z
    by (intro sum.cong) auto
  have "total U = (\<Sum>x\<in>dom U - {t}. coins_value (the (U x))) + (case U t of None \<Rightarrow> 0 | Some k \<Rightarrow> coins_value k)"
  proof (cases "U t")
    case (Some k)
    then have "t \<in> dom U" by auto
    then show ?thesis using sum.remove [OF assms, of t "\<lambda>x. coins_value (the (U x))"] Some by (simp add: total_def)
  next
    case None
    then have "dom U - {t} = dom U" by auto
    then show ?thesis using None by (simp add: total_def)
  qed
  moreover have "total (U(t := keep c)) = (\<Sum>x\<in>dom U - {t}. coins_value (the (U x))) + coins_value c"
  proof (cases "IsPruned c")
    case True
    then show ?thesis using rest [of None] by (simp add: total_def coins_value_pruned)
  next
    case False
    then have k: "keep c = Some c" by (simp add: keep_def)
    have "dom (U(t := Some c)) = insert t (dom U - {t})" by auto
    then have "total (U(t := Some c)) = (\<Sum>x\<in>insert t (dom U - {t}). coins_value (the ((U(t := Some c)) x)))"
      by (simp only: total_def)
    also have "\<dots> = coins_value c + (\<Sum>x\<in>dom U - {t}. coins_value (the ((U(t := Some c)) x)))"
      using assms by (subst sum.insert) (simp_all del: insert_Diff_single)
    finally show ?thesis unfolding k rest by simp
  qed
  ultimately show ?thesis by simp
qed

lemma finite_upd: "finite (dom U) \<Longrightarrow> finite (dom (U(t := x)))"
  by (cases x) simp_all

subsection \<open>Spending\<close>

lemma sum_list_update: "n < length xs \<Longrightarrow> (\<Sum>x\<leftarrow>xs[n := y]. f x) = (\<Sum>x\<leftarrow>xs. f x) - f (xs ! n) + (f y :: int)"
  by (induction xs arbitrary: n) (auto split: nat.split)

lemma Spend_value:
  assumes "Spend c n = Some (c', u)"
  shows "coins_value c' = coins_value c - nValue (cvout c ! n) \<and> n < length (cvout c) \<and> \<not> TxOut_IsNull (cvout c ! n)"
proof -
  have n: "n < length (cvout c)" "\<not> TxOut_IsNull (cvout c ! n)" using assms by (auto simp: Spend_def split: if_splits)
  have "c' = Cleanup (c\<lparr>cvout := (cvout c)[n := TxOut_SetNull (cvout c ! n)]\<rparr>)"
    using assms by (auto simp: Spend_def Let_def split: if_splits)
  then have "coins_value c' = coins_value (c\<lparr>cvout := (cvout c)[n := TxOut_SetNull (cvout c ! n)]\<rparr>)"
    by (simp only: coins_value_Cleanup)
  also have "\<dots> = coins_value c - nValue (cvout c ! n)"
    using n sum_list_update [OF n(1), of "\<lambda>out. if TxOut_IsNull out then 0 else nValue out"]
    by (simp add: coins_value_def TxOut_SetNull_default)
  finally show ?thesis using n by simp
qed

text \<open>Every output that is left is one that was there.\<close>

definition left_of :: "umap \<Rightarrow> umap \<Rightarrow> bool" where
  "left_of V U \<longleftrightarrow> (\<forall>t d. V t = Some d \<longrightarrow> (\<exists>c. U t = Some c \<and>
     (\<forall>n<length (cvout d). \<not> TxOut_IsNull (cvout d ! n) \<longrightarrow> n < length (cvout c) \<and> cvout c ! n = cvout d ! n)))"

lemma left_of_refl: "left_of U U"
  by (simp add: left_of_def)

lemma left_of_trans: "left_of W V \<Longrightarrow> left_of V U \<Longrightarrow> left_of W U"
  unfolding left_of_def by metis

lemma Spend_left:
  assumes "Spend c n = Some (c', u)" "m < length (cvout c')" "\<not> TxOut_IsNull (cvout c' ! m)"
  shows "m < length (cvout c) \<and> cvout c ! m = cvout c' ! m"
proof -
  let ?l = "(cvout c)[n := CTxOut_default]"
  have c': "cvout c' = pop_null ?l" using Spend_Some [OF assms(1)] by simp
  obtain k where k: "?l = pop_null ?l @ k" using pop_null_decomp by blast
  have m: "m < length ?l" "?l ! m = cvout c' ! m"
    using assms(2) unfolding c' by (subst k, simp, subst k, simp add: nth_append)
  have "m \<noteq> n" using m assms(3) by auto
  then show ?thesis using m by simp
qed

lemma spend_map_total:
  assumes "spend_map p U = Some (u, U')" "finite (dom U)" "map_nonneg U"
  shows "total U' = total U - nValue (cvout (the (U (op_hash p))) ! unat (op_n p)) \<and> finite (dom U') \<and> map_nonneg U' \<and> left_of U' U \<and>
    (\<exists>c. U (op_hash p) = Some c \<and> unat (op_n p) < length (cvout c) \<and> \<not> TxOut_IsNull (cvout c ! unat (op_n p)))"
proof -
  let ?h = "op_hash p" and ?n = "unat (op_n p)"
  obtain c c' where c: "U ?h = Some c" "Spend c ?n = Some (c', u)" "U' = U(?h := keep c')"
    using assms(1) by (auto simp: spend_map_def split: option.splits)
  note v = Spend_value [OF c(2)]
  have "total U' = total U - nValue (cvout c ! ?n)" using total_upd [OF assms(2)] c v by simp
  moreover have l: "left_of U' U"
    using c(1) Spend_left [OF c(2)] by (auto simp: left_of_def c(3) keep_def split: if_splits)
  moreover have "map_nonneg U'"
    unfolding map_nonneg_def
  proof (intro allI impI)
    fix t d assume d: "U' t = Some d"
    then obtain k where k: "U t = Some k" "\<forall>n<length (cvout d). \<not> TxOut_IsNull (cvout d ! n) \<longrightarrow> n < length (cvout k) \<and> cvout k ! n = cvout d ! n"
      using l unfolding left_of_def by blast
    then show "list_all (\<lambda>out. TxOut_IsNull out \<or> 0 \<le> nValue out) (cvout d)"
      using assms(3) unfolding map_nonneg_def list_all_length by metis
  qed
  ultimately show ?thesis using c v finite_upd [OF assms(2)] by auto
qed

lemma spends_map_total:
  assumes "spends_map ins W = Some (us, U')" "left_of W U" "finite (dom W)" "map_nonneg W"
  shows "total U' = total W - (\<Sum>i\<leftarrow>ins. input_value U i) \<and> finite (dom U') \<and> map_nonneg U'"
  using assms
proof (induction ins arbitrary: W us)
  case (Cons i ins)
  obtain u W1 us1 where s: "spend_map (prevout i) W = Some (u, W1)" "spends_map ins W1 = Some (us1, U')"
    using Cons.prems(1) by (auto split: option.splits)
  from spend_map_total [OF s(1) Cons.prems(3,4)] obtain c where
    w: "total W1 = total W - nValue (cvout (the (W (op_hash (prevout i)))) ! unat (op_n (prevout i)))" "finite (dom W1)" "map_nonneg W1"
      "left_of W1 W" and c: "W (op_hash (prevout i)) = Some c" "unat (op_n (prevout i)) < length (cvout c)"
      "\<not> TxOut_IsNull (cvout c ! unat (op_n (prevout i)))" by blast
  have "nValue (cvout c ! unat (op_n (prevout i))) = input_value U i"
    using Cons.prems(2) c unfolding left_of_def input_value_def input_out_def coins_of_def by (metis option.sel)
  then show ?case using Cons.IH [OF s(2) left_of_trans [OF w(4) Cons.prems(2)] w(2,3)] w(1) c(1) by simp
qed simp

subsection \<open>A transaction\<close>

lemma FromTx_value:
  assumes "FromTx tx h c0 = Some c" "list_all (\<lambda>out. 0 \<le> nValue out) (vout tx)"
  shows "coins_value c \<le> sum_list (map nValue (vout tx)) \<and> list_all (\<lambda>out. TxOut_IsNull out \<or> 0 \<le> nValue out) (cvout c)"
proof -
  define l where "l = map clear_out (vout tx)"
  have c: "cvout c = pop_null l"
    using assms(1) by (auto simp: FromTx_def cvout_ClearUnspendable l_def split: option.splits)
  have "coins_value c = coins_value (c\<lparr>cvout := l\<rparr>)"
    using coins_value_Cleanup [of "c\<lparr>cvout := l\<rparr>"] c by (simp add: coins_value_def)
  also have "\<dots> \<le> sum_list (map nValue (vout tx))"
    unfolding coins_value_def l_def using assms(2)
    by (simp add: comp_def) (rule sum_list_mono, auto simp: clear_out_def TxOut_SetNull_default list_all_iff)
  finally have le: "coins_value c \<le> sum_list (map nValue (vout tx))" .
  have "list_all (\<lambda>out. TxOut_IsNull out \<or> 0 \<le> nValue out) l"
    using assms(2) by (auto simp: l_def list_all_iff clear_out_def TxOut_SetNull_default)
  then show ?thesis using le set_pop_null [of l] by (auto simp: c list_all_iff)
qed

lemma update_map_total:
  assumes "update_map tx h U = Some (us, U')" "list_all (\<lambda>out. 0 \<le> nValue out) (vout tx)" "finite (dom U)" "map_nonneg U"
  shows "total U' \<le> total U - (if has_inputs tx then total_in U tx else 0) + sum_list (map nValue (vout tx)) \<and>
    finite (dom U') \<and> map_nonneg U'"
proof -
  obtain c U1 where p: "FromTx tx h CCoins_default = Some c" "U' = U1(tx_hash tx := keep c)"
    "if has_inputs tx then spends_map (vin tx) U = Some (us, U1) else us = [] \<and> U1 = U"
    using update_map_parts [OF assms(1)] by metis
  have U1: "total U1 = total U - (if has_inputs tx then total_in U tx else 0)" "finite (dom U1)" "map_nonneg U1"
    using p(3) spends_map_total [OF _ left_of_refl assms(3,4)] assms(3,4) by (auto simp: total_in_def split: if_splits)
  note c = FromTx_value [OF p(1) assms(2)]
  have "0 \<le> (case U1 (tx_hash tx) of None \<Rightarrow> 0 | Some k \<Rightarrow> coins_value k)"
    using U1(3) coins_value_nonneg by (auto simp: map_nonneg_def split: option.splits)
  then have "total U' \<le> total U1 + sum_list (map nValue (vout tx))" using total_upd [OF U1(2)] c by (simp add: p(2))
  moreover have "map_nonneg U'" using U1(3) c by (auto simp: map_nonneg_def p(2) keep_def split: if_splits)
  ultimately show ?thesis using U1 finite_upd [OF U1(2)] by (simp add: p(2))
qed

subsection \<open>Sums modulo two to the 64\<close>

definition cong64 :: "int \<Rightarrow> int \<Rightarrow> bool" where
  "cong64 x y \<longleftrightarrow> x mod 2 ^ 64 = y mod 2 ^ 64"

lemma cong64_refl [simp]: "cong64 x x"
  by (simp add: cong64_def)

lemma cong64_wrap [simp]: "cong64 (wrap_s 64 x) x" "cong64 x (wrap_s 64 x)"
  by (simp_all add: cong64_def wrap_s_def mod_simps)

lemma cong64_trans: "cong64 x y \<Longrightarrow> cong64 y z \<Longrightarrow> cong64 x z"
  by (simp add: cong64_def)

lemma cong64_add: "cong64 a b \<Longrightarrow> cong64 c d \<Longrightarrow> cong64 (a + c) (b + d)"
  unfolding cong64_def by (rule mod_add_cong)

lemma cong64_diff: "cong64 a b \<Longrightarrow> cong64 c d \<Longrightarrow> cong64 (a - c) (b - d)"
  unfolding cong64_def by (rule mod_diff_cong)

lemma wrap_s_cong: "cong64 x y \<Longrightarrow> wrap_s 64 x = wrap_s 64 y"
  unfolding cong64_def wrap_s_def by (metis mod_add_left_eq)

lemma cong64_wrap_add: "cong64 x (wrap_s 64 (y + wrap_s 64 z)) \<longleftrightarrow> cong64 x (y + z)"
  by (simp add: cong64_def wrap_s_def mod_simps)

lemma cong64_id: "cong64 x y \<Longrightarrow> in_s 64 x \<Longrightarrow> in_s 64 y \<Longrightarrow> x = y"
  using wrap_s_cong [of x y] wrap_s_id [of 64 x] wrap_s_id [of 64 y] by simp

subsection \<open>What an accepted transaction does to the sums\<close>

lemma GetOutputFor_ok:
  assumes "GetOutputFor i v = Some (out, v')" "cache_ok v"
  shows "view_same v v' \<and> input_available (utxo v) i \<and> nValue out = input_value (utxo v) i"
proof -
  obtain c where a: "AccessCoins v (op_hash (prevout i)) = (Some c, v')" "IsAvailable c (unat (op_n (prevout i)))"
    "out = cvout c ! unat (op_n (prevout i))"
    using assms(1) by (auto simp: GetOutputFor_def split: prod.splits option.splits if_splits)
  have "\<not> IsPruned c" using a(2) by (auto simp: IsPruned_unspent unspent_def IsAvailable_def)
  then have "keep c = Some c" by (simp add: keep_def)
  then have "utxo v (op_hash (prevout i)) = Some c" using AccessCoins_ok [OF assms(2) a(1)] by simp
  then show ?thesis using conjunct1 [OF AccessCoins_ok [OF assms(2) a(1)]] a(2,3)
    by (simp add: input_available_def input_value_def input_out_def coins_of_def)
qed

lemma p2sh_sigops_same:
  "p2sh_sigops_loop ins n v = Inr (m, v') \<Longrightarrow> cache_ok v \<Longrightarrow> view_same v v'"
proof (induction ins arbitrary: n v)
  case (Cons i ins)
  then obtain out w k where "GetOutputFor i v = Some (out, w)" "p2sh_sigops_loop ins k w = Inr (m, v')"
    by (auto split: option.splits prod.splits)
  then show ?case using GetOutputFor_ok [of i v out w] Cons view_same_trans by (auto simp: view_same_def)
qed (simp add: view_same_refl)

lemma GetP2SHSigOpCount_same: "GetP2SHSigOpCount tx v = Inr (m, v') \<Longrightarrow> cache_ok v \<Longrightarrow> view_same v v'"
  by (auto simp: GetP2SHSigOpCount_def bindE_Inr_conv p2sh_sigops_same view_same_refl split: if_splits)

lemma value_in_loop_ok:
  "value_in_loop ins x v = Some (y, v') \<Longrightarrow> cache_ok v \<Longrightarrow>
   view_same v v' \<and> cong64 y (x + (\<Sum>i\<leftarrow>ins. input_value (utxo v) i))"
proof (induction ins arbitrary: x v)
  case (Cons i ins)
  then obtain out w where g: "GetOutputFor i v = Some (out, w)" "value_in_loop ins (wrap_s 64 (x + nValue out)) w = Some (y, v')"
    by (auto split: option.splits prod.splits)
  note o = GetOutputFor_ok [OF g(1) Cons.prems(2)]
  have "view_same w v' \<and> cong64 y (wrap_s 64 (x + nValue out) + (\<Sum>i\<leftarrow>ins. input_value (utxo v) i))"
    using Cons.IH [OF g(2)] o by (simp add: view_same_def)
  moreover have "cong64 (wrap_s 64 (x + nValue out) + (\<Sum>i\<leftarrow>ins. input_value (utxo v) i))
      (x + nValue out + (\<Sum>i\<leftarrow>ins. input_value (utxo v) i))" by (intro cong64_add) simp_all
  ultimately show ?case using o view_same_trans [of v w v'] cong64_trans by (auto simp: add.assoc)
qed (simp add: view_same_refl)

lemma CheckInputs_accepts:
  assumes "CheckInputs P e G Verify Hash ix tx fScriptChecks flags cs fDefer v = Inr (checks, v')" "cache_ok v" "has_inputs tx"
    and "0 \<le> nMaxMoneyOut P" "nMaxMoneyOut P < 2 ^ 62" "\<forall>out\<in>set (vout tx). in_s 64 (nValue out)"
  shows "view_same v v' \<and> (\<exists>h. spend_height ix (best_block v) = Some h \<and> inputs_valid P h (utxo v) tx)"
proof -
  have "spend_height ix (best_block v) \<noteq> None"
  proof
    assume n: "spend_height ix (best_block v) = None"
    have t: "IsCoinBase tx = Some False" "IsZerocoinSpend_tx tx = Some False" using assms(3) by (simp_all add: has_inputs_def)
    obtain av v1 where hv: "have_inputs_loop (vin tx) v = (av, v1)" by fastforce
    obtain best v2 where gb: "GetBestBlock v1 = (best, v2)" by fastforce
    have "best = best_block v"
      using have_inputs_ok [OF assms(2) hv] GetBestBlock_cache_ok [OF _ gb] by (simp add: view_same_def)
    then show False using assms(1) n gb
      by (simp add: CheckInputs_def coinbase_def zerospend_def HaveInputs_def t hv split: if_splits)
  qed
  then obtain h where h: "spend_height ix (best_block v) = Some h" by auto
  from CheckInputs_run [where fScriptChecks = fScriptChecks and fDefer = fDefer and e = e and G = G and Verify = Verify and Hash = Hash and flags = flags
      and cs = cs, OF assms(2,3) h assms(4-6)] assms(1) h
  show ?thesis by (auto simp: view_same_def split: if_splits)
qed

definition outputs_within :: "CChainParams \<Rightarrow> CTransaction \<Rightarrow> bool" where
  "outputs_within P tx \<longleftrightarrow> list_all (\<lambda>out. 0 \<le> nValue out) (vout tx) \<and> sum_list (map nValue (vout tx)) \<le> nMaxMoneyOut P"

definition value_of :: "CTransaction \<Rightarrow> CAmount" where
  "value_of tx = sum_list (map nValue (vout tx))"

lemma outputs_within_facts:
  assumes "outputs_within P tx" "nMaxMoneyOut P < 2 ^ 62"
  shows "0 \<le> value_of tx" "value_of tx \<le> nMaxMoneyOut P" "\<forall>out\<in>set (vout tx). in_s 64 (nValue out)"
    and "GetValueOut tx = Inr (value_of tx)"
proof -
  have v: "list_all (\<lambda>out. 0 \<le> nValue out) (vout tx)" "sum_list (map nValue (vout tx)) \<le> nMaxMoneyOut P"
    using assms(1) by (simp_all add: outputs_within_def)
  then show 0: "0 \<le> value_of tx" "value_of tx \<le> nMaxMoneyOut P" by (auto simp: value_of_def list_all_iff intro!: sum_list_nonneg)
  have le: "nValue out \<le> value_of tx" if "out \<in> set (vout tx)" for out
    unfolding value_of_def using v(1) that by (intro member_le_sum_list) (auto simp: list_all_iff)
  then show in_s: "\<forall>out\<in>set (vout tx). in_s 64 (nValue out)"
    using v 0 assms(2) by (force simp: in_s_def list_all_iff)
  then show "GetValueOut tx = Inr (value_of tx)"
    using GetValueOut_loop_spec [of 0 "vout tx" "value_of tx"] v 0 assms(2) in_s
    by (simp add: GetValueOut_def value_of_def list_all_iff)
qed

lemma Inr_convs:
  "asserted m = Inr x \<longleftrightarrow> m = Some x" "thrown m = Inr x \<longleftrightarrow> m = Some x" "run n = Inr y \<longleftrightarrow> n = Inr y"
  "lift_check st n = Inr y \<longleftrightarrow> n = Inr y" "value_out tx = Inr z \<longleftrightarrow> GetValueOut tx = Inr z"
  by (auto simp: asserted_def thrown_def run_def lift_check_def value_out_def split: option.split sum.split)

lemma connect_inputs_ok:
  assumes "connect_inputs V strict flags sc st tx a = Inr a'" "cache_ok (ca_view a)" "has_inputs tx"
    and "0 \<le> nMaxMoneyOut (v_params V)" "nMaxMoneyOut (v_params V) < 2 ^ 62" "outputs_within (v_params V) tx"
  shows "view_same (ca_view a) (ca_view a') \<and> (\<exists>h. inputs_valid (v_params V) h (utxo (ca_view a)) tx) \<and>
    cong64 (ca_nFees a') (ca_nFees a + (if IsCoinStake tx then 0 else total_in (utxo (ca_view a)) tx - value_of tx)) \<and>
    cong64 (ca_nValueIn a') (ca_nValueIn a + total_in (utxo (ca_view a)) tx) \<and> ca_nValueOut a' = ca_nValueOut a"
proof -
  let ?v = "ca_view a"
  have t: "IsCoinBase tx = Some False" "IsZerocoinSpend_tx tx = Some False" using assms(3) by (simp_all add: has_inputs_def)
  obtain v1 n v2 y v3 fees checks v4 where
    1: "have_inputs_loop (vin tx) ?v = (True, v1)"
    and 2: "(if strict then run (GetP2SHSigOpCount tx v1) else Inr (0, v1)) = Inr (n, v2)"
    and 3: "value_in_loop (vin tx) 0 v2 = Some (y, v3)"
    and 4: "(if IsCoinStake tx then Inr (ca_nFees a)
            else bindE (value_out tx) (\<lambda>valueOut. Inr (wrap_s 64 (ca_nFees a + wrap_s 64 (y - valueOut))))) = Inr fees"
    and 5: "CheckInputs (v_params V) (v_env V) (v_sigcache V) (v_Verify V) (v_Hash V) (nd_index (v_node V)) tx sc flags False (v_threads V) v3 = Inr (checks, v4)"
    and 6: "a' = a\<lparr>ca_nSigOps := uadd32 (ca_nSigOps a) n, ca_nFees := fees, ca_nValueIn := wrap_s 64 (ca_nValueIn a + y),
       ca_checks := ca_checks a @ checks, ca_view := v4\<rparr>"
  proof -
    obtain ok v1 where h: "have_inputs_loop (vin tx) ?v = (ok, v1)" by fastforce
    then have ok proof (cases ok)
    qed (use assms(1) in \<open>simp_all add: connect_inputs_def HaveInputs_def t asserted_def h\<close>)
    have gv: "GetValueIn (\<lambda>_. 0) tx w = value_in_loop (vin tx) 0 w" for w by (simp add: GetValueIn_def t)
    have hi: "asserted (HaveInputs tx ?v) = Inr (True, v1)" by (simp add: HaveInputs_def t h \<open>ok\<close> asserted_def)
    define m2 where "m2 = (if strict then run (GetP2SHSigOpCount tx v1) else Inr (0, v1))"
    define m4 where "m4 y = (if IsCoinStake tx then Inr (ca_nFees a)
            else bindE (value_out tx) (\<lambda>valueOut. Inr (wrap_s 64 (ca_nFees a + wrap_s 64 (y - valueOut)))))" for y
    have "connect_inputs V strict flags sc st tx a = bindE m2 (\<lambda>(n, v2).
        if strict \<and> uadd32 (ca_nSigOps a) n > MAX_BLOCK_SIGOPS_CURRENT then Inl (block_DoS 100 REJECT_INVALID ''bad-blk-sigops'' False st)
        else bindE (asserted (value_in_loop (vin tx) 0 v2)) (\<lambda>(y, v3).
        bindE (m4 y) (\<lambda>fees.
        bindE (lift_check st (CheckInputs (v_params V) (v_env V) (v_sigcache V) (v_Verify V) (v_Hash V) (nd_index (v_node V)) tx sc flags False (v_threads V) v3))
        (\<lambda>(checks, v4). Inr (a\<lparr>ca_nSigOps := uadd32 (ca_nSigOps a) n, ca_nFees := fees, ca_nValueIn := wrap_s 64 (ca_nValueIn a + y),
          ca_checks := ca_checks a @ checks, ca_view := v4\<rparr>)))))"
      unfolding connect_inputs_def gv hi m2_def m4_def Let_def by simp
    with assms(1) obtain n v2 y v3 fees checks v4 where "m2 = Inr (n, v2)" "value_in_loop (vin tx) 0 v2 = Some (y, v3)" "m4 y = Inr fees"
      "CheckInputs (v_params V) (v_env V) (v_sigcache V) (v_Verify V) (v_Hash V) (nd_index (v_node V)) tx sc flags False (v_threads V) v3 = Inr (checks, v4)"
      "a' = a\<lparr>ca_nSigOps := uadd32 (ca_nSigOps a) n, ca_nFees := fees, ca_nValueIn := wrap_s 64 (ca_nValueIn a + y),
        ca_checks := ca_checks a @ checks, ca_view := v4\<rparr>"
      by (auto simp: bindE_Inr_conv Inr_convs split: if_splits)
    then show thesis using that [of v1 n v2 y v3 fees checks v4] h \<open>ok\<close> by (simp add: m2_def m4_def)
  qed
  have w1: "view_same ?v v1" using have_inputs_ok [OF assms(2) 1] by simp
  have "view_same v1 v2" using 2 GetP2SHSigOpCount_same [of tx v1 n v2] w1
    by (auto simp: view_same_def Inr_convs split: if_splits)
  then have w2: "view_same ?v v2" using w1 view_same_trans by blast
  have "view_same v2 v3 \<and> cong64 y (0 + (\<Sum>i\<leftarrow>vin tx. input_value (utxo v2) i))" using value_in_loop_ok [OF 3] w2 by (simp add: view_same_def)
  then have w3: "view_same ?v v3" and y: "cong64 y (total_in (utxo ?v) tx)"
    using w2 view_same_trans by (auto simp: total_in_def view_same_def)
  have "view_same v3 v4 \<and> (\<exists>h. spend_height (nd_index (v_node V)) (best_block v3) = Some h \<and> inputs_valid (v_params V) h (utxo v3) tx)"
    using w3 by (intro CheckInputs_accepts [OF 5 _ assms(3-5) outputs_within_facts(3) [OF assms(6,5)]]) (simp add: view_same_def)
  moreover from this have "view_same ?v v4" using w3 view_same_trans by blast
  moreover have "cong64 (ca_nFees a') (ca_nFees a + (if IsCoinStake tx then 0 else total_in (utxo ?v) tx - value_of tx))"
    using y 4 outputs_within_facts(4) [OF assms(6,5)]
    by (auto simp: 6 bindE_Inr_conv Inr_convs split: if_splits intro!: cong64_trans [OF cong64_wrap(1)] cong64_add cong64_diff)
  moreover have "cong64 (ca_nValueIn a') (ca_nValueIn a + total_in (utxo ?v) tx)"
    using y by (auto simp: 6 intro!: cong64_trans [OF cong64_wrap(1)] cong64_add)
  ultimately show ?thesis using w3 by (auto simp: 6 view_same_def)
qed

subsection \<open>Repeated inputs\<close>

definition unspent_at :: "umap \<Rightarrow> COutPoint \<Rightarrow> bool" where
  "unspent_at U p \<longleftrightarrow> (\<exists>c. U (op_hash p) = Some c \<and> unspent (cvout c) (unat (op_n p)))"

lemma spend_map_unspent:
  assumes "spend_map p U = Some (u, U')"
  shows "unspent_at U p \<and> \<not> unspent_at U' p \<and> (\<forall>q. unspent_at U' q \<longrightarrow> unspent_at U q)"
proof -
  obtain c c' where c: "U (op_hash p) = Some c" "Spend c (unat (op_n p)) = Some (c', u)" "U' = U(op_hash p := keep c')"
    using assms by (auto simp: spend_map_def split: option.splits)
  have "unspent (cvout c') m \<longleftrightarrow> unspent ((cvout c)[unat (op_n p) := CTxOut_default]) m" for m
    using Spend_Some [OF c(2)] by simp
  then have "unspent (cvout c') m \<longleftrightarrow> unspent (cvout c) m \<and> m \<noteq> unat (op_n p)" for m
    by (cases "m = unat (op_n p)") (auto simp: unspent_def)
  then show ?thesis using c Spend_value [OF c(2)]
    by (auto simp: unspent_at_def keep_def unspent_def split: if_splits)
qed

lemma spends_map_distinct:
  "spends_map ins U = Some (us, U') \<Longrightarrow> distinct (map prevout ins) \<and> (\<forall>i\<in>set ins. unspent_at U (prevout i))"
proof (induction ins arbitrary: U us)
  case (Cons i ins)
  then obtain u W us1 where s: "spend_map (prevout i) U = Some (u, W)" "spends_map ins W = Some (us1, U')"
    by (auto split: option.splits)
  show ?case using Cons.IH [OF s(2)] spend_map_unspent [OF s(1)] by auto
qed simp

text \<open>
  The outputs of a transaction are spent before its deferred scripts have been run. A transaction that names an output twice, which
  \<open>CheckTransaction\<close> lets pass when the scripts of the inputs begin with \<open>OP_ZEROCOINSPEND\<close>
  (\<open>zerocoin_inputs_repeat\<close>), passes \<open>CheckInputs\<close> up to its scripts, and then fails the assertion of \<open>UpdateCoins\<close>.
\<close>

lemma repeated_input_aborts:
  assumes "cache_ok (ca_view a)" "has_inputs tx" "\<not> distinct (map prevout (vin tx))"
    and "a0 = a\<lparr>ca_nSigOps := uadd32 (ca_nSigOps a) (GetLegacySigOpCount tx)\<rparr>" "ca_nSigOps a0 \<le> MAX_BLOCK_SIGOPS_CURRENT"
    and "nd_ibd (v_node V)" "connect_inputs V strict flags sc st tx a0 = Inr a1"
    and "0 \<le> nMaxMoneyOut (v_params V)" "nMaxMoneyOut (v_params V) < 2 ^ 62" "outputs_within (v_params V) tx"
  shows "connect_tx V block h strict flags sc st i tx a = Inl (Stopped Assertion)"
proof -
  have t: "IsCoinBase tx = Some False" "IsZerocoinSpend_tx tx = Some False" using assms(2) by (simp_all add: has_inputs_def)
  have "view_same (ca_view a0) (ca_view a1)"
    using connect_inputs_ok [OF assms(7) _ assms(2,8-10)] assms(1,4) by simp
  then have v: "cache_ok (ca_view a1)" by (simp add: view_same_def)
  have "spends_map (vin tx) U = None" for U
    using spends_map_distinct [of "vin tx" U] assms(3) by (cases "spends_map (vin tx) U") auto
  then have "update_map tx h (utxo (ca_view a1)) = None" using assms(2) by (simp add: update_map_def)
  then have "UpdateCoins tx h (ca_view a1) = None" using UpdateCoins_map [OF v, of tx h] by auto
  moreover have "\<not> ca_nSigOps a0 > MAX_BLOCK_SIGOPS_CURRENT" using assms(5) by simp
  moreover have "value_out tx = Inr (value_of tx)" using outputs_within_facts(4) [OF assms(10,9)] by (simp add: value_out_def)
  ultimately show ?thesis using assms(6,7)
    unfolding connect_tx_def assms(4) [symmetric] Let_def
    by (simp add: run_def zerospend_def coinbase_def t asserted_def)
qed

subsection \<open>Sums over the transactions\<close>

text \<open>The value that the zerocoin spends of a transaction bring in.\<close>

definition spend_value :: "validation \<Rightarrow> CTxIn \<Rightarrow> CAmount" where
  "spend_value V i = (case nd_spend (v_node V) i of None \<Rightarrow> 0 | Some spend \<Rightarrow> sp_denomination spend * COIN)"

definition zerocoin_in :: "validation \<Rightarrow> CTransaction \<Rightarrow> CAmount" where
  "zerocoin_in V tx =
     (if IsZerocoinSpend_tx tx = Some True then \<Sum>i\<leftarrow>filter (\<lambda>i. IsZerocoinSpend (scriptSig i)) (vin tx). spend_value V i else 0)"

definition denominations_nonneg :: "validation \<Rightarrow> bool" where
  "denominations_nonneg V \<longleftrightarrow> (\<forall>i spend. nd_spend (v_node V) i = Some spend \<longrightarrow> 0 \<le> sp_denomination spend)"

lemma zerocoin_in_nonneg: "denominations_nonneg V \<Longrightarrow> 0 \<le> zerocoin_in V tx"
  by (auto simp: zerocoin_in_def spend_value_def denominations_nonneg_def COIN_def split: option.split intro!: sum_list_nonneg)

lemma connect_spends_value:
  "connect_spends V h hash st ins x db = Inr (y, db') \<Longrightarrow>
   cong64 y (x + (\<Sum>i\<leftarrow>filter (\<lambda>i. IsZerocoinSpend (scriptSig i)) ins. spend_value V i))"
proof (induction ins arbitrary: x db)
  case (Cons i ins)
  show ?case
  proof (cases "IsZerocoinSpend (scriptSig i)")
    case True
    then obtain spend where s: "nd_spend (v_node V) i = Some spend" using Cons.prems by (auto split: option.splits)
    let ?x = "wrap_s 64 (x + wrap_s 64 (sp_denomination spend * COIN))"
    have "connect_spends V h hash st ins ?x (db(sp_serial spend \<mapsto> hash)) = Inr (y, db')"
      using Cons.prems True s by (simp add: Let_def split: if_splits)
    from Cons.IH [OF this]
    have "cong64 y (?x + (\<Sum>i\<leftarrow>filter (\<lambda>i. IsZerocoinSpend (scriptSig i)) ins. spend_value V i))" .
    moreover have "cong64 ?x (x + sp_denomination spend * COIN)"
      by (intro cong64_trans [OF cong64_wrap(1)] cong64_add) simp_all
    ultimately show ?thesis using True s
      by (auto simp: spend_value_def add.assoc [symmetric] intro: cong64_trans [OF _ cong64_add [OF _ cong64_refl]])
  qed (use Cons in simp)
qed simp

text \<open>What a transaction may add beyond what it takes: only a coinbase, a coinstake or a zerocoin spend.\<close>

definition mints :: "CTransaction \<Rightarrow> bool" where
  "mints tx \<longleftrightarrow> IsCoinBase tx = Some True \<or> IsCoinStake tx \<or> IsZerocoinSpend_tx tx = Some True"

text \<open>
  From the accumulator \<open>a\<close> to \<open>b\<close>: fees \<open>F\<close>, inputs \<open>I\<close>, of which zerocoin spends \<open>S\<close>, and outputs \<open>Z\<close>, and at most \<open>k\<close>
  transactions that mint.
\<close>

definition money_step :: "CAmount \<Rightarrow> nat \<Rightarrow> int \<Rightarrow> connect_acc \<Rightarrow> connect_acc \<Rightarrow> int \<Rightarrow> int \<Rightarrow> int \<Rightarrow> bool" where
  "money_step M k S a b F I Z \<longleftrightarrow>
     cache_ok (ca_view b) \<and> finite (dom (utxo (ca_view b))) \<and> map_nonneg (utxo (ca_view b)) \<and>
     cong64 (ca_nFees b) (ca_nFees a + F) \<and> cong64 (ca_nValueIn b) (ca_nValueIn a + I) \<and> cong64 (ca_nValueOut b) (ca_nValueOut a + Z) \<and>
     0 \<le> F \<and> total (utxo (ca_view b)) \<le> total (utxo (ca_view a)) + Z - I + S \<and>
     Z - I + F \<le> int k * M \<and> - (int k * M) - S \<le> Z - I + F"

lemma money_step_trans:
  assumes "money_step M k S a b F I Z" "money_step M l S' b c F' I' Z'"
  shows "money_step M (k + l) (S + S') a c (F + F') (I + I') (Z + Z')"
proof -
  have c: "cong64 x (y + p) \<Longrightarrow> cong64 z (x + q) \<Longrightarrow> cong64 z (y + (p + q))" for x y z p q
    using cong64_trans [of z "x + q" "y + p + q"] cong64_add [of x "y + p" q q] by (simp add: add.assoc)
  have m: "int (k + l) * M = int k * M + int l * M" by (simp add: algebra_simps)
  show ?thesis
    using assms c [of "ca_nFees b" "ca_nFees a" F "ca_nFees c" F'] c [of "ca_nValueIn b" "ca_nValueIn a" I "ca_nValueIn c" I']
      c [of "ca_nValueOut b" "ca_nValueOut a" Z "ca_nValueOut c" Z']
    unfolding money_step_def m by auto
qed

lemma money_step_tx:
  assumes "connect_tx V block h strict flags sc st i tx a = Inr b" "cache_ok (ca_view a)" "finite (dom (utxo (ca_view a)))"
    and "map_nonneg (utxo (ca_view a))" "denominations_nonneg V" "outputs_within (v_params V) tx"
    and "0 \<le> nMaxMoneyOut (v_params V)" "nMaxMoneyOut (v_params V) < 2 ^ 62"
  shows "\<exists>F I Z. money_step (nMaxMoneyOut (v_params V)) (if mints tx then 1 else 0) (zerocoin_in V tx) a b F I Z"
proof -
  let ?M = "nMaxMoneyOut (v_params V)"
  note out = outputs_within_facts [OF assms(6,8)]
  obtain zs cb a0 a1 undo v where
    t: "IsZerocoinSpend_tx tx = Some zs" "\<not> zs \<Longrightarrow> IsCoinBase tx = Some cb"
    and a0: "ca_nFees a0 = ca_nFees a" "ca_nValueIn a0 = ca_nValueIn a" "ca_nValueOut a0 = ca_nValueOut a" "ca_view a0 = ca_view a"
    and s: "if zs then connect_zerospend V h st tx a0 = Inr a1
      else if cb then a1 = a0 else connect_inputs V strict flags sc st tx a0 = Inr a1"
    and u: "UpdateCoins tx h (ca_view a1) = Some (undo, v)"
    and b: "ca_nFees b = ca_nFees a1" "ca_nValueIn b = ca_nValueIn a1" "ca_nValueOut b = wrap_s 64 (ca_nValueOut a1 + value_of tx)"
      "ca_view b = v"
  proof -
    let ?a0 = "a\<lparr>ca_nSigOps := uadd32 (ca_nSigOps a) (GetLegacySigOpCount tx)\<rparr>"
    obtain zs where zs: "IsZerocoinSpend_tx tx = Some zs"
      using assms(1) by (cases "IsZerocoinSpend_tx tx")
        (auto simp: connect_tx_def Let_def bindE_Inr_conv Inr_convs zerospend_def split: if_splits)
    have cbs: "\<exists>cb. IsCoinBase tx = Some cb" if "\<not> zs"
      using assms(1) zs that by (cases "IsCoinBase tx")
        (auto simp: connect_tx_def Let_def bindE_Inr_conv Inr_convs zerospend_def coinbase_def split: if_splits)
    show thesis
    proof (cases zs)
      case True
      with assms(1) zs out(4) that [of True True ?a0] show thesis
        by (auto simp: connect_tx_def Let_def bindE_Inr_conv Inr_convs zerospend_def split: if_splits)
    next
      case False
      then obtain cb where cb: "IsCoinBase tx = Some cb" using cbs by blast
      with False assms(1) zs out(4) that [of False cb ?a0] show thesis
        by (cases cb) (auto simp: connect_tx_def Let_def bindE_Inr_conv Inr_convs zerospend_def coinbase_def split: if_splits)
    qed
  qed
  have up: "cache_ok w \<and> utxo w = utxo (ca_view a) \<Longrightarrow> UpdateCoins tx h w = Some (undo, v) \<Longrightarrow>
      cache_ok v \<and> total (utxo v) \<le> total (utxo (ca_view a)) - (if has_inputs tx then total_in (utxo (ca_view a)) tx else 0) + value_of tx \<and>
      finite (dom (utxo v)) \<and> map_nonneg (utxo v)" for w
  proof -
    assume w: "cache_ok w \<and> utxo w = utxo (ca_view a)" and r: "UpdateCoins tx h w = Some (undo, v)"
    have "update_map tx h (utxo (ca_view a)) = Some (undo, utxo v)" "cache_ok v" using UpdateCoins_map [of w tx h] w r by auto
    then show ?thesis using update_map_total [of tx h "utxo (ca_view a)" undo "utxo v"] assms(3,4,6)
      by (simp add: outputs_within_def value_of_def)
  qed
  show ?thesis
  proof (cases zs)
    case zs: True
    then have n: "\<not> has_inputs tx" "mints tx" using t by (simp_all add: has_inputs_def mints_def)
    obtain y db where y: "connect_spends V h (tx_hash tx) st (vin tx) (ca_nValueIn a0) (ca_spends a0) = Inr (y, db)"
      "a1 = a0\<lparr>ca_nValueIn := y, ca_spends := db\<rparr>"
      using s zs by (auto simp: connect_zerospend_def bindE_Inr_conv split: if_splits)
    have c: "cong64 y (ca_nValueIn a + zerocoin_in V tx)"
      using connect_spends_value [OF y(1)] t zs a0(2) by (simp add: zerocoin_in_def)
    have "money_step ?M 1 (zerocoin_in V tx) a b 0 (zerocoin_in V tx) (value_of tx)"
      using up [of "ca_view a1"] u y(2) c a0 b assms(2) n out(1,2) zerocoin_in_nonneg [OF assms(5), of tx] by (auto simp: money_step_def)
    then show ?thesis using n by auto
  next
    case nzs: False
    have cb: "IsCoinBase tx = Some cb" and zi: "zerocoin_in V tx = 0" using t nzs by (simp_all add: zerocoin_in_def)
    have zs: "IsZerocoinSpend_tx tx = Some False" using t nzs by simp
    show ?thesis
  proof (cases cb)
    case True
    then have n: "\<not> has_inputs tx" "mints tx" using cb by (simp_all add: has_inputs_def mints_def)
    have "money_step ?M 1 0 a b 0 0 (value_of tx)"
      using up [of "ca_view a1"] u s a0 b assms(2) n out(1,2) True nzs by (auto simp: money_step_def)
    then show ?thesis using n zi by auto
  next
    case False
    then have n: "has_inputs tx" using cb zs by (simp add: has_inputs_def)
    have ci: "connect_inputs V strict flags sc st tx a0 = Inr a1" using s False nzs by simp
    from connect_inputs_ok [OF ci _ n assms(7,8,6), unfolded a0] assms(2) obtain h' where
      c: "view_same (ca_view a) (ca_view a1)" "inputs_valid (v_params V) h' (utxo (ca_view a)) tx"
        "cong64 (ca_nFees a1) (ca_nFees a + (if IsCoinStake tx then 0 else total_in (utxo (ca_view a)) tx - value_of tx))"
        "cong64 (ca_nValueIn a1) (ca_nValueIn a + total_in (utxo (ca_view a)) tx)" "ca_nValueOut a1 = ca_nValueOut a"
      by auto
    let ?I = "total_in (utxo (ca_view a)) tx"
    have I: "0 \<le> ?I" "?I \<le> ?M" and le: "\<not> IsCoinStake tx \<Longrightarrow> value_of tx \<le> ?I"
      using c(2) out(4) by (auto simp: inputs_valid_def total_in_def list_all_iff intro!: sum_list_nonneg)
    have m: "mints tx \<longleftrightarrow> IsCoinStake tx" using cb False zs by (simp add: mints_def)
    have v: "cache_ok v \<and> total (utxo v) \<le> total (utxo (ca_view a)) - ?I + value_of tx \<and> finite (dom (utxo v)) \<and> map_nonneg (utxo v)"
      using up [of "ca_view a1"] u c(1) n by (simp add: view_same_def)
    have "money_step ?M (if mints tx then 1 else 0) 0 a b (if IsCoinStake tx then 0 else ?I - value_of tx) ?I (value_of tx)"
      using v c b I le out(1,2) by (auto simp: money_step_def m)
    then show ?thesis unfolding zi by blast
  qed
  qed
qed

lemma money_step_txs:
  assumes "connect_txs V block h strict flags sc st i txs a = Inr b" "cache_ok (ca_view a)" "finite (dom (utxo (ca_view a)))"
    and "map_nonneg (utxo (ca_view a))" "\<forall>tx\<in>set txs. outputs_within (v_params V) tx"
    and "0 \<le> nMaxMoneyOut (v_params V)" "nMaxMoneyOut (v_params V) < 2 ^ 62" "denominations_nonneg V"
  shows "\<exists>F I Z. money_step (nMaxMoneyOut (v_params V)) (length (filter mints txs)) (\<Sum>tx\<leftarrow>txs. zerocoin_in V tx) a b F I Z"
  using assms(1-5)
proof (induction txs arbitrary: i a)
  case Nil
  then have "money_step (nMaxMoneyOut (v_params V)) 0 0 a b 0 0 0" by (simp add: money_step_def)
  then show ?case by auto
next
  case (Cons tx txs)
  obtain c where c: "connect_tx V block h strict flags sc st i tx a = Inr c" "connect_txs V block h strict flags sc st (i + 1) txs c = Inr b"
    using Cons.prems(1) by (auto simp: bindE_Inr_conv)
  obtain F I Z where 1: "money_step (nMaxMoneyOut (v_params V)) (if mints tx then 1 else 0) (zerocoin_in V tx) a c F I Z"
    using money_step_tx [OF c(1) Cons.prems(2-4) assms(8)] Cons.prems(5) assms(6,7) by auto
  then obtain F' I' Z' where 2: "money_step (nMaxMoneyOut (v_params V)) (length (filter mints txs)) (\<Sum>tx\<leftarrow>txs. zerocoin_in V tx) c b F' I' Z'"
    using Cons.IH [OF c(2)] Cons.prems(5) by (auto simp: money_step_def)
  show ?case using money_step_trans [OF 1 2] by (auto split: if_splits)
qed

subsection \<open>The subsidy\<close>

text \<open>What an accepted block's outputs satisfy.\<close>

lemma check_txs_ok:
  assumes "check_txs P mint_ok nd txs serials st = Inr ()" "0 \<le> nMaxMoneyOut P" "nMaxMoneyOut P < 2 ^ 62"
  shows "\<forall>tx\<in>set txs. CheckTransaction P mint_ok True tx = Inr () \<and> outputs_within P tx"
  using assms(1)
proof (induction txs arbitrary: serials)
  case (Cons tx txs)
  have t: "CheckTransaction P mint_ok True tx = Inr ()" using Cons.prems by (cases "CheckTransaction P mint_ok True tx") simp_all
  then obtain m where "check_outputs P mint_ok True tx (vout tx) 0 0 = Inr m"
    by (auto simp: CheckTransaction_def bindE_Inr_conv split: if_splits)
  from check_outputs_ok [OF this _ assms(2,3)] have "outputs_within P tx" using assms(2) by (simp add: outputs_within_def)
  then show ?case using t Cons.prems Cons.IH by (auto simp: bindE_Inr_conv)
qed simp

lemma Inr_ifs:
  "(if c then Inl e else m) = Inr y \<longleftrightarrow> \<not> c \<and> m = Inr y"
  "(case s of Inl e \<Rightarrow> Inl (g e) | Inr x \<Rightarrow> k x) = Inr y \<longleftrightarrow> (\<exists>x. s = Inr x \<and> k x = Inr y)"
  "(case o1 of None \<Rightarrow> Inl e | Some x \<Rightarrow> h x) = Inr y \<longleftrightarrow> (\<exists>x. o1 = Some x \<and> h x = Inr y)"
  by (auto split: sum.splits option.splits)

lemma CheckBlock_txs:
  assumes "CheckBlock P XEVAN Hash mint_ok nd block pow merkle st = Inr ()" "0 \<le> nMaxMoneyOut P" "nMaxMoneyOut P < 2 ^ 62"
  shows "\<forall>tx\<in>set (vtx block). CheckTransaction P mint_ok True tx = Inr () \<and> outputs_within P tx"
proof -
  obtain u :: unit where "check_txs P mint_ok nd (vtx block) [] st = Inr u"
    using assms(1) unfolding CheckBlock_def bindE_Inr_conv Inr_ifs by (elim exE conjE) (erule that)
  from check_txs_ok [OF this [unfolded unit_eq [of u]] assms(2,3)] show ?thesis .
qed

lemma check_overwrites_same: "check_overwrites st txs v = Inr v' \<Longrightarrow> cache_ok v \<Longrightarrow> view_same v v'"
proof (induction txs arbitrary: v)
  case (Cons tx txs)
  obtain r w where a: "AccessCoins v (tx_hash tx) = (r, w)" by fastforce
  then have "check_overwrites st txs w = Inr v'" using Cons.prems(1) by (auto split: if_splits option.splits)
  then show ?case using Cons.IH [of w] AccessCoins_ok [OF Cons.prems(2) a] view_same_trans [of v w v'] by (auto simp: view_same_def)
qed (simp add: view_same_refl)

text \<open>
  The blocks whose mint \<open>IsBlockValueValid\<close> compares at all: the height is known, and with synced masternode data it is no budget
  payment block while superblocks are enabled; without, it is outside of the first hundred blocks of a payment cycle.
\<close>

definition value_checked :: "CChainParams \<Rightarrow> node \<Rightarrow> CBlock \<Rightarrow> bool" where
  "value_checked P nd block \<longleftrightarrow>
     (\<exists>n. height_of_block nd block = Inr (Some n) \<and>
       (if nd_synced nd then \<not> (IsSporkActive nd SPORK_13_ENABLE_SUPERBLOCKS \<and> IsBudgetPaymentBlock nd n)
        else \<not> n smod GetBudgetPaymentCycleBlocks P < 100))"

lemma IsBlockValueValid_le:
  assumes "IsBlockValueValid P nd block x m = Inr True" "value_checked P nd block"
  shows "m \<le> x"
proof -
  obtain n where n: "height_of_block nd block = Inr (Some n)"
    "if nd_synced nd then \<not> (IsSporkActive nd SPORK_13_ENABLE_SUPERBLOCKS \<and> IsBudgetPaymentBlock nd n)
     else \<not> n smod GetBudgetPaymentCycleBlocks P < 100" using assms(2) unfolding value_checked_def by blast
  show ?thesis
    using assms(1) n(2) unfolding IsBlockValueValid_def n(1) bindE_simps option.case
    by (cases "nd_synced nd"; cases "IsSporkActive nd SPORK_13_ENABLE_SUPERBLOCKS") (auto split: if_splits)
qed

lemma nMint_cong:
  "bi_nMint (money_supply prev a e) = wrap_s 64 (ca_nValueOut a - ca_nValueIn a + ca_nFees a)"
proof -
  define p where "p = (case prev of None \<Rightarrow> 0 | Some f \<Rightarrow> nMoneySupply f)"
  let ?s = "wrap_s 64 (wrap_s 64 (wrap_s 64 (p + ca_nValueOut a) - ca_nValueIn a) - p) + ca_nFees a"
  have "cong64 ?s (p + ca_nValueOut a - ca_nValueIn a - p + ca_nFees a)"
    by (intro cong64_add cong64_trans [OF cong64_wrap(1)] cong64_diff) simp_all
  then have "wrap_s 64 ?s = wrap_s 64 (ca_nValueOut a - ca_nValueIn a + ca_nFees a)"
    by (intro wrap_s_cong) (simp add: algebra_simps)
  then show ?thesis by (simp add: money_supply_def Let_def p_def)
qed

lemma connect_supply_value:
  assumes "connect_supply V block st a e = Inr e2" "pprev e = Some q" "entries (nd_index (v_node V)) q = Some f"
    and "\<forall>st p. map_option bi_nHeight (v_recalculate V st p) = map_option bi_nHeight (st p)"
  shows "IsBlockValueValid (v_params V) (v_node V) block
      (let x = GetBlockValue (v_halving V) (v_params V) (bi_nHeight f)
       in if IsProofOfWork block then wrap_s 64 (x + ca_nFees a) else x)
      (wrap_s 64 (ca_nValueOut a - ca_nValueIn a + ca_nFees a)) = Inr True"
proof -
  let ?ix = "entries (nd_index (v_node V))"
  define ix' where "ix' = (if \<not> fVerifyingBlocks V \<and> bi_nHeight e = nZerocoinStartHeight (v_params V) + 1 then v_recalculate V ?ix else ?ix)"
  have "map_option bi_nHeight (ix' q) = Some (bi_nHeight f)"
    using assms(3) assms(4) [rule_format, of ?ix q] by (simp add: ix'_def)
  then obtain g where g: "ix' q = Some g" "bi_nHeight g = bi_nHeight f" by auto
  show ?thesis
    using assms(1,2) g
    unfolding connect_supply_def Let_def ix'_def [symmetric]
    by (auto simp: bindE_Inr_conv Inr_convs Inr_ifs nMint_cong)
qed

lemma ConnectBlock_supply:
  assumes "ConnectBlock V block e just already db stakes st v = Inr r" "cache_ok v"
    and "already \<longrightarrow> CheckBlock (v_params V) (v_XEVAN V) (v_Hash V) (v_mint_ok V) (v_node V) block pow merkle st0 = Inr ()"
    and "0 \<le> nMaxMoneyOut (v_params V)" "nMaxMoneyOut (v_params V) < 2 ^ 52"
  shows "(cache_ok (cr_view r) \<and> utxo (cr_view r) = utxo v \<or>
    (\<exists>h strict flags sc a0 a e1. connect_txs V block h strict flags sc st 0 (vtx block) a0 = Inr a \<and>
      ca_nFees a0 = 0 \<and> ca_nValueIn a0 = 0 \<and> ca_nValueOut a0 = 0 \<and> cache_ok (ca_view a0) \<and> utxo (ca_view a0) = utxo v \<and>
      (cache_ok (ca_view a) \<longrightarrow> cache_ok (cr_view r) \<and> utxo (cr_view r) = utxo (ca_view a)) \<and>
      connect_supply V block st a e = Inr e1)) \<and>
    (\<forall>tx\<in>set (vtx block). outputs_within (v_params V) tx)"
proof -
  have "\<exists>pow merkle st0. CheckBlock (v_params V) (v_XEVAN V) (v_Hash V) (v_mint_ok V) (v_node V) block pow merkle st0 = Inr ()"
  proof (cases already)
    case False
    then show ?thesis using assms(1) by (simp add: ConnectBlock_def bindE_Inr_conv) blast
  qed (use assms(3) in blast)
  then have out: "\<forall>tx\<in>set (vtx block). outputs_within (v_params V) tx"
    using CheckBlock_txs assms(4,5) by fastforce
  obtain best v1 where g: "GetBestBlock v = (best, v1)" by fastforce
  have v1: "cache_ok v1" "utxo v1 = utxo v" using GetBestBlock_cache_ok [OF assms(2) g] by simp_all
  have sb: "cache_ok (SetBestBlock h w) \<and> utxo (SetBestBlock h w) = utxo w" if "cache_ok w" for h w
    using SetBestBlock_cache_ok [OF that] by blast
  show ?thesis
  proof (cases "block_GetHash (v_XEVAN V) (v_Hash V) block = v_genesis V")
    case True
    obtain hash where "cr_view r = SetBestBlock hash v1"
      using assms(1) True unfolding ConnectBlock_def Let_def g prod.case
      by (auto simp: bindE_Inr_conv Inr_ifs)
    then show ?thesis using sb [OF v1(1)] v1(2) out by simp
  next
    case False
    define start where "start v2 = \<lparr>ca_nFees = 0, ca_nSigOps = 0, ca_nValueIn = 0, ca_nValueOut = 0, ca_vtxundo = [], ca_vPos = [],
      ca_nTxOffset = GetSizeOfCompactSize (length (vtx block)), ca_checks = [], ca_spends = db, ca_view = v2\<rparr>" for v2
    define bip30 where "bip30 = (if enforce_BIP30 e then check_overwrites st (vtx block) v1 else Inr v1)"
    define fin where "fin a e1 = (if just then
       Inr \<lparr>cr_view = ca_view a, cr_pindex = e1, cr_undo = ca_vtxundo a, cr_spends = ca_spends a, cr_stakes = stakes,
         cr_dirty = False, cr_txindex = []\<rparr>
     else connect_writes V block st a stakes e1)" for a e1
    obtain v2 strict flags sc a e1 where
      c: "bip30 = Inr v2" "connect_txs V block (bi_nHeight e) strict flags sc st 0 (vtx block) (start v2) = Inr a"
        "connect_supply V block st a e = Inr e1" "fin a e1 = Inr r"
      using assms(1) False unfolding ConnectBlock_def Let_def g prod.case bip30_def [symmetric] fin_def [symmetric] start_def [symmetric]
      by (auto simp: bindE_Inr_conv Inr_ifs)
    have v2: "cache_ok v2" "utxo v2 = utxo v"
      using c(1) check_overwrites_same [of st "vtx block" v1 v2] v1 by (auto simp: bip30_def view_same_def split: if_splits)
    have "cr_view r = ca_view a \<or> (\<exists>hash. cr_view r = SetBestBlock hash (ca_view a))"
      using c(4) by (auto simp: fin_def connect_writes_def bindE_Inr_conv Inr_ifs split: if_splits)
    then have "cache_ok (ca_view a) \<longrightarrow> cache_ok (cr_view r) \<and> utxo (cr_view r) = utxo (ca_view a)" using sb by auto
    moreover have "ca_nFees (start v2) = 0" "ca_nValueIn (start v2) = 0" "ca_nValueOut (start v2) = 0" "ca_view (start v2) = v2"
      by (simp_all add: start_def)
    ultimately show ?thesis using c(2,3) v2 out by metis
  qed
qed


text \<open>
  C1: A block whose value is checked cannot create more money than the subsidy. If \<open>ConnectBlock\<close> accepts a block
  on a coins cache, then the unspent outputs afterwards are worth more than before by at most the subsidy, which is \<open>GetBlockValue\<close>
  of the previous block's height, and the denominations of the block's zerocoin spends, whose money an earlier
  mint took out of the unspent outputs. It holds for the blocks of which \<open>IsBlockValueValid\<close> compares the mint
  (\<open>value_checked\<close>): a budget payment block, and a block of the first hundred of a payment cycle that a node without synced masternode data
  connects, pass it with any mint. The sums of the code wrap around at 64 bits; with at most a thousand coinbase, coinstake and
  zerocoin-spend transactions in the block, a total and a subsidy below \<open>2 ^ 61\<close> and spends below \<open>2 ^ 56\<close>, the comparison with the subsidy is exact.
\<close>

theorem ConnectBlock_no_inflation:
  assumes "ConnectBlock V block e just already db stakes st v = Inr r"
    and "cache_ok v" "finite (dom (utxo v))" "map_nonneg (utxo v)" "total (utxo v) < 2 ^ 61"
    and "already \<longrightarrow> CheckBlock (v_params V) (v_XEVAN V) (v_Hash V) (v_mint_ok V) (v_node V) block pow merkle st0 = Inr ()"
    and "denominations_nonneg V" "length (filter mints (vtx block)) \<le> 1000"
    and "value_checked (v_params V) (v_node V) block"
    and "0 \<le> nMaxMoneyOut (v_params V)" "nMaxMoneyOut (v_params V) < 2 ^ 52"
    and "pprev e = Some q" "entries (nd_index (v_node V)) q = Some f"
    and "\<forall>st p. map_option bi_nHeight (v_recalculate V st p) = map_option bi_nHeight (st p)"
    and "subsidy = GetBlockValue (v_halving V) (v_params V) (bi_nHeight f)" "0 \<le> subsidy" "subsidy < 2 ^ 61"
    and "spent = (\<Sum>tx\<leftarrow>vtx block. zerocoin_in V tx)" "spent < 2 ^ 56"
  shows "cache_ok (cr_view r) \<and> total (utxo (cr_view r)) \<le> total (utxo v) + subsidy + spent"
proof -
  let ?M = "nMaxMoneyOut (v_params V)" and ?k = "length (filter mints (vtx block))"
  have S: "0 \<le> spent" using zerocoin_in_nonneg [OF assms(7)] unfolding assms(18) by (auto intro!: sum_list_nonneg)
  have out: "\<forall>tx\<in>set (vtx block). outputs_within (v_params V) tx"
    and r: "cache_ok (cr_view r) \<and> utxo (cr_view r) = utxo v \<or>
    (\<exists>h strict flags sc a0 a e1. connect_txs V block h strict flags sc st 0 (vtx block) a0 = Inr a \<and>
      ca_nFees a0 = 0 \<and> ca_nValueIn a0 = 0 \<and> ca_nValueOut a0 = 0 \<and> cache_ok (ca_view a0) \<and> utxo (ca_view a0) = utxo v \<and>
      (cache_ok (ca_view a) \<longrightarrow> cache_ok (cr_view r) \<and> utxo (cr_view r) = utxo (ca_view a)) \<and>
      connect_supply V block st a e = Inr e1)"
    using ConnectBlock_supply [OF assms(1,2,6,10,11)] by blast+
  from r show ?thesis
  proof (elim disjE exE conjE)
    fix h strict flags sc a0 a e1
    assume run: "connect_txs V block h strict flags sc st 0 (vtx block) a0 = Inr a"
      and z: "ca_nFees a0 = 0" "ca_nValueIn a0 = 0" "ca_nValueOut a0 = 0" and a0: "cache_ok (ca_view a0)" "utxo (ca_view a0) = utxo v"
      and fin: "cache_ok (ca_view a) \<longrightarrow> cache_ok (cr_view r) \<and> utxo (cr_view r) = utxo (ca_view a)"
      and cs: "connect_supply V block st a e = Inr e1"
    obtain F I Z where m: "money_step ?M ?k spent a0 a F I Z"
      using money_step_txs [OF run a0(1) _ _ out assms(10) _ assms(7)] assms(3,4,11) a0(2) unfolding assms(18) by auto
    have "int ?k * ?M \<le> 1000 * 2 ^ 52" using assms(8,10,11) by (intro mult_mono) auto
    then have kM: "int ?k * ?M \<le> 1000 * 4503599627370496" by simp
    have n: "cache_ok (ca_view a)" "map_nonneg (utxo (ca_view a))" "0 \<le> F" "total (utxo (ca_view a)) \<le> total (utxo v) + Z - I + spent"
      "Z - I + F \<le> int ?k * ?M" "- (int ?k * ?M) - spent \<le> Z - I + F"
      and c: "cong64 (ca_nFees a) F" "cong64 (ca_nValueIn a) I" "cong64 (ca_nValueOut a) Z"
      using m z a0(2) by (simp_all add: money_step_def)
    have mint: "wrap_s 64 (ca_nValueOut a - ca_nValueIn a + ca_nFees a) = Z - I + F"
    proof -
      have "wrap_s 64 (ca_nValueOut a - ca_nValueIn a + ca_nFees a) = wrap_s 64 (Z - I + F)"
        using c by (intro wrap_s_cong cong64_add cong64_diff)
      also have "\<dots> = Z - I + F" using n(5,6) kM S assms(19) by (intro wrap_s_id) (auto simp: in_s_def)
      finally show ?thesis .
    qed
    have "0 \<le> total (utxo (ca_view a))" using total_nonneg [OF n(2)] .
    then have F: "F \<le> int ?k * ?M + total (utxo v) + spent" using n(4,5) by linarith
    have fees: "wrap_s 64 (subsidy + ca_nFees a) = subsidy + F"
    proof -
      have "wrap_s 64 (subsidy + ca_nFees a) = wrap_s 64 (subsidy + F)" using c by (intro wrap_s_cong cong64_add) simp_all
      also have "\<dots> = subsidy + F" using n(3) F kM S assms(5,16,17,19) by (intro wrap_s_id) (auto simp: in_s_def)
      finally show ?thesis .
    qed
    have "IsBlockValueValid (v_params V) (v_node V) block (if IsProofOfWork block then subsidy + F else subsidy) (Z - I + F) = Inr True"
      using connect_supply_value [OF cs assms(12-14)] by (simp only: assms(15) [symmetric] mint fees Let_def)
    from IsBlockValueValid_le [OF this assms(9)] have "Z - I \<le> subsidy" using n(3) by (auto split: if_splits)
    then show ?thesis using n(1,4) fin by auto
  qed (use assms(16) S in simp)
qed

subsection \<open>A block with a coinbase\<close>

definition sample_node :: node where
  "sample_node = \<lparr>nd_adjusted = 0, nd_time = 0, mapSporksActive = (\<lambda>_. None),
     nd_index = index_empty\<lparr>mapBlockIndex := [9 \<mapsto> 0],
       entries := [0 \<mapsto> (CBlockIndex_SetNull None)\<lparr>bi_nHeight := 100, phashBlock := Some 9\<rparr>]\<rparr>,
     chainActive = [Some 0], mapLockedInputs = (\<lambda>_. None), nd_synced = True, mapFinalizedBudgets = [], nd_masternodes = 0,
     nd_budget_valid = (\<lambda>_ _. True), nd_payee_valid = (\<lambda>_ _. True), nd_winner_valid = (\<lambda>_ _. True), nd_ibd = True,
     nd_spend = (\<lambda>_. None)\<rparr>"

definition sample_validation :: validation where
  "sample_validation = \<lparr>v_params = mainParams, v_env = sample_env, v_sigcache = sample_sigcache, v_Verify = (\<lambda>_ _ _. False), v_Hash = (\<lambda>_. 1), v_XEVAN = (\<lambda>_. 1),
     v_mint_ok = (\<lambda>_ _. True), v_node = sample_node, v_halving = (\<lambda>_. 0), v_estimate = 0, v_genesis = 0, v_threads = False,
     fVerifyingBlocks = True, fTxIndex = False, v_tx_height = (\<lambda>_. None), v_public_coin = (\<lambda>_. None),
     v_recalculate = id, v_checkpoint = (\<lambda>_. None), v_write_spend = (\<lambda>_ _. True), v_write_index = True,
     v_find_undo = (\<lambda>_ _. Some 0), v_write_undo = True, v_write_txindex = True\<rparr>"

definition sample_connect :: CBlock where
  "sample_connect = block_SetNull\<lparr>header := header_SetNull\<lparr>bh_nVersion := 1, bh_hashPrevBlock := 9\<rparr>, vtx := [block_cb]\<rparr>"

definition sample_entry :: CBlockIndex where
  "sample_entry = (CBlockIndex_SetNull None)\<lparr>bi_nHeight := 101, pprev := Some 0, phashBlock := Some 10\<rparr>"

lemma sample_CheckTransaction: "CheckTransaction mainParams (\<lambda>_ _. True) True block_cb = Inr ()"
  by (simp add: CheckTransaction_def tx_size_def check_zerocoin_inputs_def check_inputs_form_def block_cb_def mk_CTxIn_def
    mk_CTxOut_def coinbase_def IsCoinBase_def mainParams_def MoneyRange_def COIN_def wrap_s_def TxOut_IsEmpty_def
    OutPoint_Null_def tx_Serialize_def Serialize_vec_def TxIn_Serialize_def TxOut_Serialize_def OutPoint_Serialize_def
    u256_Serialize_def u32_Serialize_def Serialize_blob_def Serialize_int_def WriteCompactSize_def MAX_ZEROCOIN_TX_SIZE_def
    IsZerocoinSpend_def zerospend_def IsZerocoinSpend_tx_def TxOut_IsZerocoinMint_def IsZerocoinMint_def ContainsZerocoins_def
    OutPoint_IsNull_def IsZerocoinMint_tx_def)

lemma sample_kinds: "coinbase block_cb = Inr True" "zerospend block_cb = Inr False" "\<not> IsCoinStake block_cb"
  "IsZerocoinSpend_tx block_cb = Some False" "GetLegacySigOpCount block_cb \<le> 60" "ContainsZerocoins block_cb = Some False"
  "value_out block_cb = Inr 9" "\<not> IsZerocoinMint_tx block_cb"
proof -
  show "coinbase block_cb = Inr True" "\<not> IsCoinStake block_cb" by (simp_all add: coinbase_def block_sample_kinds)
  show "zerospend block_cb = Inr False" "IsZerocoinSpend_tx block_cb = Some False" "ContainsZerocoins block_cb = Some False"
    by (simp_all add: zerospend_def IsZerocoinSpend_tx_def block_cb_def mk_CTxIn_def IsZerocoinSpend_def OutPoint_IsNull_def
      ContainsZerocoins_def IsZerocoinMint_tx_def TxOut_IsZerocoinMint_def IsZerocoinMint_def mk_CTxOut_def)
  have "GetSigOpCount [1, 1] False \<le> 40" "GetSigOpCount [OP_1] False \<le> 20"
    using sigops_loop_le [of False OP_INVALIDOPCODE 0 "[1, 1]"] sigops_loop_le [of False OP_INVALIDOPCODE 0 "[OP_1]"]
    by (simp_all add: GetSigOpCount_def)
  then show "GetLegacySigOpCount block_cb \<le> 60" by (simp add: GetLegacySigOpCount_def block_cb_def mk_CTxIn_def mk_CTxOut_def uadd32_def)
  show "value_out block_cb = Inr 9" by (simp add: value_out_def GetValueOut_def block_cb_def mk_CTxOut_def wrap_s_def)
  show "\<not> IsZerocoinMint_tx block_cb"
    by (simp add: block_cb_def IsZerocoinMint_tx_def mk_CTxOut_def TxOut_IsZerocoinMint_def IsZerocoinMint_def)
qed

lemma sample_height: "height_of_block sample_node sample_connect = Inr (Some 101)"
  by (simp add: height_of_block_def sample_node_def sample_connect_def chain_Tip_def index_GetBlockHash_def)

lemma sample_block: "vtx sample_connect = [block_cb]" "\<not> IsProofOfStake sample_connect" "IsProofOfWork sample_connect"
  "header sample_connect = header_SetNull\<lparr>bh_nVersion := 1, bh_hashPrevBlock := 9\<rparr>"
  by (simp_all add: sample_connect_def IsProofOfStake_def IsProofOfWork_def)

lemma sample_size: "length (block_Serialize sample_connect) < 1000"
  by (simp add: block_Serialize_def sample_connect_def block_SetNull_def header_Serialize_def header_SetNull_def block_cb_def mk_CTxIn_def
    mk_CTxOut_def tx_Serialize_def Serialize_vec_def TxIn_Serialize_def TxOut_Serialize_def OutPoint_Serialize_def
    u256_Serialize_def u32_Serialize_def Serialize_blob_def Serialize_int_def WriteCompactSize_def)

lemma sample_CheckBlock:
  "CheckBlock mainParams XEVAN Hash (\<lambda>_ _. True) sample_node sample_connect False False st = Inr ()"
proof -
  have s: "\<not> IsSporkActive sample_node n" for n
    by (simp add: IsSporkActive_def GetSporkValue_def sample_node_def Let_def SPORK_17_MASTERNODE_PAYMENT_CHECK_DEFAULT_def
      SPORK_19_LOWERED_MASTERNODE_PAYMENT_DEFAULT_def SPORK_20_REWARD_HALVING_START_DEFAULT_def)
  have p: "check_payee mainParams sample_node sample_connect st = Inr 101"
  proof -
    have "nZerocoinStartHeight mainParams = 292" "nd_ibd sample_node" by (simp_all add: mainParams_def sample_node_def)
    then show ?thesis by (simp add: check_payee_def sample_height run_def)
  qed
  have "\<not> 101 > GetSporkValue sample_node SPORK_17_MASTERNODE_PAYMENT_CHECK" and t: "nd_adjusted sample_node = 0"
    by (simp_all add: GetSporkValue_def sample_node_def SPORK_17_MASTERNODE_PAYMENT_CHECK_DEFAULT_def)
  then have m: "check_masternode sample_node sample_connect 101 st = Inr ()" by (simp add: check_masternode_def)
  have size: "\<not> length (block_Serialize sample_connect) > MAX_BLOCK_SIZE_CURRENT" "\<not> GetLegacySigOpCount block_cb > MAX_BLOCK_SIGOPS_CURRENT"
    "0 < MAX_BLOCK_SIZE_CURRENT"
    using sample_size sample_kinds(5) by (simp_all add: MAX_BLOCK_SIZE_CURRENT_def MAX_BLOCK_SIGOPS_CURRENT_def)
  have u: "foldl uadd32 0 (map GetLegacySigOpCount [block_cb]) = GetLegacySigOpCount block_cb"
    using sample_kinds(5) by (simp add: uadd32_def)
  have tx: "check_txs mainParams (\<lambda>_ _. True) sample_node [block_cb] [] st = Inr ()"
    by (simp add: sample_CheckTransaction run_def sample_kinds)
  have h: "CheckBlockHeader mainParams XEVAN Hash h False st = Inr ()" for h by (simp add: CheckBlockHeader_def)
  have st: "check_stake_form sample_connect st = Inr ()" by (simp add: check_stake_form_def sample_block)
  show ?thesis
    unfolding CheckBlock_def h sum.case sample_block(1) u tx m p st bindE_simps t
    by (simp add: s size sample_block header_GetBlockTime_def header_SetNull_def sample_kinds run_def)
qed


lemma sample_UpdateCoins:
  "cache_ok v \<Longrightarrow> utxo v = [5 \<mapsto> spent_coins] \<Longrightarrow>
   \<exists>v'. UpdateCoins block_cb 101 v = Some ([], v') \<and> cache_ok v'"
proof -
  assume v: "cache_ok v" "utxo v = [5 \<mapsto> spent_coins]"
  have "update_map block_cb 101 (utxo v) \<noteq> None"
    using block_sample_kinds by (simp add: update_map_def classified_def FromTx_def)
  then have "UpdateCoins block_cb 101 v \<noteq> None" using UpdateCoins_map [OF v(1), of block_cb 101] by auto
  then obtain us v' where "UpdateCoins block_cb 101 v = Some (us, v')" by auto
  moreover from this have "us = []" "cache_ok v'"
    using UpdateCoins_map [OF v(1), of block_cb 101] block_sample_kinds
    by (cases "FromTx block_cb 101 CCoins_default"; auto simp: update_map_def split: if_splits)+
  ultimately show ?thesis by blast
qed

lemma sample_ConnectBlock:
  "\<exists>r. ConnectBlock sample_validation sample_connect sample_entry True False (\<lambda>_. None) (\<lambda>_. None) CValidationState_default block_view = Inr r"
proof -
  let ?V = sample_validation and ?st = CValidationState_default
  have V: "v_params ?V = mainParams" "v_node ?V = sample_node" "fVerifyingBlocks ?V" "v_write_index ?V" "v_genesis ?V = 0"
    "v_mint_ok ?V = (\<lambda>_ _. True)" "v_halving ?V = (\<lambda>_. 0)"
    by (simp_all add: sample_validation_def)
  have e: "pprev sample_entry = Some 0" "bi_nHeight sample_entry = 101" "index_GetBlockTime sample_entry = 0"
    "enforce_BIP30 sample_entry"
    by (simp_all add: sample_entry_def index_GetBlockTime_def enforce_BIP30_def CBlockIndex_SetNull_def)
  define f where "f = (CBlockIndex_SetNull None)\<lparr>bi_nHeight := 100, phashBlock := Some 9\<rparr>"
  have ix: "entries (nd_index sample_node) 0 = Some f" "index_GetBlockHash (entries (nd_index sample_node)) 0 = Some 9"
    by (simp_all add: sample_node_def f_def index_GetBlockHash_def)
  obtain best v1 where g: "GetBestBlock block_view = (best, v1)" by fastforce
  have v1: "best = 9" "cache_ok v1" "utxo v1 = [5 \<mapsto> spent_coins]"
    using GetBestBlock_cache_ok [OF block_view_ok(1) g] block_view_ok(2) by (simp_all add: block_view_def)
  have hash: "block_GetHash (v_XEVAN ?V) (v_Hash ?V) sample_connect \<noteq> 0"
    by (simp add: sample_validation_def block_GetHash_def header_GetHash_def)
  have pow: "nLastPOWBlock mainParams = 291" "bh_nVersion (header sample_connect) = 1" "uint (bh_nTime (header sample_connect)) = 0"
    by (simp_all add: mainParams_def sample_connect_def header_SetNull_def)
  obtain r w where ac: "AccessCoins v1 (tx_hash block_cb) = (r, w)" by fastforce
  have w: "cache_ok w" "utxo w = [5 \<mapsto> spent_coins]" using AccessCoins_ok [OF v1(2) ac] v1 by (simp_all add: view_same_def)
  have "tx_hash block_cb \<noteq> 5" by (simp add: block_sample_ids)
  then have "utxo v1 (tx_hash block_cb) = None" using v1(3) by simp
  then have "(case r of None \<Rightarrow> False | Some c \<Rightarrow> \<not> IsPruned c) = False"
    using AccessCoins_ok [OF v1(2) ac] by (cases r) (auto simp: keep_def split: if_splits)
  then have bip30: "check_overwrites ?st [block_cb] v1 = Inr w" by (simp add: ac)
  have flags: "script_flags ?V sample_connect sample_entry = Inr (False, SCRIPT_VERIFY_NONE)"
    by (simp add: script_flags_def e pow)
  have sp: "GetSporkValue sample_node SPORK_16_ZEROCOIN_MAINTENANCE_MODE = 4070908800"
    by (simp add: GetSporkValue_def sample_node_def SPORK_16_ZEROCOIN_MAINTENANCE_MODE_def SPORK_3_SWIFTTX_BLOCK_FILTERING_def
      SPORK_8_MASTERNODE_PAYMENT_ENFORCEMENT_def SPORK_9_MASTERNODE_BUDGET_ENFORCEMENT_def SPORK_13_ENABLE_SUPERBLOCKS_def)
  define a0 where "a0 = \<lparr>ca_nFees = 0, ca_nSigOps = 0, ca_nValueIn = 0, ca_nValueOut = 0, ca_vtxundo = [], ca_vPos = [],
      ca_nTxOffset = GetSizeOfCompactSize (length [block_cb]), ca_checks = [], ca_spends = (\<lambda>_. None), ca_view = w\<rparr>"
  obtain v' where v': "UpdateCoins block_cb 101 w = Some ([], v')" "cache_ok v'" using sample_UpdateCoins [OF w] by blast
  have sigops: "GetLegacySigOpCount block_cb mod 4294967296 = GetLegacySigOpCount block_cb" "GetLegacySigOpCount block_cb \<le> 40000"
    using sample_kinds(5) by simp_all
  have "\<exists>a. connect_txs ?V sample_connect 101 False SCRIPT_VERIFY_NONE sc ?st 0 [block_cb] a0 = Inr a \<and>
      ca_nFees a = 0 \<and> ca_nValueIn a = 0 \<and> ca_nValueOut a = 9 \<and> ca_checks a = []" for sc
    using sigops
    by (simp add: connect_tx_def Let_def a0_def V sp pow sample_kinds run_def uadd32_def MAX_BLOCK_SIGOPS_CURRENT_def
      MAX_BLOCK_SIZE_CURRENT_def v'(1) asserted_def wrap_s_def)
  then obtain a where a: "connect_txs ?V sample_connect 101 False SCRIPT_VERIFY_NONE (101 \<ge> v_estimate ?V) ?st 0 [block_cb] a0 = Inr a"
    "ca_nFees a = 0" "ca_nValueIn a = 0" "ca_nValueOut a = 9" "ca_checks a = []" by blast
  have "\<exists>e2. connect_supply ?V sample_connect ?st a sample_entry = Inr e2"
  proof -
    have l: "BlockToZerocoinMintList ?V [block_cb] [] = (True, [])" "ZerocoinSpendListFromBlock [block_cb] = Inr []"
      by (simp_all add: sample_kinds)
    have "list_ex (\<lambda>d. map_of (mapZerocoinSupply sample_entry) d = None) zerocoinDenomList = False"
      by (simp add: sample_entry_def CBlockIndex_SetNull_def map_of_map [unfolded comp_def] zerocoinDenomList_def)
    then obtain e1 where z: "zerocoin_supply ?st (Some f) [] [] sample_entry = Inr e1"
      by (simp add: zerocoin_supply_def f_def CBlockIndex_SetNull_def thrown_def)
    have sub: "GetBlockValue (\<lambda>_. 0) mainParams (bi_nHeight f) = 300000000"
      by (simp add: GetBlockValue_def f_def mainParams_def COIN_def)
    have sp13: "GetSporkValue sample_node SPORK_13_ENABLE_SUPERBLOCKS = 4070908800"
      by (simp add: GetSporkValue_def sample_node_def SPORK_3_SWIFTTX_BLOCK_FILTERING_def
        SPORK_8_MASTERNODE_PAYMENT_ENFORCEMENT_def SPORK_9_MASTERNODE_BUDGET_ENFORCEMENT_def SPORK_13_ENABLE_SUPERBLOCKS_def)
    have n: "nd_synced sample_node" "nd_time sample_node = 0" by (simp_all add: sample_node_def)
    have "bi_nMint (money_supply (Some f) a e1) = 9" by (simp add: nMint_cong a wrap_s_def)
    then have "IsBlockValueValid mainParams sample_node sample_connect (wrap_s 64 (300000000 + ca_nFees a)) (bi_nMint (money_supply (Some f) a e1)) = Inr True"
      by (simp add: IsBlockValueValid_def sample_height n IsSporkActive_def sp13 a wrap_s_def)
    then show ?thesis
      unfolding connect_supply_def V e bind.bind_lunit ix Let_def sample_block(1) l snd_conv bindE_simps run_def sum.case
      by (simp add: ix z sub sample_block check_accumulator_def V a)
  qed
  then obtain e2 where e2: "connect_supply ?V sample_connect ?st a sample_entry = Inr e2" by blast
  have cb: "CheckBlock mainParams (v_XEVAN ?V) (v_Hash ?V) (\<lambda>_ _. True) sample_node sample_connect (\<not> True) (\<not> True) ?st = Inr ()"
    using sample_CheckBlock by simp
  show ?thesis
    using hash a(1) unfolding ConnectBlock_def V if_False cb bindE_simps Let_def e option.case ix g prod.case v1(1) sample_block(1)
      if_True bip30 flags run_def sum.case a0_def
    by (simp add: pow sample_block e2 e(4))
qed


lemma ConnectBlock_no_inflation_witness:
  "\<exists>r. ConnectBlock sample_validation sample_connect sample_entry True False (\<lambda>_. None) (\<lambda>_. None) CValidationState_default block_view = Inr r \<and>
    total (utxo (cr_view r)) \<le> 7 + 300000000"
proof -
  obtain r where r: "ConnectBlock sample_validation sample_connect sample_entry True False (\<lambda>_. None) (\<lambda>_. None)
      CValidationState_default block_view = Inr r" using sample_ConnectBlock by blast
  have t: "total (utxo block_view) = 7" "finite (dom (utxo block_view))" "map_nonneg (utxo block_view)"
    by (simp_all add: block_view_ok total_def coins_value_def map_nonneg_def)
      (simp_all add: spent_coins_def mk_CTxOut_def TxOut_IsNull_def)
  have V: "v_params sample_validation = mainParams" "v_node sample_validation = sample_node" "v_recalculate sample_validation = id"
    "v_halving sample_validation = (\<lambda>_. 0)" by (simp_all add: sample_validation_def)
  have sp13: "GetSporkValue sample_node SPORK_13_ENABLE_SUPERBLOCKS = 4070908800"
    by (simp add: GetSporkValue_def sample_node_def SPORK_3_SWIFTTX_BLOCK_FILTERING_def
      SPORK_8_MASTERNODE_PAYMENT_ENFORCEMENT_def SPORK_9_MASTERNODE_BUDGET_ENFORCEMENT_def SPORK_13_ENABLE_SUPERBLOCKS_def)
  have n: "nd_synced sample_node" "nd_time sample_node = 0" by (simp_all add: sample_node_def)
  have v: "value_checked mainParams sample_node sample_connect"
    by (simp add: value_checked_def sample_height n IsSporkActive_def sp13)
  have z: "denominations_nonneg sample_validation" "zerocoin_in sample_validation block_cb = 0"
    by (simp_all add: denominations_nonneg_def zerocoin_in_def sample_kinds V) (simp add: sample_node_def)
  have m: "0 \<le> nMaxMoneyOut mainParams" "nMaxMoneyOut mainParams < 2 ^ 52" by (simp_all add: mainParams_def COIN_def)
  define f where "f = (CBlockIndex_SetNull None)\<lparr>bi_nHeight := 100, phashBlock := Some 9\<rparr>"
  have e: "pprev sample_entry = Some 0" "entries (nd_index sample_node) 0 = Some f"
    by (simp_all add: sample_entry_def sample_node_def f_def)
  have sub: "GetBlockValue (\<lambda>_. 0) mainParams (bi_nHeight f) = 300000000"
    by (simp add: GetBlockValue_def f_def mainParams_def COIN_def)
  have "total (utxo (cr_view r)) \<le> total (utxo block_view) + 300000000"
    using ConnectBlock_no_inflation [OF r block_view_ok(1) t(2,3), where subsidy = 300000000 and q = 0 and f = f and spent = 0] v z m e sub t(1)
    by (simp add: V sample_block)
  then show ?thesis using r t(1) by simp
qed

end
