(* ===== verification/Hashes.thy ===== *)
theory Hashes
  imports Prelude
begin

section \<open>Streaming hash objects and SHA-2\<close>

text \<open>
  The hash classes of crypto/: an object holds the chaining state, a buffer of one block and the number
  of bytes written. \<open>Write\<close> and \<open>Finalize\<close> have the same text in every class up to the block size and
  the byte order, so they are one definition with the compression function as an argument. The classes
  are SHA-256 and SHA-512 here; HMAC and the double hash are built on them. The lemmas show that
  an object computes the padded Merkle-Damgaard hash of everything written to it, however the writes
  are cut, and that the unrolled compression functions are those of the Secure Hash Standard.
\<close>

subsection \<open>Byte order\<close>

definition be_enc :: "nat \<Rightarrow> nat \<Rightarrow> bytes" where
  "be_enc k n = rev (le_enc k n)"

definition be_dec :: "bytes \<Rightarrow> nat" where
  "be_dec bs = le_dec (rev bs)"

definition ReadLE32 :: "bytes \<Rightarrow> nat \<Rightarrow> u32" where
  "ReadLE32 p off = word_of_nat (le_dec (take 4 (drop off p)))"

definition ReadBE32 :: "bytes \<Rightarrow> nat \<Rightarrow> u32" where
  "ReadBE32 p off = word_of_nat (be_dec (take 4 (drop off p)))"

definition ReadBE64 :: "bytes \<Rightarrow> nat \<Rightarrow> u64" where
  "ReadBE64 p off = word_of_nat (be_dec (take 8 (drop off p)))"

definition WriteLE32 :: "u32 \<Rightarrow> bytes" where
  "WriteLE32 x = le_enc 4 (unat x)"

definition WriteLE64 :: "nat \<Rightarrow> bytes" where
  "WriteLE64 x = le_enc 8 x"

definition WriteBE32 :: "u32 \<Rightarrow> bytes" where
  "WriteBE32 x = be_enc 4 (unat x)"

definition WriteBE64 :: "u64 \<Rightarrow> bytes" where
  "WriteBE64 x = be_enc 8 (unat x)"

lemma length_be_enc [simp]: "length (be_enc k n) = k"
  by (simp add: be_enc_def)

subsection \<open>The streaming object\<close>

text \<open>
  The buffer is not initialised by the constructors; it starts as zeros here, and nothing read from it
  was not written before. \<open>bytes\<close> is a \<open>size_t\<close>.
\<close>

record 'w hasher =
  h_s :: "'w list"
  h_buf :: bytes
  h_bytes :: nat

definition hasher_init :: "'w list \<Rightarrow> nat \<Rightarrow> 'w hasher" where
  "hasher_init s blk = \<lparr>h_s = s, h_buf = replicate blk 0, h_bytes = 0\<rparr>"

definition hasher_Reset :: "'w list \<Rightarrow> 'w hasher \<Rightarrow> 'w hasher" where
  "hasher_Reset s h = h\<lparr>h_s := s, h_bytes := 0\<rparr>"

definition memcpy :: "bytes \<Rightarrow> nat \<Rightarrow> bytes \<Rightarrow> bytes" where
  "memcpy dst off src = take off dst @ src @ drop (off + length src) dst"

definition add_size :: "nat \<Rightarrow> nat \<Rightarrow> nat" where
  "add_size a b = (a + b) mod 2 ^ 64"

text \<open>The loop over the full blocks of the source; the second component is the rest.\<close>

function write_blocks :: "('w list \<Rightarrow> bytes \<Rightarrow> 'w list) \<Rightarrow> nat \<Rightarrow> 'w hasher \<Rightarrow> bytes \<Rightarrow> 'w hasher \<times> bytes" where
  "write_blocks T blk h data =
     (if 0 < blk \<and> length data \<ge> blk
      then write_blocks T blk (h\<lparr>h_s := T (h_s h) (take blk data), h_bytes := add_size (h_bytes h) blk\<rparr>) (drop blk data)
      else (h, data))"
  by pat_completeness auto
termination
  by (relation "measure (\<lambda>(T, blk, h, data). length data)") auto

declare write_blocks.simps [simp del]

text \<open>Filling a buffer that is not empty, when the data completes it.\<close>

definition fill_buffer :: "('w list \<Rightarrow> bytes \<Rightarrow> 'w list) \<Rightarrow> nat \<Rightarrow> 'w hasher \<Rightarrow> bytes \<Rightarrow> 'w hasher" where
  "fill_buffer T blk h data =
     (let bufsize = h_bytes h mod blk; b = memcpy (h_buf h) bufsize (take (blk - bufsize) data)
      in h\<lparr>h_buf := b, h_bytes := add_size (h_bytes h) (blk - bufsize), h_s := T (h_s h) b\<rparr>)"

definition hasher_Write :: "('w list \<Rightarrow> bytes \<Rightarrow> 'w list) \<Rightarrow> nat \<Rightarrow> bytes \<Rightarrow> 'w hasher \<Rightarrow> 'w hasher" where
  "hasher_Write T blk data h =
     (let bufsize = h_bytes h mod blk;
          full = (bufsize \<noteq> 0 \<and> bufsize + length data \<ge> blk);
          h1 = (if full then fill_buffer T blk h data else h);
          data1 = (if full then drop (blk - bufsize) data else data);
          bufsize1 = (if full then 0 else bufsize);
          (h2, rest) = write_blocks T blk h1 data1
      in if rest \<noteq> [] then h2\<lparr>h_buf := memcpy (h_buf h2) bufsize1 rest, h_bytes := add_size (h_bytes h2) (length rest)\<rparr>
         else h2)"

text \<open>
  Padding, which \<open>Finalize\<close> writes before it reads the state: \<open>pad\<close> is a block that starts with \<open>0x80\<close>, the length in bits is written in \<open>lb\<close> bytes of the
  class's byte order, shifted as a \<open>uint64_t\<close>. The digest is what the class writes of the state.
\<close>

definition pad_block :: "nat \<Rightarrow> bytes" where
  "pad_block blk = 0x80 # replicate (blk - 1) 0"

definition hasher_finish ::
    "('w list \<Rightarrow> bytes \<Rightarrow> 'w list) \<Rightarrow> nat \<Rightarrow> nat \<Rightarrow> (nat \<Rightarrow> bytes) \<Rightarrow> 'w hasher \<Rightarrow> 'w hasher" where
  "hasher_finish T blk lb enc h =
     (let sizedesc = enc (h_bytes h * 8 mod 2 ^ 64);
          h1 = hasher_Write T blk (take (1 + (2 * blk - lb - 1 - h_bytes h mod blk) mod blk) (pad_block blk)) h
      in hasher_Write T blk sizedesc h1)"

subsection \<open>The hash of a whole message\<close>

function chain_blocks :: "('s \<Rightarrow> bytes \<Rightarrow> 's) \<Rightarrow> nat \<Rightarrow> 's \<Rightarrow> bytes \<Rightarrow> 's" where
  "chain_blocks T blk s m = (if 0 < blk \<and> blk \<le> length m then chain_blocks T blk (T s (take blk m)) (drop blk m) else s)"
  by pat_completeness auto
termination
  by (relation "measure (\<lambda>(T, blk, s, m). length m)") auto

declare chain_blocks.simps [simp del]

definition md_pad :: "nat \<Rightarrow> nat \<Rightarrow> (nat \<Rightarrow> bytes) \<Rightarrow> bytes \<Rightarrow> bytes" where
  "md_pad blk lb enc m =
     m @ [0x80] @ replicate (nat ((int blk - int lb - 1 - int (length m)) mod int blk)) 0 @ enc (8 * length m)"

definition md_hash ::
    "('s \<Rightarrow> bytes \<Rightarrow> 's) \<Rightarrow> nat \<Rightarrow> nat \<Rightarrow> (nat \<Rightarrow> bytes) \<Rightarrow> ('s \<Rightarrow> bytes) \<Rightarrow> 's \<Rightarrow> bytes \<Rightarrow> bytes" where
  "md_hash T blk lb enc out s0 m = out (chain_blocks T blk s0 (md_pad blk lb enc m))"

text \<open>What an object holds: the chaining value of the full blocks of the message, and the rest in its buffer.\<close>

definition holds :: "('w list \<Rightarrow> bytes \<Rightarrow> 'w list) \<Rightarrow> nat \<Rightarrow> 'w list \<Rightarrow> 'w hasher \<Rightarrow> bytes \<Rightarrow> bool" where
  "holds T blk s0 h m \<longleftrightarrow> h_bytes h = length m \<and> length (h_buf h) = blk \<and> h_s h = chain_blocks T blk s0 m \<and>
     take (length m mod blk) (h_buf h) = drop (length m - length m mod blk) m"

lemma chain_short: "length m < blk \<Longrightarrow> chain_blocks T blk s m = s"
  by (subst chain_blocks.simps) simp

lemma chain_step: "0 < blk \<Longrightarrow> length b = blk \<Longrightarrow> chain_blocks T blk s (b @ m) = chain_blocks T blk (T s b) m"
  by (subst chain_blocks.simps) simp

lemma chain_append:
  assumes "0 < blk" "blk dvd length a"
  shows "chain_blocks T blk s (a @ b) = chain_blocks T blk (chain_blocks T blk s a) b"
  using assms(2)
proof (induction "length a" arbitrary: a s rule: less_induct)
  case less
  show ?case
  proof (cases "a = []")
    case True
    then show ?thesis using assms(1) by (simp add: chain_short)
  next
    case False
    then have le: "blk \<le> length a" using less.prems by (simp add: dvd_imp_le)
    let ?x = "take blk a" and ?y = "drop blk a"
    have x: "length ?x = blk" using le by simp
    have y: "length ?y < length a" "blk dvd length ?y" using le less.prems assms(1) by simp_all
    have a: "a = ?x @ ?y" by simp
    have "chain_blocks T blk s (?x @ ?y @ b) = chain_blocks T blk (chain_blocks T blk (T s ?x) ?y) b"
      using chain_step [OF assms(1) x, of T s "?y @ b"] less.hyps [OF y] by simp
    also have "chain_blocks T blk (T s ?x) ?y = chain_blocks T blk s (?x @ ?y)"
      using chain_step [OF assms(1) x, of T s ?y] by simp
    finally show ?thesis by (simp only: append.assoc [symmetric] a [symmetric])
  qed
qed

lemma write_blocks_spec:
  assumes "0 < blk" "h_bytes h + length data < 2 ^ 64"
  shows "write_blocks T blk h data =
    (h\<lparr>h_s := chain_blocks T blk (h_s h) data, h_bytes := h_bytes h + (length data - length data mod blk)\<rparr>,
     drop (length data - length data mod blk) data)"
  using assms(2)
proof (induction "length data" arbitrary: data h rule: less_induct)
  case less
  show ?case
  proof (cases "blk \<le> length data")
    case False
    then show ?thesis by (subst write_blocks.simps) (simp add: chain_short)
  next
    case True
    let ?h = "h\<lparr>h_s := T (h_s h) (take blk data), h_bytes := add_size (h_bytes h) blk\<rparr>"
    have lt: "length (drop blk data) < length data" using True assms(1) by simp
    have add: "add_size (h_bytes h) blk = h_bytes h + blk" using less.prems True by (simp add: add_size_def)
    have m: "length (drop blk data) mod blk = length data mod blk"
      using True by (simp add: le_mod_geq)
    have ge: "length data mod blk \<le> length data - blk" unfolding m [symmetric] using mod_less_eq_dividend [of "length (drop blk data)" blk] by simp
    have n: "write_blocks T blk ?h (drop blk data) = (?h\<lparr>h_s := chain_blocks T blk (h_s ?h) (drop blk data),
        h_bytes := h_bytes ?h + (length (drop blk data) - length (drop blk data) mod blk)\<rparr>,
        drop (length (drop blk data) - length (drop blk data) mod blk) (drop blk data))"
      using less.prems True by (intro less.hyps [OF lt]) (simp add: add)
    have c: "chain_blocks T blk (h_s h) data = chain_blocks T blk (T (h_s h) (take blk data)) (drop blk data)"
      using True assms(1) by (subst chain_blocks.simps) simp
    have "write_blocks T blk h data = write_blocks T blk ?h (drop blk data)"
      using True assms(1) by (subst write_blocks.simps) simp
    then show ?thesis unfolding n m using ge True by (simp add: c add)
  qed
qed

text \<open>The laws of an object: the constructor holds nothing, \<open>Write\<close> appends, \<open>Finalize\<close> hashes.\<close>

lemma holds_init: "0 < blk \<Longrightarrow> holds T blk s0 (hasher_init s0 blk) []"
  by (simp add: holds_def hasher_init_def chain_short)

lemma holds_buf: "holds T blk s0 h m \<Longrightarrow> length (h_buf h) = blk"
  by (simp add: holds_def)

lemma holds_Reset: "length (h_buf h) = blk \<Longrightarrow> 0 < blk \<Longrightarrow> holds T blk s0 (hasher_Reset s0 h) []"
  by (simp add: holds_def hasher_Reset_def chain_short)

lemma mod_add_less: "a + b < k \<Longrightarrow> (k * q + a + b) mod k = a + b" for a b k q :: nat
  by (metis add.assoc mod_less mod_mult_self4)

text \<open>A message is its full blocks and the part of a block that is in the buffer.\<close>

lemma holds_split:
  assumes "0 < blk"
  shows "holds T blk s0 h m \<longleftrightarrow> (\<exists>full part. m = full @ part \<and> blk dvd length full \<and> length part < blk \<and>
    h_bytes h = length m \<and> length (h_buf h) = blk \<and> h_s h = chain_blocks T blk s0 full \<and> take (length part) (h_buf h) = part)"
    (is "?l \<longleftrightarrow> ?r")
proof
  assume l: ?l
  let ?n = "length m - length m mod blk"
  have d: "blk dvd ?n" by (simp add: minus_mod_eq_mult_div)
  have "chain_blocks T blk s0 (take ?n m @ drop ?n m) = chain_blocks T blk s0 (take ?n m)"
    using chain_append [OF assms, of "take ?n m" T s0 "drop ?n m"] d assms by (simp only: length_take length_drop diff_le_self
      min_absorb2 diff_diff_cancel mod_less_eq_dividend chain_short mod_less_divisor)
  then show ?r using l d assms
    by (intro exI [of _ "take ?n m"] exI [of _ "drop ?n m"]) (auto simp: holds_def)
next
  assume ?r
  then obtain full part where m: "m = full @ part" "blk dvd length full" "length part < blk"
    and h: "h_bytes h = length m" "length (h_buf h) = blk" "h_s h = chain_blocks T blk s0 full" "take (length part) (h_buf h) = part"
    by blast
  have p: "length m mod blk = length part" using m by (simp add: mod_add_eq dvd_eq_mod_eq_0 mod_add_left_eq [symmetric])
  have "chain_blocks T blk s0 m = chain_blocks T blk s0 full"
    using chain_append [OF assms m(2), of T s0 part] m(1,3) by (simp add: chain_short)
  then show ?l using h p m(1) by (simp add: holds_def)
qed

lemma holds_part:
  assumes "m = full @ part" "blk dvd length full" "length part < blk"
  shows "length m mod blk = length part"
  using assms by (simp add: dvd_eq_mod_eq_0 mod_add_left_eq [symmetric])

lemma fill_buffer_holds:
  assumes "holds T blk s0 h m" "0 < blk" "length m mod blk \<noteq> 0" "length m mod blk + length data \<ge> blk" "length m + length data < 2 ^ 64"
  shows "holds T blk s0 (fill_buffer T blk h data) (m @ take (blk - length m mod blk) data)"
    "blk dvd length (m @ take (blk - length m mod blk) data)"
proof -
  obtain full part where m: "m = full @ part" "blk dvd length full" "length part < blk"
    and h: "h_bytes h = length m" "length (h_buf h) = blk" "h_s h = chain_blocks T blk s0 full" "take (length part) (h_buf h) = part"
    using assms(1) by (auto simp: holds_split [OF assms(2)])
  have p: "length m mod blk = length part" by (rule holds_part [OF m])
  let ?b = "part @ take (blk - length part) data"
  have b: "length ?b = blk" using assms(4) m(3) p by simp
  have mc: "memcpy (h_buf h) (length part) (take (blk - length part) data) = ?b"
    using h(2,4) assms(4) m(3) p by (simp add: memcpy_def)
  have c: "T (chain_blocks T blk s0 full) ?b = chain_blocks T blk s0 (full @ ?b)"
    using chain_append [OF assms(2) m(2), of T s0 ?b] chain_step [OF assms(2) b, of T "chain_blocks T blk s0 full" "[]"] assms(2)
    by (simp add: chain_short)
  show d: "blk dvd length (m @ take (blk - length m mod blk) data)"
  proof -
    have "length (m @ take (blk - length part) data) = length full + blk" using b by (simp add: m(1))
    then show ?thesis unfolding p using m(2) by simp
  qed
  have "length (m @ take (blk - length m mod blk) data) mod blk = 0" using d by (simp only: dvd_eq_mod_eq_0)
  moreover have "h_bytes (fill_buffer T blk h data) = length (m @ take (blk - length m mod blk) data)"
    using assms(4,5) m(3) p h(1) by (simp add: fill_buffer_def Let_def add_size_def)
  moreover have "h_s (fill_buffer T blk h data) = chain_blocks T blk s0 (m @ take (blk - length m mod blk) data)"
    using c by (simp add: fill_buffer_def Let_def h(1,3) p mc) (simp add: m(1))
  moreover have "length (h_buf (fill_buffer T blk h data)) = blk"
    using b by (simp add: fill_buffer_def Let_def h(1,3) p mc)
  ultimately show "holds T blk s0 (fill_buffer T blk h data) (m @ take (blk - length m mod blk) data)"
    by (simp add: holds_def)
qed

lemma write_tail_holds:
  assumes "holds T blk s0 h m" "0 < blk" "length m mod blk = 0 \<or> length m mod blk + length data < blk" "length m + length data < 2 ^ 64"
    and off: "off = length m mod blk"
  shows "holds T blk s0 (case write_blocks T blk h data of (h2, rest) \<Rightarrow>
      if rest \<noteq> [] then h2\<lparr>h_buf := memcpy (h_buf h2) off rest, h_bytes := add_size (h_bytes h2) (length rest)\<rparr> else h2)
    (m @ data)"
proof (cases "length m mod blk = 0")
  case True
  let ?n = "length data - length data mod blk"
  have h: "h_bytes h = length m" "length (h_buf h) = blk" "h_s h = chain_blocks T blk s0 m" using assms(1) by (simp_all add: holds_def)
  have n: "write_blocks T blk h data = (h\<lparr>h_s := chain_blocks T blk (h_s h) data, h_bytes := length m + ?n\<rparr>, drop ?n data)"
    using write_blocks_spec [OF assms(2), of h data T] assms(4) h(1) by simp
  have len: "length (m @ data) mod blk = length data mod blk" using True by (simp add: mod_add_left_eq [symmetric])
  have r: "length (drop ?n data) = length data mod blk" by simp
  have "length data mod blk < blk" using assms(2) by simp
  then have mc: "take (length data mod blk) (memcpy (h_buf h) 0 (drop ?n data)) = drop ?n data"
    "length (memcpy (h_buf h) 0 (drop ?n data)) = blk"
    using h(2) by (simp_all add: memcpy_def)
  have c: "chain_blocks T blk (chain_blocks T blk s0 m) data = chain_blocks T blk s0 (m @ data)"
    using chain_append [OF assms(2), of m T s0 data] True by (simp add: dvd_eq_mod_eq_0)
  have e: "drop (length (m @ data) - length (m @ data) mod blk) (m @ data) = drop ?n data"
    unfolding len using le_trans [OF mod_less_eq_dividend] by (simp add: diff_le_mono2 le_diff_conv2)
  have l: "length m + length data - length data mod blk + length data mod blk = length m + length data"
    using mod_less_eq_dividend [of "length data" blk] by linarith
  show ?thesis unfolding holds_def e unfolding len n prod.case
    using l mc c h assms(4) True off by (auto simp: add_size_def)
next
  case False
  obtain full part where m: "m = full @ part" "blk dvd length full" "length part < blk"
    and h: "h_bytes h = length m" "length (h_buf h) = blk" "h_s h = chain_blocks T blk s0 full" "take (length part) (h_buf h) = part"
    using assms(1) by (auto simp: holds_split [OF assms(2)])
  have p: "length m mod blk = length part" by (rule holds_part [OF m])
  have lt: "length part + length data < blk" using False assms(3) p by simp
  have w: "write_blocks T blk h data = (h, data)" using lt by (subst write_blocks.simps) simp
  have mc: "take (length (part @ data)) (memcpy (h_buf h) off data) = part @ data" "length (memcpy (h_buf h) off data) = blk"
    using h(2,4) lt off p by (simp_all add: memcpy_def)
  show ?thesis unfolding w prod.case holds_split [OF assms(2)]
    using m(2) lt h mc assms(4)
    by (intro exI [of _ full] exI [of _ "part @ data"]) (auto simp: m(1) add_size_def)
qed

lemma hasher_Write_holds:
  assumes "holds T blk s0 h m" "0 < blk" "length m + length data < 2 ^ 64"
  shows "holds T blk s0 (hasher_Write T blk data h) (m @ data)"
proof -
  have b: "h_bytes h = length m" using assms(1) by (simp add: holds_def)
  show ?thesis
  proof (cases "length m mod blk \<noteq> 0 \<and> length m mod blk + length data \<ge> blk")
    case True
    let ?k = "blk - length m mod blk"
    note f = fill_buffer_holds [OF assms(1,2) conjunct1 [OF True] conjunct2 [OF True] assms(3)]
    have k: "length (m @ take ?k data) mod blk = 0" using f(2) by (simp only: dvd_eq_mod_eq_0)
    have le: "length (m @ take ?k data) + length (drop ?k data) < 2 ^ 64" using assms(3) by simp
    show ?thesis using write_tail_holds [OF f(1) assms(2) disjI1 [OF k] le k [symmetric]] True
      by (simp add: hasher_Write_def Let_def b)
  next
    case False
    then show ?thesis using write_tail_holds [OF assms(1,2) _ assms(3) refl] by (auto simp: hasher_Write_def Let_def b)
  qed
qed

lemma length_pad_block [simp]: "0 < blk \<Longrightarrow> length (pad_block blk) = blk"
  by (simp add: pad_block_def)

lemma pad_count:
  fixes n blk lb :: nat
  assumes "0 < blk" "lb \<le> blk"
  shows "nat ((int blk - int lb - 1 - int n) mod int blk) = (2 * blk - lb - 1 - n mod blk) mod blk"
proof -
  have x: "x < blk \<Longrightarrow> int (2 * blk - lb - 1 - x) = 2 * int blk - int lb - 1 - int x" for x
    using assms by linarith
  have "int (2 * blk - lb - 1 - n mod blk) = 2 * int blk - int lb - 1 - int (n mod blk)"
    using assms by (intro x) simp
  also have "\<dots> mod int blk = (int blk - int lb - 1 - int n) mod int blk"
  proof -
    have "(2 * int blk - int lb - 1 - int (n mod blk)) mod int blk = (int blk - int lb - 1 - int n + int blk) mod int blk"
      using mod_diff_right_eq [of "2 * int blk - int lb - 1" "int n" "int blk"] by (simp add: of_nat_mod algebra_simps)
    then show ?thesis by (simp only: mod_add_self2)
  qed
  finally show ?thesis by (metis nat_int of_nat_mod)
qed

lemma hasher_finish_holds:
  assumes "holds T blk s0 h m" "0 < blk" "lb \<le> blk" "blk \<le> 2 ^ 16" "length m < 2 ^ 61" "\<And>n. length (enc n) = lb"
  shows "holds T blk s0 (hasher_finish T blk lb enc h) (md_pad blk lb enc m)"
proof -
  define k where "k = (2 * blk - lb - 1 - length m mod blk) mod blk"
  have k: "k < blk" using assms(2) by (simp add: k_def)
  have b: "h_bytes h = length m" using assms(1) by (simp add: holds_def)
  have pad: "take (1 + k) (pad_block blk) = 0x80 # replicate k 0"
    using k by (simp add: pad_block_def take_Cons' min_def)
  have l: "length m + 2 * blk < 2 ^ 64" "lb + length m + 2 * blk < 2 ^ 64" using assms(3-5) by simp_all
  have 1: "holds T blk s0 (hasher_Write T blk (0x80 # replicate k 0) h) (m @ 0x80 # replicate k 0)"
    using k l assms(2) by (intro hasher_Write_holds [OF assms(1)]) simp_all
  have 2: "holds T blk s0 (hasher_Write T blk (enc (length m * 8)) (hasher_Write T blk (0x80 # replicate k 0) h))
      ((m @ 0x80 # replicate k 0) @ enc (length m * 8))"
    using k l assms(2,6) by (intro hasher_Write_holds [OF 1]) simp_all
  have e: "length m * 8 mod 2 ^ 64 = length m * 8" using assms(5) by simp
  have p: "md_pad blk lb enc m = (m @ 0x80 # replicate k 0) @ enc (length m * 8)"
    by (simp only: md_pad_def pad_count [OF assms(2,3)] k_def [symmetric]) (simp add: mult.commute)
  show ?thesis using 2
    by (simp only: hasher_finish_def Let_def b k_def [symmetric] pad e p)
qed

lemma holds_writes:
  assumes "holds T blk s0 h m" "0 < blk" "length m + length (concat chunks) < 2 ^ 64"
  shows "holds T blk s0 (fold (hasher_Write T blk) chunks h) (m @ concat chunks)"
  using assms(1,3)
proof (induction chunks arbitrary: h m)
  case (Cons c chunks)
  have "holds T blk s0 (hasher_Write T blk c h) (m @ c)" using Cons.prems by (intro hasher_Write_holds assms(2)) simp_all
  from Cons.IH [OF this] show ?case using Cons.prems(2) by simp
qed simp

subsection \<open>SHA-256 and SHA-512\<close>

definition sha2_Ch :: "'a::len word \<Rightarrow> 'a word \<Rightarrow> 'a word \<Rightarrow> 'a word" where
  "sha2_Ch x y z = z XOR (x AND (y XOR z))"

definition sha2_Maj :: "'a::len word \<Rightarrow> 'a word \<Rightarrow> 'a word \<Rightarrow> 'a word" where
  "sha2_Maj x y z = (x AND y) OR (z AND (x OR y))"

definition rot32 :: "nat \<Rightarrow> u32 \<Rightarrow> u32" where
  "rot32 n x = drop_bit n x OR push_bit (32 - n) x"

definition rot64 :: "nat \<Rightarrow> u64 \<Rightarrow> u64" where
  "rot64 n x = drop_bit n x OR push_bit (64 - n) x"

definition sha256_Sigma0 :: "u32 \<Rightarrow> u32" where "sha256_Sigma0 x = rot32 2 x XOR rot32 13 x XOR rot32 22 x"
definition sha256_Sigma1 :: "u32 \<Rightarrow> u32" where "sha256_Sigma1 x = rot32 6 x XOR rot32 11 x XOR rot32 25 x"
definition sha256_sigma0 :: "u32 \<Rightarrow> u32" where "sha256_sigma0 x = rot32 7 x XOR rot32 18 x XOR drop_bit 3 x"
definition sha256_sigma1 :: "u32 \<Rightarrow> u32" where "sha256_sigma1 x = rot32 17 x XOR rot32 19 x XOR drop_bit 10 x"
definition sha512_Sigma0 :: "u64 \<Rightarrow> u64" where "sha512_Sigma0 x = rot64 28 x XOR rot64 34 x XOR rot64 39 x"
definition sha512_Sigma1 :: "u64 \<Rightarrow> u64" where "sha512_Sigma1 x = rot64 14 x XOR rot64 18 x XOR rot64 41 x"
definition sha512_sigma0 :: "u64 \<Rightarrow> u64" where "sha512_sigma0 x = rot64 1 x XOR rot64 8 x XOR drop_bit 7 x"
definition sha512_sigma1 :: "u64 \<Rightarrow> u64" where "sha512_sigma1 x = rot64 19 x XOR rot64 61 x XOR drop_bit 6 x"

text \<open>
  \<open>Round\<close> is called with the registers \<open>a\<close> to \<open>h\<close> shifted by one place from one call to the next;
  argument \<open>j\<close> of the call of round \<open>i\<close> is register \<open>reg8 i j\<close>. It changes its fourth and its last argument.
\<close>

definition reg8 :: "nat \<Rightarrow> nat \<Rightarrow> nat" where
  "reg8 i j = (j + 7 * i) mod 8"

definition sha2_Round ::
    "('a::len word \<Rightarrow> 'a word) \<Rightarrow> ('a word \<Rightarrow> 'a word) \<Rightarrow> nat \<Rightarrow> 'a word list \<Rightarrow> 'a word \<Rightarrow> 'a word \<Rightarrow> 'a word list" where
  "sha2_Round S0 S1 i r k w =
     (let a = r ! reg8 i 0; b = r ! reg8 i 1; c = r ! reg8 i 2; d = r ! reg8 i 3;
          e = r ! reg8 i 4; f = r ! reg8 i 5; g = r ! reg8 i 6; h = r ! reg8 i 7;
          t1 = h + S1 e + sha2_Ch e f g + k + w;
          t2 = S0 a + sha2_Maj a b c
      in r[reg8 i 3 := d + t1, reg8 i 7 := t1 + t2])"

text \<open>
  The words \<open>w0\<close> to \<open>w15\<close>: the first sixteen rounds read them from the chunk, the later ones replace them
  in turn. The two last rounds only compute the new value.
\<close>

definition sha2_word ::
    "('a::len word \<Rightarrow> 'a word) \<Rightarrow> ('a word \<Rightarrow> 'a word) \<Rightarrow> nat \<Rightarrow> 'a word list \<Rightarrow> 'a word" where
  "sha2_word s0 s1 i w = w ! (i mod 16) + s1 (w ! ((i + 14) mod 16)) + w ! ((i + 9) mod 16) + s0 (w ! ((i + 1) mod 16))"

fun sha2_rounds ::
    "('a::len word \<Rightarrow> 'a word) \<Rightarrow> ('a word \<Rightarrow> 'a word) \<Rightarrow> ('a word \<Rightarrow> 'a word) \<Rightarrow> ('a word \<Rightarrow> 'a word) \<Rightarrow>
     (nat \<Rightarrow> 'a word) \<Rightarrow> nat \<Rightarrow> 'a word list \<Rightarrow> 'a word list \<times> 'a word list \<Rightarrow> 'a word list \<times> 'a word list" where
  "sha2_rounds S0 S1 s0 s1 inp i [] (r, w) = (r, w)"
| "sha2_rounds S0 S1 s0 s1 inp i (k # ks) (r, w) =
     (let v = (if i < 16 then inp i else sha2_word s0 s1 i w);
          w' = (if 2 \<le> length ks then w[i mod 16 := v] else w)
      in sha2_rounds S0 S1 s0 s1 inp (i + 1) ks (sha2_Round S0 S1 i r k v, w'))"

definition sha256_K :: "u32 list" where
  "sha256_K = concat
    [[0x428a2f98, 0x71374491, 0xb5c0fbcf, 0xe9b5dba5], [0x3956c25b, 0x59f111f1, 0x923f82a4, 0xab1c5ed5],
     [0xd807aa98, 0x12835b01, 0x243185be, 0x550c7dc3], [0x72be5d74, 0x80deb1fe, 0x9bdc06a7, 0xc19bf174],
     [0xe49b69c1, 0xefbe4786, 0x0fc19dc6, 0x240ca1cc], [0x2de92c6f, 0x4a7484aa, 0x5cb0a9dc, 0x76f988da],
     [0x983e5152, 0xa831c66d, 0xb00327c8, 0xbf597fc7], [0xc6e00bf3, 0xd5a79147, 0x06ca6351, 0x14292967],
     [0x27b70a85, 0x2e1b2138, 0x4d2c6dfc, 0x53380d13], [0x650a7354, 0x766a0abb, 0x81c2c92e, 0x92722c85],
     [0xa2bfe8a1, 0xa81a664b, 0xc24b8b70, 0xc76c51a3], [0xd192e819, 0xd6990624, 0xf40e3585, 0x106aa070],
     [0x19a4c116, 0x1e376c08, 0x2748774c, 0x34b0bcb5], [0x391c0cb3, 0x4ed8aa4a, 0x5b9cca4f, 0x682e6ff3],
     [0x748f82ee, 0x78a5636f, 0x84c87814, 0x8cc70208], [0x90befffa, 0xa4506ceb, 0xbef9a3f7, 0xc67178f2]]"

definition sha512_K :: "u64 list" where
  "sha512_K = concat
    [[0x428a2f98d728ae22, 0x7137449123ef65cd, 0xb5c0fbcfec4d3b2f, 0xe9b5dba58189dbbc],
     [0x3956c25bf348b538, 0x59f111f1b605d019, 0x923f82a4af194f9b, 0xab1c5ed5da6d8118],
     [0xd807aa98a3030242, 0x12835b0145706fbe, 0x243185be4ee4b28c, 0x550c7dc3d5ffb4e2],
     [0x72be5d74f27b896f, 0x80deb1fe3b1696b1, 0x9bdc06a725c71235, 0xc19bf174cf692694],
     [0xe49b69c19ef14ad2, 0xefbe4786384f25e3, 0x0fc19dc68b8cd5b5, 0x240ca1cc77ac9c65],
     [0x2de92c6f592b0275, 0x4a7484aa6ea6e483, 0x5cb0a9dcbd41fbd4, 0x76f988da831153b5],
     [0x983e5152ee66dfab, 0xa831c66d2db43210, 0xb00327c898fb213f, 0xbf597fc7beef0ee4],
     [0xc6e00bf33da88fc2, 0xd5a79147930aa725, 0x06ca6351e003826f, 0x142929670a0e6e70],
     [0x27b70a8546d22ffc, 0x2e1b21385c26c926, 0x4d2c6dfc5ac42aed, 0x53380d139d95b3df],
     [0x650a73548baf63de, 0x766a0abb3c77b2a8, 0x81c2c92e47edaee6, 0x92722c851482353b],
     [0xa2bfe8a14cf10364, 0xa81a664bbc423001, 0xc24b8b70d0f89791, 0xc76c51a30654be30],
     [0xd192e819d6ef5218, 0xd69906245565a910, 0xf40e35855771202a, 0x106aa07032bbd1b8],
     [0x19a4c116b8d2d0c8, 0x1e376c085141ab53, 0x2748774cdf8eeb99, 0x34b0bcb5e19b48a8],
     [0x391c0cb3c5c95a63, 0x4ed8aa4ae3418acb, 0x5b9cca4f7763e373, 0x682e6ff3d6b2b8a3],
     [0x748f82ee5defb2fc, 0x78a5636f43172f60, 0x84c87814a1f0ab72, 0x8cc702081a6439ec],
     [0x90befffa23631e28, 0xa4506cebde82bde9, 0xbef9a3f7b2c67915, 0xc67178f2e372532b],
     [0xca273eceea26619c, 0xd186b8c721c0c207, 0xeada7dd6cde0eb1e, 0xf57d4f7fee6ed178],
     [0x06f067aa72176fba, 0x0a637dc5a2c898a6, 0x113f9804bef90dae, 0x1b710b35131c471b],
     [0x28db77f523047d84, 0x32caab7b40c72493, 0x3c9ebe0a15c9bebc, 0x431d67c49c100d4c],
     [0x4cc5d4becb3e42b6, 0x597f299cfc657e2a, 0x5fcb6fab3ad6faec, 0x6c44198c4a475817]]"

definition sha256_Initialize :: "u32 list" where
  "sha256_Initialize =
    [0x6a09e667, 0xbb67ae85, 0x3c6ef372, 0xa54ff53a, 0x510e527f, 0x9b05688c, 0x1f83d9ab, 0x5be0cd19]"

definition sha512_Initialize :: "u64 list" where
  "sha512_Initialize =
    [0x6a09e667f3bcc908, 0xbb67ae8584caa73b, 0x3c6ef372fe94f82b, 0xa54ff53a5f1d36f1,
     0x510e527fade682d1, 0x9b05688c2b3e6c1f, 0x1f83d9abfb41bd6b, 0x5be0cd19137e2179]"

definition sha256_Transform :: "u32 list \<Rightarrow> bytes \<Rightarrow> u32 list" where
  "sha256_Transform s chunk =
     (let (r, w) = sha2_rounds sha256_Sigma0 sha256_Sigma1 sha256_sigma0 sha256_sigma1
            (\<lambda>i. ReadBE32 chunk (4 * i)) 0 sha256_K (s, replicate 16 0)
      in map2 (+) s r)"

definition sha512_Transform :: "u64 list \<Rightarrow> bytes \<Rightarrow> u64 list" where
  "sha512_Transform s chunk =
     (let (r, w) = sha2_rounds sha512_Sigma0 sha512_Sigma1 sha512_sigma0 sha512_sigma1
            (\<lambda>i. ReadBE64 chunk (8 * i)) 0 sha512_K (s, replicate 16 0)
      in map2 (+) s r)"

text \<open>The classes.\<close>

definition CSHA256_new :: "32 word hasher" where "CSHA256_new = hasher_init sha256_Initialize 64"
definition CSHA256_Reset :: "32 word hasher \<Rightarrow> 32 word hasher" where "CSHA256_Reset = hasher_Reset sha256_Initialize"
definition CSHA256_Write :: "bytes \<Rightarrow> 32 word hasher \<Rightarrow> 32 word hasher" where "CSHA256_Write = hasher_Write sha256_Transform 64"

definition CSHA256_finish :: "32 word hasher \<Rightarrow> 32 word hasher" where
  "CSHA256_finish = hasher_finish sha256_Transform 64 8 (\<lambda>n. WriteBE64 (word_of_nat n))"

definition CSHA256_digest :: "32 word hasher \<Rightarrow> bytes" where
  "CSHA256_digest h = concat (map WriteBE32 (h_s h))"

definition CSHA256_Finalize :: "32 word hasher \<Rightarrow> bytes" where
  "CSHA256_Finalize h = CSHA256_digest (CSHA256_finish h)"

definition CSHA512_new :: "64 word hasher" where "CSHA512_new = hasher_init sha512_Initialize 128"
definition CSHA512_Reset :: "64 word hasher \<Rightarrow> 64 word hasher" where "CSHA512_Reset = hasher_Reset sha512_Initialize"
definition CSHA512_Write :: "bytes \<Rightarrow> 64 word hasher \<Rightarrow> 64 word hasher" where "CSHA512_Write = hasher_Write sha512_Transform 128"

definition CSHA512_finish :: "64 word hasher \<Rightarrow> 64 word hasher" where
  "CSHA512_finish = hasher_finish sha512_Transform 128 16 (\<lambda>n. replicate 8 0 @ WriteBE64 (word_of_nat n))"

definition CSHA512_digest :: "64 word hasher \<Rightarrow> bytes" where
  "CSHA512_digest h = concat (map WriteBE64 (h_s h))"

definition CSHA512_Finalize :: "64 word hasher \<Rightarrow> bytes" where
  "CSHA512_Finalize h = CSHA512_digest (CSHA512_finish h)"

subsection \<open>The Secure Hash Standard\<close>

text \<open>The functions, the message schedule and the compression as FIPS 180-4 writes them.\<close>

definition fips_Ch :: "'a::len word \<Rightarrow> 'a word \<Rightarrow> 'a word \<Rightarrow> 'a word" where
  "fips_Ch x y z = (x AND y) XOR (NOT x AND z)"

definition fips_Maj :: "'a::len word \<Rightarrow> 'a word \<Rightarrow> 'a word \<Rightarrow> 'a word" where
  "fips_Maj x y z = (x AND y) XOR (x AND z) XOR (y AND z)"

definition fips_rot3 :: "nat \<Rightarrow> nat \<Rightarrow> nat \<Rightarrow> 'a::len word \<Rightarrow> 'a word" where
  "fips_rot3 i j k x = word_rotr i x XOR word_rotr j x XOR word_rotr k x"

definition fips_rot2 :: "nat \<Rightarrow> nat \<Rightarrow> nat \<Rightarrow> 'a::len word \<Rightarrow> 'a word" where
  "fips_rot2 i j k x = word_rotr i x XOR word_rotr j x XOR drop_bit k x"

fun fips_W :: "('a::len word \<Rightarrow> 'a word) \<Rightarrow> ('a word \<Rightarrow> 'a word) \<Rightarrow> (nat \<Rightarrow> 'a word) \<Rightarrow> nat \<Rightarrow> 'a word" where
  "fips_W s0 s1 M t =
     (if t < 16 then M t else s1 (fips_W s0 s1 M (t - 2)) + fips_W s0 s1 M (t - 7) + s0 (fips_W s0 s1 M (t - 15)) + fips_W s0 s1 M (t - 16))"

declare fips_W.simps [simp del]

fun fips_round :: "('a::len word \<Rightarrow> 'a word) \<Rightarrow> ('a word \<Rightarrow> 'a word) \<Rightarrow> 'a word \<Rightarrow> 'a word \<Rightarrow> 'a word list \<Rightarrow> 'a word list" where
  "fips_round S0 S1 k w [a, b, c, d, e, f, g, h] =
     (let T1 = h + S1 e + fips_Ch e f g + k + w; T2 = S0 a + fips_Maj a b c
      in [T1 + T2, a, b, c, d + T1, e, f, g])"
| "fips_round S0 S1 k w s = s"

definition fips_compress ::
    "('a::len word \<Rightarrow> 'a word) \<Rightarrow> ('a word \<Rightarrow> 'a word) \<Rightarrow> ('a word \<Rightarrow> 'a word) \<Rightarrow> ('a word \<Rightarrow> 'a word) \<Rightarrow>
     'a word list \<Rightarrow> (nat \<Rightarrow> 'a word) \<Rightarrow> 'a word list \<Rightarrow> 'a word list" where
  "fips_compress S0 S1 s0 s1 K M H =
     map2 (+) H (fold (\<lambda>t. fips_round S0 S1 (K ! t) (fips_W s0 s1 M t)) [0..<length K] H)"

lemma sha2_Ch_fips: "sha2_Ch x y z = fips_Ch x y z"
  by (rule bit_word_eqI) (auto simp: sha2_Ch_def fips_Ch_def bit_simps)

lemma sha2_Maj_fips: "sha2_Maj x y z = fips_Maj x y z"
  by (rule bit_word_eqI) (auto simp: sha2_Maj_def fips_Maj_def bit_simps)

lemma rot32_rotr: "n < 32 \<Longrightarrow> rot32 n x = word_rotr n x"
  by (rule bit_word_eqI) (auto simp: rot32_def bit_simps bit_word_rotr_iff mod_if add.commute [of n] dest: bit_imp_le_length)

lemma rot64_rotr: "n < 64 \<Longrightarrow> rot64 n x = word_rotr n x"
  by (rule bit_word_eqI) (auto simp: rot64_def bit_simps bit_word_rotr_iff mod_if add.commute [of n] dest: bit_imp_le_length)

lemma sha256_functions:
  "sha256_Sigma0 = fips_rot3 2 13 22" "sha256_Sigma1 = fips_rot3 6 11 25"
  "sha256_sigma0 = fips_rot2 7 18 3" "sha256_sigma1 = fips_rot2 17 19 10"
  by (simp_all add: fun_eq_iff sha256_Sigma0_def sha256_Sigma1_def sha256_sigma0_def sha256_sigma1_def fips_rot3_def fips_rot2_def rot32_rotr)

lemma sha512_functions:
  "sha512_Sigma0 = fips_rot3 28 34 39" "sha512_Sigma1 = fips_rot3 14 18 41"
  "sha512_sigma0 = fips_rot2 1 8 7" "sha512_sigma1 = fips_rot2 19 61 6"
  by (simp_all add: fun_eq_iff sha512_Sigma0_def sha512_Sigma1_def sha512_sigma0_def sha512_sigma1_def fips_rot3_def fips_rot2_def rot64_rotr)

text \<open>The registers of round \<open>i\<close> in the standard's order.\<close>

definition view8 :: "nat \<Rightarrow> 'a list \<Rightarrow> 'a list" where
  "view8 i r = map (\<lambda>j. r ! reg8 i j) [0..<8]"

lemma upt_8: "[0..<8] = [0, 1, 2, 3, 4, 5, 6, 7]"
  by (simp add: upt_rec)

lemma reg8_mod: "reg8 i j = (j + 7 * (i mod 8)) mod 8"
  unfolding reg8_def by (metis mod_add_right_eq mod_mult_right_eq)

lemma reg8_Suc: "reg8 (Suc i) j = (j + 7 + 7 * (i mod 8)) mod 8"
  using reg8_mod [of i "j + 7"] by (simp add: reg8_def add.assoc)

lemma length_sha2_Round [simp]: "length (sha2_Round S0 S1 i r k w) = length r"
  by (simp add: sha2_Round_def Let_def)

lemma sha2_Round_view:
  assumes "length r = 8"
  shows "view8 (Suc i) (sha2_Round S0 S1 i r k w) = fips_round S0 S1 k w (view8 i r)"
proof -
  obtain a b c d e f g h where r: "r = [a, b, c, d, e, f, g, h]"
    using assms by (auto simp: numeral_eq_Suc length_Suc_conv)
  have "i mod 8 \<in> set [0..<8]" by simp
  then have "i mod 8 \<in> {0, 1, 2, 3, 4, 5, 6, 7}" unfolding upt_8 by simp
  then show ?thesis
    unfolding view8_def sha2_Round_def upt_8 reg8_Suc unfolding reg8_mod r
    by (elim insertE emptyE) (simp_all add: Let_def sha2_Ch_fips sha2_Maj_fips)
qed

text \<open>The words in use are those of the schedule.\<close>

definition window_ok :: "('a word \<Rightarrow> 'a::len word) \<Rightarrow> ('a word \<Rightarrow> 'a word) \<Rightarrow> (nat \<Rightarrow> 'a word) \<Rightarrow> nat \<Rightarrow> nat \<Rightarrow> 'a word list \<Rightarrow> bool" where
  "window_ok s0 s1 M N i w \<longleftrightarrow> length w = 16 \<and> (\<forall>j<i. i \<le> j + 16 \<longrightarrow> j + 2 < N \<longrightarrow> w ! (j mod 16) = fips_W s0 s1 M j)"

lemma window_word:
  assumes "window_ok s0 s1 M N i w" "16 \<le> i" "i < N"
  shows "sha2_word s0 s1 i w = fips_W s0 s1 M i"
proof -
  have e: "w ! ((i - d) mod 16) = fips_W s0 s1 M (i - d)" if "d \<le> 16" "2 \<le> d" for d
    using assms that by (auto simp: window_ok_def)
  have m: "i mod 16 = (i - 16) mod 16" "(i + 14) mod 16 = (i - 2) mod 16" "(i + 9) mod 16 = (i - 7) mod 16"
    "(i + 1) mod 16 = (i - 15) mod 16"
  proof -
    obtain t where t: "i = t + 16" using assms(2) by (metis le_add_diff_inverse2)
    show "i mod 16 = (i - 16) mod 16" "(i + 14) mod 16 = (i - 2) mod 16" "(i + 9) mod 16 = (i - 7) mod 16"
      "(i + 1) mod 16 = (i - 15) mod 16"
      using mod_add_self2 [of t 16] mod_add_self2 [of "14 + t" 16] mod_add_self2 [of "9 + t" 16] mod_add_self2 [of "t + 1" 16]
      by (simp_all add: t)
  qed
  have "fips_W s0 s1 M i = s1 (fips_W s0 s1 M (i - 2)) + fips_W s0 s1 M (i - 7) + s0 (fips_W s0 s1 M (i - 15)) + fips_W s0 s1 M (i - 16)"
    using assms(2) by (subst fips_W.simps) simp
  then show ?thesis unfolding sha2_word_def m e [of 2, simplified] e [of 7, simplified] e [of 15, simplified] e [of 16, simplified] by simp
qed

lemma window_step:
  assumes "window_ok s0 s1 M N i w" "v = fips_W s0 s1 M i"
  shows "window_ok s0 s1 M N (Suc i) (if i + 2 < N then w[i mod 16 := v] else w)"
proof -
  have "w[i mod 16 := v] ! (j mod 16) = fips_W s0 s1 M j" if "j < Suc i" "Suc i \<le> j + 16" "j + 2 < N" for j
  proof (cases "j = i")
    case True
    then show ?thesis using assms by (simp add: window_ok_def)
  next
    case False
    have "\<not> 16 dvd i - j" using False that by (auto dest: dvd_imp_le)
    then have "i mod 16 \<noteq> j mod 16" using False that by (simp add: mod_eq_dvd_iff_nat)
    then show ?thesis using False that assms(1) by (simp add: window_ok_def)
  qed
  moreover have "w ! (j mod 16) = fips_W s0 s1 M j" if "j < Suc i" "Suc i \<le> j + 16" "j + 2 < N" "\<not> i + 2 < N" for j
    using that assms(1) by (simp add: window_ok_def)
  ultimately show ?thesis using assms(1) by (simp add: window_ok_def)
qed

lemma length_fips_round [simp]: "length (fips_round S0 S1 k w s) = length s"
  by (induction S0 S1 k w s rule: fips_round.induct) (auto simp: Let_def)

lemma sha2_rounds_fips:
  assumes "length r = 8" "window_ok s0 s1 M (i + length ks) i w"
  shows "view8 (i + length ks) (fst (sha2_rounds S0 S1 s0 s1 M i ks (r, w))) =
      fold (\<lambda>t. fips_round S0 S1 (ks ! (t - i)) (fips_W s0 s1 M t)) [i..<i + length ks] (view8 i r) \<and>
    length (fst (sha2_rounds S0 S1 s0 s1 M i ks (r, w))) = 8"
  using assms
proof (induction ks arbitrary: i r w)
  case (Cons k ks)
  define v where "v = (if i < 16 then M i else sha2_word s0 s1 i w)"
  have v: "v = fips_W s0 s1 M i"
  proof (cases "i < 16")
    case True
    then show ?thesis by (subst fips_W.simps) (simp add: v_def)
  next
    case False
    then show ?thesis using window_word [OF Cons.prems(2)] by (simp add: v_def)
  qed
  define w' where "w' = (if 2 \<le> length ks then w[i mod 16 := v] else w)"
  have w': "window_ok s0 s1 M (Suc i + length ks) (Suc i) w'"
    using window_step [OF Cons.prems(2) v] by (simp add: w'_def less_Suc_eq_le numeral_2_eq_2 Suc_le_eq)
  have eq: "sha2_rounds S0 S1 s0 s1 M i (k # ks) (r, w) = sha2_rounds S0 S1 s0 s1 M (Suc i) ks (sha2_Round S0 S1 i r k v, w')"
    by (simp add: v_def w'_def Let_def)
  have u: "[i..<i + length (k # ks)] = i # [Suc i..<Suc i + length ks]" by (subst upt_conv_Cons) simp_all
  have f: "fold (\<lambda>t. fips_round S0 S1 ((k # ks) ! (t - i)) (fips_W s0 s1 M t)) [Suc i..<Suc i + length ks] x =
    fold (\<lambda>t. fips_round S0 S1 (ks ! (t - Suc i)) (fips_W s0 s1 M t)) [Suc i..<Suc i + length ks] x" for x
    by (intro fold_cong) (auto simp: nth_Cons' )
  show ?case using Cons.IH [OF _ w', of "sha2_Round S0 S1 i r k v"] Cons.prems(1)
    unfolding eq u by (simp add: f [simplified add_Suc] sha2_Round_view v del: upt_Suc)
qed simp

lemma Transform_fips:
  assumes "length s = 8" "length K mod 8 = 0" "16 \<le> length K"
  shows "map2 (+) s (fst (sha2_rounds S0 S1 s0 s1 M 0 K (s, replicate 16 0))) = fips_compress S0 S1 s0 s1 K M s"
proof -
  have id: "view8 n t = t" if "length t = 8" "n mod 8 = 0" for n and t :: "'a word list"
    using that by (auto simp: view8_def reg8_mod map_nth [symmetric] list_eq_iff_nth_eq)
  have "window_ok s0 s1 M (0 + length K) 0 (replicate 16 0)" by (simp add: window_ok_def)
  note r = sha2_rounds_fips [OF assms(1) this, of S0 S1]
  show ?thesis using r id [of "fst (sha2_rounds S0 S1 s0 s1 M 0 K (s, replicate 16 0))" "length K"] id [of s 0] assms
    by (simp add: fips_compress_def)
qed

definition SHA256_block :: "u32 list \<Rightarrow> bytes \<Rightarrow> u32 list" where
  "SHA256_block s b = fips_compress (fips_rot3 2 13 22) (fips_rot3 6 11 25) (fips_rot2 7 18 3) (fips_rot2 17 19 10) sha256_K
     (\<lambda>i. word_of_nat (be_dec (take 4 (drop (4 * i) b)))) s"

definition SHA512_block :: "u64 list \<Rightarrow> bytes \<Rightarrow> u64 list" where
  "SHA512_block s b = fips_compress (fips_rot3 28 34 39) (fips_rot3 14 18 41) (fips_rot2 1 8 7) (fips_rot2 19 61 6) sha512_K
     (\<lambda>i. word_of_nat (be_dec (take 8 (drop (8 * i) b)))) s"

definition SHA256 :: "bytes \<Rightarrow> bytes" where
  "SHA256 = md_hash SHA256_block 64 8 (be_enc 8) (\<lambda>s. concat (map (\<lambda>w. be_enc 4 (unat w)) s)) sha256_Initialize"

definition SHA512 :: "bytes \<Rightarrow> bytes" where
  "SHA512 = md_hash SHA512_block 128 16 (be_enc 16) (\<lambda>s. concat (map (\<lambda>w. be_enc 8 (unat w)) s)) sha512_Initialize"

lemma chain_cong:
  assumes "\<And>s b. length s = n \<Longrightarrow> T s b = T' s b \<and> length (T' s b) = n" "length s = n"
  shows "chain_blocks T blk s m = chain_blocks T' blk s m \<and> length (chain_blocks T' blk s m) = n"
  using assms(2)
proof (induction "length m" arbitrary: m s rule: less_induct)
  case less
  show ?case
  proof (cases "0 < blk \<and> blk \<le> length m")
    case True
    then have "length (drop blk m) < length m" by auto
    from less.hyps [OF this, of "T' s (take blk m)"] show ?thesis
      using True assms(1) [OF less.prems] chain_blocks.simps [of T blk s m] chain_blocks.simps [of T' blk s m] by simp
  next
    case False
    then show ?thesis using less.prems chain_blocks.simps [of T blk s m] chain_blocks.simps [of T' blk s m] by auto
  qed
qed

lemma length_fips_fold [simp]: "length (fold (\<lambda>t. fips_round S0 S1 (f t) (g t)) l s) = length s"
  by (induction l arbitrary: s) auto

lemma sha_lengths [simp]: "length sha256_K = 64" "length sha512_K = 80" "length sha256_Initialize = 8" "length sha512_Initialize = 8"
  by (simp_all add: sha256_K_def sha512_K_def sha256_Initialize_def sha512_Initialize_def)

lemma sha256_Transform_fips: "length s = 8 \<Longrightarrow> sha256_Transform s b = SHA256_block s b \<and> length (SHA256_block s b) = 8"
  using Transform_fips [of s sha256_K]
  by (simp add: sha256_Transform_def SHA256_block_def sha256_functions ReadBE32_def case_prod_unfold) (simp add: fips_compress_def)

lemma sha512_Transform_fips: "length s = 8 \<Longrightarrow> sha512_Transform s b = SHA512_block s b \<and> length (SHA512_block s b) = 8"
  using Transform_fips [of s sha512_K]
  by (simp add: sha512_Transform_def SHA512_block_def sha512_functions ReadBE64_def case_prod_unfold) (simp add: fips_compress_def)

lemmas sha256_chain = chain_cong [of 8 sha256_Transform SHA256_block, OF sha256_Transform_fips]
  and sha512_chain = chain_cong [of 8 sha512_Transform SHA512_block, OF sha512_Transform_fips]

subsection \<open>The contract of a hash class\<close>

text \<open>
  What the users of a hash class rely on: \<open>contents h m\<close> says that \<open>m\<close> is what was written to \<open>h\<close>. The
  last call of \<open>Finalize\<close> leaves an object that can be reset.
\<close>

locale hash_class =
  fixes new :: 'h and put :: "bytes \<Rightarrow> 'h \<Rightarrow> 'h" and finish :: "'h \<Rightarrow> 'h" and digest :: "'h \<Rightarrow> bytes" and reset :: "'h \<Rightarrow> 'h"
    and contents :: "'h \<Rightarrow> bytes \<Rightarrow> bool" and hash :: "bytes \<Rightarrow> bytes" and dsize :: nat
  assumes new: "contents new []"
    and put: "contents h m \<Longrightarrow> length m + length d < 2 ^ 61 \<Longrightarrow> contents (put d h) (m @ d)"
    and final: "contents h m \<Longrightarrow> length m < 2 ^ 61 \<Longrightarrow> digest (finish h) = hash m"
    and reset: "contents h m \<Longrightarrow> length m < 2 ^ 61 \<Longrightarrow> contents (reset (finish h)) []"
    and length_hash: "length (hash m) = dsize"
begin

lemma writes: "contents h m \<Longrightarrow> length m + length (concat ds) < 2 ^ 61 \<Longrightarrow> contents (fold put ds h) (m @ concat ds)"
proof (induction ds arbitrary: h m)
  case (Cons d ds)
  have "contents (put d h) (m @ d)" using Cons.prems by (intro put) simp_all
  from Cons.IH [OF this] show ?case using Cons.prems(2) by simp
qed simp

lemma one_shot: "length d < 2 ^ 61 \<Longrightarrow> digest (finish (put d new)) = hash d"
  using final [OF put [OF new]] by simp

lemma streams: "length (concat ds) < 2 ^ 61 \<Longrightarrow> digest (finish (fold put ds new)) = hash (concat ds)"
  using final [OF writes [OF new]] by simp

end

lemma length_words: "length (concat (map (\<lambda>w. be_enc k (f w)) s)) = k * length s"
  by (induction s) auto

lemma WriteBE_words: "WriteBE32 = (\<lambda>w. be_enc 4 (unat w))" "WriteBE64 = (\<lambda>w. be_enc 8 (unat w))"
  by (simp_all add: fun_eq_iff WriteBE32_def WriteBE64_def)

lemma le_enc_zero: "le_enc k 0 = replicate k 0"
  by (induction k) auto

lemma be_enc_16: "n < 2 ^ 64 \<Longrightarrow> be_enc 16 n = replicate 8 0 @ be_enc 8 n"
proof -
  assume n: "n < 2 ^ 64"
  have a: "le_enc (j + k) n = le_enc j n @ le_enc k (n div 256 ^ j)" for j k n
    by (induction j arbitrary: n) (simp_all add: div_mult2_eq)
  show ?thesis using a [of 8 8 n] n by (simp add: be_enc_def le_enc_zero)
qed

lemma md_pad_cong: "enc (8 * length m) = enc' (8 * length m) \<Longrightarrow> md_pad blk lb enc m = md_pad blk lb enc' m"
  by (simp add: md_pad_def)

lemma WriteBE64_nat: "n < 2 ^ 64 \<Longrightarrow> WriteBE64 (word_of_nat n) = be_enc 8 n"
  by (simp add: WriteBE64_def unat_of_nat take_bit_nat_def)

lemma SHA256_hasher:
  assumes "length m < 2 ^ 61"
  shows "SHA256 m = concat (map WriteBE32 (chain_blocks sha256_Transform 64 sha256_Initialize
    (md_pad 64 8 (\<lambda>n. WriteBE64 (word_of_nat n)) m)))"
proof -
  have p: "md_pad 64 8 (\<lambda>n. WriteBE64 (word_of_nat n)) m = md_pad 64 8 (be_enc 8) m"
    using assms by (intro md_pad_cong WriteBE64_nat) simp
  show ?thesis unfolding p unfolding SHA256_def md_hash_def WriteBE_words
    by (simp only: sha256_chain sha_lengths)
qed

lemma SHA512_hasher:
  assumes "length m < 2 ^ 61"
  shows "SHA512 m = concat (map WriteBE64 (chain_blocks sha512_Transform 128 sha512_Initialize
    (md_pad 128 16 (\<lambda>n. replicate 8 0 @ WriteBE64 (word_of_nat n)) m)))"
proof -
  have p: "md_pad 128 16 (\<lambda>n. replicate 8 0 @ WriteBE64 (word_of_nat n)) m = md_pad 128 16 (be_enc 16) m"
  proof (rule md_pad_cong)
    have "8 * length m < 2 ^ 64" using assms by simp
    then show "replicate 8 0 @ WriteBE64 (word_of_nat (8 * length m)) = be_enc 16 (8 * length m)"
      by (simp only: WriteBE64_nat be_enc_16)
  qed
  show ?thesis unfolding p unfolding SHA512_def md_hash_def WriteBE_words
    by (simp only: sha512_chain sha_lengths)
qed

interpretation sha256c: hash_class CSHA256_new CSHA256_Write CSHA256_finish CSHA256_digest CSHA256_Reset
    "holds sha256_Transform 64 sha256_Initialize" SHA256 32
proof
  fix h m d
  let ?h = "holds sha256_Transform 64 sha256_Initialize"
  have e: "length (WriteBE64 (word_of_nat n)) = 8" for n by (simp add: WriteBE64_def)
  show "?h CSHA256_new []" by (simp add: CSHA256_new_def holds_init)
  show "?h h m \<Longrightarrow> length m + length d < 2 ^ 61 \<Longrightarrow> ?h (CSHA256_Write d h) (m @ d)"
    by (simp add: CSHA256_Write_def hasher_Write_holds)
  assume h: "?h h m" "length m < 2 ^ 61"
  have f: "?h (CSHA256_finish h) (md_pad 64 8 (\<lambda>n. WriteBE64 (word_of_nat n)) m)"
    unfolding CSHA256_finish_def using h e by (intro hasher_finish_holds) simp_all
  then show "CSHA256_digest (CSHA256_finish h) = SHA256 m"
    using SHA256_hasher [OF h(2)] by (simp add: holds_def CSHA256_digest_def)
  show "?h (CSHA256_Reset (CSHA256_finish h)) []"
    using holds_buf [OF f] by (simp add: CSHA256_Reset_def holds_Reset)
qed (simp add: SHA256_def md_hash_def length_words sha256_chain)

interpretation sha512c: hash_class CSHA512_new CSHA512_Write CSHA512_finish CSHA512_digest CSHA512_Reset
    "holds sha512_Transform 128 sha512_Initialize" SHA512 64
proof
  fix h m d
  let ?h = "holds sha512_Transform 128 sha512_Initialize"
  have e: "length (replicate 8 0 @ WriteBE64 (word_of_nat n)) = 16" for n by (simp add: WriteBE64_def)
  show "?h CSHA512_new []" by (simp add: CSHA512_new_def holds_init)
  show "?h h m \<Longrightarrow> length m + length d < 2 ^ 61 \<Longrightarrow> ?h (CSHA512_Write d h) (m @ d)"
    by (simp add: CSHA512_Write_def hasher_Write_holds)
  assume h: "?h h m" "length m < 2 ^ 61"
  have f: "?h (CSHA512_finish h) (md_pad 128 16 (\<lambda>n. replicate 8 0 @ WriteBE64 (word_of_nat n)) m)"
    unfolding CSHA512_finish_def using h e by (intro hasher_finish_holds) simp_all
  then show "CSHA512_digest (CSHA512_finish h) = SHA512 m"
    using SHA512_hasher [OF h(2)] by (simp add: holds_def CSHA512_digest_def)
  show "?h (CSHA512_Reset (CSHA512_finish h)) []"
    using holds_buf [OF f] by (simp add: CSHA512_Reset_def holds_Reset)
qed (simp add: SHA512_def md_hash_def length_words sha512_chain)

subsection \<open>The constants\<close>

text \<open>
  The standard derives its constants from the fractional parts of the square and cube roots of the first
  primes: \<open>root_bits e w p k\<close> says that \<open>k\<close> is the first \<open>w\<close> bits of the fraction of the root of order \<open>e\<close> of \<open>p\<close>.
\<close>

definition root_bits :: "nat \<Rightarrow> nat \<Rightarrow> int \<Rightarrow> int \<Rightarrow> bool" where
  "root_bits e w p k \<longleftrightarrow>
     (let q = (\<Sum>i\<leftarrow>[1, 2, 3, 4, 5, 6, 7]. if i ^ e \<le> p then 1 else 0); x = q * 2 ^ w + k; m = p * 2 ^ (e * w)
      in x ^ e \<le> m \<and> m < (x + 1) ^ e)"

definition first_primes :: "int list" where
  "first_primes = [2, 3, 5, 7, 11, 13, 17, 19, 23, 29, 31, 37, 41, 43, 47, 53, 59, 61, 67, 71, 73, 79, 83, 89, 97, 101, 103,
     107, 109, 113, 127, 131, 137, 139, 149, 151, 157, 163, 167, 173, 179, 181, 191, 193, 197, 199, 211, 223, 227, 229, 233,
     239, 241, 251, 257, 263, 269, 271, 277, 281, 283, 293, 307, 311, 313, 317, 331, 337, 347, 349, 353, 359, 367, 373, 379,
     383, 389, 397, 401, 409]"

lemma sha256_constants:
  "list_all2 (root_bits 2 32) (take 8 first_primes) (map uint sha256_Initialize)"
  "list_all2 (root_bits 3 32) (take 64 first_primes) (map uint sha256_K)"
  by code_simp+

lemma sha512_constants: "list_all2 (root_bits 2 64) (take 8 first_primes) (map uint sha512_Initialize)"
  by code_simp

subsection \<open>The classes compute the standard\<close>

text \<open>
  C9: However a message is cut into writes, the digest that \<open>Finalize\<close> gives is SHA-256, or SHA-512, of the
  whole message as the standard defines it: the padding with the bit length, the message schedule and the
  rounds; the unrolled compression with its rotated registers and its window of sixteen words
  computes the same. The bound keeps the bit length within 64 bits.
\<close>

theorem CSHA_streams:
  assumes "length (concat ds) < 2 ^ 61"
  shows "CSHA256_Finalize (fold CSHA256_Write ds CSHA256_new) = SHA256 (concat ds) \<and>
    CSHA512_Finalize (fold CSHA512_Write ds CSHA512_new) = SHA512 (concat ds)"
  using sha256c.streams [OF assms] sha512c.streams [OF assms] by (simp add: CSHA256_Finalize_def CSHA512_Finalize_def)

theorem CSHA_streams_witness:
  "CSHA256_Finalize (CSHA256_Write [3] (CSHA256_Write [1, 2] CSHA256_new)) = SHA256 [1, 2, 3] \<and>
   CSHA512_Finalize (CSHA512_Write [3] (CSHA512_Write [1, 2] CSHA512_new)) = SHA512 [1, 2, 3]"
  using CSHA_streams [of "[[1, 2], [3]]"] by simp

end
