(* ===== verification/Digests.thy ===== *)
theory Digests
  imports Hashes
begin

section \<open>RIPEMD-160 and SHA-1\<close>

text \<open>
  The two hash classes with five registers. As for SHA-2 the rounds are unrolled in the source with the
  registers shifted by one place per line; a line is an entry of a table here. The theorems compare
  the compressions with the published ones, whose word order, shifts and register moves are written
  from the specification.
\<close>

subsection \<open>RIPEMD-160\<close>

definition rmd_f1 :: "u32 \<Rightarrow> u32 \<Rightarrow> u32 \<Rightarrow> u32" where "rmd_f1 x y z = x XOR y XOR z"
definition rmd_f2 :: "u32 \<Rightarrow> u32 \<Rightarrow> u32 \<Rightarrow> u32" where "rmd_f2 x y z = (x AND y) OR (NOT x AND z)"
definition rmd_f3 :: "u32 \<Rightarrow> u32 \<Rightarrow> u32 \<Rightarrow> u32" where "rmd_f3 x y z = (x OR NOT y) XOR z"
definition rmd_f4 :: "u32 \<Rightarrow> u32 \<Rightarrow> u32 \<Rightarrow> u32" where "rmd_f4 x y z = (x AND z) OR (y AND NOT z)"
definition rmd_f5 :: "u32 \<Rightarrow> u32 \<Rightarrow> u32 \<Rightarrow> u32" where "rmd_f5 x y z = x XOR (y OR NOT z)"

definition rmd_Initialize :: "u32 list" where
  "rmd_Initialize = [0x67452301, 0xEFCDAB89, 0x98BADCFE, 0x10325476, 0xC3D2E1F0]"

definition rmd_rol :: "u32 \<Rightarrow> nat \<Rightarrow> u32" where
  "rmd_rol x i = push_bit i x OR drop_bit (32 - i) x"

text \<open>Argument \<open>j\<close> of line \<open>i\<close> among the registers \<open>a\<close> to \<open>e\<close>.\<close>

definition reg5 :: "nat \<Rightarrow> nat \<Rightarrow> nat" where
  "reg5 i j = (j + 4 * i) mod 5"

definition rmd_Round :: "nat \<Rightarrow> u32 list \<Rightarrow> (u32 \<Rightarrow> u32 \<Rightarrow> u32 \<Rightarrow> u32) \<Rightarrow> u32 \<Rightarrow> u32 \<Rightarrow> nat \<Rightarrow> u32 list" where
  "rmd_Round i l f x k r =
     (let a = l ! reg5 i 0; b = l ! reg5 i 1; c = l ! reg5 i 2; d = l ! reg5 i 3; e = l ! reg5 i 4
      in l[reg5 i 0 := rmd_rol (a + f b c d + x + k) r + e, reg5 i 2 := rmd_rol c 10])"

text \<open>The functions \<open>R11\<close> to \<open>R51\<close> of the left line and \<open>R12\<close> to \<open>R52\<close> of the right one, by the group of sixteen.\<close>

definition rmd_R1 :: "nat \<Rightarrow> nat \<Rightarrow> u32 list \<Rightarrow> u32 \<Rightarrow> nat \<Rightarrow> u32 list" where
  "rmd_R1 g i l x r =
     (if g = 0 then rmd_Round i l rmd_f1 x 0 r
      else if g = 1 then rmd_Round i l rmd_f2 x 0x5A827999 r
      else if g = 2 then rmd_Round i l rmd_f3 x 0x6ED9EBA1 r
      else if g = 3 then rmd_Round i l rmd_f4 x 0x8F1BBCDC r
      else rmd_Round i l rmd_f5 x 0xA953FD4E r)"

definition rmd_R2 :: "nat \<Rightarrow> nat \<Rightarrow> u32 list \<Rightarrow> u32 \<Rightarrow> nat \<Rightarrow> u32 list" where
  "rmd_R2 g i l x r =
     (if g = 0 then rmd_Round i l rmd_f5 x 0x50A28BE6 r
      else if g = 1 then rmd_Round i l rmd_f4 x 0x5C4DD124 r
      else if g = 2 then rmd_Round i l rmd_f3 x 0x6D703EF3 r
      else if g = 3 then rmd_Round i l rmd_f2 x 0x7A6D76E9 r
      else rmd_Round i l rmd_f1 x 0 r)"

text \<open>The pairs of lines of \<open>Transform\<close>: word and shift on the left, word and shift on the right.\<close>

definition rmd_lines :: "(nat \<times> nat \<times> nat \<times> nat) list" where
  "rmd_lines =
    [(0, 11, 5, 8), (1, 14, 14, 9), (2, 15, 7, 9), (3, 12, 0, 11), (4, 5, 9, 13), (5, 8, 2, 15), (6, 7, 11, 15), (7, 9, 4, 5),
     (8, 11, 13, 7), (9, 13, 6, 7), (10, 14, 15, 8), (11, 15, 8, 11), (12, 6, 1, 14), (13, 7, 10, 14), (14, 9, 3, 12), (15, 8, 12, 6),
     (7, 7, 6, 9), (4, 6, 11, 13), (13, 8, 3, 15), (1, 13, 7, 7), (10, 11, 0, 12), (6, 9, 13, 8), (15, 7, 5, 9), (3, 15, 10, 11),
     (12, 7, 14, 7), (0, 12, 15, 7), (9, 15, 8, 12), (5, 9, 12, 7), (2, 11, 4, 6), (14, 7, 9, 15), (11, 13, 1, 13), (8, 12, 2, 11),
     (3, 11, 15, 9), (10, 13, 5, 7), (14, 6, 1, 15), (4, 7, 3, 11), (9, 14, 7, 8), (15, 9, 14, 6), (8, 13, 6, 6), (1, 15, 9, 14),
     (2, 14, 11, 12), (7, 8, 8, 13), (0, 13, 12, 5), (6, 6, 2, 14), (13, 5, 10, 13), (11, 12, 0, 13), (5, 7, 4, 7), (12, 5, 13, 5),
     (1, 11, 8, 15), (9, 12, 6, 5), (11, 14, 4, 8), (10, 15, 1, 11), (0, 14, 3, 14), (8, 15, 11, 14), (12, 9, 15, 6), (4, 8, 0, 14),
     (13, 9, 5, 6), (3, 14, 12, 9), (7, 5, 2, 12), (15, 6, 13, 9), (14, 8, 9, 12), (5, 6, 7, 5), (6, 5, 10, 15), (2, 12, 14, 8),
     (4, 9, 12, 8), (0, 15, 15, 5), (5, 5, 10, 12), (9, 11, 4, 9), (7, 6, 1, 12), (12, 8, 5, 5), (2, 13, 8, 14), (10, 12, 7, 6),
     (14, 5, 6, 8), (1, 12, 2, 13), (3, 13, 13, 6), (8, 14, 14, 5), (11, 11, 0, 15), (6, 8, 3, 13), (15, 5, 9, 11), (13, 6, 11, 11)]"

fun rmd_rounds :: "(nat \<Rightarrow> u32) \<Rightarrow> nat \<Rightarrow> (nat \<times> nat \<times> nat \<times> nat) list \<Rightarrow> u32 list \<times> u32 list \<Rightarrow> u32 list \<times> u32 list" where
  "rmd_rounds w i [] (l1, l2) = (l1, l2)"
| "rmd_rounds w i ((x1, r1, x2, r2) # lines) (l1, l2) =
     rmd_rounds w (i + 1) lines (rmd_R1 (i div 16) i l1 (w x1) r1, rmd_R2 (i div 16) i l2 (w x2) r2)"

definition rmd_Transform :: "u32 list \<Rightarrow> bytes \<Rightarrow> u32 list" where
  "rmd_Transform s chunk =
     (let (l1, l2) = rmd_rounds (\<lambda>i. ReadLE32 chunk (4 * i)) 0 rmd_lines (s, s)
      in [s ! 1 + l1 ! 2 + l2 ! 3, s ! 2 + l1 ! 3 + l2 ! 4, s ! 3 + l1 ! 4 + l2 ! 0, s ! 4 + l1 ! 0 + l2 ! 1,
          s ! 0 + l1 ! 1 + l2 ! 2])"

definition CRIPEMD160_new :: "32 word hasher" where "CRIPEMD160_new = hasher_init rmd_Initialize 64"
definition CRIPEMD160_Reset :: "32 word hasher \<Rightarrow> 32 word hasher" where "CRIPEMD160_Reset = hasher_Reset rmd_Initialize"
definition CRIPEMD160_Write :: "bytes \<Rightarrow> 32 word hasher \<Rightarrow> 32 word hasher" where "CRIPEMD160_Write = hasher_Write rmd_Transform 64"

definition CRIPEMD160_finish :: "32 word hasher \<Rightarrow> 32 word hasher" where
  "CRIPEMD160_finish = hasher_finish rmd_Transform 64 8 WriteLE64"

definition CRIPEMD160_digest :: "32 word hasher \<Rightarrow> bytes" where
  "CRIPEMD160_digest h = concat (map WriteLE32 (h_s h))"

definition CRIPEMD160_Finalize :: "32 word hasher \<Rightarrow> bytes" where
  "CRIPEMD160_Finalize h = CRIPEMD160_digest (CRIPEMD160_finish h)"

subsection \<open>SHA-1\<close>

definition sha1_f1 :: "u32 \<Rightarrow> u32 \<Rightarrow> u32 \<Rightarrow> u32" where "sha1_f1 b c d = d XOR (b AND (c XOR d))"
definition sha1_f2 :: "u32 \<Rightarrow> u32 \<Rightarrow> u32 \<Rightarrow> u32" where "sha1_f2 b c d = b XOR c XOR d"
definition sha1_f3 :: "u32 \<Rightarrow> u32 \<Rightarrow> u32 \<Rightarrow> u32" where "sha1_f3 b c d = (b AND c) OR (d AND (b OR c))"
definition sha1_left :: "u32 \<Rightarrow> u32" where "sha1_left x = push_bit 1 x OR drop_bit 31 x"

definition sha1_Initialize :: "u32 list" where
  "sha1_Initialize = [0x67452301, 0xEFCDAB89, 0x98BADCFE, 0x10325476, 0xC3D2E1F0]"

definition sha1_k :: "nat \<Rightarrow> u32" where
  "sha1_k g = (if g = 0 then 0x5A827999 else if g = 1 then 0x6ED9EBA1 else if g = 2 then 0x8F1BBCDC else 0xCA62C1D6)"

definition sha1_f :: "nat \<Rightarrow> u32 \<Rightarrow> u32 \<Rightarrow> u32 \<Rightarrow> u32" where
  "sha1_f g = (if g = 0 then sha1_f1 else if g = 2 then sha1_f3 else sha1_f2)"

definition sha1_Round :: "nat \<Rightarrow> u32 list \<Rightarrow> u32 \<Rightarrow> u32 \<Rightarrow> (u32 \<Rightarrow> u32 \<Rightarrow> u32 \<Rightarrow> u32) \<Rightarrow> u32 list" where
  "sha1_Round i r k w f =
     (let a = r ! reg5 i 0; b = r ! reg5 i 1; c = r ! reg5 i 2; d = r ! reg5 i 3; e = r ! reg5 i 4
      in r[reg5 i 4 := e + ((push_bit 5 a OR drop_bit 27 a) + f b c d + k + w), reg5 i 1 := push_bit 30 b OR drop_bit 2 b])"

text \<open>The eighty lines: \<open>n\<close> is the number of those that are left; the last three only compute the new word.\<close>

fun sha1_rounds :: "(nat \<Rightarrow> u32) \<Rightarrow> nat \<Rightarrow> nat \<Rightarrow> u32 list \<times> u32 list \<Rightarrow> u32 list \<times> u32 list" where
  "sha1_rounds inp i 0 (r, w) = (r, w)"
| "sha1_rounds inp i (Suc n) (r, w) =
     (let v = (if i < 16 then inp i
               else sha1_left (w ! (i mod 16) XOR w ! ((i + 13) mod 16) XOR w ! ((i + 8) mod 16) XOR w ! ((i + 2) mod 16)));
          w' = (if 3 \<le> n then w[i mod 16 := v] else w)
      in sha1_rounds inp (i + 1) n (sha1_Round i r (sha1_k (i div 20)) v (sha1_f (i div 20)), w'))"

definition sha1_Transform :: "u32 list \<Rightarrow> bytes \<Rightarrow> u32 list" where
  "sha1_Transform s chunk =
     (let (r, w) = sha1_rounds (\<lambda>i. ReadBE32 chunk (4 * i)) 0 80 (s, replicate 16 0)
      in map2 (+) s r)"

definition CSHA1_new :: "32 word hasher" where "CSHA1_new = hasher_init sha1_Initialize 64"
definition CSHA1_Reset :: "32 word hasher \<Rightarrow> 32 word hasher" where "CSHA1_Reset = hasher_Reset sha1_Initialize"
definition CSHA1_Write :: "bytes \<Rightarrow> 32 word hasher \<Rightarrow> 32 word hasher" where "CSHA1_Write = hasher_Write sha1_Transform 64"

definition CSHA1_finish :: "32 word hasher \<Rightarrow> 32 word hasher" where
  "CSHA1_finish = hasher_finish sha1_Transform 64 8 (\<lambda>n. WriteBE64 (word_of_nat n))"

definition CSHA1_digest :: "32 word hasher \<Rightarrow> bytes" where
  "CSHA1_digest h = concat (map WriteBE32 (h_s h))"

definition CSHA1_Finalize :: "32 word hasher \<Rightarrow> bytes" where
  "CSHA1_Finalize h = CSHA1_digest (CSHA1_finish h)"

subsection \<open>The registers of a line\<close>

definition view5 :: "nat \<Rightarrow> 'a list \<Rightarrow> 'a list" where
  "view5 i r = map (\<lambda>j. r ! reg5 i j) [0..<5]"

lemma upt_5: "[0..<5] = [0, 1, 2, 3, 4]"
  by (simp add: upt_rec)

lemma reg5_mod: "reg5 i j = (j + 4 * (i mod 5)) mod 5"
  unfolding reg5_def by (metis mod_add_right_eq mod_mult_right_eq)

lemma reg5_Suc: "reg5 (Suc i) j = (j + 4 + 4 * (i mod 5)) mod 5"
  using reg5_mod [of i "j + 4"] by (simp add: reg5_def add.assoc)

lemma view5_id: "length r = 5 \<Longrightarrow> n mod 5 = 0 \<Longrightarrow> view5 n r = r"
  by (auto simp: view5_def reg5_mod list_eq_iff_nth_eq)

lemma length_5: "length r = 5 \<longleftrightarrow> (\<exists>a b c d e. r = [a, b, c, d, e])"
  by (auto simp: numeral_eq_Suc length_Suc_conv)

lemma mod_5_cases: "(i::nat) mod 5 \<in> {0, 1, 2, 3, 4}"
proof -
  have "i mod 5 \<in> set [0..<5]" by simp
  then show ?thesis unfolding upt_5 by simp
qed

subsection \<open>The published RIPEMD-160\<close>

definition rmd_rho :: "nat list" where
  "rmd_rho = [7, 4, 13, 1, 10, 6, 15, 3, 12, 0, 9, 5, 2, 14, 11, 8]"

definition rmd_order :: "nat \<Rightarrow> nat \<Rightarrow> nat" where
  "rmd_order g j = ((\<lambda>k. rmd_rho ! k) ^^ g) j"

definition rmd_shift :: "nat \<Rightarrow> nat \<Rightarrow> nat" where
  "rmd_shift g x =
    [[11, 14, 15, 12, 5, 8, 7, 9, 11, 13, 14, 15, 6, 7, 9, 8],
     [12, 13, 11, 15, 6, 9, 9, 7, 12, 15, 11, 13, 7, 8, 7, 7],
     [13, 15, 14, 11, 7, 7, 6, 8, 13, 14, 13, 12, 5, 5, 6, 9],
     [14, 11, 12, 14, 8, 6, 5, 5, 15, 12, 15, 14, 9, 9, 8, 6],
     [15, 12, 13, 13, 9, 5, 8, 6, 14, 11, 12, 11, 8, 6, 5, 5]] ! g ! x"

fun rmd_step :: "(u32 \<Rightarrow> u32 \<Rightarrow> u32 \<Rightarrow> u32) \<Rightarrow> u32 \<Rightarrow> u32 \<Rightarrow> nat \<Rightarrow> u32 list \<Rightarrow> u32 list" where
  "rmd_step f k x s [A, B, C, D, E] = [E, word_rotl s (A + f B C D + x + k) + E, B, word_rotl 10 C, D]"
| "rmd_step f k x s l = l"

definition rmd_left :: "(nat \<Rightarrow> u32) \<Rightarrow> nat \<Rightarrow> u32 list \<Rightarrow> u32 list" where
  "rmd_left X t =
     (let g = t div 16; x = rmd_order g (t mod 16)
      in rmd_step ([rmd_f1, rmd_f2, rmd_f3, rmd_f4, rmd_f5] ! g) ([0, 0x5A827999, 0x6ED9EBA1, 0x8F1BBCDC, 0xA953FD4E] ! g)
           (X x) (rmd_shift g x))"

definition rmd_right :: "(nat \<Rightarrow> u32) \<Rightarrow> nat \<Rightarrow> u32 list \<Rightarrow> u32 list" where
  "rmd_right X t =
     (let g = t div 16; x = rmd_order g ((9 * (t mod 16) + 5) mod 16)
      in rmd_step ([rmd_f5, rmd_f4, rmd_f3, rmd_f2, rmd_f1] ! g) ([0x50A28BE6, 0x5C4DD124, 0x6D703EF3, 0x7A6D76E9, 0] ! g)
           (X x) (rmd_shift g x))"

definition RIPEMD160_block :: "u32 list \<Rightarrow> bytes \<Rightarrow> u32 list" where
  "RIPEMD160_block s b =
     (let X = (\<lambda>i. word_of_nat (le_dec (take 4 (drop (4 * i) b))));
          l = fold (rmd_left X) [0..<80] s; r = fold (rmd_right X) [0..<80] s
      in map (\<lambda>i. s ! ((i + 1) mod 5) + l ! ((i + 2) mod 5) + r ! ((i + 3) mod 5)) [0, 1, 2, 3, 4])"

definition RIPEMD160 :: "bytes \<Rightarrow> bytes" where
  "RIPEMD160 = md_hash RIPEMD160_block 64 8 (le_enc 8) (\<lambda>s. concat (map (\<lambda>w. le_enc 4 (unat w)) s)) rmd_Initialize"

lemma rmd_rol_rotl: "0 < n \<Longrightarrow> n < 32 \<Longrightarrow> rmd_rol x n = word_rotl n x"
  by (rule bit_word_eqI) (auto simp: rmd_rol_def bit_simps bit_word_rotl_iff mod_if add.commute [of 32] dest: bit_imp_le_length)

lemma rmd_Round_view:
  assumes "length l = 5" "0 < r" "r < 32"
  shows "view5 (Suc i) (rmd_Round i l f x k r) = rmd_step f k x r (view5 i l)"
proof -
  obtain a b c d e where l: "l = [a, b, c, d, e]" using assms(1) by (auto simp: length_5)
  show ?thesis using mod_5_cases [of i]
    unfolding view5_def rmd_Round_def upt_5 reg5_Suc unfolding reg5_mod l
    by (elim insertE emptyE) (simp_all add: Let_def rmd_rol_rotl assms(2,3))
qed

text \<open>The table of lines is the published order of words and shifts.\<close>

definition rmd_line :: "nat \<Rightarrow> nat \<times> nat \<times> nat \<times> nat" where
  "rmd_line t = (let g = t div 16; x = rmd_order g (t mod 16); y = rmd_order g ((9 * (t mod 16) + 5) mod 16)
     in (x, rmd_shift g x, y, rmd_shift g y))"

lemma rmd_lines_order: "rmd_lines = map rmd_line [0..<80]"
  by code_simp

lemma rmd_shifts: "list_all (\<lambda>g. list_all (\<lambda>j. rmd_order g j < 16 \<and> 0 < rmd_shift g j \<and> rmd_shift g j < 32) [0..<16]) [0..<5]"
  by code_simp

lemma rmd_shift_ok: "g < 5 \<Longrightarrow> j < 16 \<Longrightarrow> rmd_order g j < 16 \<and> 0 < rmd_shift g j \<and> rmd_shift g j < 32"
  using rmd_shifts by (auto simp: list_all_iff)

lemma less_5_cases: "(g::nat) < 5 \<Longrightarrow> g = 0 \<or> g = 1 \<or> g = 2 \<or> g = 3 \<or> g = 4"
  by linarith

lemma length_rmd_R [simp]: "length (rmd_R1 g i l x r) = length l" "length (rmd_R2 g i l x r) = length l"
  by (simp_all add: rmd_R1_def rmd_R2_def rmd_Round_def Let_def)

lemma rmd_step_left:
  assumes "t < 80" "length l = 5" "rmd_line t = (x1, r1, x2, r2)"
  shows "view5 (Suc t) (rmd_R1 (t div 16) t l (w x1) r1) = rmd_left w t (view5 t l)"
    "view5 (Suc t) (rmd_R2 (t div 16) t l (w x2) r2) = rmd_right w t (view5 t l)"
proof -
  have g: "t div 16 < 5" using assms(1) by (simp add: div_less_iff_less_mult)
  let ?x = "rmd_order (t div 16) (t mod 16)" and ?y = "rmd_order (t div 16) ((9 * (t mod 16) + 5) mod 16)"
  have x: "x1 = ?x" "r1 = rmd_shift (t div 16) ?x" "x2 = ?y" "r2 = rmd_shift (t div 16) ?y"
    using assms(3) by (auto simp: rmd_line_def Let_def)
  have y: "rmd_shift (t div 16) x1 = r1" "rmd_shift (t div 16) x2 = r2" using x by simp_all
  have r: "0 < r1 \<and> r1 < 32" "0 < r2 \<and> r2 < 32"
    unfolding x using rmd_shift_ok [OF g] by simp_all
  show "view5 (Suc t) (rmd_R1 (t div 16) t l (w x1) r1) = rmd_left w t (view5 t l)"
    using less_5_cases [OF g] r(1) unfolding rmd_left_def Let_def x(1) [symmetric] y
    by (auto simp: rmd_R1_def rmd_Round_view assms(2))
  show "view5 (Suc t) (rmd_R2 (t div 16) t l (w x2) r2) = rmd_right w t (view5 t l)"
    using less_5_cases [OF g] r(2) unfolding rmd_right_def Let_def x(3) [symmetric] y
    by (auto simp: rmd_R2_def rmd_Round_view assms(2))
qed

lemma rmd_rounds_spec:
  assumes "i \<le> 80" "length l1 = 5" "length l2 = 5"
  shows "\<exists>m1 m2. rmd_rounds w i (map rmd_line [i..<80]) (l1, l2) = (m1, m2) \<and> length m1 = 5 \<and> length m2 = 5 \<and>
    m1 = fold (rmd_left w) [i..<80] (view5 i l1) \<and> m2 = fold (rmd_right w) [i..<80] (view5 i l2)"
  using assms
proof (induction "80 - i" arbitrary: i l1 l2)
  case 0
  then show ?case using view5_id [of l1 80] view5_id [of l2 80] by simp
next
  case (Suc n)
  obtain x1 r1 x2 r2 where t: "rmd_line i = (x1, r1, x2, r2)" by (metis prod_cases4)
  have i: "i < 80" using Suc.hyps(2) by simp
  have u: "[i..<80] = i # [Suc i..<80]" using i by (rule upt_conv_Cons)
  have "\<exists>m1 m2. rmd_rounds w (Suc i) (map rmd_line [Suc i..<80]) (rmd_R1 (i div 16) i l1 (w x1) r1, rmd_R2 (i div 16) i l2 (w x2) r2) = (m1, m2) \<and>
    length m1 = 5 \<and> length m2 = 5 \<and> m1 = fold (rmd_left w) [Suc i..<80] (view5 (Suc i) (rmd_R1 (i div 16) i l1 (w x1) r1)) \<and>
    m2 = fold (rmd_right w) [Suc i..<80] (view5 (Suc i) (rmd_R2 (i div 16) i l2 (w x2) r2))"
    using Suc.prems i by (intro Suc.hyps(1)) (use Suc.hyps(2) in simp_all)
  then show ?case unfolding u using rmd_step_left [OF i _ t] Suc.prems by (simp add: t del: upt_Suc)
qed

lemma rmd_Transform_block: "length s = 5 \<Longrightarrow> rmd_Transform s b = RIPEMD160_block s b \<and> length (RIPEMD160_block s b) = 5"
proof -
  assume s: "length s = 5"
  obtain m1 m2 where m: "rmd_rounds (\<lambda>i. ReadLE32 b (4 * i)) 0 rmd_lines (s, s) = (m1, m2)"
    "m1 = fold (rmd_left (\<lambda>i. ReadLE32 b (4 * i))) [0..<80] s" "m2 = fold (rmd_right (\<lambda>i. ReadLE32 b (4 * i))) [0..<80] s"
    using rmd_rounds_spec [of 0 s s "\<lambda>i. ReadLE32 b (4 * i)"] s view5_id [OF s, of 0] by (auto simp: rmd_lines_order)
  show ?thesis
    by (simp add: rmd_Transform_def RIPEMD160_block_def m(1) m(2,3) [symmetric, unfolded ReadLE32_def] Let_def mod_if)
      (simp add: numeral_2_eq_2 numeral_3_eq_3)
qed

subsection \<open>The published SHA-1\<close>

fun fips1_W :: "(nat \<Rightarrow> u32) \<Rightarrow> nat \<Rightarrow> u32" where
  "fips1_W M t = (if t < 16 then M t else word_rotl 1 (fips1_W M (t - 3) XOR fips1_W M (t - 8) XOR fips1_W M (t - 14) XOR fips1_W M (t - 16)))"

declare fips1_W.simps [simp del]

definition fips1_f :: "nat \<Rightarrow> u32 \<Rightarrow> u32 \<Rightarrow> u32 \<Rightarrow> u32" where
  "fips1_f t x y z =
     (if t < 20 then fips_Ch x y z else if t < 40 then x XOR y XOR z else if t < 60 then fips_Maj x y z else x XOR y XOR z)"

definition fips1_K :: "nat \<Rightarrow> u32" where
  "fips1_K t = (if t < 20 then 0x5A827999 else if t < 40 then 0x6ED9EBA1 else if t < 60 then 0x8F1BBCDC else 0xCA62C1D6)"

fun fips1_round :: "nat \<Rightarrow> u32 \<Rightarrow> u32 list \<Rightarrow> u32 list" where
  "fips1_round t w [a, b, c, d, e] = [word_rotl 5 a + fips1_f t b c d + e + fips1_K t + w, a, word_rotl 30 b, c, d]"
| "fips1_round t w s = s"

definition SHA1_block :: "u32 list \<Rightarrow> bytes \<Rightarrow> u32 list" where
  "SHA1_block s b =
     map2 (+) s (fold (\<lambda>t. fips1_round t (fips1_W (\<lambda>i. word_of_nat (be_dec (take 4 (drop (4 * i) b)))) t)) [0..<80] s)"

definition SHA1 :: "bytes \<Rightarrow> bytes" where
  "SHA1 = md_hash SHA1_block 64 8 (be_enc 8) (\<lambda>s. concat (map (\<lambda>w. be_enc 4 (unat w)) s)) sha1_Initialize"

lemma rotl_or: "0 < n \<Longrightarrow> n < 32 \<Longrightarrow> m = 32 - n \<Longrightarrow> push_bit n x OR drop_bit m x = word_rotl n x" for x :: u32
  using rmd_rol_rotl [of n x] by (simp add: rmd_rol_def)

lemma sha1_left_rotl: "sha1_left x = word_rotl 1 x"
  unfolding sha1_left_def by (rule rotl_or) simp_all

lemma sha1_f_fips: "t < 80 \<Longrightarrow> sha1_f (t div 20) = fips1_f t"
proof -
  assume "t < 80"
  then have d: "t div 20 = (if t < 20 then 0 else if t < 40 then 1 else if t < 60 then 2 else 3)"
    by (auto intro: div_nat_eqI)
  have 1: "sha1_f1 x y z = fips_Ch x y z" for x y z
    by (rule bit_word_eqI) (auto simp: sha1_f1_def fips_Ch_def bit_simps)
  have 3: "sha1_f3 x y z = fips_Maj x y z" for x y z
    by (rule bit_word_eqI) (auto simp: sha1_f3_def fips_Maj_def bit_simps)
  show ?thesis by (auto simp: d sha1_f_def fips1_f_def fun_eq_iff 1 3 sha1_f2_def)
qed

lemma sha1_k_fips: "t < 80 \<Longrightarrow> sha1_k (t div 20) = fips1_K t"
proof -
  assume "t < 80"
  then have d: "t div 20 = (if t < 20 then 0 else if t < 40 then 1 else if t < 60 then 2 else 3)"
    by (auto intro: div_nat_eqI)
  show ?thesis by (auto simp: d sha1_k_def fips1_K_def)
qed

lemma sha1_Round_view:
  assumes "length r = 5" "i < 80"
  shows "view5 (Suc i) (sha1_Round i r (sha1_k (i div 20)) w (sha1_f (i div 20))) = fips1_round i w (view5 i r)"
proof -
  obtain a b c d e where r: "r = [a, b, c, d, e]" using assms(1) by (auto simp: length_5)
  show ?thesis using mod_5_cases [of i]
    unfolding view5_def sha1_Round_def upt_5 reg5_Suc sha1_k_fips [OF assms(2)] sha1_f_fips [OF assms(2)] unfolding reg5_mod r
    by (elim insertE emptyE) (simp_all add: Let_def rotl_or)
qed

definition window1_ok :: "(nat \<Rightarrow> u32) \<Rightarrow> nat \<Rightarrow> u32 list \<Rightarrow> bool" where
  "window1_ok M i w \<longleftrightarrow> length w = 16 \<and> (\<forall>j<i. i \<le> j + 16 \<longrightarrow> j < 77 \<longrightarrow> w ! (j mod 16) = fips1_W M j)"

definition sha1_word :: "u32 list \<Rightarrow> nat \<Rightarrow> u32" where
  "sha1_word w i = sha1_left (w ! (i mod 16) XOR w ! ((i + 13) mod 16) XOR w ! ((i + 8) mod 16) XOR w ! ((i + 2) mod 16))"

lemma window1_word:
  assumes "window1_ok M i w" "16 \<le> i" "i < 80"
  shows "sha1_word w i = fips1_W M i"
proof -
  have e: "w ! ((i - d) mod 16) = fips1_W M (i - d)" if "d \<le> 16" "3 \<le> d" for d
    using assms that by (auto simp: window1_ok_def)
  have m: "i mod 16 = (i - 16) mod 16" "(i + 13) mod 16 = (i - 3) mod 16" "(i + 8) mod 16 = (i - 8) mod 16"
    "(i + 2) mod 16 = (i - 14) mod 16"
  proof -
    obtain t where t: "i = t + 16" using assms(2) by (metis le_add_diff_inverse2)
    show "i mod 16 = (i - 16) mod 16" "(i + 13) mod 16 = (i - 3) mod 16" "(i + 8) mod 16 = (i - 8) mod 16"
      "(i + 2) mod 16 = (i - 14) mod 16"
      using mod_add_self2 [of t 16] mod_add_self2 [of "13 + t" 16] mod_add_self2 [of "8 + t" 16] mod_add_self2 [of "t + 2" 16]
      by (simp_all add: t)
  qed
  have "fips1_W M i = word_rotl 1 (fips1_W M (i - 3) XOR fips1_W M (i - 8) XOR fips1_W M (i - 14) XOR fips1_W M (i - 16))"
    using assms(2) by (subst fips1_W.simps) simp
  then show ?thesis
    unfolding sha1_word_def m e [of 3, simplified] e [of 8, simplified] e [of 14, simplified] e [of 16, simplified] sha1_left_rotl
    by (simp only: ac_simps)
qed

lemma window1_step:
  assumes "window1_ok M i w" "v = fips1_W M i"
  shows "window1_ok M (Suc i) (if i < 77 then w[i mod 16 := v] else w)"
proof -
  have "w[i mod 16 := v] ! (j mod 16) = fips1_W M j" if "j < Suc i" "Suc i \<le> j + 16" "j < 77" for j
  proof (cases "j = i")
    case True
    then show ?thesis using assms by (simp add: window1_ok_def)
  next
    case False
    have "\<not> 16 dvd i - j" using False that by (auto dest: dvd_imp_le)
    then have "i mod 16 \<noteq> j mod 16" using False that by (simp add: mod_eq_dvd_iff_nat)
    then show ?thesis using False that assms(1) by (simp add: window1_ok_def)
  qed
  moreover have "w ! (j mod 16) = fips1_W M j" if "j < Suc i" "Suc i \<le> j + 16" "j < 77" "\<not> i < 77" for j
    using that assms(1) by (simp add: window1_ok_def)
  ultimately show ?thesis using assms(1) by (simp add: window1_ok_def)
qed

lemma sha1_rounds_spec:
  assumes "i \<le> 80" "length r = 5" "window1_ok M i w"
  shows "length (fst (sha1_rounds M i (80 - i) (r, w))) = 5 \<and>
    fst (sha1_rounds M i (80 - i) (r, w)) = fold (\<lambda>t. fips1_round t (fips1_W M t)) [i..<80] (view5 i r)"
  using assms
proof (induction "80 - i" arbitrary: i r w)
  case 0
  then show ?case using view5_id [of r 80] by simp
next
  case (Suc n)
  have i: "i < 80" "80 - i = Suc (80 - Suc i)" using Suc.hyps(2) by simp_all
  define v where "v = (if i < 16 then M i else sha1_word w i)"
  have v: "v = fips1_W M i"
  proof (cases "i < 16")
    case True
    then show ?thesis by (subst fips1_W.simps) (simp add: v_def)
  next
    case False
    then show ?thesis using window1_word [OF Suc.prems(3) _ i(1)] by (simp add: v_def)
  qed
  define w' where "w' = (if i < 77 then w[i mod 16 := v] else w)"
  have c: "3 \<le> 80 - Suc i \<longleftrightarrow> i < 77" by linarith
  define r' where "r' = sha1_Round i r (sha1_k (i div 20)) v (sha1_f (i div 20))"
  have r': "view5 (Suc i) r' = fips1_round i (fips1_W M i) (view5 i r)" "length r' = 5"
    using sha1_Round_view [OF Suc.prems(2) i(1), of v] Suc.prems(2) by (simp_all add: r'_def v sha1_Round_def Let_def)
  have eq: "sha1_rounds M i (Suc (80 - Suc i)) (r, w) = sha1_rounds M (Suc i) (80 - Suc i) (r', w')"
    using c by (simp add: v_def w'_def r'_def sha1_word_def Let_def del: diff_Suc)
  have u: "[i..<80] = i # [Suc i..<80]" using i(1) by (rule upt_conv_Cons)
  show ?case using Suc.hyps(1) [of "Suc i" r' w'] Suc.hyps(2) i r' window1_step [OF Suc.prems(3) v]
    unfolding u i(2) eq by (auto simp: w'_def simp del: upt_Suc)
qed

lemma sha1_Transform_block: "length s = 5 \<Longrightarrow> sha1_Transform s b = SHA1_block s b \<and> length (SHA1_block s b) = 5"
  using sha1_rounds_spec [of 0 s "\<lambda>i. ReadBE32 b (4 * i)" "replicate 16 0"] view5_id [of s 0]
  by (auto simp: sha1_Transform_def SHA1_block_def case_prod_unfold window1_ok_def ReadBE32_def)

subsection \<open>The classes compute the published functions\<close>

lemmas rmd_chain = chain_cong [of 5 rmd_Transform RIPEMD160_block, OF rmd_Transform_block]
  and sha1_chain = chain_cong [of 5 sha1_Transform SHA1_block, OF sha1_Transform_block]

lemma five_lengths [simp]: "length rmd_Initialize = 5" "length sha1_Initialize = 5"
  by (simp_all add: rmd_Initialize_def sha1_Initialize_def)

lemma RIPEMD160_hasher:
  assumes "length m < 2 ^ 61"
  shows "RIPEMD160 m = concat (map WriteLE32 (chain_blocks rmd_Transform 64 rmd_Initialize (md_pad 64 8 WriteLE64 m)))"
proof -
  have "WriteLE64 = le_enc 8" "WriteLE32 = (\<lambda>w. le_enc 4 (unat w))" by (simp_all add: fun_eq_iff WriteLE64_def WriteLE32_def)
  then show ?thesis unfolding RIPEMD160_def md_hash_def by (simp only: rmd_chain five_lengths)
qed

lemma SHA1_hasher:
  assumes "length m < 2 ^ 61"
  shows "SHA1 m = concat (map WriteBE32 (chain_blocks sha1_Transform 64 sha1_Initialize (md_pad 64 8 (\<lambda>n. WriteBE64 (word_of_nat n)) m)))"
proof -
  have p: "md_pad 64 8 (\<lambda>n. WriteBE64 (word_of_nat n)) m = md_pad 64 8 (be_enc 8) m"
    using assms by (intro md_pad_cong WriteBE64_nat) simp
  show ?thesis unfolding p unfolding SHA1_def md_hash_def WriteBE_words by (simp only: sha1_chain five_lengths)
qed

lemma length_words_le: "length (concat (map (\<lambda>w. le_enc k (f w)) s)) = k * length s"
  by (induction s) auto

interpretation ripemdc: hash_class CRIPEMD160_new CRIPEMD160_Write CRIPEMD160_finish CRIPEMD160_digest CRIPEMD160_Reset
    "holds rmd_Transform 64 rmd_Initialize" RIPEMD160 20
proof
  fix h m d
  let ?h = "holds rmd_Transform 64 rmd_Initialize"
  show "?h CRIPEMD160_new []" by (simp add: CRIPEMD160_new_def holds_init)
  show "?h h m \<Longrightarrow> length m + length d < 2 ^ 61 \<Longrightarrow> ?h (CRIPEMD160_Write d h) (m @ d)"
    by (simp add: CRIPEMD160_Write_def hasher_Write_holds)
  assume h: "?h h m" "length m < 2 ^ 61"
  have f: "?h (CRIPEMD160_finish h) (md_pad 64 8 WriteLE64 m)"
    unfolding CRIPEMD160_finish_def using h by (intro hasher_finish_holds) (simp_all add: WriteLE64_def)
  then show "CRIPEMD160_digest (CRIPEMD160_finish h) = RIPEMD160 m"
    using RIPEMD160_hasher [OF h(2)] by (simp add: holds_def CRIPEMD160_digest_def)
  show "?h (CRIPEMD160_Reset (CRIPEMD160_finish h)) []"
    using holds_buf [OF f] by (simp add: CRIPEMD160_Reset_def holds_Reset)
qed (simp add: RIPEMD160_def md_hash_def length_words_le rmd_chain)

interpretation sha1c: hash_class CSHA1_new CSHA1_Write CSHA1_finish CSHA1_digest CSHA1_Reset
    "holds sha1_Transform 64 sha1_Initialize" SHA1 20
proof
  fix h m d
  let ?h = "holds sha1_Transform 64 sha1_Initialize"
  have e: "length (WriteBE64 (word_of_nat n)) = 8" for n by (simp add: WriteBE64_def)
  show "?h CSHA1_new []" by (simp add: CSHA1_new_def holds_init)
  show "?h h m \<Longrightarrow> length m + length d < 2 ^ 61 \<Longrightarrow> ?h (CSHA1_Write d h) (m @ d)"
    by (simp add: CSHA1_Write_def hasher_Write_holds)
  assume h: "?h h m" "length m < 2 ^ 61"
  have f: "?h (CSHA1_finish h) (md_pad 64 8 (\<lambda>n. WriteBE64 (word_of_nat n)) m)"
    unfolding CSHA1_finish_def using h e by (intro hasher_finish_holds) simp_all
  then show "CSHA1_digest (CSHA1_finish h) = SHA1 m"
    using SHA1_hasher [OF h(2)] by (simp add: holds_def CSHA1_digest_def)
  show "?h (CSHA1_Reset (CSHA1_finish h)) []"
    using holds_buf [OF f] by (simp add: CSHA1_Reset_def holds_Reset)
qed (simp add: SHA1_def md_hash_def length_words sha1_chain)

text \<open>
  C19: RIPEMD-160 and SHA-1 objects compute the published functions of the whole message, however it is
  cut into writes: the two lines of RIPEMD-160 take their words in the order of the permutations \<open>rho\<close> and
  \<open>9 i + 5\<close> and their shifts by round and word.
\<close>

theorem CRIPEMD160_CSHA1_streams:
  assumes "length (concat ds) < 2 ^ 61"
  shows "CRIPEMD160_Finalize (fold CRIPEMD160_Write ds CRIPEMD160_new) = RIPEMD160 (concat ds) \<and>
    CSHA1_Finalize (fold CSHA1_Write ds CSHA1_new) = SHA1 (concat ds)"
  using ripemdc.streams [OF assms] sha1c.streams [OF assms] by (simp add: CRIPEMD160_Finalize_def CSHA1_Finalize_def)

theorem CRIPEMD160_CSHA1_streams_witness:
  "CRIPEMD160_Finalize (CRIPEMD160_Write [3] (CRIPEMD160_Write [1, 2] CRIPEMD160_new)) = RIPEMD160 [1, 2, 3] \<and>
   CSHA1_Finalize (CSHA1_Write [3] (CSHA1_Write [1, 2] CSHA1_new)) = SHA1 [1, 2, 3]"
  using CRIPEMD160_CSHA1_streams [of "[[1, 2], [3]]"] by simp

end
