(* ===== verification/HashUses.thy ===== *)
theory HashUses
  imports Digests Base_Uint
begin

section \<open>What is built on the hash classes\<close>

text \<open>
  The double hash \<open>CHash256\<close> and the script hash \<open>CHash160\<close>, the hash writer, HMAC, the deterministic
  nonce generator of RFC 6979, the key derivation hash of BIP 32, MurmurHash3 for Bloom filters, and the
  chain \<open>XEVAN\<close> of 34 hashes that identifies old blocks; its links are third-party C, a parameter. Each
  object is proved from the contract \<open>hash_class\<close> alone.
\<close>

subsection \<open>CHash256 and CHash160\<close>

text \<open>\<open>CHash256\<close> wraps a \<open>CSHA256\<close>; its \<open>Finalize\<close> hashes the first digest with the same object.\<close>

definition CHash256_finish :: "32 word hasher \<Rightarrow> 32 word hasher" where
  "CHash256_finish sha =
     (let sha1 = CSHA256_finish sha; buf = CSHA256_digest sha1
      in CSHA256_finish (CSHA256_Write buf (CSHA256_Reset sha1)))"

definition CHash256_Finalize :: "32 word hasher \<Rightarrow> bytes" where
  "CHash256_Finalize sha = CSHA256_digest (CHash256_finish sha)"

definition CHash256_Write :: "bytes \<Rightarrow> 32 word hasher \<Rightarrow> 32 word hasher" where "CHash256_Write = CSHA256_Write"
definition CHash256_Reset :: "32 word hasher \<Rightarrow> 32 word hasher" where "CHash256_Reset = CSHA256_Reset"

definition CHash160_Finalize :: "32 word hasher \<Rightarrow> bytes" where
  "CHash160_Finalize sha =
     (let buf = CSHA256_Finalize sha in CRIPEMD160_Finalize (CRIPEMD160_Write buf CRIPEMD160_new))"

definition CHash160_Write :: "bytes \<Rightarrow> 32 word hasher \<Rightarrow> 32 word hasher" where "CHash160_Write = CSHA256_Write"

text \<open>The templates that hash one to six ranges of bytes; \<open>uint256\<close> takes the digest as its memory.\<close>

definition uint256_of :: "bytes \<Rightarrow> uint256" where
  "uint256_of bs = word_of_nat (le_dec bs)"

definition Hash_ranges :: "bytes list \<Rightarrow> uint256" where
  "Hash_ranges ranges = uint256_of (CHash256_Finalize (fold CHash256_Write ranges CSHA256_new))"

definition Hash160_bytes :: "bytes \<Rightarrow> uint160" where
  "Hash160_bytes vch = word_of_nat (le_dec (CHash160_Finalize (CHash160_Write vch CSHA256_new)))"

text \<open>\<open>CHashWriter\<close>, to which the pieces of a serialization are written one by one.\<close>

record CHashWriter =
  hw_ctx :: "32 word hasher"
  hw_nType :: int
  hw_nVersion :: int

definition CHashWriter_new :: "int \<Rightarrow> int \<Rightarrow> CHashWriter" where
  "CHashWriter_new t v = \<lparr>hw_ctx = CSHA256_new, hw_nType = t, hw_nVersion = v\<rparr>"

definition hw_write :: "bytes \<Rightarrow> CHashWriter \<Rightarrow> CHashWriter" where
  "hw_write pch w = w\<lparr>hw_ctx := CHash256_Write pch (hw_ctx w)\<rparr>"

definition hw_GetHash :: "CHashWriter \<Rightarrow> uint256" where
  "hw_GetHash w = uint256_of (CHash256_Finalize (hw_ctx w))"

definition SerializeHash :: "bytes list \<Rightarrow> int \<Rightarrow> int \<Rightarrow> uint256" where
  "SerializeHash pieces t v = hw_GetHash (fold hw_write pieces (CHashWriter_new t v))"

text \<open>Hashing twice with one object keeps the contract of a hash class.\<close>

locale double_hash = hash_class +
  assumes size_bound: "dsize < 2 ^ 61"
begin

lemma twice_contents:
  assumes "contents h m" "length m < 2 ^ 61"
  shows "contents (put (digest (finish h)) (reset (finish h))) (hash m)"
  using put [OF reset [OF assms], of "hash m"] final [OF assms] length_hash [of m] size_bound by simp

end

sublocale double_hash \<subseteq> twice: hash_class new put "\<lambda>h. finish (put (digest (finish h)) (reset (finish h)))" digest reset contents
    "\<lambda>m. hash (hash m)" dsize
proof
  fix h m d
  show "contents new []" by (rule new)
  show "contents h m \<Longrightarrow> length m + length d < 2 ^ 61 \<Longrightarrow> contents (put d h) (m @ d)" by (rule put)
  assume h: "contents h m" "length m < 2 ^ 61"
  have l: "length (hash m) < 2 ^ 61" using length_hash size_bound by simp
  show "digest (finish (put (digest (finish h)) (reset (finish h)))) = hash (hash m)"
    by (rule final [OF twice_contents [OF h] l])
  show "contents (reset (finish (put (digest (finish h)) (reset (finish h))))) []"
    by (rule reset [OF twice_contents [OF h] l])
qed (rule length_hash)

interpretation hash256c: double_hash CSHA256_new CSHA256_Write CSHA256_finish CSHA256_digest CSHA256_Reset
    "holds sha256_Transform 64 sha256_Initialize" SHA256 32
  by unfold_locales simp

lemma CHash256_finish_twice: "CHash256_finish = (\<lambda>h. CSHA256_finish (CSHA256_Write (CSHA256_digest (CSHA256_finish h)) (CSHA256_Reset (CSHA256_finish h))))"
  by (simp add: fun_eq_iff CHash256_finish_def Let_def)

lemma CHash256_streams:
  "length (concat ds) < 2 ^ 61 \<Longrightarrow> CHash256_Finalize (fold CHash256_Write ds CSHA256_new) = SHA256 (SHA256 (concat ds))"
  using hash256c.twice.streams [of ds] by (simp add: CHash256_Finalize_def CHash256_finish_twice CHash256_Write_def)

lemma CHash160_one_shot:
  "length m < 2 ^ 61 \<Longrightarrow> CHash160_Finalize (CHash160_Write m CSHA256_new) = RIPEMD160 (SHA256 m)"
  using sha256c.one_shot [of m] ripemdc.one_shot [of "SHA256 m"]
  by (simp add: CHash160_Finalize_def CHash160_Write_def CSHA256_Finalize_def CRIPEMD160_Finalize_def sha256c.length_hash)

lemma fold_hw_write: "hw_ctx (fold hw_write ps w) = fold CHash256_Write ps (hw_ctx w)"
  by (induction ps arbitrary: w) (simp_all add: hw_write_def)

subsection \<open>HMAC\<close>

text \<open>The two classes differ in the sizes of the block and of the digest.\<close>

record 'h hmac =
  hm_outer :: 'h
  hm_inner :: 'h

definition hmac_rkey :: "nat \<Rightarrow> nat \<Rightarrow> (bytes \<Rightarrow> bytes) \<Rightarrow> bytes \<Rightarrow> bytes" where
  "hmac_rkey blk dsize hash key =
     (if length key \<le> blk then key @ replicate (blk - length key) 0 else hash key @ replicate (blk - dsize) 0)"

definition hmac_new :: "(bytes \<Rightarrow> 'h \<Rightarrow> 'h) \<Rightarrow> 'h \<Rightarrow> bytes \<Rightarrow> 'h hmac" where
  "hmac_new put new rkey =
     (let rkey1 = map (\<lambda>b. b XOR 0x5c) rkey; rkey2 = map (\<lambda>b. b XOR (0x5c XOR 0x36)) rkey1
      in \<lparr>hm_outer = put rkey1 new, hm_inner = put rkey2 new\<rparr>)"

definition CHMAC_SHA256_new :: "bytes \<Rightarrow> 32 word hasher hmac" where
  "CHMAC_SHA256_new key =
     hmac_new CSHA256_Write CSHA256_new (hmac_rkey 64 32 (\<lambda>k. CSHA256_Finalize (CSHA256_Write k CSHA256_new)) key)"

definition CHMAC_SHA256_Write :: "bytes \<Rightarrow> 32 word hasher hmac \<Rightarrow> 32 word hasher hmac" where
  "CHMAC_SHA256_Write data h = h\<lparr>hm_inner := CSHA256_Write data (hm_inner h)\<rparr>"

definition CHMAC_SHA256_Finalize :: "32 word hasher hmac \<Rightarrow> bytes" where
  "CHMAC_SHA256_Finalize h = (let temp = CSHA256_Finalize (hm_inner h) in CSHA256_Finalize (CSHA256_Write temp (hm_outer h)))"

definition CHMAC_SHA512_new :: "bytes \<Rightarrow> 64 word hasher hmac" where
  "CHMAC_SHA512_new key =
     hmac_new CSHA512_Write CSHA512_new (hmac_rkey 128 64 (\<lambda>k. CSHA512_Finalize (CSHA512_Write k CSHA512_new)) key)"

definition CHMAC_SHA512_Write :: "bytes \<Rightarrow> 64 word hasher hmac \<Rightarrow> 64 word hasher hmac" where
  "CHMAC_SHA512_Write data h = h\<lparr>hm_inner := CSHA512_Write data (hm_inner h)\<rparr>"

definition CHMAC_SHA512_Finalize :: "64 word hasher hmac \<Rightarrow> bytes" where
  "CHMAC_SHA512_Finalize h = (let temp = CSHA512_Finalize (hm_inner h) in CSHA512_Finalize (CSHA512_Write temp (hm_outer h)))"

text \<open>HMAC as RFC 2104 defines it over any hash function.\<close>

definition HMAC :: "(bytes \<Rightarrow> bytes) \<Rightarrow> nat \<Rightarrow> bytes \<Rightarrow> bytes \<Rightarrow> bytes" where
  "HMAC hash blk key m =
     (let k = (if blk < length key then hash key else key); k0 = k @ replicate (blk - length k) 0
      in hash (map (\<lambda>b. b XOR 0x5c) k0 @ hash (map (\<lambda>b. b XOR 0x36) k0 @ m)))"

locale hmac_class = hash_class +
  fixes blk :: nat
  assumes block: "dsize \<le> blk" "blk \<le> 2 ^ 16"
begin

lemma hmac_streams:
  assumes "length key < 2 ^ 61" "length (concat ds) < 2 ^ 60"
  shows "let h = hmac_new put new (hmac_rkey blk dsize (\<lambda>k. digest (finish (put k new))) key)
    in digest (finish (put (digest (finish (fold put ds (hm_inner h)))) (hm_outer h))) = HMAC hash blk key (concat ds)"
proof -
  define k0 where "k0 = hmac_rkey blk dsize (\<lambda>k. digest (finish (put k new))) key"
  have k0: "k0 = (if blk < length key then hash key else key) @ replicate (blk - length (if blk < length key then hash key else key)) 0"
    using one_shot [OF assms(1)] length_hash by (auto simp: k0_def hmac_rkey_def)
  have len: "length k0 = blk" using block(1) length_hash by (simp add: k0)
  have x: "map (\<lambda>b. b XOR (0x5c XOR 0x36)) (map (\<lambda>b. b XOR 0x5c) k0) = map (\<lambda>b. b XOR 0x36) k0"
    by (simp add: comp_def xor.assoc [symmetric]) (simp add: xor.assoc)
  have l: "length (map (\<lambda>b. b XOR 0x36) k0) + length (concat ds) < 2 ^ 61" using assms(2) block(2) len by simp
  have i: "digest (finish (fold put ds (put (map (\<lambda>b. b XOR 0x36) k0) new))) = hash (map (\<lambda>b. b XOR 0x36) k0 @ concat ds)"
    using streams [of "map (\<lambda>b. b XOR 0x36) k0 # ds"] l by simp
  have o: "digest (finish (put d (put (map (\<lambda>b. b XOR 0x5c) k0) new))) = hash (map (\<lambda>b. b XOR 0x5c) k0 @ d)"
    if "length d = dsize" for d
    using streams [of "[map (\<lambda>b. b XOR 0x5c) k0, d]"] that block len by simp
  have h: "HMAC hash blk key m = hash (map (\<lambda>b. b XOR 0x5c) k0 @ hash (map (\<lambda>b. b XOR 0x36) k0 @ m))" for m
    by (simp only: HMAC_def Let_def k0 [symmetric])
  show ?thesis
    unfolding k0_def [symmetric] hmac_new_def Let_def x
    by (simp add: i o length_hash h)
qed

end

interpretation hmac256c: hmac_class CSHA256_new CSHA256_Write CSHA256_finish CSHA256_digest CSHA256_Reset
    "holds sha256_Transform 64 sha256_Initialize" SHA256 32 64
  by unfold_locales simp_all

interpretation hmac512c: hmac_class CSHA512_new CSHA512_Write CSHA512_finish CSHA512_digest CSHA512_Reset
    "holds sha512_Transform 128 sha512_Initialize" SHA512 64 128
  by unfold_locales simp_all

lemma CHMAC_inner:
  "hm_inner (fold CHMAC_SHA256_Write ds h) = fold CSHA256_Write ds (hm_inner h)" "hm_outer (fold CHMAC_SHA256_Write ds h) = hm_outer h"
  by (induction ds arbitrary: h) (simp_all add: CHMAC_SHA256_Write_def)

lemma CHMAC512_inner:
  "hm_inner (fold CHMAC_SHA512_Write ds h) = fold CSHA512_Write ds (hm_inner h)" "hm_outer (fold CHMAC_SHA512_Write ds h) = hm_outer h"
  by (induction ds arbitrary: h) (simp_all add: CHMAC_SHA512_Write_def)

subsection \<open>Deterministic nonces and derived keys\<close>

record RFC6979_HMAC_SHA256 =
  rfc_V :: bytes
  rfc_K :: bytes
  rfc_retry :: bool

definition hmac256 :: "bytes \<Rightarrow> bytes list \<Rightarrow> bytes" where
  "hmac256 key ds = CHMAC_SHA256_Finalize (fold CHMAC_SHA256_Write ds (CHMAC_SHA256_new key))"

definition RFC6979_new :: "bytes \<Rightarrow> bytes \<Rightarrow> RFC6979_HMAC_SHA256" where
  "RFC6979_new key msg =
     (let V = replicate 32 1; K = replicate 32 0;
          K1 = hmac256 K [V, [0], key, msg]; V1 = hmac256 K1 [V];
          K2 = hmac256 K1 [V1, [1], key, msg]; V2 = hmac256 K2 [V1]
      in \<lparr>rfc_V = V2, rfc_K = K2, rfc_retry = False\<rparr>)"

text \<open>The loop that fills the output; \<open>V\<close> has 32 bytes, at least one of which is used in a turn.\<close>

function generate_loop :: "bytes \<Rightarrow> bytes \<Rightarrow> nat \<Rightarrow> bytes \<times> bytes" where
  "generate_loop K V outputlen =
     (if outputlen = 0 then ([], V)
      else let V' = hmac256 K [V]; len = min outputlen 32;
               (rest, V'') = generate_loop K V' (outputlen - len)
           in (take len V' @ rest, V''))"
  by pat_completeness auto
termination
  by (relation "measure (\<lambda>(K, V, n). n)") auto

declare generate_loop.simps [simp del]

definition RFC6979_Generate :: "nat \<Rightarrow> RFC6979_HMAC_SHA256 \<Rightarrow> bytes \<times> RFC6979_HMAC_SHA256" where
  "RFC6979_Generate outputlen g =
     (let (K, V) = (if rfc_retry g
                    then let K1 = hmac256 (rfc_K g) [rfc_V g, [0]] in (K1, hmac256 K1 [rfc_V g])
                    else (rfc_K g, rfc_V g));
          (output, V') = generate_loop K V outputlen
      in (output, \<lparr>rfc_V = V', rfc_K = K, rfc_retry = True\<rparr>))"

definition BIP32Hash :: "uint256 \<Rightarrow> u32 \<Rightarrow> byte \<Rightarrow> bytes \<Rightarrow> bytes" where
  "BIP32Hash chainCode nChild header data =
     (let num = [ucast (drop_bit 24 nChild AND 0xFF), ucast (drop_bit 16 nChild AND 0xFF),
                 ucast (drop_bit 8 nChild AND 0xFF), ucast (nChild AND 0xFF)]
      in CHMAC_SHA512_Finalize (fold CHMAC_SHA512_Write [[header], data, num] (CHMAC_SHA512_new (le_enc 32 (unat chainCode)))))"

subsection \<open>MurmurHash3\<close>

definition ROTL32 :: "u32 \<Rightarrow> nat \<Rightarrow> u32" where
  "ROTL32 x r = push_bit r x OR drop_bit (32 - r) x"

definition murmur_k :: "u32 \<Rightarrow> u32" where
  "murmur_k k = ROTL32 (k * 0xcc9e2d51) 15 * 0x1b873593"

fun murmur_body :: "bytes \<Rightarrow> u32 \<Rightarrow> u32" where
  "murmur_body (a # b # c # d # rest) h =
     murmur_body rest (ROTL32 (h XOR murmur_k (word_of_nat (le_dec [a, b, c, d]))) 13 * 5 + 0xe6546b64)"
| "murmur_body _ h = h"

definition murmur_tail :: "bytes \<Rightarrow> u32 \<Rightarrow> u32" where
  "murmur_tail tail h =
     (if tail = [] then h
      else h XOR murmur_k ((if 3 \<le> length tail then push_bit 16 (ucast (tail ! 2)) else 0) XOR
        (if 2 \<le> length tail then push_bit 8 (ucast (tail ! 1)) else 0) XOR ucast (tail ! 0)))"

definition murmur_final :: "u32 \<Rightarrow> u32" where
  "murmur_final h =
     (let h1 = (h XOR drop_bit 16 h) * 0x85ebca6b; h2 = (h1 XOR drop_bit 13 h1) * 0xc2b2ae35
      in h2 XOR drop_bit 16 h2)"

definition MurmurHash3 :: "u32 \<Rightarrow> bytes \<Rightarrow> u32" where
  "MurmurHash3 nHashSeed v =
     (let h1 = (if v = [] then nHashSeed else murmur_tail (drop (length v div 4 * 4) v) (murmur_body v nHashSeed))
      in murmur_final (h1 XOR word_of_nat (length v)))"

subsection \<open>XEVAN\<close>

text \<open>
  The seventeen hashes of sphlib with their places in the chain. They are applied twice over, to an array
  of 34 values of 64 bytes that starts as zeros: each hashes the 128 bytes from the value before, so
  its input ends with the bytes of a value that is still zero. The last hash of a round gives 32 bytes.
\<close>

datatype sph =
  Blake | Bmw | Groestl | Skein | Jh | Keccak | Luffa | Cubehash | Shavite | Simd | Echo | Hamsi | Fugue | Shabal | Whirlpool
  | Sha512 | Haval

definition xevan_part :: "sph list" where
  "xevan_part = [Blake, Bmw, Groestl, Skein, Jh, Keccak, Luffa, Cubehash, Shavite, Simd, Echo, Hamsi, Fugue, Shabal, Whirlpool,
     Sha512, Haval]"

fun xevan_steps :: "(sph \<Rightarrow> bytes \<Rightarrow> bytes) \<Rightarrow> nat \<Rightarrow> sph list \<Rightarrow> bytes \<Rightarrow> bytes" where
  "xevan_steps sph i [] hash = hash"
| "xevan_steps sph i (f # fs) hash =
     xevan_steps sph (i + 1) fs (memcpy hash (64 * (i + 1)) (sph f (take 128 (drop (64 * i) hash))))"

definition XEVAN :: "(sph \<Rightarrow> bytes \<Rightarrow> bytes) \<Rightarrow> bytes \<Rightarrow> uint256" where
  "XEVAN sph data =
     (let hash = memcpy (replicate (34 * 64) 0) 0 (sph Blake data)
      in uint256_of (take 32 (drop (33 * 64) (xevan_steps sph 0 (tl xevan_part @ xevan_part) hash))))"

text \<open>As a chain: every link hashes the digest before it, filled up with zeros to 128 bytes.\<close>

definition xevan_link :: "(sph \<Rightarrow> bytes \<Rightarrow> bytes) \<Rightarrow> sph \<Rightarrow> bytes \<Rightarrow> bytes" where
  "xevan_link sph f d = sph f (d @ replicate (128 - length d) 0)"

lemma xevan_steps_chain:
  assumes "\<And>f m. length (sph f m) \<le> 64" "length pre = 64 * i" "length d \<le> 64"
    "hash = pre @ d @ replicate (64 * (length fs + 1) - length d) 0"
  shows "take 64 (drop (64 * (i + length fs)) (xevan_steps sph i fs hash)) =
    (let e = fold (xevan_link sph) fs d in e @ replicate (64 - length e) 0)"
  using assms(2-)
proof (induction fs arbitrary: i pre d hash)
  case Nil
  then show ?case by (simp add: Let_def)
next
  case (Cons f fs)
  define k where "k = 64 * (length fs + 1)"
  have k: "64 \<le> k" "length (f # fs) + 1 = length fs + 2" by (simp_all add: k_def)
  have hash: "hash = pre @ (d @ replicate (64 - length d) 0) @ replicate k 0"
    using Cons.prems(2,3) by (simp add: k_def replicate_add [symmetric])
  have inp: "take 128 (drop (64 * i) hash) = d @ replicate (128 - length d) 0"
    using Cons.prems(1,2) k(1) by (simp add: hash replicate_add [symmetric])
  have e: "length (xevan_link sph f d) \<le> 64" using assms(1) by (simp add: xevan_link_def)
  have new: "memcpy hash (64 * (i + 1)) (xevan_link sph f d) =
      (pre @ d @ replicate (64 - length d) 0) @ xevan_link sph f d @ replicate (64 * (length fs + 1) - length (xevan_link sph f d)) 0"
    using Cons.prems(1,2) e by (simp add: memcpy_def hash k_def)
  have "take 64 (drop (64 * (i + 1 + length fs)) (xevan_steps sph (i + 1) fs (memcpy hash (64 * (i + 1)) (xevan_link sph f d)))) =
      (let e = fold (xevan_link sph) fs (xevan_link sph f d) in e @ replicate (64 - length e) 0)"
    using Cons.prems(1,2) e by (intro Cons.IH [OF _ _ new]) simp_all
  then show ?case by (simp add: inp xevan_link_def [of sph f d, symmetric])
qed

lemma XEVAN_chain:
  assumes "\<And>f m. length (sph f m) \<le> 64"
  shows "XEVAN sph data =
    uint256_of (take 32 (fold (xevan_link sph) (tl xevan_part @ xevan_part) (sph Blake data) @ replicate 64 0))"
proof -
  let ?fs = "tl xevan_part @ xevan_part" and ?d = "sph Blake data"
  let ?e = "fold (xevan_link sph) ?fs ?d"
  have n: "length ?fs = 33" by (simp add: xevan_part_def)
  have d: "length ?d \<le> 64" by (rule assms)
  have e: "length ?e \<le> 64"
    by (rule fold_invariant [where P = "\<lambda>x. length x \<le> 64" and Q = "\<lambda>_. True"]) (simp_all add: assms xevan_link_def)
  have h: "memcpy (replicate (34 * 64) 0) 0 ?d = [] @ ?d @ replicate (64 * (length ?fs + 1) - length ?d) 0"
    using d by (simp add: memcpy_def xevan_part_def)
  have "take 64 (drop (64 * (0 + length ?fs)) (xevan_steps sph 0 ?fs (memcpy (replicate (34 * 64) 0) 0 ?d))) =
    ?e @ replicate (64 - length ?e) 0"
    using xevan_steps_chain [OF assms _ d h] by (simp add: Let_def)
  then have "take 32 (drop (33 * 64) (xevan_steps sph 0 ?fs (memcpy (replicate (34 * 64) 0) 0 ?d))) = take 32 (?e @ replicate (64 - length ?e) 0)"
    unfolding n by (drule_tac f = "take 32" in arg_cong) (simp add: min_def)
  also have "\<dots> = take 32 (?e @ replicate 64 0)"
    using e by (auto simp: min_def)
  finally show ?thesis by (simp add: XEVAN_def Let_def)
qed

text \<open>
  C18: An HMAC object computes HMAC, as RFC 2104 defines it over SHA-256 or SHA-512, of its key and of everything
  written to it, and the hash writer computes the double SHA-256 of the pieces of a serialization.
\<close>

theorem CHMAC_streams:
  assumes "length key < 2 ^ 61" "length (concat ds) < 2 ^ 60"
  shows "CHMAC_SHA256_Finalize (fold CHMAC_SHA256_Write ds (CHMAC_SHA256_new key)) = HMAC SHA256 64 key (concat ds) \<and>
    CHMAC_SHA512_Finalize (fold CHMAC_SHA512_Write ds (CHMAC_SHA512_new key)) = HMAC SHA512 128 key (concat ds) \<and>
    SerializeHash ds t v = uint256_of (SHA256 (SHA256 (concat ds)))"
  using hmac256c.hmac_streams [OF assms] hmac512c.hmac_streams [OF assms] CHash256_streams [of ds] assms(2)
  by (simp add: CHMAC_SHA256_Finalize_def CHMAC_SHA256_new_def CHMAC_SHA512_Finalize_def CHMAC_SHA512_new_def CHMAC_inner CHMAC512_inner
      CSHA256_Finalize_def CSHA512_Finalize_def SerializeHash_def hw_GetHash_def fold_hw_write CHashWriter_new_def Let_def)

theorem CHMAC_streams_witness:
  "CHMAC_SHA256_Finalize (CHMAC_SHA256_Write [2, 3] (CHMAC_SHA256_new [1])) = HMAC SHA256 64 [1] [2, 3] \<and>
   SerializeHash [[2, 3]] 0 0 = uint256_of (SHA256 (SHA256 [2, 3]))"
  using CHMAC_streams [of "[1]" "[[2, 3]]" 0 0] by simp

end
