(* ===== verification/PartialMerkle.thy ===== *)
theory PartialMerkle
  imports BlockCheck "HOL-Library.Sublist"
begin

section \<open>Partial Merkle trees (merkleblock.h, merkleblock.cpp)\<close>

text \<open>
  The proof that a filtered node gets: the tree is walked depth first, with a bit per visited node, and a
  hash for every node that is not walked below. Positions and widths are \<open>unsigned int\<close>s, written as
  natural numbers with the reduction of each operation (\<open>u32_of\<close>). The theorems show that extracting from a
  tree that was built, sent and read gives the Merkle root of the block and the matched transactions,
  and that no tree with the right number of transactions can prove anything that is not in the block.
\<close>

definition u32_of :: "nat \<Rightarrow> nat" where
  "u32_of n = n mod 2 ^ 32"

record CPartialMerkleTree =
  nTransactions :: nat
  vBits :: "bool list"
  vHash :: "uint256 list"
  fBad :: bool

definition CPartialMerkleTree_empty :: CPartialMerkleTree where
  "CPartialMerkleTree_empty = \<lparr>nTransactions = 0, vBits = [], vHash = [], fBad = True\<rparr>"

definition CalcTreeWidth :: "nat \<Rightarrow> nat \<Rightarrow> nat" where
  "CalcTreeWidth n height = u32_of (n + 2 ^ height - 1) div 2 ^ height"

text \<open>The loop that looks for the height of the root; the width is at most one when the height reaches 31.\<close>

function tree_height :: "nat \<Rightarrow> nat \<Rightarrow> nat" where
  "tree_height n h = (if CalcTreeWidth n h > 1 then tree_height n (h + 1) else h)"
  by pat_completeness auto
termination
proof (relation "measure (\<lambda>(n, h). 32 - h)")
  fix n h :: nat
  assume w: "1 < CalcTreeWidth n h"
  have "h < 32"
  proof (rule ccontr)
    assume "\<not> h < 32"
    then have "(2::nat) ^ 32 \<le> 2 ^ h" by (intro power_increasing) simp_all
    moreover have "u32_of (n + 2 ^ h - 1) < 2 ^ 32" by (simp add: u32_of_def)
    ultimately have "u32_of (n + 2 ^ h - 1) < 2 ^ h" by (rule less_le_trans [rotated])
    then show False using w by (simp add: CalcTreeWidth_def)
  qed
  then show "((n, h + 1), (n, h)) \<in> measure (\<lambda>(n, h). 32 - h)" by simp
qed simp

declare tree_height.simps [simp del]

fun CalcHash :: "(bytes \<Rightarrow> uint256) \<Rightarrow> nat \<Rightarrow> uint256 list \<Rightarrow> nat \<Rightarrow> nat \<Rightarrow> uint256" where
  "CalcHash Hash n vTxid 0 pos = vTxid ! pos"
| "CalcHash Hash n vTxid (Suc height) pos =
     (let left = CalcHash Hash n vTxid height (u32_of (pos * 2));
          right = (if u32_of (pos * 2 + 1) < CalcTreeWidth n height then CalcHash Hash n vTxid height (u32_of (pos * 2 + 1)) else left)
      in Hash2 Hash left right)"

definition parent_of_match :: "nat \<Rightarrow> bool list \<Rightarrow> nat \<Rightarrow> nat \<Rightarrow> bool" where
  "parent_of_match n vMatch height pos \<longleftrightarrow>
     list_ex (\<lambda>p. vMatch ! p) [u32_of (pos * 2 ^ height)..<min (u32_of ((pos + 1) * 2 ^ height)) n]"

text \<open>The bits and hashes that a call appends.\<close>

fun TraverseAndBuild :: "(bytes \<Rightarrow> uint256) \<Rightarrow> nat \<Rightarrow> uint256 list \<Rightarrow> bool list \<Rightarrow> nat \<Rightarrow> nat \<Rightarrow> bool list \<times> uint256 list" where
  "TraverseAndBuild Hash n vTxid vMatch 0 pos = ([parent_of_match n vMatch 0 pos], [CalcHash Hash n vTxid 0 pos])"
| "TraverseAndBuild Hash n vTxid vMatch (Suc height) pos =
     (if \<not> parent_of_match n vMatch (Suc height) pos then ([False], [CalcHash Hash n vTxid (Suc height) pos])
      else
        let (b1, h1) = TraverseAndBuild Hash n vTxid vMatch height (u32_of (pos * 2));
            (b2, h2) = (if u32_of (pos * 2 + 1) < CalcTreeWidth n height
                        then TraverseAndBuild Hash n vTxid vMatch height (u32_of (pos * 2 + 1)) else ([], []))
        in (True # b1 @ b2, h1 @ h2))"

definition CPartialMerkleTree_of :: "(bytes \<Rightarrow> uint256) \<Rightarrow> uint256 list \<Rightarrow> bool list \<Rightarrow> CPartialMerkleTree" where
  "CPartialMerkleTree_of Hash vTxid vMatch =
     (let n = u32_of (length vTxid); (bits, hashes) = TraverseAndBuild Hash n vTxid vMatch (tree_height n 0) 0
      in \<lparr>nTransactions = n, vBits = bits, vHash = hashes, fBad = False\<rparr>)"

text \<open>What \<open>TraverseAndExtract\<close> changes: the counters, the matches and the flag for invalid data.\<close>

record extraction =
  nBitsUsed :: nat
  nHashUsed :: nat
  x_match :: "uint256 list"
  x_bad :: bool

fun TraverseAndExtract :: "(bytes \<Rightarrow> uint256) \<Rightarrow> CPartialMerkleTree \<Rightarrow> nat \<Rightarrow> nat \<Rightarrow> extraction \<Rightarrow> uint256 \<times> extraction" where
  "TraverseAndExtract Hash t 0 pos x =
     (if nBitsUsed x \<ge> length (vBits t) then (0, x\<lparr>x_bad := True\<rparr>)
      else
        let fParentOfMatch = vBits t ! nBitsUsed x; x1 = x\<lparr>nBitsUsed := nBitsUsed x + 1\<rparr>
        in if nHashUsed x1 \<ge> length (vHash t) then (0, x1\<lparr>x_bad := True\<rparr>)
        else
          let hash = vHash t ! nHashUsed x1
          in (hash, x1\<lparr>nHashUsed := nHashUsed x1 + 1, x_match := (if fParentOfMatch then x_match x1 @ [hash] else x_match x1)\<rparr>))"
| "TraverseAndExtract Hash t (Suc height) pos x =
     (if nBitsUsed x \<ge> length (vBits t) then (0, x\<lparr>x_bad := True\<rparr>)
      else
        let fParentOfMatch = vBits t ! nBitsUsed x; x1 = x\<lparr>nBitsUsed := nBitsUsed x + 1\<rparr>
        in if \<not> fParentOfMatch then
             (if nHashUsed x1 \<ge> length (vHash t) then (0, x1\<lparr>x_bad := True\<rparr>)
              else (vHash t ! nHashUsed x1, x1\<lparr>nHashUsed := nHashUsed x1 + 1\<rparr>))
           else
             let (left, x2) = TraverseAndExtract Hash t height (u32_of (pos * 2)) x1;
                 (right, x3) = (if u32_of (pos * 2 + 1) < CalcTreeWidth (nTransactions t) height
                                then TraverseAndExtract Hash t height (u32_of (pos * 2 + 1)) x2 else (left, x2))
             in (Hash2 Hash left right, x3))"

text \<open>The root, or zero, with the matches (which a failure leaves as they are).\<close>

definition ExtractMatches :: "(bytes \<Rightarrow> uint256) \<Rightarrow> CPartialMerkleTree \<Rightarrow> uint256 \<times> uint256 list" where
  "ExtractMatches Hash t =
     (if nTransactions t = 0 then (0, [])
      else if nTransactions t > MAX_BLOCK_SIZE_CURRENT div 60 then (0, [])
      else if length (vHash t) > nTransactions t then (0, [])
      else if length (vBits t) < length (vHash t) then (0, [])
      else
        let (hashMerkleRoot, x) = TraverseAndExtract Hash t (tree_height (nTransactions t) 0) 0
              \<lparr>nBitsUsed = 0, nHashUsed = 0, x_match = [], x_bad = fBad t\<rparr>
        in if x_bad x then (0, x_match x)
           else if (nBitsUsed x + 7) div 8 \<noteq> (length (vBits t) + 7) div 8 then (0, x_match x)
           else if nHashUsed x \<noteq> length (vHash t) then (0, x_match x)
           else (hashMerkleRoot, x_match x))"

text \<open>Flags are sent eight to a byte, the first in the lowest bit.\<close>

definition pack_bits :: "bool list \<Rightarrow> bytes" where
  "pack_bits bits =
     foldl (\<lambda>bs p. bs[p div 8 := bs ! (p div 8) OR push_bit (p mod 8) (if bits ! p then 1 else 0)])
       (replicate ((length bits + 7) div 8) 0) [0..<length bits]"

definition unpack_bits :: "bytes \<Rightarrow> bool list" where
  "unpack_bits bs = map (\<lambda>p. bs ! (p div 8) AND push_bit (p mod 8) 1 \<noteq> 0) [0..<length bs * 8]"

definition pmt_Serialize :: "CPartialMerkleTree \<Rightarrow> bytes" where
  "pmt_Serialize t = WRITEDATA 4 (nTransactions t) @ Serialize_vec u256_Serialize (vHash t) @ Serialize_blob (pack_bits (vBits t))"

definition pmt_Unserialize :: "CPartialMerkleTree reader" where
  "pmt_Unserialize bs =
     bindE (READDATA 4 bs) (\<lambda>(n, bs1).
     bindE (Unserialize_vec 32 u256_Unserialize bs1) (\<lambda>(hashes, bs2).
     bindE (Unserialize_blob bs2) (\<lambda>(vBytes, bs3).
     Inr (\<lparr>nTransactions = n, vBits = unpack_bits vBytes, vHash = hashes, fBad = False\<rparr>, bs3))))"

subsection \<open>The tree of the levels\<close>

lemma u32_of_id [simp]: "n < 2 ^ 32 \<Longrightarrow> u32_of n = n"
  by (simp add: u32_of_def)

definition node :: "(uint256 \<Rightarrow> uint256 \<Rightarrow> uint256) \<Rightarrow> uint256 list \<Rightarrow> nat \<Rightarrow> nat \<Rightarrow> uint256" where
  "node f xs h pos = (pair_up f ^^ h) xs ! pos"

lemma ceil_step: "0 < n \<Longrightarrow> ((n + 2 ^ h - 1) div 2 ^ h + 1) div 2 = (n + 2 ^ Suc h - 1) div 2 ^ Suc h" for n :: nat
proof -
  assume n: "0 < n"
  have "(n + 2 ^ h - 1) div 2 ^ h + 1 = (n + 2 ^ h - 1 + 2 ^ h) div 2 ^ h"
    using div_add_self2 [of "2 ^ h" "n + 2 ^ h - 1"] by (simp only: power_not_zero) simp
  also have "n + 2 ^ h - 1 + 2 ^ h = n + 2 ^ Suc h - 1" using n by simp
  finally have e: "(n + 2 ^ h - 1) div 2 ^ h + 1 = (n + 2 ^ Suc h - 1) div 2 ^ h" .
  show ?thesis unfolding e power_Suc2 div_mult2_eq by (rule refl)
qed

lemma CalcTreeWidth_ceil: "n + 2 ^ h \<le> 2 ^ 32 \<Longrightarrow> CalcTreeWidth n h = (n + 2 ^ h - 1) div 2 ^ h"
proof -
  assume n: "n + 2 ^ h \<le> 2 ^ 32"
  have "(0::nat) < 2 ^ h" by simp
  then have "n + 2 ^ h - 1 < 2 ^ 32" using n by linarith
  then show ?thesis by (simp add: CalcTreeWidth_def)
qed

lemma small_power: "n < 2 ^ 30 \<Longrightarrow> h \<le> 30 \<Longrightarrow> n + 2 ^ h \<le> 2 ^ 31" for n :: nat
proof -
  assume "n < 2 ^ 30" "h \<le> 30"
  moreover have "(2::nat) ^ h \<le> 2 ^ 30" using \<open>h \<le> 30\<close> by (rule power_increasing) simp
  ultimately show ?thesis by simp
qed

lemma length_level:
  assumes "0 < length xs" "length xs < 2 ^ 30" "h \<le> 30"
  shows "length ((pair_up f ^^ h) xs) = CalcTreeWidth (length xs) h"
proof -
  have "length ((pair_up f ^^ h) xs) = (length xs + 2 ^ h - 1) div 2 ^ h"
  proof (induction h)
    case (Suc h)
    then show ?case by (simp only: funpow.simps comp_apply length_pair_up ceil_step [OF assms(1)])
  qed simp
  then show ?thesis using small_power [OF assms(2,3)] by (simp add: CalcTreeWidth_ceil)
qed

lemma width_iff:
  assumes "0 < n" "n < 2 ^ 30" "h \<le> 30"
  shows "CalcTreeWidth n h \<le> j \<longleftrightarrow> n \<le> j * 2 ^ h"
proof -
  have p: "(0::nat) < 2 ^ h" by simp
  have "CalcTreeWidth n h \<le> j \<longleftrightarrow> (n + 2 ^ h - 1) div 2 ^ h < j + 1"
    using small_power [OF assms(2,3)] by (simp add: CalcTreeWidth_ceil less_Suc_eq_le)
  also have "\<dots> \<longleftrightarrow> n + 2 ^ h - 1 < (j + 1) * 2 ^ h" using p by (rule div_less_iff_less_mult)
  also have "\<dots> \<longleftrightarrow> n \<le> j * 2 ^ h" using assms(1) p by auto
  finally show ?thesis .
qed

lemma pair_up_nth:
  assumes "j < (length ys + 1) div 2"
  shows "pair_up f ys ! j = f (ys ! (2 * j)) (if 2 * j + 1 < length ys then ys ! (2 * j + 1) else ys ! (2 * j))"
proof -
  have j: "2 * j < length ys" using assms by linarith
  have m: "min (2 * j + 1) (length ys - 1) = (if 2 * j + 1 < length ys then 2 * j + 1 else 2 * j)"
    using j by auto
  show ?thesis using nth_pair_up [OF j, of f] by (simp only: m) simp
qed

lemma tree_height_least: "CalcTreeWidth n k \<le> 1 \<Longrightarrow> h \<le> k \<Longrightarrow> tree_height n h \<le> k \<and> CalcTreeWidth n (tree_height n h) \<le> 1 \<and>
    (\<forall>i. h \<le> i \<longrightarrow> i < tree_height n h \<longrightarrow> 1 < CalcTreeWidth n i)"
proof (induction n h rule: tree_height.induct)
  case (1 n h)
  show ?case
  proof (cases "CalcTreeWidth n h > 1")
    case True
    then have "h \<noteq> k" using 1(2) by auto
    then have "h + 1 \<le> k" using 1(3) by simp
    from 1(1) [OF True 1(2) this] show ?thesis using True
      by (subst (1 2 3) tree_height.simps) (metis Suc_eq_plus1 Suc_leI le_neq_implies_less)
  next
    case False
    then show ?thesis using 1(3) by (subst (1 2 3) tree_height.simps) simp
  qed
qed

text \<open>A tree of fewer than a billion transactions.\<close>

definition small_tree :: "uint256 list \<Rightarrow> nat \<Rightarrow> bool" where
  "small_tree xs n \<longleftrightarrow> n = length xs \<and> 0 < n \<and> n < 2 ^ 30"

lemma height_facts:
  assumes "small_tree xs n"
  shows "tree_height n 0 \<le> 30" "CalcTreeWidth n (tree_height n 0) = 1" "h < tree_height n 0 \<Longrightarrow> 1 < CalcTreeWidth n h"
proof -
  have n: "0 < n" "n < 2 ^ 30" using assms by (auto simp: small_tree_def)
  have "CalcTreeWidth n 30 \<le> 1" using width_iff [OF n, of 30 1] n by simp
  from tree_height_least [OF this, of 0]
  have h: "tree_height n 0 \<le> 30" "CalcTreeWidth n (tree_height n 0) \<le> 1" "h < tree_height n 0 \<Longrightarrow> 1 < CalcTreeWidth n h" for h
    by auto
  then show "tree_height n 0 \<le> 30" "h < tree_height n 0 \<Longrightarrow> 1 < CalcTreeWidth n h" by auto
  have "\<not> CalcTreeWidth n (tree_height n 0) \<le> 0" using width_iff [OF n h(1), of 0] n by simp
  then show "CalcTreeWidth n (tree_height n 0) = 1" using h(2) by simp
qed

text \<open>Below a node of level \<open>h + 1\<close>.\<close>

lemma child_facts:
  assumes "small_tree xs n" "h < 30" "pos < CalcTreeWidth n (Suc h)"
  shows "2 * pos < CalcTreeWidth n h" "pos * 2 + 1 < 2 ^ 32" "u32_of (pos * 2) = pos * 2" "u32_of (pos * 2 + 1) = pos * 2 + 1"
    "node f xs (Suc h) pos = f (node f xs h (pos * 2)) (if pos * 2 + 1 < CalcTreeWidth n h then node f xs h (pos * 2 + 1) else node f xs h (pos * 2))"
proof -
  have n: "0 < length xs" "length xs < 2 ^ 30" "n = length xs" using assms(1) by (auto simp: small_tree_def)
  have l: "length ((pair_up f ^^ h) xs) = CalcTreeWidth n h" for f using length_level [OF n(1,2)] assms(2) n(3) by simp
  have s: "CalcTreeWidth n (Suc h) = (CalcTreeWidth n h + 1) div 2"
    using length_level [OF n(1,2), of "Suc h" "\<lambda>a b. a"] l [of "\<lambda>a b. a"] assms(2) n(3) by simp
  show p: "2 * pos < CalcTreeWidth n h" using assms(3) by (simp add: s)
  have "CalcTreeWidth n h \<le> n" using width_iff [of n h n] n assms(2) by simp
  then show b: "pos * 2 + 1 < 2 ^ 32" using p n by simp
  then show "u32_of (pos * 2) = pos * 2" "u32_of (pos * 2 + 1) = pos * 2 + 1" by (simp_all add: u32_of_def)
  show "node f xs (Suc h) pos = f (node f xs h (pos * 2)) (if pos * 2 + 1 < CalcTreeWidth n h then node f xs h (pos * 2 + 1) else node f xs h (pos * 2))"
    using pair_up_nth [of pos "(pair_up f ^^ h) xs" f] assms(3) by (simp add: node_def l s mult.commute)
qed

lemma CalcHash_node:
  assumes "small_tree xs n"
  shows "h \<le> 30 \<Longrightarrow> pos < CalcTreeWidth n h \<Longrightarrow> CalcHash Hash n xs h pos = node (Hash2 Hash) xs h pos"
proof (induction h arbitrary: pos)
  case 0
  then show ?case by (simp add: node_def)
next
  case (Suc h)
  have h: "h < 30" using Suc.prems(1) by simp
  note c = child_facts [OF assms h Suc.prems(2)]
  show ?case using Suc.IH [of "pos * 2"] Suc.IH [of "pos * 2 + 1"] c h by (simp add: Let_def mult.commute)
qed

lemma root_node:
  assumes "small_tree xs n"
  shows "node f xs (tree_height n 0) 0 = merkle_root f xs"
proof -
  have n: "0 < length xs" "length xs < 2 ^ 30" "n = length xs" using assms by (auto simp: small_tree_def)
  note hf = height_facts [OF assms]
  have "h \<le> tree_height n 0 \<Longrightarrow> merkle_root f ((pair_up f ^^ h) xs) = merkle_root f xs" for h
  proof (induction h)
    case (Suc h)
    have "1 < length ((pair_up f ^^ h) xs)" using length_level [OF n(1,2), of h f] hf(1) hf(3) [of h] Suc.prems n(3) by simp
    then show ?case using Suc by (simp add: merkle_root_step [symmetric])
  qed simp
  moreover have "length ((pair_up f ^^ tree_height n 0) xs) = 1" using length_level [OF n(1,2) hf(1), of f] hf(2) n(3) by simp
  ultimately show ?thesis
    by (cases "(pair_up f ^^ tree_height n 0) xs") (fastforce simp: node_def)+
qed

subsection \<open>Extracting what was built\<close>

text \<open>The leaves below a node.\<close>

definition leaves :: "nat \<Rightarrow> nat \<Rightarrow> nat \<Rightarrow> nat list" where
  "leaves n h pos = [pos * 2 ^ h..<min ((pos + 1) * 2 ^ h) n]"

lemma leaves_0: "pos < n \<Longrightarrow> leaves n 0 pos = [pos]"
  by (simp add: leaves_def min_def)

lemma leaves_Suc:
  assumes "small_tree xs n" "h < 30"
  shows "leaves n (Suc h) pos = leaves n h (pos * 2) @ (if pos * 2 + 1 < CalcTreeWidth n h then leaves n h (pos * 2 + 1) else [])"
proof -
  have n: "0 < n" "n < 2 ^ 30" using assms(1) by (auto simp: small_tree_def)
  have w: "\<not> pos * 2 + 1 < CalcTreeWidth n h \<longleftrightarrow> n \<le> (pos * 2 + 1) * 2 ^ h"
    using width_iff [OF n, of h "pos * 2 + 1"] assms(2) unfolding not_less by (simp only: less_imp_le)
  define a b c where "a = pos * 2 * (2::nat) ^ h" and "b = (pos * 2 + 1) * (2::nat) ^ h" and "c = (pos * 2 + 1 + 1) * (2::nat) ^ h"
  have eq: "pos * 2 ^ Suc h = a" "(pos + 1) * 2 ^ Suc h = c" by (simp_all add: a_def c_def)
  have le: "a \<le> b" "b \<le> c" by (simp_all add: a_def b_def c_def)
  show ?thesis
  proof (cases "pos * 2 + 1 < CalcTreeWidth n h")
    case True
    then have "b < n" using w by (simp add: b_def)
    then have "[a..<min c n] = [a..<b] @ [b..<min c n]" "min b n = b"
      using le upt_add_eq_append [of a b "min c n - b"] by simp_all
    then show ?thesis using True by (simp only: leaves_def eq a_def [symmetric] b_def [symmetric] c_def [symmetric] if_True)
  next
    case False
    then have "n \<le> b" using w by (simp add: b_def)
    then have "min c n = min b n" using le by simp
    then show ?thesis using False by (simp only: leaves_def eq a_def [symmetric] b_def [symmetric] c_def [symmetric] if_False append_Nil2)
  qed
qed

lemma leaves_bound:
  assumes "small_tree xs n" "h \<le> 30" "pos < CalcTreeWidth n h"
  shows "u32_of (pos * 2 ^ h) = pos * 2 ^ h" "min (u32_of ((pos + 1) * 2 ^ h)) n = min ((pos + 1) * 2 ^ h) n" "leaves n h pos \<noteq> []"
    "set (leaves n h pos) \<subseteq> {..<n}"
proof -
  have n: "0 < n" "n < 2 ^ 30" using assms(1) by (auto simp: small_tree_def)
  have lt: "pos * 2 ^ h < n" using width_iff [OF n assms(2), of pos] assms(3) by simp
  have p: "(2::nat) ^ h \<le> 2 ^ 30" using assms(2) by (rule power_increasing) simp
  have "(pos + 1) * 2 ^ h < 2 ^ 32" using lt n p by simp
  then show "min (u32_of ((pos + 1) * 2 ^ h)) n = min ((pos + 1) * 2 ^ h) n" by (simp only: u32_of_id)
  show "u32_of (pos * 2 ^ h) = pos * 2 ^ h" using lt n by simp
  have "pos * 2 ^ h < (pos + 1) * 2 ^ h" by simp
  then show "leaves n h pos \<noteq> []" using lt by (simp only: leaves_def upt_eq_Nil_conv) linarith
  show "set (leaves n h pos) \<subseteq> {..<n}" by (auto simp: leaves_def)
qed

lemma parent_leaves:
  "small_tree xs n \<Longrightarrow> h \<le> 30 \<Longrightarrow> pos < CalcTreeWidth n h \<Longrightarrow> parent_of_match n vMatch h pos \<longleftrightarrow> (\<exists>p\<in>set (leaves n h pos). vMatch ! p)"
  by (simp only: parent_of_match_def leaves_bound leaves_def list_ex_iff)

definition matched :: "uint256 list \<Rightarrow> bool list \<Rightarrow> nat \<Rightarrow> nat \<Rightarrow> uint256 list" where
  "matched xs vMatch h pos = map (\<lambda>p. xs ! p) (filter (\<lambda>p. vMatch ! p) (leaves (length xs) h pos))"

lemma built_sizes:
  assumes "small_tree xs n"
  shows "h \<le> 30 \<Longrightarrow> pos < CalcTreeWidth n h \<Longrightarrow> TraverseAndBuild Hash n xs vMatch h pos = (bits, hashes) \<Longrightarrow>
    length hashes \<le> length bits \<and> length hashes \<le> length (leaves n h pos) \<and> length bits \<le> Suc h * length (leaves n h pos)"
proof (induction h arbitrary: pos bits hashes)
  case 0
  then have "pos < n" using assms by (simp add: CalcTreeWidth_def small_tree_def)
  then show ?case using 0 by (auto simp: leaves_0)
next
  case (Suc h)
  have h: "h < 30" using Suc.prems(1) by simp
  note c = child_facts [OF assms h Suc.prems(2)]
  have ne: "1 \<le> length (leaves n (Suc h) pos)"
    using leaves_bound(3) [OF assms Suc.prems(1,2)] by (simp add: Suc_le_eq)
  obtain b1 h1 where 1: "TraverseAndBuild Hash n xs vMatch h (pos * 2) = (b1, h1)" by (cases "TraverseAndBuild Hash n xs vMatch h (pos * 2)")
  obtain b2 h2 where 2: "TraverseAndBuild Hash n xs vMatch h (pos * 2 + 1) = (b2, h2)" by (cases "TraverseAndBuild Hash n xs vMatch h (pos * 2 + 1)")
  have i1: "length h1 \<le> length b1 \<and> length h1 \<le> length (leaves n h (pos * 2)) \<and> length b1 \<le> Suc h * length (leaves n h (pos * 2))"
    using Suc.IH [OF _ _ 1] h c(1) by (simp add: mult.commute)
  have i2: "length h2 \<le> length b2 \<and> length h2 \<le> length (leaves n h (pos * 2 + 1)) \<and> length b2 \<le> Suc h * length (leaves n h (pos * 2 + 1))" if "pos * 2 + 1 < CalcTreeWidth n h"
    using Suc.IH [OF _ that 2] h by simp
  show ?case using Suc.prems(3) ne i1 i2
    by (auto simp: 1 2 [simplified] c(3) c(4) [simplified] leaves_Suc [OF assms h] Let_def add_mult_distrib2 split: if_splits)
qed

lemma extract_built:
  assumes "small_tree xs n" "nTransactions t = n"
  shows "h \<le> 30 \<Longrightarrow> pos < CalcTreeWidth n h \<Longrightarrow> TraverseAndBuild Hash n xs vMatch h pos = (bits, hashes) \<Longrightarrow>
    vBits t = B @ bits @ B' \<Longrightarrow> vHash t = H @ hashes @ H' \<Longrightarrow> nBitsUsed x = length B \<Longrightarrow> nHashUsed x = length H \<Longrightarrow>
    TraverseAndExtract Hash t h pos x = (node (Hash2 Hash) xs h pos,
      x\<lparr>nBitsUsed := length B + length bits, nHashUsed := length H + length hashes, x_match := x_match x @ matched xs vMatch h pos\<rparr>)"
proof (induction h arbitrary: pos bits hashes B B' H H' x)
  case 0
  then have "pos < n" using assms by (simp add: CalcTreeWidth_def small_tree_def)
  moreover have "n = length xs" using assms(1) by (simp add: small_tree_def)
  ultimately show ?case using 0 parent_leaves [OF assms(1) 0(1,2), of vMatch]
    by (auto simp: leaves_0 matched_def node_def Let_def nth_append)
next
  case (Suc h)
  have h: "h < 30" using Suc.prems(1) by simp
  have n: "n = length xs" using assms(1) by (simp add: small_tree_def)
  note c = child_facts [OF assms(1) h Suc.prems(2)]
  show ?case
  proof (cases "parent_of_match n vMatch (Suc h) pos")
    case False
    then have "matched xs vMatch (Suc h) pos = []" using parent_leaves [OF assms(1) Suc.prems(1,2), of vMatch] n by (simp add: matched_def)
    moreover have "bits = [False]" "hashes = [node (Hash2 Hash) xs (Suc h) pos]"
      using False Suc.prems(3) CalcHash_node [OF assms(1) Suc.prems(1,2)] by (simp_all del: CalcHash.simps)
    ultimately show ?thesis using Suc.prems by (simp add: Let_def nth_append)
  next
    case True
    obtain b1 h1 where 1: "TraverseAndBuild Hash n xs vMatch h (pos * 2) = (b1, h1)" by (cases "TraverseAndBuild Hash n xs vMatch h (pos * 2)")
    obtain b2 h2 where 2: "(if pos * 2 + 1 < CalcTreeWidth n h then TraverseAndBuild Hash n xs vMatch h (pos * 2 + 1) else ([], [])) = (b2, h2)"
      by (metis surj_pair)
    have bh: "bits = True # b1 @ b2" "hashes = h1 @ h2"
      using True Suc.prems(3) 2 by (cases "pos * 2 + 1 < CalcTreeWidth n h"; simp add: Let_def c(3) c(4) [simplified] 1)+
    let ?x1 = "x\<lparr>nBitsUsed := length B + 1\<rparr>"
    let ?x2 = "?x1\<lparr>nBitsUsed := length (B @ [True]) + length b1, nHashUsed := length H + length h1, x_match := x_match ?x1 @ matched xs vMatch h (pos * 2)\<rparr>"
    have e1: "TraverseAndExtract Hash t h (pos * 2) ?x1 = (node (Hash2 Hash) xs h (pos * 2), ?x2)"
      using Suc.prems h c(1) by (intro Suc.IH [OF _ _ 1, of _ "b2 @ B'" _ "h2 @ H'"]) (simp_all add: bh mult.commute)
    have e2: "TraverseAndExtract Hash t h (pos * 2 + 1) ?x2 = (node (Hash2 Hash) xs h (pos * 2 + 1),
        ?x2\<lparr>nBitsUsed := length (B @ True # b1) + length b2, nHashUsed := length (H @ h1) + length h2, x_match := x_match ?x2 @ matched xs vMatch h (pos * 2 + 1)\<rparr>)"
      if w: "pos * 2 + 1 < CalcTreeWidth n h"
      using Suc.prems h 2 w by (intro Suc.IH [of _ b2 h2 _ B' _ H']) (simp_all add: bh)
    have m: "matched xs vMatch (Suc h) pos = matched xs vMatch h (pos * 2) @ (if pos * 2 + 1 < CalcTreeWidth n h then matched xs vMatch h (pos * 2 + 1) else [])"
      by (simp add: matched_def n [symmetric] leaves_Suc [OF assms(1) h])
    have b: "nBitsUsed x < length (vBits t)" "vBits t ! nBitsUsed x" using Suc.prems by (simp_all add: bh nth_append)
    show ?thesis
    proof (cases "pos * 2 + 1 < CalcTreeWidth n h")
      case True
      then show ?thesis using b e1 e2 [OF True] Suc.prems(6)
        by (simp add: Let_def c(3) c(4) [simplified] c(5) [simplified] assms(2) m bh add.assoc)
    next
      case False
      then show ?thesis using b e1 2 Suc.prems(6)
        by (simp add: Let_def c(3) c(4) [simplified] c(5) [simplified] assms(2) m bh)
    qed
  qed
qed

subsection \<open>Flags in bytes\<close>

lemma pack_bits_loop:
  assumes "k \<le> length bits" "m = (length bits + 7) div 8"
  shows "let bs = foldl (\<lambda>bs p. bs[p div 8 := bs ! (p div 8) OR push_bit (p mod 8) (if bits ! p then 1 else 0)]) (replicate m (0::byte)) [0..<k]
    in length bs = m \<and> (\<forall>q<8 * m. bit (bs ! (q div 8)) (q mod 8) \<longleftrightarrow> q < k \<and> bits ! q)"
  using assms(1)
proof (induction k)
  case 0
  then show ?case by (auto simp: less_mult_imp_div_less mult.commute)
next
  case (Suc k)
  define bs where "bs = foldl (\<lambda>bs p. bs[p div 8 := bs ! (p div 8) OR push_bit (p mod 8) (if bits ! p then 1 else 0)]) (replicate m (0::byte)) [0..<k]"
  have IH: "length bs = m" "\<And>q. q < 8 * m \<Longrightarrow> bit (bs ! (q div 8)) (q mod 8) \<longleftrightarrow> q < k \<and> bits ! q"
    using Suc by (simp_all add: bs_def Let_def)
  have k: "k div 8 < m" using Suc.prems by (simp add: assms(2) div_less_iff_less_mult)
  have "bit (bs[k div 8 := bs ! (k div 8) OR push_bit (k mod 8) (if bits ! k then 1 else 0)] ! (q div 8)) (q mod 8) \<longleftrightarrow> q < Suc k \<and> bits ! q"
    if q: "q < 8 * m" for q
  proof (cases "q div 8 = k div 8")
    case True
    have one: "bit (push_bit (k mod 8) (if bits ! k then 1 else 0 :: byte)) (q mod 8) \<longleftrightarrow> bits ! k \<and> q mod 8 = k mod 8"
      by (auto simp: bit_push_bit_iff bit_1_iff)
    have "q mod 8 = k mod 8 \<longleftrightarrow> q = k" using True by (metis div_mod_decomp)
    then show ?thesis using IH(2) [OF q] True k IH(1) one by (auto simp: bit_or_iff less_Suc_eq)
  next
    case False
    then show ?thesis using IH(2) [OF q] by (auto simp: less_Suc_eq)
  qed
  then show ?case using IH(1) by (simp add: bs_def [symmetric] Let_def)
qed

lemma length_pack_bits: "length (pack_bits bits) = (length bits + 7) div 8"
  using pack_bits_loop [of "length bits" bits] by (simp add: pack_bits_def Let_def)

lemma unpack_pack_bits: "unpack_bits (pack_bits bits) = bits @ replicate ((length bits + 7) div 8 * 8 - length bits) False"
proof -
  let ?m = "(length bits + 7) div 8"
  have p: "length (pack_bits bits) = ?m" "\<And>q. q < 8 * ?m \<Longrightarrow> bit (pack_bits bits ! (q div 8)) (q mod 8) \<longleftrightarrow> q < length bits \<and> bits ! q"
    using pack_bits_loop [of "length bits" bits ?m] by (simp_all add: pack_bits_def Let_def)
  have le: "length bits \<le> ?m * 8" by presburger
  have a: "b AND 2 ^ r = 0 \<longleftrightarrow> \<not> bit b r" for b :: byte and r
    by (rule and_exp_eq_0_iff_not_bit)
  show ?thesis
    by (rule nth_equalityI) (use le p in \<open>auto simp: unpack_bits_def a nth_append mult.commute\<close>)
qed

subsection \<open>Completeness and soundness\<close>

lemma leaves_root: "small_tree xs n \<Longrightarrow> leaves n (tree_height n 0) 0 = [0..<n]"
proof -
  assume s: "small_tree xs n"
  then have n: "0 < n" "n < 2 ^ 30" by (auto simp: small_tree_def)
  have "n \<le> 2 ^ tree_height n 0" using width_iff [OF n height_facts(1) [OF s], of 1] height_facts(2) [OF s] by simp
  then show ?thesis by (simp add: leaves_def min_def)
qed

lemma extract_root_built:
  assumes "small_tree xs n" "n \<le> MAX_BLOCK_SIZE_CURRENT div 60" "length vMatch = n"
    and "CPartialMerkleTree_of Hash xs vMatch = t0" "t = t0\<lparr>vBits := vBits t0 @ replicate k False\<rparr>" "(length (vBits t0) + 7) div 8 = (length (vBits t0) + k + 7) div 8"
  shows "ExtractMatches Hash t = (merkle_root (Hash2 Hash) xs, map fst (filter snd (zip xs vMatch)))"
proof -
  have n: "n = length xs" "0 < n" "n < 2 ^ 30" using assms(1) by (auto simp: small_tree_def)
  let ?h = "tree_height n 0"
  note hf = height_facts [OF assms(1)]
  have w: "0 < CalcTreeWidth n ?h" using hf(2) by simp
  have u: "u32_of (length xs) = n" using n by simp
  obtain bits hashes where b: "TraverseAndBuild Hash n xs vMatch ?h 0 = (bits, hashes)" by (metis surj_pair)
  have t0: "t0 = \<lparr>nTransactions = n, vBits = bits, vHash = hashes, fBad = False\<rparr>"
    using assms(4) by (simp add: CPartialMerkleTree_of_def u b)
  have lv: "leaves n ?h 0 = [0..<n]" by (rule leaves_root [OF assms(1)])
  have l: "matched xs vMatch ?h 0 = map fst (filter snd (zip xs vMatch))" "length (leaves n ?h 0) = n"
  proof -
    have "map fst (filter snd (zip xs vMatch)) = map fst (filter snd (map (\<lambda>p. (xs ! p, vMatch ! p)) [0..<n]))"
      by (rule arg_cong [where f = "\<lambda>z. map fst (filter snd z)"], rule nth_equalityI) (simp_all add: n(1) assms(3))
    also have "\<dots> = matched xs vMatch ?h 0" using lv n(1) by (simp add: matched_def filter_map comp_def)
    finally show "matched xs vMatch ?h 0 = map fst (filter snd (zip xs vMatch))" by simp
    show "length (leaves n ?h 0) = n" using lv by simp
  qed
  have s: "length hashes \<le> length bits" "length hashes \<le> n" using built_sizes [OF assms(1) hf(1) w b] l(2) by auto
  let ?x = "\<lparr>nBitsUsed = 0, nHashUsed = 0, x_match = [], x_bad = False\<rparr>"
  have e: "TraverseAndExtract Hash t ?h 0 ?x = (node (Hash2 Hash) xs ?h 0,
      ?x\<lparr>nBitsUsed := length bits, nHashUsed := length hashes, x_match := map fst (filter snd (zip xs vMatch))\<rparr>)"
    using extract_built [OF assms(1) _ hf(1) w b, of t "[]" "replicate k False" "[]" "[]" ?x] by (simp add: assms(5) t0 l)
  have t: "nTransactions t = n" "vBits t = bits @ replicate k False" "vHash t = hashes" "fBad t = False" by (simp_all add: assms(5) t0)
  have k: "(length bits + 7) div 8 = (length bits + k + 7) div 8" using assms(6) by (simp add: t0)
  show ?thesis unfolding ExtractMatches_def t e prod.case Let_def
    using n(2) assms(2) s k by (simp add: root_node [OF assms(1)])
qed

interpretation u256_vec: vec_codec u256_Serialize u256_Unserialize "\<lambda>_. True" 32
  by unfold_locales simp_all

text \<open>
  What a filtered node receives: from the tree that is built for a block's transactions and any choice of
  them, written and read back, \<open>ExtractMatches\<close> gives the Merkle root of the block and exactly the chosen
  transactions, in order. The bound on the number of transactions is the one the extraction checks.
\<close>

lemma partial_merkle_complete:
  assumes "txids \<noteq> []" "length txids \<le> MAX_BLOCK_SIZE_CURRENT div 60" "length vMatch = length txids"
  shows "\<exists>t. pmt_Unserialize (pmt_Serialize (CPartialMerkleTree_of Hash txids vMatch) @ rest) = Inr (t, rest) \<and>
    ExtractMatches Hash t = (fst (snd (BuildMerkleTree Hash txids)), map fst (filter snd (zip txids vMatch)))"
proof -
  define t0 where "t0 = CPartialMerkleTree_of Hash txids vMatch"
  have s: "small_tree txids (length txids)" using assms(1,2) by (simp add: small_tree_def MAX_BLOCK_SIZE_CURRENT_def)
  let ?k = "(length (vBits t0) + 7) div 8 * 8 - length (vBits t0)"
  obtain bits hashes where b: "TraverseAndBuild Hash (length txids) txids vMatch (tree_height (length txids) 0) 0 = (bits, hashes)"
    by (metis surj_pair)
  have u: "u32_of (length txids) = length txids" using assms(2) by (simp add: MAX_BLOCK_SIZE_CURRENT_def)
  have t0: "t0 = \<lparr>nTransactions = length txids, vBits = bits, vHash = hashes, fBad = False\<rparr>"
    by (simp add: t0_def CPartialMerkleTree_of_def u b)
  have sz: "length hashes \<le> length txids \<and> length bits \<le> Suc (tree_height (length txids) 0) * length txids"
    using built_sizes [OF s height_facts(1) [OF s] _ b] height_facts(2) [OF s] leaves_root [OF s] by simp
  have "Suc (tree_height (length txids) 0) * length txids \<le> 31 * length txids" using height_facts(1) [OF s] by (intro mult_le_mono1) simp
  with sz have "length bits \<le> 31 * length txids" using le_trans by blast
  then have "length bits + 7 \<le> 33554432" using assms(2) by (simp add: MAX_BLOCK_SIZE_CURRENT_def)
  then have lim: "length hashes \<le> MAX_SIZE" "length (pack_bits bits) \<le> MAX_SIZE"
    using sz assms(2) div_le_dividend [of "length bits + 7" 8] by (simp_all add: MAX_SIZE_def MAX_BLOCK_SIZE_CURRENT_def length_pack_bits)
  have "pmt_Unserialize (pmt_Serialize t0 @ rest) = Inr (t0\<lparr>vBits := vBits t0 @ replicate ?k False\<rparr>, rest)"
    using assms(2) lim by (simp add: pmt_Unserialize_def pmt_Serialize_def t0 raw32.roundtrip u256_vec.vec.roundtrip blob.roundtrip
        unpack_pack_bits MAX_BLOCK_SIZE_CURRENT_def list_all_iff)
  moreover have "(length (vBits t0) + 7) div 8 = (length (vBits t0) + ?k + 7) div 8" by presburger
  ultimately show ?thesis
    using extract_root_built [OF s assms(2,3) t0_def [symmetric] refl] unfolding t0_def [symmetric]
    by (simp add: BuildMerkleTree_eq)
qed

text \<open>The pairs that an extraction hashes, and those of the block's own tree.\<close>

fun extract_pairs :: "(bytes \<Rightarrow> uint256) \<Rightarrow> CPartialMerkleTree \<Rightarrow> nat \<Rightarrow> nat \<Rightarrow> extraction \<Rightarrow> (uint256 \<times> uint256) list" where
  "extract_pairs Hash t 0 pos x = []"
| "extract_pairs Hash t (Suc height) pos x =
     (if nBitsUsed x \<ge> length (vBits t) \<or> \<not> vBits t ! nBitsUsed x then []
      else
        let x1 = x\<lparr>nBitsUsed := nBitsUsed x + 1\<rparr>; (left, x2) = TraverseAndExtract Hash t height (u32_of (pos * 2)) x1;
            two = u32_of (pos * 2 + 1) < CalcTreeWidth (nTransactions t) height
        in extract_pairs Hash t height (u32_of (pos * 2)) x1 @
           (if two then extract_pairs Hash t height (u32_of (pos * 2 + 1)) x2 else []) @
           [(left, if two then fst (TraverseAndExtract Hash t height (u32_of (pos * 2 + 1)) x2) else left)])"

lemma level_pairs_pair:
  "j < (length ys + 1) div 2 \<Longrightarrow> (ys ! (2 * j), if 2 * j + 1 < length ys then ys ! (2 * j + 1) else ys ! (2 * j)) \<in> set (level_pairs ys)"
proof (induction ys arbitrary: j rule: level_pairs.induct)
  case (3 x y r)
  show ?case
  proof (cases j)
    case (Suc k)
    then show ?thesis using "3.IH" [of k] "3.prems" by (cases "2 * k + 1 < length r") simp_all
  qed simp
qed auto

lemma tree_pairs_level: "1 < length ((pair_up f ^^ h) xs) \<Longrightarrow> set (level_pairs ((pair_up f ^^ h) xs)) \<subseteq> set (tree_pairs f xs)"
proof (induction h arbitrary: xs)
  case 0
  then show ?case by (subst tree_pairs.simps) auto
next
  case (Suc h)
  have l: "1 < length ((pair_up f ^^ h) (pair_up f xs))" using Suc.prems by (simp add: funpow_swap1)
  have "length ((pair_up f ^^ i) ys) \<le> 1" if "length ys \<le> 1" for i and ys :: "uint256 list"
    using that by (induction i) simp_all
  moreover have "length (pair_up f xs) \<le> 1" if "length xs \<le> 1" using that by (cases xs) simp_all
  ultimately have "1 < length xs" using l by (meson not_less)
  then show ?case using Suc.IH [OF l] by (subst tree_pairs.simps) (auto simp: funpow_swap1)
qed

lemma node_pair:
  assumes "small_tree xs n" "h < tree_height n 0" "pos < CalcTreeWidth n (Suc h)"
  shows "(node f xs h (pos * 2), if pos * 2 + 1 < CalcTreeWidth n h then node f xs h (pos * 2 + 1) else node f xs h (pos * 2)) \<in> set (tree_pairs f xs)"
proof -
  have n: "0 < length xs" "length xs < 2 ^ 30" "n = length xs" using assms(1) by (auto simp: small_tree_def)
  have h: "h < 30" using height_facts(1) [OF assms(1)] assms(2) by simp
  have l: "length ((pair_up f ^^ h) xs) = CalcTreeWidth n h" using length_level [OF n(1,2)] h n(3) by simp
  have s: "CalcTreeWidth n (Suc h) = (CalcTreeWidth n h + 1) div 2"
    using length_level [OF n(1,2), of "Suc h" f] l h n(3) by simp
  have "1 < length ((pair_up f ^^ h) xs)" using height_facts(3) [OF assms(1,2)] l by simp
  from subsetD [OF tree_pairs_level [OF this] level_pairs_pair, of pos] show ?thesis
    using assms(3) by (cases "pos * 2 + 1 < CalcTreeWidth n h") (simp_all add: node_def l s mult.commute)
qed

lemma extract_bad: "x_bad x \<Longrightarrow> x_bad (snd (TraverseAndExtract Hash t h pos x))"
  by (induction h arbitrary: pos x) (auto simp: Let_def case_prod_unfold)

lemma extract_sound:
  assumes "small_tree xs n" "nTransactions t = n"
  shows "h \<le> tree_height n 0 \<Longrightarrow> pos < CalcTreeWidth n h \<Longrightarrow> TraverseAndExtract Hash t h pos x = (node (Hash2 Hash) xs h pos, x') \<Longrightarrow>
    \<not> x_bad x' \<Longrightarrow> inj_on (\<lambda>(a, b). Hash2 Hash a b) (set (tree_pairs (Hash2 Hash) xs) \<union> set (extract_pairs Hash t h pos x)) \<Longrightarrow>
    \<exists>ps. x_match x' = x_match x @ map (\<lambda>p. xs ! p) ps \<and> subseq ps (leaves n h pos)"
proof (induction h arbitrary: pos x x')
  case 0
  then have "pos < n" using assms by (simp add: CalcTreeWidth_def small_tree_def)
  then show ?case using 0(3,4) by (auto simp: leaves_0 node_def Let_def split: if_splits intro: exI [of _ "[]"] exI [of _ "[pos]"])
next
  case (Suc h)
  let ?f = "Hash2 Hash"
  have h: "h < tree_height n 0" "h < 30" using Suc.prems(1) height_facts(1) [OF assms(1)] by simp_all
  note c = child_facts [OF assms(1) h(2) Suc.prems(2)]
  have b: "nBitsUsed x < length (vBits t)" using Suc.prems(3,4) by (auto split: if_splits)
  define x1 where "x1 = x\<lparr>nBitsUsed := nBitsUsed x + 1\<rparr>"
  show ?case
  proof (cases "vBits t ! nBitsUsed x")
    case False
    then have "x_match x' = x_match x" using b Suc.prems(3,4) by (auto simp: Let_def split: if_splits)
    then show ?thesis by (intro exI [of _ "[]"]) simp
  next
    case True
    obtain left x2 where l: "TraverseAndExtract Hash t h (pos * 2) x1 = (left, x2)" by (metis surj_pair)
    define two where "two \<longleftrightarrow> pos * 2 + 1 < CalcTreeWidth n h"
    define r where "r = (if two then TraverseAndExtract Hash t h (pos * 2 + 1) x2 else (left, x2))"
    have eq: "Hash2 Hash left (fst r) = node ?f xs (Suc h) pos" "snd r = x'"
      using Suc.prems(3) b True l unfolding r_def two_def
      by (auto simp: Let_def c(3) c(4) [simplified] x1_def assms(2) case_prod_unfold split: if_splits)
    have ps: "extract_pairs Hash t (Suc h) pos x = extract_pairs Hash t h (pos * 2) x1 @
        (if two then extract_pairs Hash t h (pos * 2 + 1) x2 else []) @ [(left, fst r)]"
      using b True l by (simp add: Let_def c(3) c(4) [simplified] x1_def assms(2) two_def r_def)
    let ?p = "(node ?f xs h (pos * 2), if pos * 2 + 1 < CalcTreeWidth n h then node ?f xs h (pos * 2 + 1) else node ?f xs h (pos * 2))"
    have "(left, fst r) = ?p"
    proof (rule inj_onD [OF Suc.prems(5)])
      show "(case (left, fst r) of (a, b) \<Rightarrow> Hash2 Hash a b) = (case ?p of (a, b) \<Rightarrow> Hash2 Hash a b)"
        using eq(1) c(5) [of ?f] by (simp only: prod.case)
      show "(left, fst r) \<in> set (tree_pairs ?f xs) \<union> set (extract_pairs Hash t (Suc h) pos x)" unfolding ps by simp
      show "?p \<in> set (tree_pairs ?f xs) \<union> set (extract_pairs Hash t (Suc h) pos x)"
        using node_pair [OF assms(1) h(1) Suc.prems(2), of ?f] by (rule UnI1)
    qed
    then have lr: "left = node ?f xs h (pos * 2)" "two \<Longrightarrow> fst r = node ?f xs h (pos * 2 + 1)" by (auto simp: two_def)
    have nb: "\<not> x_bad x2"
      using Suc.prems(4) extract_bad [of x2 Hash t h "pos * 2 + 1"] eq(2) by (auto simp: r_def split: if_splits)
    have i: "inj_on (\<lambda>(a, b). Hash2 Hash a b) (set (tree_pairs ?f xs) \<union> set (extract_pairs Hash t h (pos * 2) x1))"
      by (rule inj_on_subset [OF Suc.prems(5)], unfold ps) auto
    obtain p1 where p1: "x_match x2 = x_match x1 @ map (\<lambda>p. xs ! p) p1" "subseq p1 (leaves n h (pos * 2))"
      using Suc.IH [OF _ _ _ nb i] l lr(1) h c(1) by (auto simp: mult.commute)
    have "\<exists>p2. x_match x' = x_match x2 @ map (\<lambda>p. xs ! p) p2 \<and> subseq p2 (if two then leaves n h (pos * 2 + 1) else [])"
    proof (cases two)
      case True
      have i: "inj_on (\<lambda>(a, b). Hash2 Hash a b) (set (tree_pairs ?f xs) \<union> set (extract_pairs Hash t h (pos * 2 + 1) x2))"
        by (rule inj_on_subset [OF Suc.prems(5)], unfold ps) (auto simp: True)
      have "TraverseAndExtract Hash t h (pos * 2 + 1) x2 = (node ?f xs h (pos * 2 + 1), x')"
        using lr(2) eq(2) True by (simp add: r_def prod_eq_iff)
      from Suc.IH [OF _ _ this Suc.prems(4) i] show ?thesis using True h by (simp add: two_def)
    next
      case False
      then show ?thesis using eq(2) by (intro exI [of _ "[]"]) (simp add: r_def)
    qed
    then obtain p2 where p2: "x_match x' = x_match x2 @ map (\<lambda>p. xs ! p) p2" "subseq p2 (if two then leaves n h (pos * 2 + 1) else [])" by blast
    show ?thesis
      using p1 p2 leaves_Suc [OF assms(1) h(2), of pos]
      by (intro exI [of _ "p1 @ p2"]) (auto simp: x1_def two_def list_emb_append_mono)
  qed
qed

text \<open>
  C21: What a filtered node may believe: if extracting from any tree, however it was made, gives the Merkle
  root of a block with the number of transactions that the tree claims, then the matches are
  transactions of that block, in the order of the block, unless two of the pairs hashed in the block's tree and
  in the extraction collide.
\<close>

theorem partial_merkle_sound:
  assumes "nTransactions t = length txids" "ExtractMatches Hash t = (fst (snd (BuildMerkleTree Hash txids)), ms)"
    and "fst (snd (BuildMerkleTree Hash txids)) \<noteq> 0"
    and "inj_on (\<lambda>(a, b). Hash2 Hash a b) (set (tree_pairs (Hash2 Hash) txids) \<union>
      set (extract_pairs Hash t (tree_height (length txids) 0) 0 \<lparr>nBitsUsed = 0, nHashUsed = 0, x_match = [], x_bad = fBad t\<rparr>))"
  shows "subseq ms txids"
proof -
  let ?x = "\<lparr>nBitsUsed = 0, nHashUsed = 0, x_match = [], x_bad = fBad t\<rparr>" and ?n = "length txids"
  have r: "fst (snd (BuildMerkleTree Hash txids)) = merkle_root (Hash2 Hash) txids" by (simp add: BuildMerkleTree_eq)
  have n: "0 < ?n" "?n \<le> MAX_BLOCK_SIZE_CURRENT div 60"
    using assms(1-3) by (auto simp: ExtractMatches_def split: if_splits)
  then have s: "small_tree txids ?n" by (simp add: small_tree_def MAX_BLOCK_SIZE_CURRENT_def)
  obtain root x where e: "TraverseAndExtract Hash t (tree_height ?n 0) 0 ?x = (root, x)" by (metis surj_pair)
  have x: "root = node (Hash2 Hash) txids (tree_height ?n 0) 0" "ms = x_match x" "\<not> x_bad x"
    using assms(1-3) n unfolding r root_node [OF s] by (auto simp: ExtractMatches_def e split: if_splits)
  have w: "0 < CalcTreeWidth ?n (tree_height ?n 0)" using height_facts(2) [OF s] by simp
  obtain ps where ps: "ms = map (\<lambda>p. txids ! p) ps" "subseq ps [0..<?n]"
    using extract_sound [OF s assms(1) le_refl w e [unfolded x(1)] x(3) assms(4)] x(2) leaves_root [OF s] by auto
  then have "subseq ms (map (\<lambda>p. txids ! p) [0..<?n])" by (simp only: subseq_map)
  then show ?thesis by (simp only: map_nth)
qed

lemma height_2: "tree_height 2 0 = 1"
  by (simp add: tree_height.simps CalcTreeWidth_def)

definition two_leaf_tree :: CPartialMerkleTree where
  "two_leaf_tree = \<lparr>nTransactions = 2, vBits = [True, True, False], vHash = [3, 4], fBad = False\<rparr>"

lemma two_leaf_root: "fst (snd (BuildMerkleTree (\<lambda>b. of_nat (length b)) [3, 4])) = 64"
  by (simp add: BuildMerkleTree_eq merkle_root_step Hash2_def)

lemma two_leaf_extract:
  "ExtractMatches (\<lambda>b. of_nat (length b)) two_leaf_tree = (fst (snd (BuildMerkleTree (\<lambda>b. of_nat (length b)) [3, 4])), [3])"
  by (simp add: two_leaf_root ExtractMatches_def two_leaf_tree_def height_2 MAX_BLOCK_SIZE_CURRENT_def u32_of_def
      CalcTreeWidth_def Hash2_def Let_def)

theorem partial_merkle_sound_witness:
  "ExtractMatches (\<lambda>b. of_nat (length b)) two_leaf_tree = (fst (snd (BuildMerkleTree (\<lambda>b. of_nat (length b)) [3, 4])), [3]) \<and>
   subseq [3] [3, 4 :: uint256]"
proof (intro conjI two_leaf_extract)
  have i: "inj_on (\<lambda>(a, b). Hash2 (\<lambda>b. of_nat (length b)) a b) (set (tree_pairs (Hash2 (\<lambda>b. of_nat (length b))) [3, 4]) \<union>
      set (extract_pairs (\<lambda>b. of_nat (length b)) two_leaf_tree (tree_height (length [3, 4 :: uint256]) 0) 0
        \<lparr>nBitsUsed = 0, nHashUsed = 0, x_match = [], x_bad = fBad two_leaf_tree\<rparr>))"
  proof -
    have h: "tree_height (length [3, 4 :: uint256]) 0 = 1" using height_2 by (simp add: numeral_2_eq_2)
    show ?thesis unfolding h by (simp add: two_leaf_tree_def tree_pairs.simps u32_of_def CalcTreeWidth_def Let_def)
  qed
  show "subseq [3] [3, 4 :: uint256]"
    by (rule partial_merkle_sound [OF _ two_leaf_extract _ i]) (simp_all add: two_leaf_tree_def two_leaf_root)
qed

text \<open>
  The number of transactions is not bound to the root: a tree that claims two transactions for a block of
  four gives an inner node as a matched transaction.
\<close>

lemma inner_node_accepted:
  "ExtractMatches Hash \<lparr>nTransactions = 2, vBits = [True, True, False], vHash = [Hash2 Hash a b, Hash2 Hash c d], fBad = False\<rparr> =
    (fst (snd (BuildMerkleTree Hash [a, b, c, d])), [Hash2 Hash a b])"
  by (simp add: BuildMerkleTree_eq merkle_root_step ExtractMatches_def height_2 MAX_BLOCK_SIZE_CURRENT_def u32_of_def
      CalcTreeWidth_def Let_def)

end
