(* ===== verification/Bloom.thy ===== *)
theory Bloom
  imports PartialMerkle HashUses
begin

section \<open>Bloom filters and filtered blocks (bloom.h, bloom.cpp, merkleblock.cpp)\<close>

text \<open>
  The filter with which a light client tells a node which transactions to send. \<open>None\<close> is a program that
  stops: the remainder by the size of an empty filter, or an exception of \<open>Solver\<close>. The sizes
  that the constructor computes in floating point are its arguments. The theorems show that a filter never
  misses what was inserted, that it goes on to find the spending of the coins it has found, and that the
  filtered block proves exactly the transactions that matched.
\<close>

record CBloomFilter =
  vData :: bytes
  isFull :: bool
  isEmpty :: bool
  nHashFuncs :: u32
  nTweak :: u32
  nFlags :: byte

definition MAX_BLOOM_FILTER_SIZE :: nat where "MAX_BLOOM_FILTER_SIZE = 36000"
definition MAX_HASH_FUNCS :: nat where "MAX_HASH_FUNCS = 50"

definition BLOOM_UPDATE_ALL :: byte where "BLOOM_UPDATE_ALL = 1"
definition BLOOM_UPDATE_P2PUBKEY_ONLY :: byte where "BLOOM_UPDATE_P2PUBKEY_ONLY = 2"
definition BLOOM_UPDATE_MASK :: byte where "BLOOM_UPDATE_MASK = 3"

text \<open>The constructor takes the sizes as computed, and cuts them to the limits.\<close>

definition CBloomFilter_new :: "nat \<Rightarrow> nat \<Rightarrow> u32 \<Rightarrow> byte \<Rightarrow> CBloomFilter" where
  "CBloomFilter_new bits funcs tweak flags =
     \<lparr>vData = replicate (min bits (MAX_BLOOM_FILTER_SIZE * 8) div 8) 0, isFull = False, isEmpty = False,
      nHashFuncs = word_of_nat (min funcs MAX_HASH_FUNCS), nTweak = tweak, nFlags = flags\<rparr>"

definition CBloomFilter_default :: CBloomFilter where
  "CBloomFilter_default = \<lparr>vData = [], isFull = True, isEmpty = False, nHashFuncs = 0, nTweak = 0, nFlags = 0\<rparr>"

definition bloom_Hash :: "CBloomFilter \<Rightarrow> nat \<Rightarrow> bytes \<Rightarrow> nat option" where
  "bloom_Hash f nHashNum v =
     (if vData f = [] then None
      else Some (unat (MurmurHash3 (word_of_nat nHashNum * 0xFBA4C795 + nTweak f) v) mod (length (vData f) * 8)))"

fun insert_loop :: "CBloomFilter \<Rightarrow> nat list \<Rightarrow> bytes \<Rightarrow> CBloomFilter option" where
  "insert_loop f [] vKey = Some f"
| "insert_loop f (i # is) vKey =
     (case bloom_Hash f i vKey of
        None \<Rightarrow> None
      | Some nIndex \<Rightarrow>
          insert_loop (f\<lparr>vData := (vData f)[nIndex div 8 := vData f ! (nIndex div 8) OR push_bit (nIndex mod 8) 1]\<rparr>) is vKey)"

definition bloom_insert :: "CBloomFilter \<Rightarrow> bytes \<Rightarrow> CBloomFilter option" where
  "bloom_insert f vKey =
     (if isFull f then Some f
      else map_option (\<lambda>g. g\<lparr>isEmpty := False\<rparr>) (insert_loop f [0..<unat (nHashFuncs f)] vKey))"

fun contains_loop :: "CBloomFilter \<Rightarrow> nat list \<Rightarrow> bytes \<Rightarrow> bool option" where
  "contains_loop f [] vKey = Some True"
| "contains_loop f (i # is) vKey =
     (case bloom_Hash f i vKey of
        None \<Rightarrow> None
      | Some nIndex \<Rightarrow>
          if vData f ! (nIndex div 8) AND push_bit (nIndex mod 8) 1 = 0 then Some False else contains_loop f is vKey)"

definition bloom_contains :: "CBloomFilter \<Rightarrow> bytes \<Rightarrow> bool option" where
  "bloom_contains f vKey =
     (if isFull f then Some True else if isEmpty f then Some False
      else contains_loop f [0..<unat (nHashFuncs f)] vKey)"

definition bloom_clear :: "CBloomFilter \<Rightarrow> CBloomFilter" where
  "bloom_clear f = f\<lparr>vData := replicate (length (vData f)) 0, isFull := False, isEmpty := True\<rparr>"

definition IsWithinSizeConstraints :: "CBloomFilter \<Rightarrow> bool" where
  "IsWithinSizeConstraints f \<longleftrightarrow> length (vData f) \<le> MAX_BLOOM_FILTER_SIZE \<and> unat (nHashFuncs f) \<le> MAX_HASH_FUNCS"

definition UpdateEmptyFull :: "CBloomFilter \<Rightarrow> CBloomFilter" where
  "UpdateEmptyFull f = f\<lparr>isFull := list_all (\<lambda>b. b = 0xff) (vData f), isEmpty := list_all (\<lambda>b. b = 0) (vData f)\<rparr>"

definition bloom_Serialize :: "CBloomFilter \<Rightarrow> bytes" where
  "bloom_Serialize f = Serialize_blob (vData f) @ u32_Serialize (nHashFuncs f) @ u32_Serialize (nTweak f) @ [nFlags f]"

definition bloom_Unserialize :: "CBloomFilter reader" where
  "bloom_Unserialize bs =
     bindE (Unserialize_blob bs) (\<lambda>(d, bs1).
     bindE (u32_Unserialize bs1) (\<lambda>(k, bs2).
     bindE (u32_Unserialize bs2) (\<lambda>(t, bs3).
     bindE (READDATA 1 bs3) (\<lambda>(fl, bs4).
     Inr (CBloomFilter_default\<lparr>vData := d, nHashFuncs := k, nTweak := t, nFlags := word_of_nat fl\<rparr>, bs4)))))"

subsection \<open>Matching a transaction\<close>

text \<open>The walk over a script's data until one of them matches.\<close>

function script_match :: "CBloomFilter \<Rightarrow> bytes \<Rightarrow> bool option" where
  "script_match f pc =
     (if pc = [] then Some False
      else case GetOp2 pc of (ok, opcode, data, pc') \<Rightarrow>
        if \<not> ok then Some False
        else if data \<noteq> [] then
          (case bloom_contains f data of
             None \<Rightarrow> None
           | Some found \<Rightarrow> if found then Some True else script_match f pc')
        else script_match f pc')"
  by pat_completeness auto
termination
  by (relation "measure (\<lambda>(f, pc). length pc)") (auto dest: GetOp2_ok_shorter [OF sym])

declare script_match.simps [simp del]

definition update_output :: "CBloomFilter \<Rightarrow> uint256 \<Rightarrow> nat \<Rightarrow> CScript \<Rightarrow> CBloomFilter option" where
  "update_output f hash i script =
     (if nFlags f AND BLOOM_UPDATE_MASK = BLOOM_UPDATE_ALL
        then bloom_insert f (OutPoint_Serialize (COutPoint hash (word_of_nat i)))
      else if nFlags f AND BLOOM_UPDATE_MASK = BLOOM_UPDATE_P2PUBKEY_ONLY then
        (case Solver script of
           None \<Rightarrow> None
         | Some (ok, type, vSolutions) \<Rightarrow>
             if ok \<and> (type = TX_PUBKEY \<or> type = TX_MULTISIG)
             then bloom_insert f (OutPoint_Serialize (COutPoint hash (word_of_nat i))) else Some f)
      else Some f)"

fun match_outputs :: "CBloomFilter \<Rightarrow> uint256 \<Rightarrow> nat \<Rightarrow> CTxOut list \<Rightarrow> bool \<Rightarrow> (bool \<times> CBloomFilter) option" where
  "match_outputs f hash i [] fFound = Some (fFound, f)"
| "match_outputs f hash i (out # outs) fFound =
     (case script_match f (scriptPubKey out) of
        None \<Rightarrow> None
      | Some False \<Rightarrow> match_outputs f hash (i + 1) outs fFound
      | Some True \<Rightarrow>
          (case update_output f hash i (scriptPubKey out) of
             None \<Rightarrow> None
           | Some f' \<Rightarrow> match_outputs f' hash (i + 1) outs True))"

fun match_inputs :: "CBloomFilter \<Rightarrow> CTxIn list \<Rightarrow> bool option" where
  "match_inputs f [] = Some False"
| "match_inputs f (txin # ins) =
     (case bloom_contains f (OutPoint_Serialize (prevout txin)) of
        None \<Rightarrow> None
      | Some True \<Rightarrow> Some True
      | Some False \<Rightarrow>
          (case script_match f (scriptSig txin) of
             None \<Rightarrow> None
           | Some True \<Rightarrow> Some True
           | Some False \<Rightarrow> match_inputs f ins))"

definition IsRelevantAndUpdate :: "CBloomFilter \<Rightarrow> CTransaction \<Rightarrow> (bool \<times> CBloomFilter) option" where
  "IsRelevantAndUpdate f tx =
     (if isFull f then Some (True, f) else if isEmpty f then Some (False, f)
      else
        (case bloom_contains f (u256_Serialize (tx_hash tx)) of
           None \<Rightarrow> None
         | Some found \<Rightarrow>
             (case match_outputs f (tx_hash tx) 0 (vout tx) found of
                None \<Rightarrow> None
              | Some (True, f') \<Rightarrow> Some (True, f')
              | Some (False, f') \<Rightarrow> map_option (\<lambda>b. (b, f')) (match_inputs f' (vin tx)))))"

subsection \<open>Filtered blocks\<close>

record CMerkleBlock =
  mb_header :: CBlockHeader
  mb_txn :: CPartialMerkleTree
  vMatchedTxn :: "(nat \<times> uint256) list"

fun filter_block :: "CBloomFilter \<Rightarrow> CTransaction list \<Rightarrow> (bool list \<times> CBloomFilter) option" where
  "filter_block f [] = Some ([], f)"
| "filter_block f (tx # txs) =
     (case IsRelevantAndUpdate f tx of
        None \<Rightarrow> None
      | Some (b, f') \<Rightarrow> map_option (\<lambda>(bs, g). (b # bs, g)) (filter_block f' txs))"

definition CMerkleBlock_of :: "(bytes \<Rightarrow> uint256) \<Rightarrow> CBlock \<Rightarrow> CBloomFilter \<Rightarrow> (CMerkleBlock \<times> CBloomFilter) option" where
  "CMerkleBlock_of Hash block f =
     (case filter_block f (vtx block) of
        None \<Rightarrow> None
      | Some (vMatch, f') \<Rightarrow>
          let vHashes = map tx_hash (vtx block)
          in Some (\<lparr>mb_header = header block, mb_txn = CPartialMerkleTree_of Hash vHashes vMatch,
                    vMatchedTxn = filter (\<lambda>(i, h). vMatch ! i) (enumerate 0 vHashes)\<rparr>, f'))"

definition MerkleBlock_Serialize :: "CMerkleBlock \<Rightarrow> bytes" where
  "MerkleBlock_Serialize m = header_Serialize (mb_header m) @ pmt_Serialize (mb_txn m)"

definition MerkleBlock_Unserialize :: "CMerkleBlock reader" where
  "MerkleBlock_Unserialize bs =
     bindE (header_Unserialize bs) (\<lambda>(h, bs1).
     bindE (pmt_Unserialize bs1) (\<lambda>(t, bs2).
     Inr (\<lparr>mb_header = h, mb_txn = t, vMatchedTxn = []\<rparr>, bs2)))"

subsection \<open>The messages of a peer (main.cpp)\<close>

text \<open>What a node keeps of a peer, and the payloads of the messages that change it.\<close>

record filter_peer =
  pfilter :: "CBloomFilter option"
  fRelayTxes :: bool

datatype filter_msg = filterload bytes | filteradd bytes | filterclear

text \<open>The new peer with the points of \<open>Misbehaving\<close>, the exception of a read, or \<open>None\<close> for a node that stops.\<close>

fun ProcessFilterMessage :: "bool \<Rightarrow> filter_msg \<Rightarrow> filter_peer \<Rightarrow> (ser_error + filter_peer \<times> nat) option" where
  "ProcessFilterMessage False msg p = Some (Inr (p, 100))"
| "ProcessFilterMessage True (filterload vRecv) p =
     (case bloom_Unserialize vRecv of
        Inl e \<Rightarrow> Some (Inl e)
      | Inr (f, rest) \<Rightarrow>
          if \<not> IsWithinSizeConstraints f then Some (Inr (p\<lparr>fRelayTxes := True\<rparr>, 100))
          else Some (Inr (p\<lparr>pfilter := Some (UpdateEmptyFull f), fRelayTxes := True\<rparr>, 0)))"
| "ProcessFilterMessage True (filteradd vRecv) p =
     (case Unserialize_blob vRecv of
        Inl e \<Rightarrow> Some (Inl e)
      | Inr (d, rest) \<Rightarrow>
          if length d > MAX_SCRIPT_ELEMENT_SIZE then Some (Inr (p, 100))
          else
            (case pfilter p of
               None \<Rightarrow> Some (Inr (p, 100))
             | Some f \<Rightarrow> map_option (\<lambda>g. Inr (p\<lparr>pfilter := Some g\<rparr>, 0)) (bloom_insert f d)))"
| "ProcessFilterMessage True filterclear p = Some (Inr (p\<lparr>pfilter := Some CBloomFilter_default, fRelayTxes := True\<rparr>, 0))"

subsection \<open>The bits only grow\<close>

definition bloom_wf :: "CBloomFilter \<Rightarrow> bool" where
  "bloom_wf f \<longleftrightarrow> vData f = [] \<longrightarrow> isFull f \<or> nHashFuncs f = 0"

text \<open>The filter \<open>g\<close> finds everything that \<open>f\<close> does.\<close>

definition bloom_le :: "CBloomFilter \<Rightarrow> CBloomFilter \<Rightarrow> bool" where
  "bloom_le f g \<longleftrightarrow> length (vData g) = length (vData f) \<and> nHashFuncs g = nHashFuncs f \<and> nTweak g = nTweak f \<and>
     nFlags g = nFlags f \<and> isFull g = isFull f \<and> (isEmpty g \<longrightarrow> isEmpty f) \<and>
     (\<forall>i < length (vData f). \<forall>n. bit (vData f ! i) n \<longrightarrow> bit (vData g ! i) n)"

lemma bloom_le_refl [simp]: "bloom_le f f"
  by (simp add: bloom_le_def)

lemma bloom_le_trans: "bloom_le f g \<Longrightarrow> bloom_le g h \<Longrightarrow> bloom_le f h"
  by (auto simp: bloom_le_def)

lemma bloom_le_wf: "bloom_le f g \<Longrightarrow> bloom_wf f \<Longrightarrow> bloom_wf g"
  by (auto simp: bloom_le_def bloom_wf_def)

lemma bloom_le_flags: "bloom_le f g \<Longrightarrow> nFlags g = nFlags f"
  by (simp add: bloom_le_def)

lemma bloom_le_Hash: "bloom_le f g \<Longrightarrow> bloom_Hash g i k = bloom_Hash f i k"
  by (auto simp: bloom_le_def bloom_Hash_def)

lemma bloom_Hash_bound: "bloom_Hash f i k = Some j \<Longrightarrow> j div 8 < length (vData f)"
  by (auto simp: bloom_Hash_def less_mult_imp_div_less split: if_splits)

lemma set_bit_le:
  assumes "bloom_Hash f i k = Some j" "g = f\<lparr>vData := (vData f)[j div 8 := vData f ! (j div 8) OR push_bit (j mod 8) 1]\<rparr>"
  shows "bloom_le f g \<and> bit (vData g ! (j div 8)) (j mod 8)"
  using bloom_Hash_bound [OF assms(1)] unfolding assms(2) by (auto simp: bloom_le_def nth_list_update bit_simps)

lemma insert_loop_le:
  "insert_loop f is k = Some g \<Longrightarrow> bloom_le f g \<and> contains_loop g is k = Some True"
proof (induction "is" arbitrary: f)
  case (Cons i "is")
  then obtain j where j: "bloom_Hash f i k = Some j" by (auto split: option.splits)
  let ?f = "f\<lparr>vData := (vData f)[j div 8 := vData f ! (j div 8) OR push_bit (j mod 8) 1]\<rparr>"
  have s: "bloom_le f ?f" "bit (vData ?f ! (j div 8)) (j mod 8)" using set_bit_le [OF j refl] by auto
  have g: "bloom_le ?f g" "contains_loop g is k = Some True" using Cons.IH [of ?f] Cons.prems j by auto
  have le: "bloom_le f g" using s(1) g(1) by (rule bloom_le_trans)
  have "j div 8 < length (vData ?f)" using bloom_Hash_bound [OF j] by simp
  then have "bit (vData g ! (j div 8)) (j mod 8)" using s(2) g(1) unfolding bloom_le_def by blast
  then show ?case using le g(2) bloom_le_Hash [OF le] j by (simp add: and_exp_eq_0_iff_not_bit)
qed simp

lemma contains_loop_mono: "bloom_le f g \<Longrightarrow> contains_loop f is k = Some True \<Longrightarrow> contains_loop g is k = Some True"
proof (induction "is")
  case (Cons i "is")
  then obtain j where j: "bloom_Hash f i k = Some j" by (auto split: option.splits)
  with Cons.prems have f: "bit (vData f ! (j div 8)) (j mod 8)" "contains_loop f is k = Some True"
    by (auto simp: and_exp_eq_0_iff_not_bit split: if_splits)
  then have "bit (vData g ! (j div 8)) (j mod 8)" using Cons.prems(1) bloom_Hash_bound [OF j] by (auto simp: bloom_le_def)
  then show ?case using Cons.IH [OF Cons.prems(1) f(2)] bloom_le_Hash [OF Cons.prems(1)] j by (simp add: and_exp_eq_0_iff_not_bit)
qed simp

lemma contains_mono: "bloom_le f g \<Longrightarrow> bloom_contains f k = Some True \<Longrightarrow> bloom_contains g k = Some True"
  using contains_loop_mono [of f g "[0..<unat (nHashFuncs f)]" k]
  by (auto simp: bloom_contains_def bloom_le_def split: if_splits)

lemma insert_le: "bloom_insert f k = Some g \<Longrightarrow> bloom_le f g \<and> bloom_contains g k = Some True"
proof (cases "isFull f")
  case False
  assume "bloom_insert f k = Some g"
  then obtain h where h: "insert_loop f [0..<unat (nHashFuncs f)] k = Some h" "g = h\<lparr>isEmpty := False\<rparr>"
    using False by (auto simp: bloom_insert_def)
  note l = insert_loop_le [OF h(1)]
  have hg: "bloom_le h g" by (simp add: h(2) bloom_le_def)
  then have "bloom_le f g" using l bloom_le_trans by blast
  moreover have "bloom_contains g k = Some True"
    using contains_loop_mono [OF hg] l False by (auto simp: bloom_contains_def bloom_le_def h(2))
  ultimately show ?thesis by simp
qed (auto simp: bloom_insert_def bloom_contains_def)

subsection \<open>A filter with room does not stop\<close>

lemma Hash_total: "vData f \<noteq> [] \<Longrightarrow> \<exists>j. bloom_Hash f i k = Some j"
  by (simp add: bloom_Hash_def)

lemma insert_loop_total: "vData f \<noteq> [] \<Longrightarrow> \<exists>g. insert_loop f is k = Some g"
  by (induction "is" arbitrary: f) (auto simp: bloom_Hash_def)

lemma insert_total: "bloom_wf f \<Longrightarrow> \<exists>g. bloom_insert f k = Some g"
  using insert_loop_total [of f "[0..<unat (nHashFuncs f)]" k] by (auto simp: bloom_wf_def bloom_insert_def)

lemma contains_loop_total: "vData f \<noteq> [] \<Longrightarrow> \<exists>b. contains_loop f is k = Some b"
  by (induction "is") (auto simp: bloom_Hash_def)

lemma contains_total: "bloom_wf f \<Longrightarrow> \<exists>b. bloom_contains f k = Some b"
  using contains_loop_total [of f "[0..<unat (nHashFuncs f)]" k] by (auto simp: bloom_wf_def bloom_contains_def)

text \<open>What the filter matches in a script is among the data that the script pushes.\<close>

function script_pushes :: "bytes \<Rightarrow> bytes list" where
  "script_pushes pc =
     (if pc = [] then []
      else case GetOp2 pc of (ok, opcode, data, pc') \<Rightarrow> if \<not> ok then [] else data # script_pushes pc')"
  by pat_completeness auto
termination
  by (relation "measure length") (auto dest: GetOp2_ok_shorter [OF sym])

declare script_pushes.simps [simp del]

lemma script_match_pushes:
  assumes "bloom_wf f"
  shows "\<exists>b. script_match f pc = Some b \<and> (b \<longleftrightarrow> (\<exists>k \<in> set (script_pushes pc). k \<noteq> [] \<and> bloom_contains f k = Some True))"
proof (induction pc rule: script_pushes.induct)
  case (1 pc)
  obtain ok opcode data pc' where g: "GetOp2 pc = (ok, opcode, data, pc')" by (metis surj_pair)
  show ?case
  proof (cases "pc = [] \<or> \<not> ok")
    case True
    then show ?thesis using g by (subst script_match.simps, subst script_pushes.simps) auto
  next
    case False
    then have ih: "\<exists>b. script_match f pc' = Some b \<and> (b \<longleftrightarrow> (\<exists>k \<in> set (script_pushes pc'). k \<noteq> [] \<and> bloom_contains f k = Some True))"
      using "1.IH" [OF _ g [symmetric] refl refl] by simp
    obtain c where c: "bloom_contains f data = Some c" using contains_total [OF assms] by blast
    show ?thesis using False ih c g by (subst script_match.simps, subst script_pushes.simps) auto
  qed
qed

lemma script_match_mono:
  assumes "bloom_wf f" "bloom_le f g" "script_match f pc = Some True"
  shows "script_match g pc = Some True"
  using script_match_pushes [OF assms(1), of pc] script_match_pushes [OF bloom_le_wf [OF assms(2,1)], of pc]
    contains_mono [OF assms(2)] assms(3) by fastforce

subsection \<open>Matching a transaction keeps what was there\<close>

lemma update_output_le: "update_output f hash i script = Some g \<Longrightarrow> bloom_le f g"
  by (auto simp: update_output_def dest: insert_le split: if_splits option.splits)

definition follows_all :: "CBloomFilter \<Rightarrow> bool" where
  "follows_all f \<longleftrightarrow> bloom_wf f \<and> nFlags f AND BLOOM_UPDATE_MASK = BLOOM_UPDATE_ALL"

lemma follows_all_le: "bloom_le f g \<Longrightarrow> follows_all f \<Longrightarrow> follows_all g"
  by (auto simp: follows_all_def bloom_le_flags bloom_le_wf)

lemma match_outputs_le: "match_outputs f hash i outs b = Some (c, g) \<Longrightarrow> bloom_le f g"
proof (induction f hash i outs b rule: match_outputs.induct)
  case (2 f hash i out outs b)
  then show ?case by (auto split: option.splits bool.splits dest!: update_output_le intro: bloom_le_trans)
qed simp

lemma IsRelevantAndUpdate_le: "IsRelevantAndUpdate f tx = Some (b, g) \<Longrightarrow> bloom_le f g"
  by (auto simp: IsRelevantAndUpdate_def dest!: match_outputs_le split: if_splits option.splits bool.splits)

lemma match_outputs_follows:
  assumes "follows_all f"
  shows "\<exists>c g. match_outputs f hash i outs b = Some (c, g) \<and> (b \<longrightarrow> c) \<and>
    (\<forall>j < length outs. script_match f (scriptPubKey (outs ! j)) = Some True \<longrightarrow>
       c \<and> bloom_contains g (OutPoint_Serialize (COutPoint hash (word_of_nat (i + j)))) = Some True)"
  using assms
proof (induction outs arbitrary: f i b)
  case (Cons out outs)
  have wf: "bloom_wf f" using Cons.prems by (simp add: follows_all_def)
  obtain m where m: "script_match f (scriptPubKey out) = Some m" using script_match_pushes [OF wf] by blast
  show ?case
  proof (cases m)
    case False
    from Cons.IH [OF Cons.prems, of "i + 1" b] obtain c g where
      g: "match_outputs f hash (i + 1) outs b = Some (c, g)" "b \<longrightarrow> c"
        "\<forall>j < length outs. script_match f (scriptPubKey (outs ! j)) = Some True \<longrightarrow>
           c \<and> bloom_contains g (OutPoint_Serialize (COutPoint hash (word_of_nat (i + 1 + j)))) = Some True" by auto
    have "match_outputs f hash i (out # outs) b = Some (c, g)" using g(1) m False by simp
    moreover have "c \<and> bloom_contains g (OutPoint_Serialize (COutPoint hash (word_of_nat (i + j)))) = Some True"
      if "j < length (out # outs)" "script_match f (scriptPubKey ((out # outs) ! j)) = Some True" for j
      using g(3) m False that by (cases j) (simp_all add: add.assoc)
    ultimately show ?thesis using g(2) by blast
  next
    case True
    obtain f1 where f1: "bloom_insert f (OutPoint_Serialize (COutPoint hash (word_of_nat i))) = Some f1"
      using insert_total [OF wf] by blast
    note i = insert_le [OF f1]
    from Cons.IH [OF follows_all_le, of f f1 "i + 1" True] i Cons.prems obtain c g where
      g: "match_outputs f1 hash (i + 1) outs True = Some (c, g)" "c"
        "\<forall>j < length outs. script_match f1 (scriptPubKey (outs ! j)) = Some True \<longrightarrow>
           bloom_contains g (OutPoint_Serialize (COutPoint hash (word_of_nat (i + 1 + j)))) = Some True" by auto
    have "bloom_contains g (OutPoint_Serialize (COutPoint hash (word_of_nat i))) = Some True"
      using contains_mono [OF match_outputs_le [OF g(1)]] i by blast
    moreover have "script_match f1 pc = Some True" if "script_match f pc = Some True" for pc
      using script_match_mono [OF wf _ that] i by blast
    ultimately have "bloom_contains g (OutPoint_Serialize (COutPoint hash (word_of_nat (i + j)))) = Some True"
      if "j < length (out # outs)" "script_match f (scriptPubKey ((out # outs) ! j)) = Some True" for j
      using g(3) that by (cases j) (simp_all add: add.assoc)
    moreover have "match_outputs f hash i (out # outs) b = Some (c, g)"
      using g(1) m True f1 Cons.prems by (simp add: update_output_def follows_all_def)
    ultimately show ?thesis using g(2) by blast
  qed
qed simp

lemma match_inputs_finds:
  assumes "bloom_wf f"
  shows "\<exists>b. match_inputs f ins = Some b \<and> ((\<exists>txin \<in> set ins. bloom_contains f (OutPoint_Serialize (prevout txin)) = Some True) \<longrightarrow> b)"
proof (induction ins)
  case (Cons txin ins)
  obtain c m where "bloom_contains f (OutPoint_Serialize (prevout txin)) = Some c" "script_match f (scriptSig txin) = Some m"
    using contains_total [OF assms] script_match_pushes [OF assms] by blast
  then show ?case using Cons.IH by (cases c; cases m) auto
qed (simp add: exI [of _ False])

text \<open>What a node does with the filter of a peer: it adds data, and it matches transactions.\<close>

inductive bloom_step :: "CBloomFilter \<Rightarrow> CBloomFilter \<Rightarrow> bool" where
  add: "bloom_insert f k = Some g \<Longrightarrow> bloom_step f g"
| match: "IsRelevantAndUpdate f tx = Some (b, g) \<Longrightarrow> bloom_step f g"

inductive_cases bloom_stepE: "bloom_step f g"

lemma steps_le: "bloom_step\<^sup>*\<^sup>* f g \<Longrightarrow> bloom_le f g"
proof (induction rule: rtranclp_induct)
  case (step g h)
  then have "bloom_le g h" by (auto elim: bloom_stepE dest: insert_le IsRelevantAndUpdate_le)
  then show ?case using step.IH by (metis bloom_le_trans)
qed simp

lemma relevant_total:
  assumes "follows_all f" "bloom_contains f k = Some True"
  obtains c c' g where "match_outputs f (tx_hash tx) 0 (vout tx) c = Some (c', g)" "c \<longrightarrow> c'"
    "\<forall>j < length (vout tx). script_match f (scriptPubKey (vout tx ! j)) = Some True \<longrightarrow>
       c' \<and> bloom_contains g (OutPoint_Serialize (COutPoint (tx_hash tx) (word_of_nat j))) = Some True"
    "IsRelevantAndUpdate f tx = (if isFull f then Some (True, f) else if c' then Some (True, g) else map_option (\<lambda>b. (b, g)) (match_inputs g (vin tx)))"
proof -
  obtain c where c: "bloom_contains f (u256_Serialize (tx_hash tx)) = Some c"
    using contains_total assms(1) unfolding follows_all_def by blast
  obtain c' g where g: "match_outputs f (tx_hash tx) 0 (vout tx) c = Some (c', g)" "c \<longrightarrow> c'"
    "\<forall>j < length (vout tx). script_match f (scriptPubKey (vout tx ! j)) = Some True \<longrightarrow>
       c' \<and> bloom_contains g (OutPoint_Serialize (COutPoint (tx_hash tx) (word_of_nat j))) = Some True"
    using match_outputs_follows [OF assms(1), of "tx_hash tx" 0 "vout tx" c] by auto
  have "isFull f \<or> \<not> isEmpty f" using assms(2) by (auto simp: bloom_contains_def split: if_splits)
  with c g(1) have "IsRelevantAndUpdate f tx =
      (if isFull f then Some (True, f) else if c' then Some (True, g) else map_option (\<lambda>b. (b, g)) (match_inputs g (vin tx)))"
    by (cases c') (auto simp: IsRelevantAndUpdate_def)
  with g show thesis using that by blast
qed

lemma full_contains: "isFull f \<Longrightarrow> bloom_contains f k = Some True"
  by (simp add: bloom_contains_def)

lemma relevant_output:
  assumes "follows_all f" "bloom_contains f k = Some True" "k \<noteq> []" "i < length (vout tx)" "k \<in> set (script_pushes (scriptPubKey (vout tx ! i)))"
  shows "\<exists>g. IsRelevantAndUpdate f tx = Some (True, g) \<and> bloom_contains g (OutPoint_Serialize (COutPoint (tx_hash tx) (word_of_nat i))) = Some True"
proof -
  obtain c c' g where g: "\<forall>j < length (vout tx). script_match f (scriptPubKey (vout tx ! j)) = Some True \<longrightarrow>
       c' \<and> bloom_contains g (OutPoint_Serialize (COutPoint (tx_hash tx) (word_of_nat j))) = Some True"
    "IsRelevantAndUpdate f tx = (if isFull f then Some (True, f) else if c' then Some (True, g) else map_option (\<lambda>b. (b, g)) (match_inputs g (vin tx)))"
    using relevant_total [OF assms(1,2), of tx] by metis
  have "script_match f (scriptPubKey (vout tx ! i)) = Some True"
    using script_match_pushes [of f "scriptPubKey (vout tx ! i)"] assms by (auto simp: follows_all_def)
  then show ?thesis using g assms(4) full_contains by (cases "isFull f") auto
qed

lemma relevant_input:
  assumes "follows_all f" "txin \<in> set (vin tx)" "bloom_contains f (OutPoint_Serialize (prevout txin)) = Some True"
  shows "\<exists>g. IsRelevantAndUpdate f tx = Some (True, g)"
proof -
  obtain c c' g where g: "match_outputs f (tx_hash tx) 0 (vout tx) c = Some (c', g)"
    "IsRelevantAndUpdate f tx = (if isFull f then Some (True, f) else if c' then Some (True, g) else map_option (\<lambda>b. (b, g)) (match_inputs g (vin tx)))"
    using relevant_total [OF assms(1,3), of tx] by metis
  have le: "bloom_le f g" using g(1) by (rule match_outputs_le)
  have "match_inputs g (vin tx) = Some True"
    using match_inputs_finds [of g "vin tx"] follows_all_le [OF le assms(1)] contains_mono [OF le assms(3)] assms(2)
    by (auto simp: follows_all_def)
  then show ?thesis using g(2) by auto
qed

lemma coins_followed:
  assumes "follows_all n" "bloom_contains n k = Some True" "bloom_step\<^sup>*\<^sup>* n g"
    and "k \<noteq> []" "i < length (vout tx)" "k \<in> set (script_pushes (scriptPubKey (vout tx ! i)))"
  shows "\<exists>g'. IsRelevantAndUpdate g tx = Some (True, g') \<and>
    (\<forall>h tx'. bloom_step\<^sup>*\<^sup>* g' h \<longrightarrow> (\<exists>txin \<in> set (vin tx'). prevout txin = COutPoint (tx_hash tx) (word_of_nat i)) \<longrightarrow>
       (\<exists>h'. IsRelevantAndUpdate h tx' = Some (True, h')))"
proof -
  have ng: "bloom_le n g" using assms(3) by (rule steps_le)
  have g: "follows_all g" "bloom_contains g k = Some True"
    using follows_all_le [OF ng assms(1)] contains_mono [OF ng assms(2)] by auto
  obtain g' where g': "IsRelevantAndUpdate g tx = Some (True, g')"
    "bloom_contains g' (OutPoint_Serialize (COutPoint (tx_hash tx) (word_of_nat i))) = Some True"
    using relevant_output [OF g assms(4-6)] by blast
  have "\<exists>h'. IsRelevantAndUpdate h tx' = Some (True, h')"
    if "bloom_step\<^sup>*\<^sup>* g' h" "txin \<in> set (vin tx')" "prevout txin = COutPoint (tx_hash tx) (word_of_nat i)" for h tx' txin
  proof -
    have le: "bloom_le g' h" using that(1) by (rule steps_le)
    then have "follows_all h" using follows_all_le [OF bloom_le_trans [OF IsRelevantAndUpdate_le [OF g'(1)]] g(1)] by blast
    then show ?thesis using relevant_input [OF _ that(2)] contains_mono [OF le g'(2)] that(3) by simp
  qed
  then show ?thesis using g'(1) by blast
qed

subsection \<open>Sending a filter\<close>

lemma READDATA_byte [simp]: "READDATA (Suc 0) (b # r) = Inr (unat b, r)"
  by (simp add: READDATA_def read_bytes_def)

text \<open>A filter that a client made, with bits and hash functions.\<close>

definition client_filter :: "CBloomFilter \<Rightarrow> bool" where
  "client_filter f \<longleftrightarrow> vData f \<noteq> [] \<and> nHashFuncs f \<noteq> 0 \<and> \<not> isFull f \<and> IsWithinSizeConstraints f"

lemma client_filter_new: "8 \<le> bits \<Longrightarrow> 0 < funcs \<Longrightarrow> client_filter (CBloomFilter_new bits funcs tweak flags)"
proof -
  assume "8 \<le> bits" "0 < funcs"
  then have "(0::nat) < min bits (MAX_BLOOM_FILTER_SIZE * 8) div 8" "min bits (MAX_BLOOM_FILTER_SIZE * 8) div 8 \<le> MAX_BLOOM_FILTER_SIZE"
    by (auto simp: MAX_BLOOM_FILTER_SIZE_def min_def)
  moreover have "unat (word_of_nat (min funcs MAX_HASH_FUNCS) :: u32) = min funcs MAX_HASH_FUNCS"
    by (simp add: unat_of_nat take_bit_nat_eq_self MAX_HASH_FUNCS_def min_less_iff_disj)
  moreover have "0 < min funcs MAX_HASH_FUNCS" using \<open>0 < funcs\<close> by (simp add: MAX_HASH_FUNCS_def)
  ultimately show ?thesis
    by (auto simp: client_filter_def CBloomFilter_new_def IsWithinSizeConstraints_def)
qed

lemma client_filter_le: "bloom_le f g \<Longrightarrow> client_filter f \<Longrightarrow> client_filter g"
  by (auto simp: client_filter_def bloom_le_def IsWithinSizeConstraints_def)

lemma client_filter_wf: "client_filter f \<Longrightarrow> bloom_wf f"
  by (simp add: client_filter_def bloom_wf_def)

lemma bloom_roundtrip:
  "IsWithinSizeConstraints f \<Longrightarrow> bloom_Unserialize (bloom_Serialize f @ r) =
    Inr (CBloomFilter_default\<lparr>vData := vData f, nHashFuncs := nHashFuncs f, nTweak := nTweak f, nFlags := nFlags f\<rparr>, r)"
  by (simp add: bloom_Unserialize_def bloom_Serialize_def blob.roundtrip IsWithinSizeConstraints_def MAX_BLOOM_FILTER_SIZE_def MAX_SIZE_def)

lemma UpdateEmptyFull_wf [simp]: "bloom_wf (UpdateEmptyFull f)"
  by (simp add: bloom_wf_def UpdateEmptyFull_def)

text \<open>The flags that the node computes do not lose what the client put in.\<close>

lemma sent_contains:
  assumes "client_filter f" "bloom_contains f k = Some True" "vData g = vData f" "nHashFuncs g = nHashFuncs f" "nTweak g = nTweak f"
  shows "bloom_contains (UpdateEmptyFull g) k = Some True"
proof (cases "isFull (UpdateEmptyFull g)")
  case False
  have f: "contains_loop f [0..<unat (nHashFuncs f)] k = Some True"
    using assms(1,2) by (auto simp: bloom_contains_def client_filter_def split: if_splits)
  have "contains_loop (UpdateEmptyFull g) is k = contains_loop f is k" for "is"
    using assms(3-5) by (induction "is") (simp_all add: bloom_Hash_def UpdateEmptyFull_def split: option.split)
  then have l: "contains_loop (UpdateEmptyFull g) [0..<unat (nHashFuncs g)] k = Some True" using f assms(4) by simp
  have n: "[0..<unat (nHashFuncs f)] = 0 # [1..<unat (nHashFuncs f)]"
    using assms(1) by (simp add: client_filter_def upt_conv_Cons unat_gt_0)
  obtain j where j: "bloom_Hash f 0 k = Some j" using Hash_total [of f 0 k] assms(1) by (auto simp: client_filter_def)
  then have "bit (vData f ! (j div 8)) (j mod 8)" using f by (auto simp: n and_exp_eq_0_iff_not_bit split: if_splits)
  moreover have "vData f ! (j div 8) \<in> set (vData f)" using bloom_Hash_bound [OF j] by simp
  ultimately have "\<not> isEmpty (UpdateEmptyFull g)" using assms(3) by (force simp: UpdateEmptyFull_def list_all_iff)
  then show ?thesis using l False by (simp add: bloom_contains_def UpdateEmptyFull_def)
qed (rule full_contains)

lemma filterload_client:
  assumes "client_filter f" "bloom_contains f k = Some True"
  obtains n where "ProcessFilterMessage True (filterload (bloom_Serialize f)) p = Some (Inr (\<lparr>pfilter = Some n, fRelayTxes = True\<rparr>, 0))"
    "bloom_wf n" "nFlags n = nFlags f" "bloom_contains n k = Some True"
proof -
  let ?g = "CBloomFilter_default\<lparr>vData := vData f, nHashFuncs := nHashFuncs f, nTweak := nTweak f, nFlags := nFlags f\<rparr>"
  have "bloom_Unserialize (bloom_Serialize f) = Inr (?g, [])"
    using bloom_roundtrip [of f "[]"] assms(1) by (simp add: client_filter_def)
  moreover have "IsWithinSizeConstraints ?g" using assms(1) by (simp add: client_filter_def IsWithinSizeConstraints_def)
  moreover have "bloom_contains (UpdateEmptyFull ?g) k = Some True" by (rule sent_contains [OF assms]) simp_all
  moreover have "nFlags (UpdateEmptyFull ?g) = nFlags f" by (simp add: UpdateEmptyFull_def)
  ultimately show thesis using that [of "UpdateEmptyFull ?g"] by simp
qed

text \<open>
  C20: a light client with a filter of the kind \<open>BLOOM_UPDATE_ALL\<close> does not lose its coins. Let the filter be made for at least
  eight bits and at least one hash function. After any data \<open>k\<close> has been put into it, and it has been sent to a node, the node finds every transaction with an output that pushes
  \<open>k\<close>, whatever else client and node add and match before; and after it, again whatever else is added and
  matched, the node finds every transaction that spends that output, without being told about it.
  None of these calls stops. The other kinds do not promise this: a filter of the kind \<open>BLOOM_UPDATE_NONE\<close> follows no output, and one of
  the kind \<open>BLOOM_UPDATE_P2PUBKEY_ONLY\<close> only outputs to keys; without hash functions it fails (\<open>no_functions_lost\<close>).
\<close>

theorem bloom_follows_coins:
  assumes "8 \<le> bits" "0 < funcs" "flags AND BLOOM_UPDATE_MASK = BLOOM_UPDATE_ALL"
    and "bloom_step\<^sup>*\<^sup>* (CBloomFilter_new bits funcs tweak flags) f0" "bloom_insert f0 k = Some f1" "bloom_step\<^sup>*\<^sup>* f1 f"
    and "k \<noteq> []" "i < length (vout tx)" "k \<in> set (script_pushes (scriptPubKey (vout tx ! i)))"
  shows "\<exists>n. ProcessFilterMessage True (filterload (bloom_Serialize f)) p = Some (Inr (\<lparr>pfilter = Some n, fRelayTxes = True\<rparr>, 0)) \<and>
    (\<forall>g. bloom_step\<^sup>*\<^sup>* n g \<longrightarrow> (\<exists>g'. IsRelevantAndUpdate g tx = Some (True, g') \<and>
      (\<forall>h tx'. bloom_step\<^sup>*\<^sup>* g' h \<longrightarrow> (\<exists>txin \<in> set (vin tx'). prevout txin = COutPoint (tx_hash tx) (word_of_nat i)) \<longrightarrow>
         (\<exists>h'. IsRelevantAndUpdate h tx' = Some (True, h')))))"
proof -
  have le: "bloom_le (CBloomFilter_new bits funcs tweak flags) f"
    using steps_le [OF assms(4)] insert_le [OF assms(5)] steps_le [OF assms(6)] by (metis bloom_le_trans)
  have "client_filter f" using client_filter_new [OF assms(1,2)] by (rule client_filter_le [OF le])
  moreover have "bloom_contains f k = Some True" using insert_le [OF assms(5)] contains_mono [OF steps_le [OF assms(6)]] by blast
  ultimately obtain n where n: "ProcessFilterMessage True (filterload (bloom_Serialize f)) p = Some (Inr (\<lparr>pfilter = Some n, fRelayTxes = True\<rparr>, 0))"
    "bloom_wf n" "nFlags n = nFlags f" "bloom_contains n k = Some True" by (rule filterload_client)
  have fo: "follows_all n" using n(2,3) bloom_le_flags [OF le] assms(3) by (simp add: follows_all_def CBloomFilter_new_def)
  have "\<exists>g'. IsRelevantAndUpdate g tx = Some (True, g') \<and>
      (\<forall>h tx'. bloom_step\<^sup>*\<^sup>* g' h \<longrightarrow> (\<exists>txin \<in> set (vin tx'). prevout txin = COutPoint (tx_hash tx) (word_of_nat i)) \<longrightarrow>
         (\<exists>h'. IsRelevantAndUpdate h tx' = Some (True, h')))" if "bloom_step\<^sup>*\<^sup>* n g" for g
    using coins_followed [OF fo n(4) that assms(7-9)] .
  then show ?thesis using n(1) by blast
qed

text \<open>
  Without hash functions the flags do lose it: the client's filter contains everything once something
  has been inserted, the node's takes itself for empty and contains nothing. The constructor computes no hash functions
  when there are fewer than two bits for an element.
\<close>

lemma no_functions_lost:
  assumes "8 \<le> bits" "bloom_insert (CBloomFilter_new bits 0 tweak flags) k = Some f"
  shows "bloom_contains f k = Some True \<and> (\<exists>n. ProcessFilterMessage True (filterload (bloom_Serialize f)) p =
    Some (Inr (\<lparr>pfilter = Some n, fRelayTxes = True\<rparr>, 0)) \<and> bloom_contains n k = Some False)"
proof -
  let ?l = "min bits (MAX_BLOOM_FILTER_SIZE * 8) div 8"
  have f: "f = \<lparr>vData = replicate ?l 0, isFull = False, isEmpty = False, nHashFuncs = 0, nTweak = tweak, nFlags = flags\<rparr>"
    using assms(2) by (auto simp: bloom_insert_def CBloomFilter_new_def)
  have l: "0 < ?l" "?l \<le> MAX_BLOOM_FILTER_SIZE" using assms(1) by (auto simp: MAX_BLOOM_FILTER_SIZE_def min_def)
  then have "IsWithinSizeConstraints f" by (simp add: f IsWithinSizeConstraints_def)
  from bloom_roundtrip [OF this, of "[]"] have u: "bloom_Unserialize (bloom_Serialize f) =
      Inr (\<lparr>vData = replicate ?l 0, isFull = True, isEmpty = False, nHashFuncs = 0, nTweak = tweak, nFlags = flags\<rparr>, [])"
    by (simp add: f CBloomFilter_default_def)
  obtain m where m: "?l = Suc m" using l(1) by (metis gr0_conv_Suc)
  have "bloom_contains f k = Some True" by (simp add: f bloom_contains_def)
  then show ?thesis using u l(2) by (cases p) (simp add: m IsWithinSizeConstraints_def bloom_contains_def UpdateEmptyFull_def list_all_iff)
qed

subsection \<open>What a peer can do to a node\<close>

text \<open>A peer starts with a full filter; its messages and the transactions that are matched change it.\<close>

inductive peer_reach :: "bool \<Rightarrow> filter_peer \<Rightarrow> bool" for bloom where
  init: "peer_reach bloom \<lparr>pfilter = Some CBloomFilter_default, fRelayTxes = relay\<rparr>"
| msg: "peer_reach bloom p \<Longrightarrow> ProcessFilterMessage bloom m p = Some (Inr (p', points)) \<Longrightarrow> peer_reach bloom p'"
| tx: "peer_reach bloom p \<Longrightarrow> pfilter p = Some f \<Longrightarrow> IsRelevantAndUpdate f t = Some (b, g) \<Longrightarrow> peer_reach bloom (p\<lparr>pfilter := Some g\<rparr>)"

definition peer_inv :: "filter_peer \<Rightarrow> bool" where
  "peer_inv p \<longleftrightarrow> (case pfilter p of None \<Rightarrow> True | Some f \<Rightarrow> bloom_wf f \<and> IsWithinSizeConstraints f)"

lemma within_le: "bloom_le f g \<Longrightarrow> IsWithinSizeConstraints g = IsWithinSizeConstraints f"
  by (simp add: bloom_le_def IsWithinSizeConstraints_def)

lemma peer_inv_le: "peer_inv p \<Longrightarrow> pfilter p = Some f \<Longrightarrow> bloom_le f g \<Longrightarrow> peer_inv (p\<lparr>pfilter := Some g\<rparr>)"
  by (auto simp: peer_inv_def within_le intro: bloom_le_wf)

lemma peer_inv_load: "IsWithinSizeConstraints f \<Longrightarrow> peer_inv (p\<lparr>pfilter := Some (UpdateEmptyFull f), fRelayTxes := r\<rparr>)"
  by (simp add: peer_inv_def IsWithinSizeConstraints_def UpdateEmptyFull_def bloom_wf_def)

lemma peer_inv_relay [simp]: "peer_inv (p\<lparr>fRelayTxes := r\<rparr>) = peer_inv p"
  by (simp add: peer_inv_def)

lemma peer_inv_default [simp]: "pfilter p = Some CBloomFilter_default \<Longrightarrow> peer_inv p"
  by (simp add: peer_inv_def bloom_wf_def CBloomFilter_default_def IsWithinSizeConstraints_def)

lemma peer_inv_msg: "peer_inv p \<Longrightarrow> ProcessFilterMessage bloom m p = Some (Inr (p', points)) \<Longrightarrow> peer_inv p'"
  by (induction bloom m p rule: ProcessFilterMessage.induct)
    (auto split: sum.splits prod.splits if_splits option.splits intro: peer_inv_load peer_inv_le dest: insert_le)

lemma peer_reach_inv: "peer_reach bloom p \<Longrightarrow> peer_inv p"
  by (induction rule: peer_reach.induct) (auto intro: peer_inv_msg peer_inv_le dest: IsRelevantAndUpdate_le)

text \<open>
  C23: no peer stops a node with a filter. Whatever messages a peer has sent and whatever transactions have
  been matched, its filter stays within the limits, every further message, whatever its bytes,
  is answered, and every lookup in the filter has an answer: no remainder is ever computed by the size of a filter
  without bits.
\<close>

theorem filter_messages_answered:
  assumes "peer_reach bloom p"
  shows "ProcessFilterMessage bloom m p \<noteq> None \<and>
    (\<forall>f. pfilter p = Some f \<longrightarrow> IsWithinSizeConstraints f \<and> (\<forall>k. bloom_contains f k \<noteq> None))"
proof -
  have inv: "peer_inv p" using assms by (rule peer_reach_inv)
  then have f: "IsWithinSizeConstraints f \<and> bloom_wf f" if "pfilter p = Some f" for f using that by (simp add: peer_inv_def)
  have i: "bloom_insert f d \<noteq> None" if "pfilter p = Some f" for f d using insert_total [of f d] f [OF that] by auto
  have "ProcessFilterMessage bloom m p \<noteq> None"
    by (cases "(bloom, m, p)" rule: ProcessFilterMessage.cases) (use i in \<open>auto split: sum.split prod.split option.split\<close>)
  then show ?thesis using f contains_total by fastforce
qed

theorem filter_messages_answered_witness:
  "ProcessFilterMessage True (filteradd [3, 1, 2, 3]) \<lparr>pfilter = Some CBloomFilter_default, fRelayTxes = True\<rparr> \<noteq> None"
  using filter_messages_answered [OF peer_reach.init, of True "filteradd [3, 1, 2, 3]" True] by blast

subsection \<open>A filtered block\<close>

lemma filter_block_length: "filter_block f txs = Some (bs, g) \<Longrightarrow> length bs = length txs"
  by (induction f txs arbitrary: bs g rule: filter_block.induct) (auto split: option.splits)

lemma zip_enumerate:
  "length bs = length hs \<Longrightarrow> map snd (filter (\<lambda>(i, h). bs ! (i - m)) (enumerate m hs)) = map fst (filter snd (zip hs bs))"
proof (induction hs arbitrary: bs m)
  case (Cons h hs)
  then obtain b bs' where b: "bs = b # bs'" "length bs' = length hs" by (cases bs) auto
  have "filter (\<lambda>(i, h). bs ! (i - m)) (enumerate (Suc m) hs) = filter (\<lambda>(i, h). bs' ! (i - Suc m)) (enumerate (Suc m) hs)"
    by (rule filter_cong) (auto simp: b in_set_enumerate_eq nth_Cons' diff_Suc)
  then show ?case using Cons.IH [OF b(2), of "Suc m"] by (cases b) (simp_all add: b(1))
qed simp

text \<open>
  C22: what a light client gets of a block. From the filtered block that a node makes, written and read
  back, \<open>ExtractMatches\<close> gives the Merkle root of the block's transactions and, in order, exactly the ids of those that the
  node matched, which are the ones it sends along.
\<close>

theorem merkle_block_roundtrip:
  assumes "CMerkleBlock_of Hash block f = Some (m, f')" "header_wf (header block)"
    and "vtx block \<noteq> []" "length (vtx block) \<le> MAX_BLOCK_SIZE_CURRENT div 60"
  shows "\<exists>t. MerkleBlock_Unserialize (MerkleBlock_Serialize m @ rest) = Inr (\<lparr>mb_header = header block, mb_txn = t, vMatchedTxn = []\<rparr>, rest) \<and>
    ExtractMatches Hash t = (fst (snd (BuildMerkleTree Hash (map tx_hash (vtx block)))), map snd (vMatchedTxn m)) \<and>
    (\<exists>vMatch. filter_block f (vtx block) = Some (vMatch, f') \<and> map snd (vMatchedTxn m) = map (tx_hash \<circ> fst) (filter snd (zip (vtx block) vMatch)))"
proof -
  obtain bs where bs: "filter_block f (vtx block) = Some (bs, f')"
    and m: "m = \<lparr>mb_header = header block, mb_txn = CPartialMerkleTree_of Hash (map tx_hash (vtx block)) bs,
      vMatchedTxn = filter (\<lambda>(i, h). bs ! i) (enumerate 0 (map tx_hash (vtx block)))\<rparr>"
    using assms(1) by (auto simp: CMerkleBlock_of_def Let_def split: option.splits)
  have l: "length bs = length (map tx_hash (vtx block))" using filter_block_length [OF bs] by simp
  have v: "map snd (vMatchedTxn m) = map fst (filter snd (zip (map tx_hash (vtx block)) bs))"
    using zip_enumerate [OF l, of 0] by (simp add: m)
  have "map fst (filter snd (zip (map tx_hash (vtx block)) bs)) = map (tx_hash \<circ> fst) (filter snd (zip (vtx block) bs))"
    by (simp add: zip_map1 filter_map comp_def case_prod_unfold)
  moreover obtain t where "pmt_Unserialize (pmt_Serialize (CPartialMerkleTree_of Hash (map tx_hash (vtx block)) bs) @ rest) = Inr (t, rest)"
    "ExtractMatches Hash t = (fst (snd (BuildMerkleTree Hash (map tx_hash (vtx block)))), map fst (filter snd (zip (map tx_hash (vtx block)) bs)))"
    using partial_merkle_complete [of "map tx_hash (vtx block)" bs Hash rest] l assms(3,4) by auto
  ultimately show ?thesis
    using bs assms(2) unfolding v by (auto simp: m MerkleBlock_Unserialize_def MerkleBlock_Serialize_def header_roundtrip)
qed

definition witness_tx :: "uint256 \<Rightarrow> CTxIn list \<Rightarrow> CScript \<Rightarrow> CTransaction" where
  "witness_tx hash ins script = \<lparr>tx_hash = hash, tx_nVersion = 1, vin = ins, vout = [\<lparr>nValue = 0, scriptPubKey = script, nRounds = 0\<rparr>], nLockTime = 0\<rparr>"

theorem merkle_block_roundtrip_witness:
  "\<exists>m t. CMerkleBlock_of (\<lambda>_. 7) (block_SetNull\<lparr>vtx := [witness_tx 3 [] [], witness_tx 4 [] []]\<rparr>) CBloomFilter_default = Some (m, CBloomFilter_default) \<and>
    MerkleBlock_Unserialize (MerkleBlock_Serialize m) = Inr (\<lparr>mb_header = header_SetNull, mb_txn = t, vMatchedTxn = []\<rparr>, []) \<and>
    ExtractMatches (\<lambda>_. 7) t = (7, [3, 4])"
proof -
  let ?b = "block_SetNull\<lparr>vtx := [witness_tx 3 [] [], witness_tx 4 [] []]\<rparr>"
  have fb: "filter_block CBloomFilter_default (vtx ?b) = Some ([True, True], CBloomFilter_default)"
    by (simp add: IsRelevantAndUpdate_def CBloomFilter_default_def)
  then obtain m where m: "CMerkleBlock_of (\<lambda>_. 7) ?b CBloomFilter_default = Some (m, CBloomFilter_default)"
    "map snd (vMatchedTxn m) = [3, 4]"
    by (auto simp: CMerkleBlock_of_def Let_def witness_tx_def)
  have r: "fst (snd (BuildMerkleTree (\<lambda>_. 7) (map tx_hash (vtx ?b)))) = 7"
    by (simp add: BuildMerkleTree_eq merkle_root_step Hash2_def)
  have h: "header ?b = header_SetNull" "header_wf (header ?b)"
    by (simp_all add: block_SetNull_def header_wf_def header_SetNull_def in_s_def)
  show ?thesis
    using merkle_block_roundtrip [OF m(1) h(2), of "[]"] m r h(1) by (auto simp: MAX_BLOCK_SIZE_CURRENT_def)
qed

text \<open>A filter of one byte with one hash function, and a transaction whose output pushes the byte 1.\<close>

theorem bloom_follows_coins_witness:
  "\<exists>f n. bloom_insert (CBloomFilter_new 8 1 0 1) [1] = Some f \<and>
    ProcessFilterMessage True (filterload (bloom_Serialize f)) \<lparr>pfilter = None, fRelayTxes = False\<rparr> = Some (Inr (\<lparr>pfilter = Some n, fRelayTxes = True\<rparr>, 0)) \<and>
    (\<exists>g. IsRelevantAndUpdate n (witness_tx 3 [] [1, 1]) = Some (True, g) \<and>
      (\<exists>h. IsRelevantAndUpdate g (witness_tx 4 [\<lparr>prevout = COutPoint 3 0, scriptSig = [], nSequence = 0, prevPubKey = []\<rparr>] []) = Some (True, h)))"
proof -
  obtain f where f: "bloom_insert (CBloomFilter_new 8 1 0 1) [1] = Some f"
    using insert_total [OF client_filter_wf [OF client_filter_new], of 8 1 0 1 "[1]"] by auto
  have p: "[1] \<in> set (script_pushes [1, 1])"
    by (simp add: script_pushes.simps GetOp2_def get_size_def)
  obtain n where n: "ProcessFilterMessage True (filterload (bloom_Serialize f)) \<lparr>pfilter = None, fRelayTxes = False\<rparr> = Some (Inr (\<lparr>pfilter = Some n, fRelayTxes = True\<rparr>, 0))"
    "\<exists>g. IsRelevantAndUpdate n (witness_tx 3 [] [1, 1]) = Some (True, g) \<and>
      (\<forall>h tx'. bloom_step\<^sup>*\<^sup>* g h \<longrightarrow> (\<exists>txin \<in> set (vin tx'). prevout txin = COutPoint 3 0) \<longrightarrow> (\<exists>h'. IsRelevantAndUpdate h tx' = Some (True, h')))"
    using bloom_follows_coins [OF _ _ _ rtranclp.rtrancl_refl f rtranclp.rtrancl_refl, of 0 "witness_tx 3 [] [1, 1]" "\<lparr>pfilter = None, fRelayTxes = False\<rparr>"] p
    by (auto simp: witness_tx_def BLOOM_UPDATE_MASK_def BLOOM_UPDATE_ALL_def)
  then obtain g where g: "IsRelevantAndUpdate n (witness_tx 3 [] [1, 1]) = Some (True, g)"
    "\<exists>h. IsRelevantAndUpdate g (witness_tx 4 [\<lparr>prevout = COutPoint 3 0, scriptSig = [], nSequence = 0, prevPubKey = []\<rparr>] []) = Some (True, h)"
    by (force simp: witness_tx_def)
  then show ?thesis using f n(1) by blast
qed

end
