(* ===== verification/Spec2Isabelle.thy ===== *)
theory Spec2Isabelle
  imports Streams Supply HashUses Bloom
begin

text \<open>
  A verification library of the consensus core of the Transcendence wallet and node: the code that
  decides which scripts, transactions and blocks are valid and what they do to the coins and to the
  block index. File names below are relative to \<open>src/src/\<close>.

  \<^bold>\<open>The program.\<close> Blocks and transactions arrive as bytes. The serialization templates turn them into
  \<open>CBlock\<close> and \<open>CTransaction\<close>. \<open>CheckTransaction\<close> and \<open>CheckBlock\<close> look at them alone;
  \<open>AddToBlockIndex\<close> gives a header its place in the tree of block headers; \<open>ConnectBlock\<close> applies a
  block to a cache over the unspent outputs, after \<open>CheckInputs\<close> has compared the values and run the
  scripts of every input in the script interpreter, and writes undo data with which
  \<open>DisconnectBlock\<close> takes the block back in a reorganisation. The cache is flushed into its parent and
  in the end into the coin database, which keeps the coins in a compressed form.

  \<^bold>\<open>Theories, from the bottom up.\<close>
  \<^item> Prelude: machine words by their C names, wrapping signed arithmetic (\<open>wrap_s\<close>), little-endian
    bytes, and \<open>bindE\<close>, the sequencing of computations that may throw or return early.
  \<^item> Serialize (serialize.h) and Streams (streams.h): the byte formats and the stream object. The
    stream with its read position implements a queue of bytes (\<open>stream_read_refines\<close>).
  \<^item> Base\_Uint (uint256.h, uint256.cpp): the limb arithmetic, which implements arithmetic modulo
    \<open>2 ^ 256\<close> (\<open>bu256_arith\<close>), and the compact form of difficulty targets.
  \<^item> Amount, Params (amount.*, chainparams.cpp, main.cpp): fee rates; parameters of the networks, subsidy.
  \<^item> Script, Interpreter, Sighash, Standard (script/): scripts, the stack machine with every
    operation, what a signature signs, and the standard forms. The machine never trips one of its own
    assertions, keeps its limits, is monotone in the verification flags (the soft-fork property), and
    runs a pay-to-public-key-hash exactly as documented; a signature commits to the parts of the
    transaction that its hash type names.
  \<^item> Transaction, Pubkey, Block (primitives/, pubkey.*, hash.h): transactions, keys as byte containers,
    headers, blocks, Merkle trees and branches, block signatures. Round trips of the codecs, and the
    soundness of Merkle roots and branches up to a collision of the hash.
  \<^item> Compressor, Coins, CoinsView (compressor.*, coins.*, undo.h, txdb.cpp): the database forms of
    amounts, scripts, coins and undo data, and the views. The abstraction of a view is the map of its
    unpruned coins (\<open>utxo\<close>); every operation on a cache is a step on that map, the assertions of the
    code never fail in a reachable cache, and \<open>Flush\<close> moves the map into the parent. The database at the bottom holds the bytes
    of the records, from which it is read; they keep everything of the coins but the sign of a transaction version.
  \<^item> TxCheck, Connect, Inputs (main.cpp, main.h, script/sigcache.cpp): checks of a transaction, applying
    and disconnecting a block's transactions (\<open>DisconnectBlock\<close> undoes them), and \<open>CheckInputs\<close>,
    whose script checks ask the signature cache first; no content that the cache can have changes the verdict.
  \<^item> Chain, ActiveChain, Pow (chain.*, pow.cpp, main.cpp): the block index as a store from addresses to
    entries, the skip list, \<open>CChain\<close>, locators, fork points, median times, and the next difficulty.
    The tree of headers is a well-founded tree of growing work in every reachable index.
  \<^item> BlockCheck, ConnectBlock, Supply (main.cpp, spork.cpp, masternode-payments.cpp,
    masternode-budget.cpp): \<open>CheckBlock\<close>, the value and payee rules, \<open>ConnectBlock\<close>; and that a
    connected block whose mint is compared with the subsidy adds at most the subsidy and its zerocoin spends to the total of the
    unspent outputs.
  \<^item> Hashes, Digests (crypto/sha*.cpp, crypto/ripemd160.cpp) and HashUses (hash.h, hash.cpp, crypto/hmac\_*.cpp,
    crypto/rfc6979\_hmac\_sha256.cpp): the streaming hash objects under one contract (the locale
    \<open>hash_class\<close>), proved equal to the published functions of the whole message, and what is built from
    the contract: the double hash, HMAC, hash writers. The other theories take their hash functions as
    parameters, so that their theorems do not depend on which function it is.
  \<^item> PartialMerkle, Bloom (merkleblock.*, bloom.*, main.cpp): what a node does for light clients. A partial
    tree that was built, sent and read gives the root and the chosen transactions, and no tree with the right
    number of transactions can give others; a filter never misses what was put into it and follows the
    coins it has found; no message of a peer makes the node compute with a filter without bits.

  \<^bold>\<open>How code becomes definitions.\<close> Structs and classes are records with the source's field names
  (prefixed where two records share one); enums and failures are datatypes; fixed-width unsigned
  integers are words; signed integers are \<open>int\<close> with the wrap-around of the amounts written out by \<open>wrap_s\<close>; a height
  of the block index or a step of the locator that would overflow its \<open>int\<close> stops the operation, as \<open>None\<close>. An
  exception, a failed assertion, a read outside of a vector and a return through \<open>CValidationState\<close>
  are values of a sum type. A pointer into the block index is an address in a finite store; a coins
  view threads its caches as state, since even a lookup fetches coins. Globals that a function reads
  are fields of a record it takes.

  \<^bold>\<open>Bounds and fuel.\<close> Loops are structural recursion or \<open>function\<close> with a measure wherever the code's
  loop ends for a reason that is local to it. Of the loops that follow pointers of the block index,
  \<open>ancestor_loop\<close> recurses on the height and \<open>gravity_loop\<close> on its counter; \<open>tip_loop\<close>, \<open>set_tip_loop\<close>,
  \<open>fork_loop\<close> and \<open>locator_loop\<close> are \<open>partial_function (option)\<close>, so that not ending is \<open>None\<close>, and the
  theorems show that they return in every reachable index (the locator up to height \<open>2 ^ 30 + 9\<close>, where its step overflows).

  \<^bold>\<open>Parameters.\<close> Code that is not modelled is an argument of the definitions that use it: the hash
  functions and the signature library, what the shared signature cache holds at a lookup, the floating point halving reward, the
  accumulators of zerocoin, the contents of the masternode votes and budgets, and disk writes, which
  either happen or fail. The laws used of them are premises of the theorems, and the witnesses satisfy
  them with concrete functions.

  \<^bold>\<open>Not modelled.\<close> libsecp256k1, LevelDB, UniValue and the third-party C hashes (crypto/*.c) are
  vendored libraries; the zerocoin cryptography rests on OpenSSL big numbers; the Qt interface and the
  RPC commands are presentation of the operations above; networking is sockets and threads; the wallet,
  the masternode and obfuscation protocols exchange messages among peers around this core; ZMQ is glue.
  Of validation, accepting a block and choosing the best chain, the memory pool and the processing of
  messages other than those that set filters are left out, as is what \<open>ConnectBlock\<close> leaves in its own cache when it fails, since its
  caller throws that cache away.
\<close>

end
